(* ===== verification/Prelude.thy ===== *)
theory Prelude
  imports Main "HOL-Library.Word"
begin

text \<open>
  Shared ground of the development: the fixed-width types of the C++ sources, the ways an
  operation can fail (a failed assertion, an access the language does not define, a call of
  \<open>exit\<close>) with the sequencing of operations that can, and the arithmetic of indices that
  wrap around a buffer whose size is a power of two.
\<close>

unbundle bit_operations_syntax

subsection \<open>Types\<close>

type_synonym u8 = "8 word"
type_synonym u16 = "16 word"
type_synonym u32 = "32 word"
type_synonym u64 = "64 word"
type_synonym size_t = "64 word"
type_synonym i64 = "64 word" \<comment> \<open>read as two's complement with \<open>sint\<close>\<close>

text \<open>C's truth values: any number but zero is true.\<close>

abbreviation (input) truth :: "'a::len word \<Rightarrow> bool" where
  "truth w \<equiv> w \<noteq> 0"

subsection \<open>Faults, and operations that can fail\<close>

datatype fault =
    AssertFailed        \<comment> \<open>an \<open>assert\<close> of the source does not hold\<close>
  | UninitRead          \<comment> \<open>a cell is read in which no object lives\<close>
  | OutOfBounds         \<comment> \<open>an array is accessed outside its bounds\<close>
  | WildPointer         \<comment> \<open>a pointer is followed that points to no object\<close>
  | BadShift            \<comment> \<open>a shift by the width of the type or more\<close>
  | DivByZero
  | BadAlloc            \<comment> \<open>\<open>std::bad_alloc\<close> is thrown\<close>
  | OutOfFuel           \<comment> \<open>a loop of the model was cut off before its end\<close>
  | Blocked             \<comment> \<open>a call of the operating system never returns\<close>
  | Exit string         \<comment> \<open>the macro \<open>fail\<close>: print a message, \<open>exit (-1)\<close>\<close>

type_synonym 'a res = "fault + 'a"

definition bindE :: "'a res \<Rightarrow> ('a \<Rightarrow> 'b res) \<Rightarrow> 'b res" where
  "bindE r f = (case r of Inl e \<Rightarrow> Inl e | Inr x \<Rightarrow> f x)"

definition assertE :: "bool \<Rightarrow> unit res" where
  "assertE P = (if P then Inr () else Inl AssertFailed)"

lemma bindE_simps [simp]:
  "bindE (Inl e) f = Inl e"
  "bindE (Inr x) f = f x"
  by (simp_all add: bindE_def)

lemma assertE_simps [simp]:
  "P \<Longrightarrow> assertE P = Inr ()"
  "\<not> P \<Longrightarrow> assertE P = Inl AssertFailed"
  by (simp_all add: assertE_def)

lemma bindE_eq_Inr: "bindE r f = Inr y \<longleftrightarrow> (\<exists>x. r = Inr x \<and> f x = Inr y)"
  by (cases r) simp_all

lemma bindE_eq_Inl: "bindE r f = Inl e \<longleftrightarrow> r = Inl e \<or> (\<exists>x. r = Inr x \<and> f x = Inl e)"
  by (cases r) simp_all

subsection \<open>Lists updated by index\<close>

lemma map_nth_update_notin [simp]:
  "a \<notin> set us \<Longrightarrow> map (\<lambda>x. f (h[a := b] ! x)) us = map (\<lambda>x. f (h ! x)) us"
  by (rule map_cong [OF refl]) (metis nth_list_update_neq)

subsection \<open>Masks and indices that wrap around\<close>

named_theorems ring_arith \<open>indices modulo a power of two, read as natural numbers\<close>

lemma unat_and_mask: "unat (w AND mask n :: 'a::len word) = unat w mod 2 ^ n"
  by (metis take_bit_eq_mask take_bit_eq_mod unsigned_take_bit_eq)

lemma unat_mask_64: "n < 64 \<Longrightarrow> unat (mask n :: size_t) = 2 ^ n - 1"
proof -
  assume "n < 64"
  then have "(2::nat) ^ n < 2 ^ 64" by (intro power_strict_increasing) simp_all
  then have "mask n mod 2 ^ 64 = (mask n :: nat)"
    by (intro mod_less) (simp add: mask_eq_exp_minus_1)
  then have "unat (of_nat (mask n) :: size_t) = mask n"
    by (simp only: unat_of_nat) simp
  then have "unat (mask n :: size_t) = mask n" by (simp only: of_nat_mask_eq)
  also have "\<dots> = 2 ^ n - 1" by (simp add: mask_eq_exp_minus_1)
  finally show ?thesis .
qed

lemma unat_pow2_64: "n < 64 \<Longrightarrow> unat (2 ^ n :: size_t) = 2 ^ n"
proof -
  assume "n < 64"
  then have "(2::nat) ^ n < 2 ^ 64" by (intro power_strict_increasing) simp_all
  then have "unat (of_nat (2 ^ n) :: size_t) = 2 ^ n" by (simp only: unat_of_nat) simp
  then show ?thesis by simp
qed

lemma unat_succ_and_mask:
  assumes "n < 64" "unat (i :: size_t) < 2 ^ n"
  shows "unat ((i + 1) AND mask n) = (unat i + 1) mod 2 ^ n"
proof -
  have "(2::nat) ^ n < 2 ^ 64" using assms(1) by (rule power_strict_increasing) simp
  with assms(2) have "unat i + 1 < 2 ^ 64" by linarith
  then have "unat (i + 1) = unat i + 1"
    by (simp add: unat_word_ariths)
  then show ?thesis by (simp add: unat_and_mask)
qed

text \<open>
  The distance from index \<open>a\<close> forward to index \<open>b\<close>, as \<open>size_approx\<close> computes it. The
  collection \<open>ring_arith\<close> turns distances and successors into case distinctions over
  natural numbers, which linear arithmetic then decides.
\<close>

definition rdist :: "size_t \<Rightarrow> size_t \<Rightarrow> size_t \<Rightarrow> nat" where
  "rdist m a b = unat ((b - a) AND m)"

lemma rdist_if [ring_arith]:
  assumes n: "n < 64" and a: "unat a < 2 ^ n" and b: "unat b < 2 ^ n"
  shows "rdist (mask n) a b =
    (if unat a \<le> unat b then unat b - unat a else unat b + 2 ^ n - unat a)"
proof (cases "unat a \<le> unat b")
  case True
  then have "unat (b - a) = unat b - unat a"
    by (simp add: unat_sub word_le_nat_alt)
  with True b show ?thesis by (simp add: rdist_def unat_and_mask)
next
  case False
  have "(2::nat) ^ n dvd 2 ^ 64" using n by (intro le_imp_power_dvd) simp
  then obtain k where k: "(2::nat) ^ 64 = 2 ^ n * k" ..
  have "(0::nat) < 2 ^ n * k" by (simp flip: k)
  then have "0 < k" by simp
  have "unat a < 2 ^ LENGTH(64)" by (rule unsigned_less)
  then have "unat (b - a) = 2 ^ 64 - unat a + unat b"
    using False unat_sub_if' [of b a] by (simp add: word_le_nat_alt)
  also have "\<dots> = (unat b + 2 ^ n - unat a) + 2 ^ n * (k - 1)"
    unfolding k using \<open>0 < k\<close> a by (cases k) (auto simp: algebra_simps)
  finally have "unat (b - a) mod 2 ^ n = (unat b + 2 ^ n - unat a) mod 2 ^ n"
    by simp
  with False a show ?thesis by (simp add: rdist_def unat_and_mask)
qed

lemma unat_succ_if [ring_arith]:
  assumes "n < 64" "unat (i :: size_t) < 2 ^ n"
  shows "unat ((i + 1) AND mask n) = (if unat i + 1 = 2 ^ n then 0 else unat i + 1)"
  using assms by (simp add: unat_succ_and_mask)

lemma add_mod_if [ring_arith]:
  "(a::nat) < m \<Longrightarrow> d < m \<Longrightarrow> (a + d) mod m = (if a + d < m then a + d else a + d - m)"
  by (auto simp: mod_if)

lemma unat_succ_less: "n < 64 \<Longrightarrow> unat (i :: size_t) < 2 ^ n \<Longrightarrow> unat ((i + 1) AND mask n) < 2 ^ n"
  by (simp add: unat_succ_and_mask)

lemma rdist_less: "n < 64 \<Longrightarrow> rdist (mask n) a b < 2 ^ n"
  by (simp add: rdist_def unat_and_mask)

lemma rdist_self [simp]: "rdist m a a = 0"
  by (simp add: rdist_def)

lemma rdist_eq_0:
  assumes "n < 64" "unat a < 2 ^ n" "unat b < 2 ^ n"
  shows "rdist (mask n) a b = 0 \<longleftrightarrow> a = b"
  using assms by (auto simp: ring_arith word_unat_eq_iff)

end
