(* ===== verification/Rw_Queue.thy ===== *)
theory Rw_Queue
  imports Prelude
begin

text \<open>
  The queue between the network thread and the simulation thread:
  \<open>mc::ReaderWriterQueue<T, 512>\<close> of \<open>src/verilator_utils/readerwriterqueue.h\<close>. A block is a
  circular buffer with one cell to spare; the blocks form a circular list, which the consumer
  enters at \<open>frontBlock\<close> and the producer at \<open>tailBlock\<close>. Blocks are never freed while the queue
  lives, so the heap is a list that only grows and the address of a block is its index. A cell
  is \<open>None\<close> while no object lives in it: reading such a cell is a fault of the model, as is a
  failed \<open>assert\<close>. This theory holds the sequential meaning of every operation, the invariant of
  the structure, and the theorem that it is a first-in first-out queue.

  The flags \<open>enqueuing\<close> and \<open>dequeuing\<close> of a debug build are set on entry to an operation and
  reset on its return, so a sequential caller always finds them clear; they are left out. The
  memory fences have no effect on a sequential run.
\<close>

subsection \<open>Blocks and the heap\<close>

definition MAX_BLOCK_SIZE :: size_t where
  "MAX_BLOCK_SIZE = 512"

record 'a block =
  front :: size_t
  localTail :: size_t
  tail :: size_t
  localFront :: size_t
  next_blk :: "nat option"      \<comment> \<open>\<open>None\<close> is \<open>nullptr\<close>\<close>
  cells :: "'a option list"     \<comment> \<open>the memory behind \<open>data\<close>\<close>
  sizeMask :: size_t

record 'a rwq =
  heap :: "'a block list"
  frontBlock :: nat
  tailBlock :: nat
  largestBlockSize :: size_t

definition new_block :: "size_t \<Rightarrow> 'a block" where
  "new_block capacity =
     \<lparr>front = 0, localTail = 0, tail = 0, localFront = 0, next_blk = None,
      cells = replicate (unat capacity) None, sizeMask = capacity - 1\<rparr>"

definition make_block :: "bool \<Rightarrow> size_t \<Rightarrow> 'a block option" where
  "make_block mem capacity = (if mem then Some (new_block capacity) else None)"

definition deref :: "'a rwq \<Rightarrow> nat \<Rightarrow> 'a block res" where
  "deref q a = (if a < length (heap q) then Inr (heap q ! a) else Inl WildPointer)"

definition follow :: "nat option \<Rightarrow> nat res" where
  "follow p = (case p of None \<Rightarrow> Inl WildPointer | Some a \<Rightarrow> Inr a)"

definition store :: "'a rwq \<Rightarrow> nat \<Rightarrow> 'a block \<Rightarrow> 'a rwq" where
  "store q a b = q\<lparr>heap := (heap q)[a := b]\<rparr>"

text \<open>Placement new in a cell; a move out of a cell followed by the destructor call.\<close>

definition construct :: "'a block \<Rightarrow> size_t \<Rightarrow> 'a \<Rightarrow> 'a block res" where
  "construct b i x =
     (if unat i < length (cells b) then Inr (b\<lparr>cells := (cells b)[unat i := Some x]\<rparr>)
      else Inl OutOfBounds)"

definition read_cell :: "'a block \<Rightarrow> size_t \<Rightarrow> 'a res" where
  "read_cell b i =
     (if unat i < length (cells b)
      then (case cells b ! unat i of None \<Rightarrow> Inl UninitRead | Some x \<Rightarrow> Inr x)
      else Inl OutOfBounds)"

definition destroy :: "'a block \<Rightarrow> size_t \<Rightarrow> 'a block" where
  "destroy b i = b\<lparr>cells := (cells b)[unat i := None]\<rparr>"

subsection \<open>Enqueueing\<close>

datatype alloc_mode = CanAlloc | CannotAlloc

text \<open>
  The argument \<open>mem\<close> of the operations that may allocate is the answer of \<open>malloc\<close>: whether it
  returns memory, were it called.
\<close>

text \<open>\<open>tailBlock\<close> is full, but there is a free block ahead: use it.\<close>

definition enqueue_next :: "'a \<Rightarrow> 'a rwq \<Rightarrow> 'a block \<Rightarrow> (bool \<times> 'a rwq) res" where
  "enqueue_next element q b =
     bindE (follow (next_blk b)) (\<lambda>tailBlockNext.
     bindE (deref q tailBlockNext) (\<lambda>nb0.
       let nb = nb0\<lparr>localFront := front nb0\<rparr>;
           nextBlockFront = localFront nb;
           nextBlockTail = tail nb
       in bindE (assertE (nextBlockFront = nextBlockTail)) (\<lambda>_.
          bindE (construct (nb\<lparr>localFront := nextBlockFront\<rparr>) nextBlockTail element) (\<lambda>nb.
            Inr (True,
              (store q tailBlockNext (nb\<lparr>tail := (nextBlockTail + 1) AND sizeMask nb\<rparr>))
                \<lparr>tailBlock := tailBlockNext\<rparr>)))))"

text \<open>\<open>tailBlock\<close> is full and there is no free block ahead: create a new block.\<close>

definition enqueue_new :: "bool \<Rightarrow> 'a \<Rightarrow> 'a rwq \<Rightarrow> 'a block \<Rightarrow> (bool \<times> 'a rwq) res" where
  "enqueue_new mem element q b =
     (let newBlockSize = (if MAX_BLOCK_SIZE \<le> largestBlockSize q then largestBlockSize q
                          else largestBlockSize q * 2)
      in case make_block mem newBlockSize of
           None \<Rightarrow> Inr (False, q)
         | Some newBlock \<Rightarrow>
             let q = q\<lparr>largestBlockSize := newBlockSize\<rparr>
             in bindE (construct newBlock 0 element) (\<lambda>nb.
                bindE (assertE (front nb = 0)) (\<lambda>_.
                  let nb = nb\<lparr>tail := 1, localTail := 1, next_blk := next_blk b\<rparr>;
                      a = length (heap q)
                  in Inr (True,
                       q\<lparr>heap := (heap q)[tailBlock q := b\<lparr>next_blk := Some a\<rparr>] @ [nb],
                         tailBlock := a\<rparr>))))"

definition inner_enqueue ::
  "alloc_mode \<Rightarrow> bool \<Rightarrow> 'a \<Rightarrow> 'a rwq \<Rightarrow> (bool \<times> 'a rwq) res" where
  "inner_enqueue canAlloc mem element q =
     bindE (deref q (tailBlock q)) (\<lambda>b0.
       let blockFront = localFront b0;
           blockTail = tail b0;
           nextBlockTail = (blockTail + 1) AND sizeMask b0;
           b = (if nextBlockTail \<noteq> blockFront then b0 else b0\<lparr>localFront := front b0\<rparr>)
       in if nextBlockTail \<noteq> blockFront \<or> nextBlockTail \<noteq> localFront b then
            bindE (construct b blockTail element) (\<lambda>b.
              Inr (True, store q (tailBlock q) (b\<lparr>tail := nextBlockTail\<rparr>)))
          else
            let q = store q (tailBlock q) b
            in if next_blk b \<noteq> Some (frontBlock q) then enqueue_next element q b
               else (case canAlloc of
                       CanAlloc \<Rightarrow> enqueue_new mem element q b
                     | CannotAlloc \<Rightarrow> Inr (False, q)))"

definition try_enqueue :: "'a \<Rightarrow> 'a rwq \<Rightarrow> (bool \<times> 'a rwq) res" where
  "try_enqueue element q = inner_enqueue CannotAlloc False element q"

definition enqueue :: "bool \<Rightarrow> 'a \<Rightarrow> 'a rwq \<Rightarrow> (bool \<times> 'a rwq) res" where
  "enqueue mem element q = inner_enqueue CanAlloc mem element q"

subsection \<open>Dequeueing\<close>

text \<open>
  \<open>try_dequeue\<close>, \<open>peek\<close> and \<open>pop\<close> find the block of the front element in the same way. The
  label \<open>non_empty_front_block\<close> and the code that follows it are the argument \<open>here\<close>, the code
  after the advance to the next block is \<open>ahead\<close>, and the value returned on an empty queue is
  \<open>none\<close>.
\<close>

definition find_front ::
  "'a rwq \<Rightarrow> ('a rwq \<Rightarrow> 'a block \<Rightarrow> size_t \<Rightarrow> 'r res) \<Rightarrow>
   ('a rwq \<Rightarrow> 'a block \<Rightarrow> 'r res) \<Rightarrow> ('a rwq \<Rightarrow> 'r) \<Rightarrow> 'r res" where
  "find_front q here ahead none =
     bindE (deref q (frontBlock q)) (\<lambda>b0.
       let blockTail = localTail b0;
           blockFront = front b0;
           b = (if blockFront \<noteq> blockTail then b0 else b0\<lparr>localTail := tail b0\<rparr>);
           q = store q (frontBlock q) b
       in if blockFront \<noteq> blockTail \<or> blockFront \<noteq> localTail b then here q b blockFront
          else if frontBlock q \<noteq> tailBlock q then
            let b = b\<lparr>localTail := tail b\<rparr>;
                blockTail = localTail b;
                blockFront = front b;
                q = store q (frontBlock q) b
            in if blockFront \<noteq> blockTail then here q b blockFront else ahead q b
          else Inr (none q))"

text \<open>\<open>try_dequeue\<close>: move the front element out, destroy it, and step over its cell.\<close>

definition dequeue_front :: "'a rwq \<Rightarrow> 'a block \<Rightarrow> size_t \<Rightarrow> ('a option \<times> 'a rwq) res" where
  "dequeue_front q b blockFront =
     bindE (read_cell b blockFront) (\<lambda>result.
       let b = destroy b blockFront
       in Inr (Some result,
            store q (frontBlock q) (b\<lparr>front := (blockFront + 1) AND sizeMask b\<rparr>)))"

definition dequeue_ahead :: "'a rwq \<Rightarrow> 'a block \<Rightarrow> ('a option \<times> 'a rwq) res" where
  "dequeue_ahead q b =
     bindE (follow (next_blk b)) (\<lambda>nextBlock.
     bindE (deref q nextBlock) (\<lambda>nb0.
       let nextBlockFront = front nb0;
           nb = nb0\<lparr>localTail := tail nb0\<rparr>;
           nextBlockTail = localTail nb
       in bindE (assertE (nextBlockFront \<noteq> nextBlockTail)) (\<lambda>_.
            let q = q\<lparr>frontBlock := nextBlock\<rparr>
            in bindE (read_cell nb nextBlockFront) (\<lambda>result.
                 let nb = destroy nb nextBlockFront
                 in Inr (Some result,
                      store q nextBlock
                        (nb\<lparr>front := (nextBlockFront + 1) AND sizeMask nb\<rparr>))))))"

definition try_dequeue :: "'a rwq \<Rightarrow> ('a option \<times> 'a rwq) res" where
  "try_dequeue q = find_front q dequeue_front dequeue_ahead (\<lambda>q. (None, q))"

text \<open>\<open>peek\<close>: the front element, which stays where it is.\<close>

definition peek_front :: "'a rwq \<Rightarrow> 'a block \<Rightarrow> size_t \<Rightarrow> ('a option \<times> 'a rwq) res" where
  "peek_front q b blockFront = bindE (read_cell b blockFront) (\<lambda>x. Inr (Some x, q))"

definition peek_ahead :: "'a rwq \<Rightarrow> 'a block \<Rightarrow> ('a option \<times> 'a rwq) res" where
  "peek_ahead q b =
     bindE (follow (next_blk b)) (\<lambda>nextBlock.
     bindE (deref q nextBlock) (\<lambda>nb.
       let nextBlockFront = front nb
       in bindE (assertE (nextBlockFront \<noteq> tail nb)) (\<lambda>_.
          bindE (read_cell nb nextBlockFront) (\<lambda>x. Inr (Some x, q)))))"

definition peek :: "'a rwq \<Rightarrow> ('a option \<times> 'a rwq) res" where
  "peek q = find_front q peek_front peek_ahead (\<lambda>q. (None, q))"

text \<open>
  \<open>pop\<close>: destroy the front element, without moving it out. That an object lives in the cell is
  checked, since a destructor must not run on a cell without one.
\<close>

definition pop_front :: "'a rwq \<Rightarrow> 'a block \<Rightarrow> size_t \<Rightarrow> (bool \<times> 'a rwq) res" where
  "pop_front q b blockFront =
     bindE (read_cell b blockFront) (\<lambda>_.
       let b = destroy b blockFront
       in Inr (True, store q (frontBlock q) (b\<lparr>front := (blockFront + 1) AND sizeMask b\<rparr>)))"

definition pop_ahead :: "'a rwq \<Rightarrow> 'a block \<Rightarrow> (bool \<times> 'a rwq) res" where
  "pop_ahead q b =
     bindE (follow (next_blk b)) (\<lambda>nextBlock.
     bindE (deref q nextBlock) (\<lambda>nb0.
       let nextBlockFront = front nb0;
           nb = nb0\<lparr>localTail := tail nb0\<rparr>;
           nextBlockTail = localTail nb
       in bindE (assertE (nextBlockFront \<noteq> nextBlockTail)) (\<lambda>_.
            let q = q\<lparr>frontBlock := nextBlock\<rparr>
            in bindE (read_cell nb nextBlockFront) (\<lambda>_.
                 let nb = destroy nb nextBlockFront
                 in Inr (True,
                      store q nextBlock
                        (nb\<lparr>front := (nextBlockFront + 1) AND sizeMask nb\<rparr>))))))"

definition pop :: "'a rwq \<Rightarrow> (bool \<times> 'a rwq) res" where
  "pop q = find_front q pop_front pop_ahead (\<lambda>q. (False, q))"

subsection \<open>Walks around the ring\<close>

text \<open>
  The \<open>do ... while (block != frontBlock_)\<close> loops. The fuel bounds the number of blocks
  visited. The ring holds every block of the heap, so the number of blocks is enough fuel, and
  the theorems about the walks show that it never runs out on a queue that satisfies the
  invariant.
\<close>

fun ring_loop ::
  "nat \<Rightarrow> 'a rwq \<Rightarrow> ('r \<Rightarrow> nat \<Rightarrow> 'a block \<Rightarrow> 'r res) \<Rightarrow> 'r \<Rightarrow> nat \<Rightarrow> 'r res" where
  "ring_loop 0 q f r block = Inl OutOfFuel"
| "ring_loop (Suc fuel) q f r block =
     bindE (deref q block) (\<lambda>b.
     bindE (f r block b) (\<lambda>r.
     bindE (follow (next_blk b)) (\<lambda>block.
       if block \<noteq> frontBlock q then ring_loop fuel q f r block else Inr r)))"

definition size_approx :: "'a rwq \<Rightarrow> size_t res" where
  "size_approx q =
     ring_loop (length (heap q)) q
       (\<lambda>result block b. Inr (result + ((tail b - front b) AND sizeMask b))) 0 (frontBlock q)"

definition max_capacity :: "'a rwq \<Rightarrow> size_t res" where
  "max_capacity q =
     ring_loop (length (heap q)) q (\<lambda>result block b. Inr (result + sizeMask b)) 0 (frontBlock q)"

subsection \<open>Construction\<close>

text \<open>\<open>ceilToPow2\<close>: smear the bits of \<open>x - 1\<close> to the right, and add one.\<close>

function smear_loop :: "nat \<Rightarrow> size_t \<Rightarrow> size_t" where
  "smear_loop i x = (if 0 < i \<and> i < 8 then smear_loop (2 * i) (x OR drop_bit (8 * i) x) else x)"
  by pat_completeness auto
termination
  by (relation "measure (\<lambda>(i, x). 8 - i)") auto

definition ceilToPow2 :: "size_t \<Rightarrow> size_t" where
  "ceilToPow2 x =
     (let x = x - 1;
          x = x OR drop_bit 1 x;
          x = x OR drop_bit 2 x;
          x = x OR drop_bit 4 x;
          x = smear_loop 1 x
      in x + 1)"

text \<open>
  The loop of the constructor that makes several blocks: \<open>k\<close> blocks are still to be made, and
  \<open>mem i\<close> is the answer of \<open>malloc\<close> for the block \<open>i\<close>.
\<close>

fun init_loop ::
  "(nat \<Rightarrow> bool) \<Rightarrow> size_t \<Rightarrow> nat \<Rightarrow> 'a block list \<Rightarrow> nat option \<Rightarrow> nat option \<Rightarrow>
   ('a block list \<times> nat option) res" where
  "init_loop mem bsize 0 h firstBlock lastBlock = Inr (h, firstBlock)"
| "init_loop mem bsize (Suc k) h firstBlock lastBlock =
     (let a = length h
      in case make_block (mem a) bsize of
           None \<Rightarrow> Inl BadAlloc
         | Some block \<Rightarrow>
             (case firstBlock of
                None \<Rightarrow>
                  init_loop mem bsize k (h @ [block\<lparr>next_blk := Some a\<rparr>]) (Some a) (Some a)
              | Some f \<Rightarrow>
                  bindE (follow lastBlock) (\<lambda>l.
                    init_loop mem bsize k
                      (h[l := (h ! l)\<lparr>next_blk := Some a\<rparr>] @ [block\<lparr>next_blk := Some f\<rparr>])
                      (Some f) (Some a))))"

definition new_queue :: "(nat \<Rightarrow> bool) \<Rightarrow> size_t \<Rightarrow> 'a rwq res" where
  "new_queue mem capacity =
     bindE (assertE (0 < capacity)) (\<lambda>_.
       let largest = ceilToPow2 (capacity + 1)
       in if MAX_BLOCK_SIZE * 2 < largest then
            let initialBlockCount = (capacity + MAX_BLOCK_SIZE * 2 - 3) div (MAX_BLOCK_SIZE - 1)
            in bindE (init_loop mem MAX_BLOCK_SIZE (unat initialBlockCount) [] None None)
                 (\<lambda>(h, firstBlock). bindE (follow firstBlock) (\<lambda>f.
                   Inr \<lparr>heap = h, frontBlock = f, tailBlock = f,
                        largestBlockSize = MAX_BLOCK_SIZE\<rparr>))
          else
            (case make_block (mem 0) largest of
               None \<Rightarrow> Inl BadAlloc
             | Some b \<Rightarrow>
                 Inr \<lparr>heap = [b\<lparr>next_blk := Some 0\<rparr>], frontBlock = 0, tailBlock = 0,
                      largestBlockSize = largest\<rparr>))"

text \<open>The move constructor leaves the other queue with a fresh block of 32 cells.\<close>

definition move_queue :: "bool \<Rightarrow> 'a rwq \<Rightarrow> ('a rwq \<times> 'a rwq) res" where
  "move_queue mem other =
     (case make_block mem 32 of
        None \<Rightarrow> Inl BadAlloc
      | Some b \<Rightarrow>
          Inr (other, \<lparr>heap = [b\<lparr>next_blk := Some 0\<rparr>], frontBlock = 0, tailBlock = 0,
                       largestBlockSize = 32\<rparr>))"

text \<open>The move assignment swaps the blocks, the front and tail pointers and the size.\<close>

definition move_assign :: "'a rwq \<Rightarrow> 'a rwq \<Rightarrow> 'a rwq \<times> 'a rwq" where
  "move_assign q other =
     (q\<lparr>heap := heap other, frontBlock := frontBlock other, tailBlock := tailBlock other,
        largestBlockSize := largestBlockSize other\<rparr>,
      other\<lparr>heap := heap q, frontBlock := frontBlock q, tailBlock := tailBlock q,
        largestBlockSize := largestBlockSize q\<rparr>)"

subsection \<open>Destruction\<close>

text \<open>
  The elements are destroyed from the front block on, a block is freed after its elements, and
  a block that was freed must not be used again. The result is the list of the elements
  destroyed and the list of the blocks freed.
\<close>

fun destroy_loop :: "nat \<Rightarrow> 'a block \<Rightarrow> size_t \<Rightarrow> size_t \<Rightarrow> 'a list \<Rightarrow> 'a list res" where
  "destroy_loop fuel b i blockTail done =
     (if i \<noteq> blockTail then
        (case fuel of
           0 \<Rightarrow> Inl OutOfFuel
         | Suc fuel \<Rightarrow>
             bindE (read_cell b i) (\<lambda>x.
               destroy_loop fuel (destroy b i) ((i + 1) AND sizeMask b) blockTail (done @ [x])))
      else Inr done)"

definition destruct :: "'a rwq \<Rightarrow> ('a list \<times> nat list) res" where
  "destruct q =
     ring_loop (length (heap q)) q
       (\<lambda>(gone, freed) block b.
          if block \<in> set freed then Inl WildPointer
          else bindE (destroy_loop (length (cells b)) b (front b) (tail b) gone)
                 (\<lambda>gone. Inr (gone, freed @ [block])))
       ([], []) (frontBlock q)"

subsection \<open>The memory of a block\<close>

text \<open>
  \<open>make_block\<close> asks \<open>malloc\<close> for enough bytes to align the block and its elements in them.
  The sizes and alignments of the types are parameters: they are the platform's.
\<close>

definition align_for :: "u64 \<Rightarrow> u64 \<Rightarrow> u64" where
  "align_for alignment ptr = ptr + (alignment - ptr mod alignment) mod alignment"

definition block_bytes :: "u64 \<Rightarrow> u64 \<Rightarrow> u64 \<Rightarrow> u64 \<Rightarrow> size_t \<Rightarrow> u64" where
  "block_bytes sizeofBlock alignBlock sizeofT alignT capacity =
     sizeofBlock + alignBlock - 1 + (sizeofT * capacity + alignT - 1)"

definition block_layout :: "u64 \<Rightarrow> u64 \<Rightarrow> u64 \<Rightarrow> u64 \<Rightarrow> u64 \<times> u64" where
  "block_layout sizeofBlock alignBlock alignT newBlockRaw =
     (let newBlockAligned = align_for alignBlock newBlockRaw;
          newBlockData = align_for alignT (newBlockAligned + sizeofBlock)
      in (newBlockAligned, newBlockData))"

end
