(* ===== verification/Fifo.thy ===== *)
theory Fifo
  imports Prelude "HOL-Library.Sublist"
begin

text \<open>
  The interface of a first-in first-out queue, as the servers use it: the operations, the laws
  their provider promises, and what the loops of the clients do on any queue that keeps them.
  The loops take the operations as arguments; the components pass those of the queue they own.
\<close>

subsection \<open>The loops of the clients\<close>

text \<open>\<open>if (q.size_approx () && q.try_dequeue (val))\<close>: the test before every read of a command.\<close>

definition poll_with ::
  "('q \<Rightarrow> size_t res) \<Rightarrow> ('q \<Rightarrow> ('a option \<times> 'q) res) \<Rightarrow> 'q \<Rightarrow> ('a option \<times> 'q) res" where
  "poll_with count deq q = bindE (count q) (\<lambda>n. if n \<noteq> 0 then deq q else Inr (None, q))"

text \<open>
  \<open>for (i = 0; i < n; i++) if (!q.enqueue (cmd[i])) printf (...)\<close>: an element for which the
  queue finds no memory is reported and dropped. The memory for an element is the answer of
  \<open>mem\<close> at the number of elements that follow it.
\<close>

primrec enq_all ::
  "(bool \<Rightarrow> 'a \<Rightarrow> 'q \<Rightarrow> (bool \<times> 'q) res) \<Rightarrow> (nat \<Rightarrow> bool) \<Rightarrow> 'a list \<Rightarrow> 'q \<Rightarrow> 'q res" where
  "enq_all enq mem [] q = Inr q"
| "enq_all enq mem (x # xs) q =
     bindE (enq (mem (length xs)) x q) (\<lambda>(ok, q). enq_all enq mem xs q)"

text \<open>\<open>for (i = 0; i < n && q.try_dequeue (val); i++) resp[i] = val\<close>.\<close>

primrec deq_upto ::
  "('q \<Rightarrow> ('a option \<times> 'q) res) \<Rightarrow> nat \<Rightarrow> 'q \<Rightarrow> ('a list \<times> 'q) res" where
  "deq_upto deq 0 q = Inr ([], q)"
| "deq_upto deq (Suc n) q =
     bindE (deq q) (\<lambda>(r, q).
       case r of
         None \<Rightarrow> Inr ([], q)
       | Some val \<Rightarrow> bindE (deq_upto deq n q) (\<lambda>(resp, q). Inr (val # resp, q)))"

subsection \<open>Runs of operations, and the abstract queue\<close>

datatype 'a fifo_op = Enq 'a | Deq

text \<open>The abstract queue is a list; a run yields what each dequeue returned.\<close>

fun spec_run :: "'a fifo_op list \<Rightarrow> 'a list \<Rightarrow> 'a option list \<times> 'a list" where
  "spec_run [] xs = ([], xs)"
| "spec_run (Enq x # ops) xs = spec_run ops (xs @ [x])"
| "spec_run (Deq # ops) xs =
     (case xs of
        [] \<Rightarrow> let (out, ys) = spec_run ops [] in (None # out, ys)
      | x # xs \<Rightarrow> let (out, ys) = spec_run ops xs in (Some x # out, ys))"

fun impl_run ::
  "(bool \<Rightarrow> 'a \<Rightarrow> 'q \<Rightarrow> (bool \<times> 'q) res) \<Rightarrow> ('q \<Rightarrow> ('a option \<times> 'q) res) \<Rightarrow>
   'a fifo_op list \<Rightarrow> 'q \<Rightarrow> ('a option list \<times> 'q) res" where
  "impl_run enq deq [] q = Inr ([], q)"
| "impl_run enq deq (Enq x # ops) q = bindE (enq True x q) (\<lambda>(ok, q). impl_run enq deq ops q)"
| "impl_run enq deq (Deq # ops) q =
     bindE (deq q) (\<lambda>(r, q). bindE (impl_run enq deq ops q) (\<lambda>(out, q). Inr (r # out, q)))"

subsection \<open>The interface\<close>

locale fifo =
  fixes enq :: "bool \<Rightarrow> 'a \<Rightarrow> 'q \<Rightarrow> (bool \<times> 'q) res"
    and deq :: "'q \<Rightarrow> ('a option \<times> 'q) res"
    and holds :: "'q \<Rightarrow> 'a list \<Rightarrow> bool"
  assumes enq_mem: "holds q xs \<Longrightarrow> \<exists>q'. enq True x q = Inr (True, q') \<and> holds q' (xs @ [x])"
    and enq_any: "holds q xs \<Longrightarrow>
      \<exists>ok q'. enq mem x q = Inr (ok, q') \<and> holds q' (if ok then xs @ [x] else xs)"
    and deq_Nil: "holds q [] \<Longrightarrow> \<exists>q'. deq q = Inr (None, q') \<and> holds q' []"
    and deq_Cons: "holds q (x # xs) \<Longrightarrow> \<exists>q'. deq q = Inr (Some x, q') \<and> holds q' xs"
begin

lemma enq_all_mem:
  "holds q xs \<Longrightarrow> (\<And>i. mem i) \<Longrightarrow> \<exists>q'. enq_all enq mem ys q = Inr q' \<and> holds q' (xs @ ys)"
proof (induction ys arbitrary: q xs)
  case (Cons y ys)
  from enq_mem [OF Cons.prems(1), of y] Cons.prems(2) obtain q1 where
    "enq (mem (length ys)) y q = Inr (True, q1)" "holds q1 (xs @ [y])" by auto
  with Cons.IH [of q1 "xs @ [y]"] Cons.prems(2) show ?case by simp
qed simp

lemma enq_all_any:
  "holds q xs \<Longrightarrow> \<exists>q' zs. enq_all enq mem ys q = Inr q' \<and> holds q' (xs @ zs) \<and> subseq zs ys"
proof (induction ys arbitrary: q xs)
  case Nil
  then have "holds q (xs @ [])" by simp
  then show ?case by (metis enq_all.simps(1) list_emb_Nil)
next
  case (Cons y ys)
  from enq_any [OF Cons.prems, of "mem (length ys)" y] obtain ok q1 where
    q1: "enq (mem (length ys)) y q = Inr (ok, q1)" "holds q1 (if ok then xs @ [y] else xs)" by auto
  from Cons.IH [OF q1(2)] obtain q' zs where
    "enq_all enq mem ys q1 = Inr q'" "holds q' ((if ok then xs @ [y] else xs) @ zs)" "subseq zs ys"
    by blast
  with q1(1) show ?case
    by (cases ok) (auto intro!: exI [of _ q'] exI [of _ "if ok then y # zs else zs"])
qed

lemma deq_upto_holds:
  "holds q xs \<Longrightarrow> \<exists>q'. deq_upto deq n q = Inr (take n xs, q') \<and> holds q' (drop n xs)"
proof (induction n arbitrary: q xs)
  case (Suc n)
  show ?case
  proof (cases xs)
    case Nil
    with deq_Nil Suc.prems show ?thesis by fastforce
  next
    case (Cons x ys)
    with deq_Cons Suc.prems obtain q1 where "deq q = Inr (Some x, q1)" "holds q1 ys" by blast
    with Suc.IH [of q1 ys] Cons show ?thesis by auto
  qed
qed simp

text \<open>The laws, read from the result of an operation.\<close>

lemma enq_result:
  assumes "holds q xs" "enq mem x q = r"
  obtains ok q' where "r = Inr (ok, q')" "holds q' (if ok then xs @ [x] else xs)"
  using enq_any [OF assms(1), of mem x] assms(2) by auto

lemma deq_result:
  assumes "holds q xs" "deq q = r"
  obtains (empty) q' where "xs = []" "r = Inr (None, q')" "holds q' []"
    | (first) q' where "xs \<noteq> []" "r = Inr (Some (hd xs), q')" "holds q' (tl xs)"
  using deq_Nil [of q] deq_Cons [of q "hd xs" "tl xs"] assms by (cases xs) auto

text \<open>On any run of operations the queue returns what the abstract queue returns.\<close>

lemma run_refines:
  "holds q xs \<Longrightarrow> \<exists>q'. impl_run enq deq ops q = Inr (fst (spec_run ops xs), q') \<and>
     holds q' (snd (spec_run ops xs))"
proof (induction ops arbitrary: q xs)
  case (Cons p ops)
  show ?case
  proof (cases p)
    case (Enq x)
    with enq_mem [OF Cons.prems, of x] Cons.IH show ?thesis by fastforce
  next
    case Deq
    show ?thesis
    proof (cases xs)
      case Nil
      with Deq deq_Nil Cons.prems Cons.IH show ?thesis by (fastforce split: prod.splits)
    next
      case (Cons x ys)
      with Deq deq_Cons Cons.prems Cons.IH show ?thesis by (fastforce split: prod.splits)
    qed
  qed
qed simp

end

text \<open>A queue that can also tell how many elements it holds.\<close>

locale sized_fifo = fifo enq deq holds
  for enq :: "bool \<Rightarrow> 'a \<Rightarrow> 'q \<Rightarrow> (bool \<times> 'q) res"
    and deq :: "'q \<Rightarrow> ('a option \<times> 'q) res"
    and holds :: "'q \<Rightarrow> 'a list \<Rightarrow> bool" +
  fixes count :: "'q \<Rightarrow> size_t res"
  assumes count: "holds q xs \<Longrightarrow> count q = Inr (of_nat (length xs))"
begin

lemma count_pos: "holds q (x # xs) \<Longrightarrow> length xs < 2 ^ 64 - 1 \<Longrightarrow> \<exists>n. count q = Inr n \<and> n \<noteq> 0"
proof -
  assume "holds q (x # xs)" "length xs < 2 ^ 64 - 1"
  then have "count q = Inr (of_nat (Suc (length xs)))" "Suc (length xs) < 2 ^ LENGTH(64)"
    using count by fastforce+
  then show ?thesis by (simp only: Inr_inject ex_simps) (simp add: word_of_nat_eq_0_iff nat_dvd_not_less del: of_nat_Suc)
qed

lemma poll_Nil: "holds q [] \<Longrightarrow> \<exists>q'. poll_with count deq q = Inr (None, q') \<and> holds q' []"
  using count by (simp add: poll_with_def)

lemma poll_Cons:
  "holds q (x # xs) \<Longrightarrow> length xs < 2 ^ 64 - 1 \<Longrightarrow>
   \<exists>q'. poll_with count deq q = Inr (Some x, q') \<and> holds q' xs"
  using count_pos [of q x xs] deq_Cons [of q x xs] by (auto simp: poll_with_def)

lemma poll_result:
  assumes "holds q xs" "poll_with count deq q = r"
  obtains (nothing) q' where "r = Inr (None, q')" "holds q' xs"
    | (first) q' where "xs \<noteq> []" "r = Inr (Some (hd xs), q')" "holds q' (tl xs)"
proof -
  show thesis
  proof (cases "(of_nat (length xs) :: size_t) \<noteq> 0")
    case True
    with assms count have "deq q = r" "xs \<noteq> []" by (auto simp: poll_with_def)
    with assms(1) show thesis by (cases rule: deq_result) (auto intro: that)
  next
    case False
    with assms count show thesis by (auto simp: poll_with_def intro: that)
  qed
qed

end

end
