(* ===== verification/Rw_Queue_Correct.thy ===== *)
theory Rw_Queue_Correct
  imports Rw_Queue Fifo
begin

text \<open>
  The queue of theory \<open>Rw_Queue\<close> is a first-in first-out queue: what a block holds as a
  circular buffer, the invariant of the ring of blocks, the relation \<open>represents\<close> between a
  queue, the list of its elements and its spare room, and what each operation does to them.
\<close>

subsection \<open>A block as a circular buffer\<close>

definition window :: "'a block \<Rightarrow> nat" where
  "window b = rdist (sizeMask b) (front b) (tail b)"

definition slot :: "'a block \<Rightarrow> nat \<Rightarrow> nat" where
  "slot b i = (unat (front b) + i) mod length (cells b)"

definition contents :: "'a block \<Rightarrow> 'a list" where
  "contents b = map (\<lambda>i. the (cells b ! slot b i)) [0..<window b]"

definition block_bits :: "nat \<Rightarrow> 'a block \<Rightarrow> bool" where
  "block_bits n b \<longleftrightarrow> 1 \<le> n \<and> n < 63 \<and> sizeMask b = mask n \<and> length (cells b) = 2 ^ n \<and>
     unat (front b) < 2 ^ n \<and> unat (tail b) < 2 ^ n \<and>
     unat (localFront b) < 2 ^ n \<and> unat (localTail b) < 2 ^ n \<and>
     rdist (mask n) (front b) (localTail b) \<le> window b \<and>
     window b \<le> rdist (mask n) (localFront b) (tail b) \<and>
     (\<forall>i < 2 ^ n. cells b ! slot b i \<noteq> None \<longleftrightarrow> i < window b)"

definition block_ok :: "'a block \<Rightarrow> bool" where
  "block_ok b \<longleftrightarrow> (\<exists>n. block_bits n b)"

lemma block_bitsD:
  assumes "block_bits n b"
  shows "1 \<le> n" "n < 63" "n < 64" "sizeMask b = mask n" "length (cells b) = 2 ^ n"
    "unat (front b) < 2 ^ n" "unat (tail b) < 2 ^ n"
    "unat (localFront b) < 2 ^ n" "unat (localTail b) < 2 ^ n"
    "rdist (mask n) (front b) (localTail b) \<le> window b"
    "window b \<le> rdist (mask n) (localFront b) (tail b)"
  using assms by (simp_all add: block_bits_def)

lemma block_bits_cells:
  "block_bits n b \<Longrightarrow> i < 2 ^ n \<Longrightarrow> cells b ! slot b i \<noteq> None \<longleftrightarrow> i < window b"
  by (simp only: block_bits_def)

lemma length_contents [simp]: "length (contents b) = window b"
  by (simp add: contents_def)

lemma contents_Nil: "block_ok b \<Longrightarrow> contents b = [] \<longleftrightarrow> front b = tail b"
  by (auto simp: block_ok_def block_bits_def contents_def window_def rdist_eq_0)

text \<open>Fields that the contents do not depend on.\<close>

lemma contents_frame [simp]:
  "contents (b\<lparr>localFront := x\<rparr>) = contents b"
  "contents (b\<lparr>localTail := x\<rparr>) = contents b"
  "contents (b\<lparr>next_blk := p\<rparr>) = contents b"
  by (simp_all add: contents_def window_def slot_def)

lemma window_frame [simp]:
  "window (b\<lparr>localFront := x\<rparr>) = window b"
  "window (b\<lparr>localTail := x\<rparr>) = window b"
  "window (b\<lparr>next_blk := p\<rparr>) = window b"
  by (simp_all add: window_def)

lemma slot_frame [simp]:
  "slot (b\<lparr>localFront := x\<rparr>) = slot b"
  "slot (b\<lparr>localTail := x\<rparr>) = slot b"
  "slot (b\<lparr>next_blk := p\<rparr>) = slot b"
  by (simp_all add: slot_def fun_eq_iff)

lemma block_ok_next [simp]: "block_ok (b\<lparr>next_blk := p\<rparr>) = block_ok b"
  by (simp add: block_ok_def block_bits_def)

lemma block_ok_localFront: "block_ok b \<Longrightarrow> block_ok (b\<lparr>localFront := front b\<rparr>)"
  unfolding block_ok_def by (elim exE, rule_tac x = n in exI) (auto simp: block_bits_def window_def)

lemma block_ok_localTail: "block_ok b \<Longrightarrow> block_ok (b\<lparr>localTail := tail b\<rparr>)"
  unfolding block_ok_def by (elim exE, rule_tac x = n in exI) (auto simp: block_bits_def window_def)

lemma slot_inj:
  assumes "length (cells b) = m" "unat (front b) < m" "i < m" "j < m"
  shows "slot b i = slot b j \<longleftrightarrow> i = j"
  using assms by (auto simp: slot_def add_mod_if split: if_splits)

lemma slot_less: "length (cells b) = m \<Longrightarrow> 0 < m \<Longrightarrow> slot b i < m"
  by (simp add: slot_def)

lemma slot_window:
  assumes "n < 64" "length (cells b) = 2 ^ n" "sizeMask b = mask n"
    "unat (front b) < 2 ^ n" "unat (tail b) < 2 ^ n"
  shows "slot b (window b) = unat (tail b)"
  using assms by (simp add: slot_def window_def ring_arith)

subsubsection \<open>Adding at the tail\<close>

lemma block_enqueue:
  assumes ok: "block_ok b" and room: "(tail b + 1) AND sizeMask b \<noteq> localFront b"
  shows "\<exists>b'. construct b (tail b) x = Inr b' \<and> sizeMask b' = sizeMask b \<and>
      next_blk b' = next_blk b \<and> front b' = front b \<and>
      length (cells b') = length (cells b) \<and>
      block_ok (b'\<lparr>tail := (tail b + 1) AND sizeMask b\<rparr>) \<and>
      contents (b'\<lparr>tail := (tail b + 1) AND sizeMask b\<rparr>) = contents b @ [x]"
proof -
  from ok obtain n where "block_bits n b" by (auto simp: block_ok_def)
  note n = block_bitsD [OF this] and cells = block_bits_cells [OF this]
  define t where "t = (tail b + 1) AND sizeMask b"
  define b' where "b' = b\<lparr>cells := (cells b)[unat (tail b) := Some x], tail := t\<rparr>"
  have t: "unat t < 2 ^ n" using n by (simp add: t_def unat_succ_less)
  have ne: "unat t \<noteq> unat (localFront b)" using room by (simp add: t_def word_unat_eq_iff)
  have dist: "rdist (mask n) (localFront b) t = rdist (mask n) (localFront b) (tail b) + 1"
    using n t ne by (auto simp: t_def ring_arith)
  have win: "window b' = window b + 1"
    using n t ne dist by (auto simp: b'_def window_def t_def ring_arith split: if_splits)
  have slot: "slot b' = slot b" by (simp add: b'_def slot_def fun_eq_iff)
  have at: "slot b (window b) = unat (tail b)" using n by (intro slot_window) simp_all
  have "rdist (mask n) (localFront b) t < 2 ^ n" using n by (simp add: rdist_less)
  with dist n have less: "window b < 2 ^ n" by linarith
  have c': "cells b' ! slot b i = (if i = window b then Some x else cells b ! slot b i)"
    if "i < 2 ^ n" for i
    using slot_inj [of b "2 ^ n" i "window b"] that less n at
    by (auto simp: b'_def nth_list_update)
  have "block_ok b'"
    unfolding block_ok_def block_bits_def
  proof (intro exI [of _ n] conjI)
    show "window b' \<le> rdist (mask n) (localFront b') (tail b')"
      using win dist n by (simp add: b'_def)
    show "\<forall>i<2 ^ n. (cells b' ! slot b' i \<noteq> None) = (i < window b')"
      using c' cells win slot by (auto simp: less_Suc_eq)
  qed (use n t win in \<open>simp_all add: b'_def\<close>)
  moreover have "contents b' = contents b @ [x]"
  proof -
    have "map (\<lambda>i. the (cells b' ! slot b i)) [0..<window b] = contents b"
      using c' less by (auto simp: contents_def)
    then show ?thesis using c' [OF less] by (simp add: contents_def win slot)
  qed
  ultimately show ?thesis
    using n by (intro exI [of _ "b\<lparr>cells := (cells b)[unat (tail b) := Some x]\<rparr>"])
      (simp add: construct_def b'_def t_def)
qed

subsubsection \<open>Removing at the front\<close>

lemma block_dequeue:
  assumes ok: "block_ok b" and ne: "front b \<noteq> localTail b"
  defines "b' \<equiv> (destroy b (front b))\<lparr>front := (front b + 1) AND sizeMask b\<rparr>"
  shows "\<exists>x. read_cell b (front b) = Inr x \<and> contents b = x # contents b' \<and> block_ok b' \<and>
      sizeMask b' = sizeMask b \<and> next_blk b' = next_blk b \<and> tail b' = tail b \<and>
      length (cells b') = length (cells b)"
proof -
  from ok obtain n where "block_bits n b" by (auto simp: block_ok_def)
  note n = block_bitsD [OF this] and cells = block_bits_cells [OF this]
  define f where "f = (front b + 1) AND sizeMask b"
  have f: "unat f < 2 ^ n" using n by (simp add: f_def unat_succ_less)
  have b': "b' = b\<lparr>cells := (cells b)[unat (front b) := None], front := f\<rparr>"
    by (simp add: b'_def destroy_def f_def)
  have "unat (front b) \<noteq> unat (localTail b)" using ne by (simp add: word_unat_eq_iff)
  then have lt: "rdist (mask n) (front b) (localTail b) = Suc (rdist (mask n) f (localTail b))"
    using n f by (auto simp: f_def ring_arith)
  with n(10) have pos: "0 < window b" by simp
  then have "front b \<noteq> tail b" by (auto simp: window_def)
  then have "unat (front b) \<noteq> unat (tail b)" by (simp add: word_unat_eq_iff)
  then have win: "window b = Suc (window b')"
    using n f by (auto simp: b' window_def f_def ring_arith)
  have slot: "slot b' i = slot b (Suc i)" for i
    using n by (simp add: b' slot_def f_def unat_succ_and_mask mod_add_left_eq)
  have s0: "slot b 0 = unat (front b)" using n by (simp add: slot_def)
  have c': "cells b' ! slot b' i = cells b ! slot b (Suc i)" if "Suc i < 2 ^ n" for i
    using that slot_inj [of b "2 ^ n" "Suc i" 0] n s0
    unfolding slot by (simp add: b' nth_list_update)
  have wlt: "window b < 2 ^ n" using n by (simp add: window_def rdist_less)
  have last: "cells b' ! slot b' (2 ^ n - 1) = None"
    using n s0 by (simp add: slot) (simp add: b' slot_def)
  have "block_ok b'"
    unfolding block_ok_def block_bits_def
  proof (intro exI [of _ n] conjI)
    show "rdist (mask n) (front b') (localTail b') \<le> window b'"
      using lt n(10) win by (simp add: b')
    have "(cells b' ! slot b' i \<noteq> None) = (i < window b')" if "i < 2 ^ n" for i
    proof (cases "Suc i < 2 ^ n")
      case True
      then show ?thesis using c' cells win by simp
    next
      case False
      with that have "i = 2 ^ n - 1" by simp
      with last win wlt show ?thesis by simp
    qed
    then show "\<forall>i<2 ^ n. (cells b' ! slot b' i \<noteq> None) = (i < window b')" by blast
  qed (use n f win in \<open>simp_all add: b'\<close>)
  moreover obtain x where x: "cells b ! unat (front b) = Some x"
    using cells [of 0] pos s0 by auto
  moreover have "contents b = x # contents b'"
  proof -
    have "contents b = the (cells b ! slot b 0) # map (\<lambda>i. the (cells b ! slot b (Suc i))) [0..<window b']"
      unfolding contents_def win by (simp add: upt_conv_Cons map_Suc_upt [symmetric] del: upt_Suc)
    also have "map (\<lambda>i. the (cells b ! slot b (Suc i))) [0..<window b'] = contents b'"
      using c' wlt win by (auto simp: contents_def)
    finally show ?thesis using x s0 by simp
  qed
  ultimately show ?thesis using n by (simp add: read_cell_def b')
qed

subsection \<open>The ring of blocks\<close>

fun linked :: "nat option list \<Rightarrow> nat list \<Rightarrow> bool" where
  "linked ns (a # b # rs) \<longleftrightarrow> a < length ns \<and> ns ! a = Some b \<and> linked ns (b # rs)"
| "linked ns _ \<longleftrightarrow> True"

lemma linked_append:
  "linked ns (xs @ a # ys) \<longleftrightarrow> linked ns (xs @ [a]) \<and> linked ns (a # ys)"
  by (induction ns xs rule: linked.induct) (auto simp: neq_Nil_conv)

lemma linked_cong:
  assumes "\<And>a. a \<in> set (butlast rs) \<Longrightarrow> a < length ns' \<and> ns' ! a = ns ! a"
  shows "linked ns rs \<Longrightarrow> linked ns' rs"
  using assms by (induction ns rs rule: linked.induct) auto

definition chain :: "'a block list \<Rightarrow> nat list \<Rightarrow> 'a list" where
  "chain h us = concat (map (\<lambda>a. contents (h ! a)) us)"

text \<open>
  The blocks in use, from the front block to the tail block, are \<open>us\<close>; the free blocks that
  follow the tail block, up to the front block again, are \<open>fs\<close>. Every block in use but the
  first holds an element, and a free block holds none.
\<close>

definition ring_ok :: "'a block list \<Rightarrow> nat list \<Rightarrow> nat list \<Rightarrow> bool" where
  "ring_ok h us fs \<longleftrightarrow>
     us \<noteq> [] \<and> distinct (us @ fs) \<and> set (us @ fs) = {..<length h} \<and>
     linked (map next_blk h) (us @ fs @ [hd us]) \<and> (\<forall>b\<in>set h. block_ok b) \<and>
     (\<forall>a\<in>set (List.tl us). contents (h ! a) \<noteq> []) \<and> (\<forall>a\<in>set fs. contents (h ! a) = [])"

definition spare :: "'a block \<Rightarrow> nat" where
  "spare b = length (cells b) - 1 - window b"

definition spare_room :: "'a block list \<Rightarrow> nat list \<Rightarrow> nat list \<Rightarrow> nat" where
  "spare_room h us fs = sum_list (map (\<lambda>a. spare (h ! a)) (last us # fs))"

lemma chain_simps [simp]:
  "chain h [] = []" "chain h (a # us) = contents (h ! a) @ chain h us"
  "chain h (us @ vs) = chain h us @ chain h vs"
  by (simp_all add: chain_def)

lemma chain_update [simp]: "a \<notin> set us \<Longrightarrow> chain (h[a := b]) us = chain h us"
  by (simp add: chain_def)

lemma map_next_update:
  "next_blk b = next_blk (h ! a) \<Longrightarrow> map next_blk (h[a := b]) = map next_blk h"
  by (cases "a < length h") (simp_all add: map_update list_update_same_conv list_update_beyond)

lemma ring_ok_less: "ring_ok h us fs \<Longrightarrow> a \<in> set us \<union> set fs \<Longrightarrow> a < length h"
  by (auto simp: ring_ok_def)

lemma ring_ok_block: "ring_ok h us fs \<Longrightarrow> a \<in> set us \<union> set fs \<Longrightarrow> block_ok (h ! a)"
  using ring_ok_less [of h us fs a] by (auto simp: ring_ok_def)

lemma ring_ok_set:
  assumes "ring_ok h us fs" "a \<in> set us \<union> set fs" "block_ok b" "next_blk b = next_blk (h ! a)"
    "a \<in> set (List.tl us) \<Longrightarrow> contents b \<noteq> []" "a \<in> set fs \<Longrightarrow> contents b = []"
  shows "ring_ok (h[a := b]) us fs"
proof -
  have "a < length h" using assms(1,2) by (rule ring_ok_less)
  then have "contents (h[a := b] ! x) = (if x = a then contents b else contents (h ! x))" for x
    by (simp add: nth_list_update)
  with assms show ?thesis
    using set_update_subset_insert [of h a b]
    unfolding ring_ok_def by (auto simp: map_next_update)
qed

lemma ring_ok_advance:
  assumes "ring_ok h us (f # fs)" "block_ok b" "next_blk b = next_blk (h ! f)" "contents b \<noteq> []"
  shows "ring_ok (h[f := b]) (us @ [f]) fs"
proof -
  have "f < length h" using assms(1) ring_ok_less [of h us "f # fs" f] by simp
  then have "contents (h[f := b] ! x) = (if x = f then contents b else contents (h ! x))" for x
    by (simp add: nth_list_update)
  with assms show ?thesis
    using set_update_subset_insert [of h f b]
    unfolding ring_ok_def by (cases us) (auto simp: map_next_update)
qed

lemma ring_ok_release:
  assumes "ring_ok h (a # b # us) fs" "contents (h ! a) = []"
  shows "ring_ok h (b # us) (fs @ [a])"
  using assms linked_append [of "map next_blk h" "b # us @ fs" a "[b]"]
  unfolding ring_ok_def by auto

lemma chain_free: "ring_ok h us fs \<Longrightarrow> chain h fs = []"
  by (simp add: chain_def ring_ok_def)

lemma length_ring: "ring_ok h us fs \<Longrightarrow> length (us @ fs) = length h"
  using distinct_card [of "us @ fs"] by (simp add: ring_ok_def)

text \<open>The block after the tail block.\<close>

lemma ring_next:
  assumes "ring_ok h us fs"
  shows "next_blk (h ! last us) = Some (hd (fs @ [hd us]))"
proof -
  from assms obtain vs t where vs: "us = vs @ [t]"
    unfolding ring_ok_def by (metis append_butlast_last_id)
  have "linked (map next_blk h) (vs @ t # fs @ [hd us])"
    using assms by (simp add: ring_ok_def vs)
  then have "linked (map next_blk h) (t # fs @ [hd us])"
    using linked_append [of "map next_blk h" vs t "fs @ [hd us]"] by simp
  moreover have "t < length h" using ring_ok_less [OF assms, of t] vs by simp
  ultimately show ?thesis by (cases fs) (auto simp: vs)
qed

text \<open>The block after the front block, when it is not the tail block.\<close>

lemma ring_next_front:
  assumes "ring_ok h (a # b # us) fs"
  shows "next_blk (h ! a) = Some b"
  using assms ring_ok_less [OF assms, of a] by (simp add: ring_ok_def)

subsection \<open>What a queue represents\<close>

text \<open>A new block goes between the tail block and the one that follows it.\<close>

lemma ring_ok_insert:
  assumes "ring_ok h us fs" "block_ok nb" "next_blk nb = next_blk (h ! last us)" "contents nb \<noteq> []"
  shows "ring_ok (h[last us := (h ! last us)\<lparr>next_blk := Some (length h)\<rparr>] @ [nb]) (us @ [length h]) fs"
proof -
  define t n where "t = last us" and "n = length h"
  define h' where "h' = h[t := (h ! t)\<lparr>next_blk := Some n\<rparr>] @ [nb]"
  from assms(1) have us: "us \<noteq> []" by (simp add: ring_ok_def)
  then obtain vs where vs: "us = vs @ [t]" unfolding t_def by (metis append_butlast_last_id)
  define rest where "rest = fs @ [hd us]"
  have ok: "distinct (us @ fs)" "set (us @ fs) = {..<n}" "linked (map next_blk h) (us @ rest)"
    "\<forall>b\<in>set h. block_ok b" "\<forall>a\<in>set (List.tl us). contents (h ! a) \<noteq> []"
    "\<forall>a\<in>set fs. contents (h ! a) = []"
    using assms(1) by (simp_all add: ring_ok_def n_def rest_def)
  have tn: "t < n" using ok(2) vs by auto
  have nth: "h' ! a = (if a = n then nb else if a = t then (h ! t)\<lparr>next_blk := Some n\<rparr> else h ! a)"
    if "a \<le> n" for a
    using that tn by (auto simp: h'_def nth_append n_def nth_list_update)
  have len: "length h' = Suc n" by (simp add: h'_def n_def)
  have old: "a < length (map next_blk h') \<and> map next_blk h' ! a = map next_blk h ! a"
    if "a \<in> set (us @ fs)" "a \<noteq> t" for a
  proof -
    have "a < n" using that(1) unfolding ok(2) by simp
    with that(2) nth [of a] len show ?thesis by (simp add: n_def)
  qed
  have "next_blk (h ! t) = Some (hd rest)"
    using ring_next [OF assms(1)] by (simp add: t_def rest_def)
  then have links: "linked (map next_blk h') [t, n, hd rest]"
    using tn len nth [of t] nth [of n] assms(3) by (simp add: t_def)
  have "linked (map next_blk h) (vs @ [t])" "linked (map next_blk h) (t # rest)"
    using ok(3) linked_append [of "map next_blk h" vs t rest] unfolding vs by simp_all
  then have parts: "linked (map next_blk h') (vs @ [t])" "linked (map next_blk h) rest"
  proof -
    show "linked (map next_blk h') (vs @ [t])"
      using \<open>linked (map next_blk h) (vs @ [t])\<close>
      by (rule linked_cong [rotated]) (use ok(1) vs old in auto)
    show "linked (map next_blk h) rest"
      using \<open>linked (map next_blk h) (t # rest)\<close> by (cases rest) simp_all
  qed
  have "linked (map next_blk h') rest"
    using parts(2) by (rule linked_cong [rotated]) (use ok(1) vs old in \<open>auto simp: rest_def\<close>)
  then have "linked (map next_blk h') (t # n # rest)" using links by (cases rest) simp_all
  then have "linked (map next_blk h') (us @ n # rest)"
    using parts(1) linked_append [of _ vs t "n # rest"] unfolding vs by simp
  moreover have "\<forall>b\<in>set h'. block_ok b"
    using ok(4) assms(2) tn set_update_subset_insert [of h t "(h ! t)\<lparr>next_blk := Some n\<rparr>"]
    unfolding h'_def n_def by auto
  moreover have same: "contents (h' ! a) = contents (h ! a)" if "a \<in> set us \<union> set fs" for a
  proof -
    from that have "a \<in> set (us @ fs)" by simp
    then show ?thesis using nth [of a] unfolding ok(2) by simp
  qed
  have "contents (h' ! a) \<noteq> []" if "a \<in> set (List.tl (us @ [n]))" for a
  proof -
    from that us consider "a = n" | "a \<in> set (List.tl us)" by (cases us) auto
    then show ?thesis
    proof cases
      case 1
      with nth [of n] assms(4) show ?thesis by simp
    next
      case 2
      moreover from this us have "a \<in> set us" by (cases us) auto
      ultimately show ?thesis using same [of a] ok(5) by simp
    qed
  qed
  moreover have "\<forall>a\<in>set fs. contents (h' ! a) = []" using same ok(6) by simp
  moreover have "set ((us @ [n]) @ fs) = {..<length h'}" using ok(2) len by (auto simp: lessThan_Suc)
  moreover have "distinct ((us @ [n]) @ fs)" using ok(1,2) by auto
  ultimately have "ring_ok h' (us @ [n]) fs"
    using us unfolding ring_ok_def rest_def by auto
  then show ?thesis by (simp only: h'_def t_def n_def)
qed

definition size_ok :: "size_t \<Rightarrow> bool" where
  "size_ok s \<longleftrightarrow> (\<exists>k. 1 \<le> k \<and> k \<le> 10 \<and> s = 2 ^ k)"

lemma next_size_ok:
  assumes "size_ok s"
  shows "size_ok (if MAX_BLOCK_SIZE \<le> s then s else s * 2)"
proof (cases "MAX_BLOCK_SIZE \<le> s")
  case True
  with assms show ?thesis by simp
next
  case False
  from assms obtain k where k: "1 \<le> k" "k \<le> 10" "s = 2 ^ k" by (auto simp: size_ok_def)
  have "k \<noteq> 10" using False k(3) by (auto simp: MAX_BLOCK_SIZE_def)
  with k have "1 \<le> Suc k \<and> Suc k \<le> 10 \<and> s * 2 = 2 ^ Suc k" by simp
  then have "size_ok (s * 2)" unfolding size_ok_def by blast
  with False show ?thesis by simp
qed

definition rwq_ring :: "'a rwq \<Rightarrow> nat list \<Rightarrow> nat list \<Rightarrow> bool" where
  "rwq_ring q us fs \<longleftrightarrow> ring_ok (heap q) us fs \<and> hd us = frontBlock q \<and>
     last us = tailBlock q \<and> size_ok (largestBlockSize q)"

text \<open>
  The queue \<open>q\<close> holds the elements \<open>xs\<close>, first to be dequeued first, and \<open>r\<close> more can be
  enqueued without an allocation.
\<close>

definition represents :: "'a rwq \<Rightarrow> 'a list \<Rightarrow> nat \<Rightarrow> bool" where
  "represents q xs r \<longleftrightarrow> (\<exists>us fs. rwq_ring q us fs \<and> xs = chain (heap q) us \<and>
     r = spare_room (heap q) us fs)"

lemma rwq_ringD:
  assumes "rwq_ring q us fs"
  shows "ring_ok (heap q) us fs" "hd us = frontBlock q" "last us = tailBlock q"
    "size_ok (largestBlockSize q)" "us \<noteq> []"
    "frontBlock q \<in> set us" "tailBlock q \<in> set us"
    "frontBlock q < length (heap q)" "tailBlock q < length (heap q)"
proof -
  show "ring_ok (heap q) us fs" "hd us = frontBlock q" "last us = tailBlock q"
    "size_ok (largestBlockSize q)" and us: "us \<noteq> []"
    using assms unfolding rwq_ring_def by (auto simp: ring_ok_def)
  with us show "frontBlock q \<in> set us" "tailBlock q \<in> set us"
    by (metis list.set_sel(1), metis last_in_set)
  then show "frontBlock q < length (heap q)" "tailBlock q < length (heap q)"
    using ring_ok_less \<open>ring_ok (heap q) us fs\<close> by blast+
qed

lemma store_simps [simp]:
  "heap (store q a b) = (heap q)[a := b]" "frontBlock (store q a b) = frontBlock q"
  "tailBlock (store q a b) = tailBlock q" "largestBlockSize (store q a b) = largestBlockSize q"
  by (simp_all add: store_def)

lemma store_store [simp]: "store (store q a b) a c = store q a c"
  by (simp add: store_def)

lemma destroy_simps [simp]:
  "sizeMask (destroy b i) = sizeMask b" "next_blk (destroy b i) = next_blk b"
  by (simp_all add: destroy_def)

lemma deref_less: "a < length (heap q) \<Longrightarrow> deref q a = Inr (heap q ! a)"
  by (simp add: deref_def)

lemma window_less: "block_ok b \<Longrightarrow> window b < length (cells b)"
  unfolding block_ok_def using rdist_less by (fastforce simp: block_bits_def window_def)

lemma spare_empty: "block_ok b \<Longrightarrow> contents b = [] \<Longrightarrow> 0 < spare b"
  unfolding block_ok_def block_bits_def spare_def
  using one_less_power [of "2::nat"] length_contents [of b] by fastforce

lemma spare_full:
  assumes "block_ok b" "(tail b + 1) AND sizeMask b = front b"
  shows "spare b = 0"
proof -
  from assms(1) obtain n where "block_bits n b" by (auto simp: block_ok_def)
  note n = block_bitsD [OF this]
  have "unat (front b) = unat ((tail b + 1) AND sizeMask b)" using assms(2) by simp
  with n show ?thesis by (auto simp: spare_def window_def ring_arith split: if_splits)
qed

lemma succ_neq:
  assumes "block_ok b"
  shows "(tail b + 1) AND sizeMask b \<noteq> tail b"
proof -
  from assms obtain n where "block_bits n b" by (auto simp: block_ok_def)
  note n = block_bitsD [OF this]
  have "1 < (2::nat) ^ n" using n by (intro one_less_power) simp_all
  show ?thesis
  proof
    assume "(tail b + 1) AND sizeMask b = tail b"
    then have "unat ((tail b + 1) AND sizeMask b) = unat (tail b)" by simp
    with n \<open>1 < 2 ^ n\<close> show False by (auto simp: ring_arith split: if_splits)
  qed
qed

lemma new_block_ok:
  assumes "1 \<le> n" "n < 63"
  shows "block_ok (new_block (2 ^ n))" and "contents (new_block (2 ^ n)) = []"
    and "length (cells (new_block (2 ^ n))) = 2 ^ n" and "sizeMask (new_block (2 ^ n)) = mask n"
proof -
  have u: "unat (2 ^ n :: size_t) = 2 ^ n" using assms by (simp add: unat_pow2_64)
  then show "length (cells (new_block (2 ^ n))) = 2 ^ n" by (simp add: new_block_def)
  show m: "sizeMask (new_block (2 ^ n)) = mask n"
    by (simp add: new_block_def mask_eq_exp_minus_1)
  show "contents (new_block (2 ^ n)) = []" by (simp add: contents_def window_def new_block_def)
  have "block_bits n (new_block (2 ^ n))"
    using assms u m unfolding block_bits_def by (simp add: new_block_def window_def slot_def)
  then show "block_ok (new_block (2 ^ n))" by (auto simp: block_ok_def)
qed

subsubsection \<open>The three ways to enqueue\<close>

lemma enqueue_in_tail:
  assumes ring: "rwq_ring q us fs" and b: "block_ok b" "next_blk b = next_blk (heap q ! tailBlock q)"
    "contents b = contents (heap q ! tailBlock q)"
    "length (cells b) = length (cells (heap q ! tailBlock q))"
    and room: "(tail b + 1) AND sizeMask b \<noteq> localFront b"
  shows "0 < spare_room (heap q) us fs \<and>
    (\<exists>q'. bindE (construct b (tail b) x)
       (\<lambda>b'. Inr (True, store q (tailBlock q) (b'\<lparr>tail := (tail b + 1) AND sizeMask b\<rparr>))) = Inr (True, q') \<and>
     represents q' (chain (heap q) us @ [x]) (spare_room (heap q) us fs - 1))"
proof -
  note R = rwq_ringD [OF ring]
  define t where "t = tailBlock q"
  from R(3,5) obtain vs where us: "us = vs @ [t]" unfolding t_def by (metis append_butlast_last_id)
  from R(1) us have nin: "t \<notin> set vs" "t \<notin> set fs" by (auto simp: ring_ok_def)
  have t: "t < length (heap q)" using R(9) by (simp add: t_def)
  from block_enqueue [OF b(1) room, of x] obtain c where
    c: "construct b (tail b) x = Inr c" "next_blk c = next_blk b" "length (cells c) = length (cells b)" and
    c': "block_ok (c\<lparr>tail := (tail b + 1) AND sizeMask b\<rparr>)"
      "contents (c\<lparr>tail := (tail b + 1) AND sizeMask b\<rparr>) = contents b @ [x]" by blast
  define d where "d = c\<lparr>tail := (tail b + 1) AND sizeMask b\<rparr>"
  have d: "block_ok d" "contents d = contents (heap q ! t) @ [x]" "next_blk d = next_blk (heap q ! t)"
    "length (cells d) = length (cells (heap q ! t))"
    using c c' b by (simp_all add: d_def t_def)
  have win: "window d = Suc (window (heap q ! t))"
    using arg_cong [OF d(2), of length] by simp
  have spare: "spare (heap q ! t) = Suc (spare d)"
    using window_less [OF d(1)] win d(4) by (simp add: spare_def)
  have ring': "ring_ok ((heap q)[t := d]) us fs"
    using R(1) us nin d by (intro ring_ok_set) auto
  have "spare_room ((heap q)[t := d]) us fs = spare d + sum_list (map (\<lambda>a. spare (heap q ! a)) fs)"
    using nin t by (simp add: spare_room_def us)
  then have room': "spare_room (heap q) us fs = Suc (spare_room ((heap q)[t := d]) us fs)"
    using spare by (simp add: spare_room_def us)
  have "represents (store q t d) (chain (heap q) us @ [x]) (spare_room (heap q) us fs - 1)"
    unfolding represents_def rwq_ring_def
    using ring' R room' nin t d(2) us by (intro exI [of _ us] exI [of _ fs]) (simp add: t_def)
  with c(1) room' show ?thesis by (auto simp: d_def t_def)
qed

lemma enqueue_next_correct:
  assumes ring: "rwq_ring q us (f # fs)" and b: "next_blk b = next_blk (heap q ! tailBlock q)"
    and full: "spare (heap q ! tailBlock q) = 0"
  shows "0 < spare_room (heap q) us (f # fs) \<and>
    (\<exists>q'. enqueue_next x q b = Inr (True, q') \<and>
     represents q' (chain (heap q) us @ [x]) (spare_room (heap q) us (f # fs) - 1))"
proof -
  note R = rwq_ringD [OF ring]
  have nin: "f \<notin> set us" "f \<notin> set fs" using R(1) by (auto simp: ring_ok_def)
  have f: "f < length (heap q)" using ring_ok_less [OF R(1), of f] by simp
  have next_f: "next_blk b = Some f" using ring_next [OF R(1)] b R(3) by simp
  have ok: "block_ok (heap q ! f)" using ring_ok_block [OF R(1), of f] by simp
  have empty: "contents (heap q ! f) = []" using R(1) by (simp add: ring_ok_def)
  define nb where "nb = (heap q ! f)\<lparr>localFront := front (heap q ! f)\<rparr>"
  have nb: "block_ok nb" "contents nb = []" "next_blk nb = next_blk (heap q ! f)"
    "localFront nb = front nb" "length (cells nb) = length (cells (heap q ! f))"
    using ok empty by (simp_all add: nb_def block_ok_localFront)
  then have eq: "front nb = tail nb" using contents_Nil by blast
  have "(tail nb + 1) AND sizeMask nb \<noteq> localFront nb"
    using succ_neq [OF nb(1)] eq nb(4) by simp
  from block_enqueue [OF nb(1) this, of x] obtain c where
    c: "construct nb (tail nb) x = Inr c" "next_blk c = next_blk nb" "sizeMask c = sizeMask nb"
      "length (cells c) = length (cells nb)" and
    c': "block_ok (c\<lparr>tail := (tail nb + 1) AND sizeMask nb\<rparr>)"
      "contents (c\<lparr>tail := (tail nb + 1) AND sizeMask nb\<rparr>) = contents nb @ [x]" by blast
  define d where "d = c\<lparr>tail := (tail nb + 1) AND sizeMask nb\<rparr>"
  have d: "block_ok d" "contents d = [x]" "next_blk d = next_blk (heap q ! f)"
    "length (cells d) = length (cells (heap q ! f))"
    using c c' nb by (simp_all add: d_def)
  define q' where "q' = (store q f d)\<lparr>tailBlock := f\<rparr>"
  have run: "enqueue_next x q b = Inr (True, q')"
    using c eq nb(4) f unfolding enqueue_next_def q'_def d_def
    by (simp add: next_f follow_def deref_less nb_def Let_def)
  have ring': "ring_ok ((heap q)[f := d]) (us @ [f]) fs"
    using R(1) d by (intro ring_ok_advance) simp_all
  have win: "window d = 1" "window (heap q ! f) = 0"
    using arg_cong [OF d(2), of length] arg_cong [OF empty, of length] by simp_all
  then have spare: "spare (heap q ! f) = Suc (spare d)"
    using spare_empty [OF ok empty] d(4) by (simp add: spare_def)
  have room: "spare_room (heap q) us (f # fs) = Suc (spare_room ((heap q)[f := d]) (us @ [f]) fs)"
    using spare full f R(3) nin by (simp add: spare_room_def)
  have "represents q' (chain (heap q) us @ [x]) (spare_room (heap q) us (f # fs) - 1)"
    unfolding represents_def rwq_ring_def
    using ring' R room nin f d(2)
    by (intro exI [of _ "us @ [f]"] exI [of _ fs]) (simp add: q'_def)
  with run room show ?thesis by simp
qed

lemma enqueue_new_correct:
  assumes ring: "rwq_ring q us []" and b: "b = heap q ! tailBlock q"
  shows "\<exists>q' r'. enqueue_new True x q b = Inr (True, q') \<and>
     represents q' (chain (heap q) us @ [x]) r'"
proof -
  note R = rwq_ringD [OF ring]
  define s where "s = (if MAX_BLOCK_SIZE \<le> largestBlockSize q then largestBlockSize q
                       else largestBlockSize q * 2)"
  have "size_ok s" using next_size_ok [OF R(4)] by (simp only: s_def)
  then obtain n where n: "1 \<le> n" "n \<le> 10" "s = 2 ^ n" by (auto simp: size_ok_def)
  then have n63: "1 \<le> n" "n < 63" by simp_all
  note nb = new_block_ok [OF n63, folded n(3)]
  have fr: "front (new_block s) = 0" "tail (new_block s) = 0" "localFront (new_block s) = 0"
    by (simp_all add: new_block_def)
  have one': "1 AND sizeMask (new_block s) = 1"
    unfolding nb(4) using n63 by (simp add: word_unat_eq_iff unat_and_mask one_less_power)
  then have one: "(tail (new_block s) + 1) AND sizeMask (new_block s) = 1" by (simp add: fr)
  have "(tail (new_block s) + 1) AND sizeMask (new_block s) \<noteq> localFront (new_block s)"
    unfolding one fr(3) by simp
  from block_enqueue [OF nb(1) this, of x, unfolded one, unfolded fr nb(2)] obtain c where
    c: "construct (new_block s) 0 x = Inr c" "front c = 0" and
    c': "block_ok (c\<lparr>tail := 1\<rparr>)" "contents (c\<lparr>tail := 1\<rparr>) = [x]" by auto
  define d where "d = c\<lparr>tail := 1, localTail := 1, next_blk := next_blk b\<rparr>"
  have "d = (c\<lparr>tail := 1\<rparr>)\<lparr>localTail := tail (c\<lparr>tail := 1\<rparr>), next_blk := next_blk b\<rparr>"
    by (simp add: d_def)
  then have d: "block_ok d" "contents d = [x]" "next_blk d = Some (hd us)"
    using block_ok_localTail [OF c'(1)] c'(2) ring_next [OF R(1)] R(3) b by simp_all
  define q' where "q' = q\<lparr>largestBlockSize := s, heap :=
      (heap q)[tailBlock q := b\<lparr>next_blk := Some (length (heap q))\<rparr>] @ [d], tailBlock := length (heap q)\<rparr>"
  have run: "enqueue_new True x q b = Inr (True, q')"
    using c unfolding enqueue_new_def make_block_def s_def [symmetric] q'_def d_def
    by (simp add: Let_def)
  have ring': "ring_ok (heap q') (us @ [length (heap q)]) []"
    using ring_ok_insert [OF R(1) d(1)] d(2,3) ring_next [OF R(1)] R(3) b by (simp add: q'_def)
  have "chain (heap q') us = chain (heap q) us"
  proof -
    have "contents (heap q' ! a) = contents (heap q ! a)" if "a \<in> set us" for a
    proof -
      have "a < length (heap q)" using that ring_ok_less [OF R(1)] by blast
      then show ?thesis by (cases "a = tailBlock q") (simp_all add: q'_def b nth_append)
    qed
    then show ?thesis unfolding chain_def by (metis (mono_tags, lifting) map_cong)
  qed
  then have "represents q' (chain (heap q) us @ [x]) (spare_room (heap q') (us @ [length (heap q)]) [])"
    unfolding represents_def rwq_ring_def
    using ring' R \<open>size_ok s\<close> d(2)
    by (intro exI [of _ "us @ [length (heap q)]"] exI [of _ "[]"]) (simp add: q'_def nth_append)
  with run show ?thesis by blast
qed

lemma represents_store:
  assumes ring: "rwq_ring q us fs" and a: "a \<in> set us" and b: "block_ok b"
    "next_blk b = next_blk (heap q ! a)" "contents b = contents (heap q ! a)"
    "length (cells b) = length (cells (heap q ! a))"
  shows "rwq_ring (store q a b) us fs" "chain (heap (store q a b)) us = chain (heap q) us"
    "spare_room (heap (store q a b)) us fs = spare_room (heap q) us fs"
proof -
  note R = rwq_ringD [OF ring]
  have less: "a < length (heap q)" using ring_ok_less [OF R(1)] a by blast
  have "ring_ok ((heap q)[a := b]) us fs"
  proof (rule ring_ok_set [OF R(1)])
    show "contents b \<noteq> []" if "a \<in> set (List.tl us)" using that R(1) b(3) by (simp add: ring_ok_def)
    show "contents b = []" if "a \<in> set fs" using that R(1) b(3) by (simp add: ring_ok_def)
  qed (use a b in simp_all)
  then show "rwq_ring (store q a b) us fs" using R by (simp add: rwq_ring_def)
  have c: "contents ((heap q)[a := b] ! x) = contents (heap q ! x)" for x
    using less b(3) by (cases "x = a") simp_all
  have s: "spare ((heap q)[a := b] ! x) = spare (heap q ! x)" for x
    using less b(4) arg_cong [OF b(3), of length] by (cases "x = a") (simp_all add: spare_def)
  show "chain (heap (store q a b)) us = chain (heap q) us"
    "spare_room (heap (store q a b)) us fs = spare_room (heap q) us fs"
    by (simp_all add: chain_def spare_room_def c s)
qed

theorem inner_enqueue_correct:
  assumes "represents q xs r"
  shows "if 0 < r
    then \<exists>q'. inner_enqueue m mem x q = Inr (True, q') \<and> represents q' (xs @ [x]) (r - 1)
    else if m = CanAlloc \<and> mem
    then \<exists>q' r'. inner_enqueue m mem x q = Inr (True, q') \<and> represents q' (xs @ [x]) r'
    else \<exists>q'. inner_enqueue m mem x q = Inr (False, q') \<and> represents q' xs 0"
proof -
  from assms obtain us fs where ring: "rwq_ring q us fs" and xs: "xs = chain (heap q) us"
    and r: "r = spare_room (heap q) us fs" unfolding represents_def by blast
  note R = rwq_ringD [OF ring]
  define b0 where "b0 = heap q ! tailBlock q"
  define nt where "nt = (tail b0 + 1) AND sizeMask b0"
  define b where "b = (if nt \<noteq> localFront b0 then b0 else b0\<lparr>localFront := front b0\<rparr>)"
  have ok: "block_ok b0" using ring_ok_block [OF R(1)] R(7) by (simp add: b0_def)
  have b: "block_ok b" "next_blk b = next_blk b0" "contents b = contents b0"
    "length (cells b) = length (cells b0)" "tail b = tail b0" "sizeMask b = sizeMask b0"
    "front b = front b0"
    using ok by (auto simp: b_def block_ok_localFront)
  have run: "inner_enqueue m mem x q =
    (if nt \<noteq> localFront b0 \<or> nt \<noteq> localFront b then
       bindE (construct b (tail b) x)
         (\<lambda>b'. Inr (True, store q (tailBlock q) (b'\<lparr>tail := (tail b + 1) AND sizeMask b\<rparr>)))
     else if next_blk b \<noteq> Some (frontBlock q) then enqueue_next x (store q (tailBlock q) b) b
     else (case m of CanAlloc \<Rightarrow> enqueue_new mem x (store q (tailBlock q) b) b
           | CannotAlloc \<Rightarrow> Inr (False, store q (tailBlock q) b)))"
    using R(9) b unfolding inner_enqueue_def
    by (simp add: deref_less Let_def b0_def [symmetric] nt_def b_def cong: alloc_mode.case_cong)
  show ?thesis
  proof (cases "nt \<noteq> localFront b")
    case True
    then have "(tail b + 1) AND sizeMask b \<noteq> localFront b" using b by (simp add: nt_def)
    from enqueue_in_tail [OF ring b(1) _ _ _ this] b True run show ?thesis
      by (simp add: xs r b0_def)
  next
    case False
    then have nt0: "\<not> (nt \<noteq> localFront b0 \<or> nt \<noteq> localFront b)" by (auto simp: b_def split: if_splits)
    then have "(tail b0 + 1) AND sizeMask b0 = front b0" by (auto simp: b_def nt_def split: if_splits)
    then have full: "spare b0 = 0" by (rule spare_full [OF ok])
    define q0 where "q0 = store q (tailBlock q) b"
    have q0: "rwq_ring q0 us fs" "chain (heap q0) us = xs" "spare_room (heap q0) us fs = r"
      using represents_store [OF ring R(7) b(1)] b xs r by (simp_all add: q0_def b0_def)
    have at: "heap q0 ! tailBlock q0 = b" using R(9) by (simp add: q0_def)
    have "window b = window b0" using arg_cong [OF b(3), of length] by simp
    then have full': "spare b = 0" using full b(4) by (simp add: spare_def)
    have next_b: "next_blk b = Some (hd (fs @ [hd us]))"
      using ring_next [OF R(1)] R(3) b by (simp add: b0_def)
    show ?thesis
    proof (cases fs)
      case (Cons f fs')
      have "f \<noteq> frontBlock q" using R(1,6) Cons by (auto simp: ring_ok_def)
      then have "inner_enqueue m mem x q = enqueue_next x q0 b"
        using run nt0 next_b Cons by (simp add: q0_def)
      with enqueue_next_correct [of q0 us f fs' b x] q0 Cons at full' show ?thesis by simp
    next
      case Nil
      then have "r = 0" using r full R(3) by (simp add: spare_room_def b0_def)
      have "inner_enqueue m mem x q =
        (case m of CanAlloc \<Rightarrow> enqueue_new mem x q0 b | CannotAlloc \<Rightarrow> Inr (False, q0))"
        using run nt0 next_b Nil R(2) unfolding q0_def by simp
      moreover have "represents q0 xs 0" using q0 \<open>r = 0\<close> unfolding represents_def by metis
      moreover have "enqueue_new False x q0 b = Inr (False, q0)"
        by (simp add: enqueue_new_def make_block_def Let_def)
      ultimately show ?thesis
        using enqueue_new_correct [of q0 us b x] q0 Nil at \<open>r = 0\<close>
        by (cases m; cases mem) auto
    qed
  qed
qed

subsubsection \<open>Dequeueing\<close>

lemma dequeue_here:
  assumes ring: "rwq_ring q us fs" and b: "block_ok b" "next_blk b = next_blk (heap q ! frontBlock q)"
    "contents b = contents (heap q ! frontBlock q)"
    "length (cells b) = length (cells (heap q ! frontBlock q))"
    and ne: "front b \<noteq> localTail b"
  shows "\<exists>x xs r'. read_cell b (front b) = Inr x \<and> chain (heap q) us = x # xs \<and>
    spare_room (heap q) us fs \<le> r' \<and>
    represents (store q (frontBlock q)
      ((destroy b (front b))\<lparr>front := (front b + 1) AND sizeMask b\<rparr>)) xs r'"
proof -
  note R = rwq_ringD [OF ring]
  define d where "d = (destroy b (front b))\<lparr>front := (front b + 1) AND sizeMask b\<rparr>"
  from block_dequeue [OF b(1) ne, folded d_def] obtain x where
    x: "read_cell b (front b) = Inr x" "contents b = x # contents d" "block_ok d"
      "next_blk d = next_blk b" "length (cells d) = length (cells b)" by blast
  from R(2,5) obtain vs where us: "us = frontBlock q # vs" by (cases us) auto
  have nin: "frontBlock q \<notin> set vs" "frontBlock q \<notin> set fs"
    using R(1) by (auto simp: ring_ok_def us)
  have ring': "ring_ok ((heap q)[frontBlock q := d]) us fs"
    using R(1) us nin x b by (intro ring_ok_set) auto
  have win: "window (heap q ! frontBlock q) = Suc (window d)"
    using arg_cong [OF x(2), of length] arg_cong [OF b(3), of length] by simp
  have "spare (heap q ! frontBlock q) \<le> spare d" using win x b by (simp add: spare_def)
  then have room: "spare_room (heap q) us fs \<le> spare_room ((heap q)[frontBlock q := d]) us fs"
    using nin R(8) us last_in_set [of vs]
    by (cases "vs = []"; cases "last vs = frontBlock q") (simp_all add: spare_room_def)
  have "represents (store q (frontBlock q) d) (contents d @ chain (heap q) vs)
      (spare_room ((heap q)[frontBlock q := d]) us fs)"
    unfolding represents_def rwq_ring_def
    using ring' R nin us by (intro exI [of _ us] exI [of _ fs]) simp
  moreover have "chain (heap q) us = x # contents d @ chain (heap q) vs"
    using x b us by simp
  ultimately show ?thesis using x room unfolding d_def by blast
qed

text \<open>The consumer moves on to the next block.\<close>

lemma advance_ring:
  assumes ring: "rwq_ring q us fs" and more: "frontBlock q \<noteq> tailBlock q"
    and empty: "contents (heap q ! frontBlock q) = []"
  shows "\<exists>n vs gs. next_blk (heap q ! frontBlock q) = Some n \<and> n < length (heap q) \<and>
    block_ok (heap q ! n) \<and> contents (heap q ! n) \<noteq> [] \<and>
    rwq_ring (q\<lparr>frontBlock := n\<rparr>) vs gs \<and> chain (heap q) vs = chain (heap q) us \<and>
    spare_room (heap q) us fs \<le> spare_room (heap q) vs gs \<and> n \<noteq> frontBlock q"
proof -
  note R = rwq_ringD [OF ring]
  from R(2,3,5) more obtain n vs where us: "us = frontBlock q # n # vs"
    by (cases us rule: remdups_adj.cases) auto
  have "n < length (heap q)" "block_ok (heap q ! n)"
    using ring_ok_less [OF R(1), of n] ring_ok_block [OF R(1), of n] us by simp_all
  moreover have "contents (heap q ! n) \<noteq> []" "n \<noteq> frontBlock q"
    using R(1) us by (auto simp: ring_ok_def)
  moreover have "ring_ok (heap q) (n # vs) (fs @ [frontBlock q])"
    using ring_ok_release [of "heap q" "frontBlock q" n vs fs] R(1) us empty by simp
  moreover have "next_blk (heap q ! frontBlock q) = Some n"
    using ring_next_front [of "heap q" "frontBlock q" n vs fs] R(1) us by simp
  ultimately show ?thesis
    using R us empty unfolding rwq_ring_def
    by (intro exI [of _ n] exI [of _ "n # vs"] exI [of _ "fs @ [frontBlock q]"])
      (simp add: spare_room_def)
qed

text \<open>The state in which \<open>find_front\<close> decides: the consumer's copy of \<open>tail\<close> is fresh if needed.\<close>

definition refreshed :: "'a rwq \<Rightarrow> 'a rwq" where
  "refreshed q = (let b = heap q ! frontBlock q in
     if front b \<noteq> localTail b then q else store q (frontBlock q) (b\<lparr>localTail := tail b\<rparr>))"

definition front_blk :: "'a rwq \<Rightarrow> 'a block" where
  "front_blk q = heap q ! frontBlock q"

lemma find_front_run:
  assumes "represents q xs r"
  defines "q1 \<equiv> refreshed q" and "b \<equiv> front_blk (refreshed q)"
  shows "find_front q here ahead none =
    (if front b \<noteq> localTail b then here q1 b (front b)
     else if frontBlock q1 \<noteq> tailBlock q1 then ahead q1 b else Inr (none q1))"
proof -
  from assms(1) obtain us fs where "rwq_ring q us fs" unfolding represents_def by blast
  then have "frontBlock q < length (heap q)" by (rule rwq_ringD)
  then show ?thesis
    by (auto simp: find_front_def deref_less Let_def q1_def b_def refreshed_def front_blk_def store_def)
qed

lemma refreshed_cases:
  assumes "represents q xs r"
  defines "q1 \<equiv> refreshed q" and "b \<equiv> front_blk (refreshed q)"
  obtains us fs where "rwq_ring q1 us fs" "xs = chain (heap q1) us" "r = spare_room (heap q1) us fs"
    "front b \<noteq> localTail b"
  | us fs where "rwq_ring q1 us fs" "xs = chain (heap q1) us" "r = spare_room (heap q1) us fs"
    "front b = localTail b" "contents b = []" "frontBlock q1 \<noteq> tailBlock q1"
  | "xs = []" "represents q1 [] r" "front b = localTail b" "frontBlock q1 = tailBlock q1"
proof -
  from assms(1) obtain us fs where ring: "rwq_ring q us fs" and xs: "xs = chain (heap q) us"
    and r: "r = spare_room (heap q) us fs" unfolding represents_def by blast
  note R = rwq_ringD [OF ring]
  define b0 where "b0 = heap q ! frontBlock q"
  have ok: "block_ok b0" using ring_ok_block [OF R(1)] R(6) by (simp add: b0_def)
  have q1_eq: "q1 = store q (frontBlock q) b" and b_eq: "b = (if front b0 \<noteq> localTail b0 then b0
      else b0\<lparr>localTail := tail b0\<rparr>)"
    using R(8) by (auto simp: q1_def b_def refreshed_def front_blk_def b0_def Let_def store_def)
  have b: "block_ok b" "next_blk b = next_blk b0" "contents b = contents b0"
    "length (cells b) = length (cells b0)"
    using ok by (auto simp: b_eq block_ok_localTail)
  have q1: "rwq_ring q1 us fs" "xs = chain (heap q1) us" "r = spare_room (heap q1) us fs"
    using represents_store [OF ring R(6) b(1)] b xs r by (simp_all add: q1_eq b0_def)
  show thesis
  proof (cases "front b = localTail b")
    case False
    then show thesis using that(1) q1 by blast
  next
    case eq: True
    then have "front b = tail b" by (auto simp: b_eq split: if_splits)
    with b(1) have empty: "contents b = []" by (simp add: contents_Nil)
    show thesis
    proof (cases "frontBlock q1 = tailBlock q1")
      case False
      then show thesis using that(2) q1 eq empty by blast
    next
      case same: True
      note R1 = rwq_ringD [OF q1(1)]
      from R1(2,5) obtain vs where us: "us = frontBlock q1 # vs" by (cases us) auto
      with same R1(1,3) have "vs = []" by (cases vs rule: rev_cases) (auto simp: ring_ok_def)
      with us q1(2) empty R(8) have "xs = []" by (simp add: q1_eq)
      then show thesis using that(3) q1 eq same unfolding represents_def by metis
    qed
  qed
qed

lemma dequeue_front_correct:
  assumes ring: "rwq_ring q us fs" and b: "b = heap q ! frontBlock q" and ne: "front b \<noteq> localTail b"
  shows "\<exists>x xs q' r'. dequeue_front q b (front b) = Inr (Some x, q') \<and>
    pop_front q b (front b) = Inr (True, q') \<and> peek_front q b (front b) = Inr (Some x, q) \<and>
    chain (heap q) us = x # xs \<and> spare_room (heap q) us fs \<le> r' \<and> represents q' xs r'"
proof -
  note R = rwq_ringD [OF ring]
  have "block_ok b" using ring_ok_block [OF R(1)] R(6) b by simp
  from dequeue_here [OF ring this] b ne show ?thesis
    unfolding dequeue_front_def pop_front_def peek_front_def by (fastforce simp: Let_def)
qed

lemma dequeue_ahead_correct:
  assumes ring: "rwq_ring q us fs" and b: "b = heap q ! frontBlock q" and empty: "contents b = []"
    and more: "frontBlock q \<noteq> tailBlock q"
  shows "\<exists>x xs q' r'. dequeue_ahead q b = Inr (Some x, q') \<and>
    pop_ahead q b = Inr (True, q') \<and> peek_ahead q b = Inr (Some x, q) \<and>
    chain (heap q) us = x # xs \<and> spare_room (heap q) us fs \<le> r' \<and> represents q' xs r'"
proof -
  from advance_ring [OF ring more] b empty obtain n vs gs where
    n: "next_blk b = Some n" "n < length (heap q)" "block_ok (heap q ! n)"
      "contents (heap q ! n) \<noteq> []" "rwq_ring (q\<lparr>frontBlock := n\<rparr>) vs gs"
      "chain (heap q) vs = chain (heap q) us" "spare_room (heap q) us fs \<le> spare_room (heap q) vs gs"
    by auto
  define nb where "nb = (heap q ! n)\<lparr>localTail := tail (heap q ! n)\<rparr>"
  have ne: "front (heap q ! n) \<noteq> tail (heap q ! n)" using n(3,4) contents_Nil by blast
  have nb: "block_ok nb" "front nb = front (heap q ! n)" "localTail nb = tail (heap q ! n)"
    "sizeMask nb = sizeMask (heap q ! n)"
    using block_ok_localTail [OF n(3)] by (simp_all add: nb_def)
  from dequeue_here [OF n(5) nb(1)] ne nb obtain x xs r' where
    x: "read_cell nb (front nb) = Inr x" "chain (heap q) vs = x # xs"
      "spare_room (heap q) vs gs \<le> r'"
      "represents (store (q\<lparr>frontBlock := n\<rparr>) n
        ((destroy nb (front nb))\<lparr>front := (front nb + 1) AND sizeMask nb\<rparr>)) xs r'"
    by (auto simp: nb_def)
  have "read_cell (heap q ! n) (front (heap q ! n)) = Inr x"
    using x(1) nb(2) by (simp add: read_cell_def nb_def cong: if_cong)
  define q' where "q' = store (q\<lparr>frontBlock := n\<rparr>) n
    ((destroy nb (front nb))\<lparr>front := (front nb + 1) AND sizeMask nb\<rparr>)"
  have "dequeue_ahead q b = Inr (Some x, q')" "pop_ahead q b = Inr (True, q')"
    using n(1,2) ne x(1) nb unfolding dequeue_ahead_def pop_ahead_def q'_def
    by (simp_all add: Let_def follow_def deref_less nb_def [symmetric])
  moreover have "peek_ahead q b = Inr (Some x, q)"
    using n(1,2) ne \<open>read_cell (heap q ! n) (front (heap q ! n)) = Inr x\<close>
    unfolding peek_ahead_def by (simp add: Let_def follow_def deref_less)
  moreover have "chain (heap q) us = x # xs" "spare_room (heap q) us fs \<le> r'" "represents q' xs r'"
    using n x by (simp_all add: q'_def)
  ultimately show ?thesis by blast
qed

text \<open>The three operations of the consumer, on an empty and on a non-empty queue.\<close>

lemma consumer_Nil:
  assumes q: "represents q [] r"
  shows "\<exists>q1. represents q1 [] r \<and> try_dequeue q = Inr (None, q1) \<and>
    pop q = Inr (False, q1) \<and> peek q = Inr (None, q1)"
  using q
proof (cases rule: refreshed_cases)
  case (1 us fs)
  with dequeue_front_correct [OF 1(1) refl] show ?thesis by (auto simp: front_blk_def)
next
  case (2 us fs)
  with dequeue_ahead_correct [OF 2(1) refl] show ?thesis by (auto simp: front_blk_def)
next
  case 3
  then show ?thesis unfolding try_dequeue_def pop_def peek_def find_front_run [OF q] by simp
qed

lemma consumer_Cons:
  assumes q: "represents q (x # xs) r"
  shows "\<exists>q1 q' r'. r \<le> r' \<and> represents q1 (x # xs) r \<and> represents q' xs r' \<and>
    try_dequeue q = Inr (Some x, q') \<and> pop q = Inr (True, q') \<and> peek q = Inr (Some x, q1)"
  using q
proof (cases rule: refreshed_cases)
  case (1 us fs)
  have "represents (refreshed q) (x # xs) r" using 1 unfolding represents_def by blast
  moreover from dequeue_front_correct [OF 1(1) refl] 1
  obtain q' r' where "dequeue_front (refreshed q) (front_blk (refreshed q)) (front (front_blk (refreshed q))) = Inr (Some x, q')"
    "pop_front (refreshed q) (front_blk (refreshed q)) (front (front_blk (refreshed q))) = Inr (True, q')"
    "peek_front (refreshed q) (front_blk (refreshed q)) (front (front_blk (refreshed q))) = Inr (Some x, refreshed q)"
    "r \<le> r'" "represents q' xs r'"
    by (auto simp: front_blk_def)
  ultimately show ?thesis
    using 1(4) unfolding try_dequeue_def pop_def peek_def find_front_run [OF q] by auto
next
  case (2 us fs)
  have "represents (refreshed q) (x # xs) r" using 2 unfolding represents_def by blast
  moreover from dequeue_ahead_correct [OF 2(1) refl] 2
  obtain q' r' where "dequeue_ahead (refreshed q) (front_blk (refreshed q)) = Inr (Some x, q')"
    "pop_ahead (refreshed q) (front_blk (refreshed q)) = Inr (True, q')"
    "peek_ahead (refreshed q) (front_blk (refreshed q)) = Inr (Some x, refreshed q)"
    "r \<le> r'" "represents q' xs r'"
    by (auto simp: front_blk_def)
  ultimately show ?thesis
    using 2(4,6) unfolding try_dequeue_def pop_def peek_def find_front_run [OF q] by auto
qed simp

subsection \<open>Walks\<close>

primrec walk :: "'a rwq \<Rightarrow> ('r \<Rightarrow> nat \<Rightarrow> 'a block \<Rightarrow> 'r res) \<Rightarrow> 'r \<Rightarrow> nat list \<Rightarrow> 'r res" where
  "walk q f r [] = Inr r"
| "walk q f r (a # as) = bindE (f r a (heap q ! a)) (\<lambda>r. walk q f r as)"

lemma ring_loop_walk:
  assumes "linked (map next_blk (heap q)) (a # rs @ [frontBlock q])" "frontBlock q \<notin> set rs"
    "length rs < fuel"
  shows "ring_loop fuel q f r a = walk q f r (a # rs)"
  using assms
proof (induction rs arbitrary: a r fuel)
  case Nil
  then obtain n where "fuel = Suc n" by (cases fuel) simp_all
  with Nil show ?case by (cases "f r a (heap q ! a)") (auto simp: deref_less follow_def)
next
  case (Cons b rs)
  then obtain n where "fuel = Suc n" by (cases fuel) simp_all
  with Cons show ?case by (cases "f r a (heap q ! a)") (auto simp: deref_less follow_def)
qed

text \<open>A walk from the front block visits the blocks in use, then the free ones.\<close>

lemma ring_loop_ring:
  assumes ring: "rwq_ring q us fs"
  shows "ring_loop (length (heap q)) q f r (frontBlock q) = walk q f r (us @ fs)"
proof -
  note R = rwq_ringD [OF ring]
  from R(2,5) obtain vs where us: "us = frontBlock q # vs" by (cases us) auto
  have "length (vs @ fs) < length (heap q)" using length_ring [OF R(1)] us by simp
  moreover have "frontBlock q \<notin> set (vs @ fs)" using R(1) us by (auto simp: ring_ok_def)
  moreover have "linked (map next_blk (heap q)) (frontBlock q # (vs @ fs) @ [frontBlock q])"
    using R(1) us by (simp add: ring_ok_def)
  ultimately have "ring_loop (length (heap q)) q f r (frontBlock q) =
    walk q f r (frontBlock q # vs @ fs)"
    by (intro ring_loop_walk) simp_all
  then show ?thesis by (simp add: us)
qed

lemma walk_sum:
  "walk q (\<lambda>r a b. Inr (r + g b)) r as = Inr (r + sum_list (map (\<lambda>a. g (heap q ! a)) as) :: size_t)"
  by (induction as arbitrary: r) (simp_all add: add.assoc)

theorem size_approx_correct:
  assumes "represents q xs r"
  shows "size_approx q = Inr (of_nat (length xs))"
proof -
  from assms obtain us fs where ring: "rwq_ring q us fs" and xs: "xs = chain (heap q) us"
    unfolding represents_def by blast
  note R = rwq_ringD [OF ring]
  have w: "(tail b - front b) AND sizeMask b = of_nat (window b)" for b :: "'a block"
    by (simp add: window_def rdist_def)
  have "(\<Sum>a\<leftarrow>as. of_nat (window (heap q ! a)) :: size_t) = of_nat (length (chain (heap q) as))" for as
    by (induction as) (simp_all add: chain_def)
  moreover have "chain (heap q) (us @ fs) = xs" using chain_free [OF R(1)] xs by simp
  ultimately show ?thesis
    unfolding size_approx_def ring_loop_ring [OF ring] walk_sum w by (simp flip: of_nat_add length_append)
qed

theorem max_capacity_correct:
  assumes "represents q [] r"
  shows "max_capacity q = Inr (of_nat r)"
proof -
  from assms obtain us fs where ring: "rwq_ring q us fs" and xs: "[] = chain (heap q) us"
    and r: "r = spare_room (heap q) us fs" unfolding represents_def by blast
  note R = rwq_ringD [OF ring]
  from R(2,5) obtain vs where us: "us = frontBlock q # vs" by (cases us) auto
  have "vs = []" using xs R(1) us by (cases vs) (auto simp: ring_ok_def)
  with us have us1: "us = [frontBlock q]" by simp
  have empty: "contents (heap q ! a) = []" if "a \<in> set (us @ fs)" for a
    using that xs R(1) us1 by (auto simp: ring_ok_def)
  have mask: "sizeMask b = of_nat (spare b)" if "block_ok b" "contents b = []" for b :: "'a block"
  proof -
    from that(1) obtain n where "block_bits n b" by (auto simp: block_ok_def)
    note n = block_bitsD [OF this]
    have "spare b = 2 ^ n - 1" using n that(2) length_contents [of b] by (simp add: spare_def)
    then have "unat (sizeMask b) = spare b" using n by (simp add: unat_mask_64)
    then show ?thesis by (metis of_nat_unat ucast_id)
  qed
  have "(\<Sum>a\<leftarrow>us @ fs. sizeMask (heap q ! a)) = (\<Sum>a\<leftarrow>us @ fs. of_nat (spare (heap q ! a)))"
    using mask empty ring_ok_block [OF R(1)]
    by (intro arg_cong [where f = sum_list] map_cong) simp_all
  also have "\<dots> = of_nat (sum_list (map (\<lambda>a. spare (heap q ! a)) (us @ fs)))"
    unfolding us1 by (induction fs) simp_all
  finally show ?thesis
    unfolding max_capacity_def ring_loop_ring [OF ring] walk_sum
    by (simp add: r spare_room_def us1)
qed

subsection \<open>Destruction\<close>

declare destroy_loop.simps [simp del]

text \<open>The loop looks at the cells and at the mask of the block only.\<close>

lemma destroy_loop_frame:
  "cells b' = cells b \<Longrightarrow> sizeMask b' = sizeMask b \<Longrightarrow>
   destroy_loop fuel b' i t done = destroy_loop fuel b i t done"
proof (induction fuel arbitrary: b b' i "done")
  case 0
  then show ?case by (simp add: destroy_loop.simps)
next
  case (Suc fuel)
  have "destroy_loop fuel (destroy b' i) j t d = destroy_loop fuel (destroy b i) j t d" for j d
    using Suc.prems by (intro Suc.IH) (simp_all add: destroy_def)
  with Suc.prems show ?case
    by (subst (1 2) destroy_loop.simps) (simp add: read_cell_def)
qed

lemma destroy_loop_correct:
  "block_ok b \<Longrightarrow> localTail b = tail b \<Longrightarrow> window b \<le> fuel \<Longrightarrow>
   destroy_loop fuel b (front b) (tail b) done = Inr (done @ contents b)"
proof (induction fuel arbitrary: b "done")
  case 0
  then have "contents b = []" by (simp flip: length_0_conv)
  with 0 show ?case by (subst destroy_loop.simps) (simp add: contents_Nil)
next
  case (Suc fuel)
  show ?case
  proof (cases "front b = tail b")
    case True
    with Suc.prems have "contents b = []" by (simp add: contents_Nil)
    with True show ?thesis by (subst destroy_loop.simps) simp
  next
    case False
    define d where "d = (destroy b (front b))\<lparr>front := (front b + 1) AND sizeMask b\<rparr>"
    from block_dequeue [OF Suc.prems(1), folded d_def] False Suc.prems(2) obtain x where
      x: "read_cell b (front b) = Inr x" "contents b = x # contents d" "block_ok d"
        "sizeMask d = sizeMask b" "tail d = tail b" by auto
    have "localTail d = tail d" using Suc.prems(2) by (simp add: d_def destroy_def)
    moreover have "window d \<le> fuel" using arg_cong [OF x(2), of length] Suc.prems(3) by simp
    ultimately have "destroy_loop fuel d (front d) (tail d) (done @ [x]) = Inr ((done @ [x]) @ contents d)"
      using x(3) by (intro Suc.IH)
    then have "destroy_loop fuel (destroy b (front b)) ((front b + 1) AND sizeMask b) (tail b) (done @ [x])
        = Inr (done @ contents b)"
      using destroy_loop_frame [of "destroy b (front b)" d] x by (simp add: d_def destroy_def)
    then show ?thesis using False x(1) by (subst destroy_loop.simps) simp
  qed
qed

theorem destruct_correct:
  assumes "represents q xs r"
  shows "\<exists>freed. destruct q = Inr (xs, freed) \<and> distinct freed \<and> set freed = {..<length (heap q)}"
proof -
  from assms obtain us fs where ring: "rwq_ring q us fs" and xs: "xs = chain (heap q) us"
    unfolding represents_def by blast
  note R = rwq_ringD [OF ring]
  define f where "f = (\<lambda>(gone, freed) block b.
          if block \<in> set freed then Inl WildPointer
          else bindE (destroy_loop (length (cells b)) b (front b) (tail b) gone)
                 (\<lambda>gone. Inr (gone, freed @ [block])) :: ('a list \<times> nat list) res)"
  have one: "destroy_loop (length (cells b)) b (front b) (tail b) gone = Inr (gone @ contents b)"
    if "block_ok b" for b :: "'a block" and gone
  proof -
    define c where "c = b\<lparr>localTail := tail b\<rparr>"
    have "window b \<le> length (cells b)" using window_less [OF that] by simp
    then have "destroy_loop (length (cells b)) c (front c) (tail c) gone = Inr (gone @ contents c)"
      using block_ok_localTail [OF that] by (intro destroy_loop_correct) (simp_all add: c_def)
    then show ?thesis using destroy_loop_frame [of c b] by (simp add: c_def)
  qed
  have "walk q f (gone, freed) as = Inr (gone @ chain (heap q) as, freed @ as)"
    if "\<forall>a\<in>set as. block_ok (heap q ! a)" "distinct (freed @ as)" for as gone freed
    using that by (induction as arbitrary: gone freed) (auto simp: f_def one)
  from this [of "us @ fs" "[]" "[]"] have
    "walk q f ([], []) (us @ fs) = Inr (chain (heap q) us @ chain (heap q) fs, us @ fs)"
    using ring_ok_block [OF R(1)] R(1) by (auto simp: ring_ok_def)
  then show ?thesis
    unfolding destruct_def ring_loop_ring [OF ring] f_def [symmetric]
    using chain_free [OF R(1)] xs R(1) by (simp add: ring_ok_def)
qed

subsection \<open>The least power of two\<close>

definition smeared :: "nat \<Rightarrow> size_t \<Rightarrow> size_t \<Rightarrow> bool" where
  "smeared w x y \<longleftrightarrow> (\<forall>j. bit x j = (\<exists>i. j \<le> i \<and> i < j + w \<and> bit y i))"

lemma smeared_start: "smeared 1 y y"
  by (auto simp: smeared_def le_less_Suc_eq intro: le_antisym)

lemma smeared_step: "smeared w x y \<Longrightarrow> smeared (2 * w) (x OR drop_bit w x) y"
  unfolding smeared_def
proof
  fix j assume x: "\<forall>j. bit x j = (\<exists>i\<ge>j. i < j + w \<and> bit y i)"
  have "bit (x OR drop_bit w x) j \<longleftrightarrow> bit x j \<or> bit x (w + j)"
    by (simp add: bit_or_iff bit_drop_bit_eq)
  also have "\<dots> \<longleftrightarrow> (\<exists>i\<ge>j. i < j + w \<and> bit y i) \<or> (\<exists>i\<ge>w + j. i < w + j + w \<and> bit y i)"
    using x by simp
  also have "\<dots> \<longleftrightarrow> (\<exists>i\<ge>j. i < j + 2 * w \<and> bit y i)"
  proof
    assume "\<exists>i\<ge>j. i < j + 2 * w \<and> bit y i"
    then obtain i where "j \<le> i" "i < j + 2 * w" "bit y i" by blast
    then show "(\<exists>i\<ge>j. i < j + w \<and> bit y i) \<or> (\<exists>i\<ge>w + j. i < w + j + w \<and> bit y i)"
      by (cases "i < j + w") auto
  next
    assume "(\<exists>i\<ge>j. i < j + w \<and> bit y i) \<or> (\<exists>i\<ge>w + j. i < w + j + w \<and> bit y i)"
    then show "\<exists>i\<ge>j. i < j + 2 * w \<and> bit y i" by (elim disjE exE conjE) (rule_tac x = i in exI, simp)+
  qed
  finally show "bit (x OR drop_bit w x) j \<longleftrightarrow> (\<exists>i\<ge>j. i < j + 2 * w \<and> bit y i)" .
qed

declare smear_loop.simps [simp del]

lemma ceilToPow2_mask:
  assumes y: "unat y < 2 ^ n" "n < 64" "n \<noteq> 0 \<Longrightarrow> 2 ^ (n - 1) \<le> unat y"
  shows "ceilToPow2 (y + 1) = 2 ^ n"
proof -
  define r where "r = smear_loop 1 (let x = y OR drop_bit 1 y; x = x OR drop_bit 2 x in x OR drop_bit 4 x)"
  have "smeared 2 (y OR drop_bit 1 y) y" using smeared_step [OF smeared_start] by simp
  from smeared_step [OF smeared_step [OF this]]
  have "smeared 8 (let x = y OR drop_bit 1 y; x = x OR drop_bit 2 x in x OR drop_bit 4 x) y"
    by (simp add: Let_def)
  from smeared_step [OF smeared_step [OF smeared_step [OF this]]] have "smeared 64 r y"
    unfolding r_def by (simp add: smear_loop.simps Let_def)
  then have bits: "bit r j \<longleftrightarrow> (\<exists>i\<ge>j. i < j + 64 \<and> bit y i)" for j by (simp add: smeared_def)
  have high: "\<not> bit y i" if "n \<le> i" for i
  proof -
    have "(2::nat) ^ n \<le> 2 ^ i" using that by (intro power_increasing) simp_all
    with y(1) have "unat y < 2 ^ i" by (rule less_le_trans)
    then have "\<not> bit (unat y) i" by (simp add: bit_iff_odd)
    then show ?thesis using y(2) by (auto simp: bit_unsigned_iff dest: bit_imp_le_length)
  qed
  have top: "bit y (n - 1)" if "n \<noteq> 0"
  proof -
    have "unat y < 2 ^ (n - 1) * 2" using y(1) that by (cases n) simp_all
    then have "unat y div 2 ^ (n - 1) = 1"
      using y(3) [OF that] by (intro div_nat_eqI) simp_all
    then have "bit (unat y) (n - 1)" by (simp add: bit_iff_odd)
    then show ?thesis by (simp add: bit_unsigned_iff)
  qed
  have "r = mask n"
  proof (rule bit_word_eqI)
    fix j assume "j < LENGTH(64)"
    show "bit r j \<longleftrightarrow> bit (mask n :: size_t) j"
    proof (cases "j < n")
      case True
      then have "j \<le> n - 1 \<and> n - 1 < j + 64 \<and> bit y (n - 1)" using top y(2) by auto
      then show ?thesis using bits True \<open>j < LENGTH(64)\<close> by (auto simp: bit_mask_iff)
    next
      case False
      then show ?thesis using bits high by (auto simp: bit_mask_iff)
    qed
  qed
  then show ?thesis
    unfolding ceilToPow2_def by (simp add: r_def Let_def mask_eq_exp_minus_1)
qed

lemma ex_power2: "\<exists>n. (x::nat) < 2 ^ n \<and> (n \<noteq> 0 \<longrightarrow> 2 ^ (n - 1) \<le> x)"
proof -
  define n where "n = (LEAST n. x < 2 ^ n)"
  have "x < 2 ^ n" unfolding n_def by (rule LeastI [of _ x]) simp
  moreover have "2 ^ (n - 1) \<le> x" if "n \<noteq> 0"
    using that not_less_Least [of "n - 1" "\<lambda>n. x < 2 ^ n"] by (simp add: n_def not_less)
  ultimately show ?thesis by blast
qed

theorem ceilToPow2_least:
  assumes "0 < unat x" "unat x \<le> 2 ^ 63"
  shows "\<exists>n < 64. ceilToPow2 x = 2 ^ n \<and> unat x \<le> 2 ^ n \<and> (\<forall>m. unat x \<le> 2 ^ m \<longrightarrow> n \<le> m)"
proof -
  define y where "y = x - 1"
  have "1 \<le> x" using assms(1) by (simp add: word_le_nat_alt)
  then have u: "unat x = unat y + 1" using assms(1) by (simp add: y_def unat_sub)
  from ex_power2 obtain n where n: "unat y < 2 ^ n" "n \<noteq> 0 \<longrightarrow> 2 ^ (n - 1) \<le> unat y" by blast
  have least: "n \<le> m" if "unat x \<le> 2 ^ m" for m
  proof (rule ccontr)
    assume "\<not> n \<le> m"
    then have "2 ^ (n - 1) \<le> unat y" "(2::nat) ^ m \<le> 2 ^ (n - 1)" using n(2)
      by (auto intro!: power_increasing)
    with that u show False by linarith
  qed
  from least [of 63] assms(2) have "n < 64" by simp
  with ceilToPow2_mask [of y n] n have "ceilToPow2 x = 2 ^ n" by (simp add: y_def)
  with least \<open>n < 64\<close> n(1) u show ?thesis by (intro exI [of _ n]) simp
qed

subsection \<open>Construction\<close>

definition init_heap :: "size_t \<Rightarrow> nat \<Rightarrow> 'a block list" where
  "init_heap bsize n =
     map (\<lambda>j. (new_block bsize)\<lparr>next_blk := Some (if Suc j < n then Suc j else 0)\<rparr>) [0..<n]"

lemma length_init_heap [simp]: "length (init_heap bsize n) = n"
  by (simp add: init_heap_def)

lemma init_heap_Suc:
  "(init_heap bsize (Suc n))[n := (init_heap bsize (Suc n) ! n)\<lparr>next_blk := Some (Suc n)\<rparr>] @
     [(new_block bsize)\<lparr>next_blk := Some 0\<rparr>] = init_heap bsize (Suc (Suc n))"
  by (intro nth_equalityI) (auto simp: init_heap_def nth_append nth_list_update less_Suc_eq simp del: upt_Suc)

lemma init_loop_correct:
  assumes "\<And>i. mem i"
  shows "init_loop mem bsize k (init_heap bsize (Suc n)) (Some 0) (Some n) =
    Inr (init_heap bsize (Suc n + k), Some 0)"
proof (induction k arbitrary: n)
  case 0
  then show ?case by simp
next
  case (Suc k)
  show ?case using Suc.IH [of "Suc n"] assms
    by (simp add: Let_def make_block_def follow_def init_heap_Suc)
qed

lemma init_heap_nth:
  "j < n \<Longrightarrow> init_heap bsize n ! j = (new_block bsize)\<lparr>next_blk := Some (if Suc j < n then Suc j else 0)\<rparr>"
  by (simp add: init_heap_def)

lemma init_heap_linked:
  "j + k = n \<Longrightarrow> 0 < k \<Longrightarrow> linked (map next_blk (init_heap bsize n)) ([j..<n] @ [0])"
proof (induction k arbitrary: j)
  case (Suc k)
  then have j: "j < n" "length (init_heap bsize n :: 'a block list) = n" by (simp_all add: init_heap_def)
  show ?case
  proof (cases "Suc j < n")
    case True
    then have "[j..<n] = j # Suc j # [Suc (Suc j)..<n]" "[Suc j..<n] = Suc j # [Suc (Suc j)..<n]"
      by (simp_all add: upt_conv_Cons)
    with Suc.IH [of "Suc j"] Suc.prems True j show ?thesis by (simp add: init_heap_nth)
  next
    case False
    with j have "[j..<n] = [j]" by (simp add: upt_conv_Cons)
    with False j show ?thesis by (simp add: init_heap_nth)
  qed
qed simp

lemma init_heap_represents:
  assumes n: "0 < n" and k: "1 \<le> k" "k \<le> 10" and s: "s = 2 ^ k"
  shows "represents \<lparr>heap = init_heap s n, frontBlock = 0, tailBlock = 0, largestBlockSize = s\<rparr> []
    (n * (2 ^ k - 1))"
proof -
  have k63: "1 \<le> k" "k < 63" using k by simp_all
  note nb = new_block_ok [OF k63, folded s]
  define h :: "'a block list" where "h = init_heap s n"
  have len: "length h = n" by (simp add: h_def init_heap_def)
  have blk: "block_ok (h ! j)" "contents (h ! j) = []" "spare (h ! j) = 2 ^ k - 1" if "j < n" for j
  proof -
    show ok: "block_ok (h ! j)" "contents (h ! j) = []" using that nb by (simp_all add: h_def init_heap_nth)
    then have "window (h ! j) = 0" by (simp flip: length_contents)
    then show "spare (h ! j) = 2 ^ k - 1"
      using that by (simp add: spare_def) (simp add: h_def init_heap_nth nb(3))
  qed
  have up: "[0..<n] = [0] @ [1..<n]" using n by (simp add: upt_conv_Cons)
  have "linked (map next_blk h) ([0] @ [1..<n] @ [0])"
    using init_heap_linked [of 0 n n s] n up by (simp add: h_def)
  moreover have "\<forall>b\<in>set h. block_ok b" using blk(1) len by (auto simp: in_set_conv_nth)
  moreover have "set ([0] @ [1..<n]) = {..<length h}" using n len by auto
  ultimately have "ring_ok h [0] [1..<n]" using blk(2) by (simp add: ring_ok_def)
  moreover have "spare_room h [0] [1..<n] = n * (2 ^ k - 1)"
  proof -
    have "spare_room h [0] [1..<n] = sum_list (map (\<lambda>j. spare (h ! j)) [0..<n])"
      by (simp add: spare_room_def up)
    also have "map (\<lambda>j. spare (h ! j)) [0..<n] = map (\<lambda>j. 2 ^ k - 1) [0..<n]"
      using blk(3) by (intro map_cong) simp_all
    finally show ?thesis by (simp add: sum_list_triv)
  qed
  moreover have "chain h [0] = []" using blk(2) n by simp
  moreover have "size_ok s" using k s by (auto simp: size_ok_def)
  ultimately show ?thesis
    unfolding represents_def rwq_ring_def h_def [symmetric]
    by (intro exI [of _ "[0]"] exI [of _ "[1..<n]"]) simp
qed

theorem new_queue_correct:
  assumes size: "0 < capacity" "unat capacity < 2 ^ 32" and mem: "\<And>i. mem i"
  shows "\<exists>(q :: 'a rwq) r. new_queue mem capacity = Inr q \<and> represents q [] r \<and> unat capacity \<le> r"
proof -
  have pos: "0 < unat capacity" using size(1) by (simp add: word_less_nat_alt)
  have u1: "unat (capacity + 1) = unat capacity + 1" using size(2) by (simp add: unat_word_ariths)
  from ceilToPow2_least [of "capacity + 1"] u1 size(2) obtain n where
    n: "n < 64" "ceilToPow2 (capacity + 1) = 2 ^ n" "unat capacity + 1 \<le> 2 ^ n"
      "\<And>m. unat capacity + 1 \<le> 2 ^ m \<Longrightarrow> n \<le> m" by auto
  have n1: "1 \<le> n" using n(3) pos by (cases n) simp_all
  have small: "MAX_BLOCK_SIZE * 2 < ceilToPow2 (capacity + 1) \<longleftrightarrow> 10 < n"
  proof -
    have "MAX_BLOCK_SIZE * 2 = 2 ^ 10" by (simp add: MAX_BLOCK_SIZE_def)
    then have "MAX_BLOCK_SIZE * 2 < ceilToPow2 (capacity + 1) \<longleftrightarrow> (2::nat) ^ 10 < 2 ^ n"
      unfolding n(2) word_less_nat_alt using n(1) unat_pow2_64 [of 10] by (simp add: unat_pow2_64)
    also have "\<dots> \<longleftrightarrow> 10 < n" by (rule power_strict_increasing_iff) simp
    finally show ?thesis .
  qed
  show ?thesis
  proof (cases "10 < n")
    case False
    have "new_queue mem capacity = Inr \<lparr>heap = init_heap (2 ^ n) 1, frontBlock = 0, tailBlock = 0,
        largestBlockSize = 2 ^ n\<rparr>"
      using False small n(2) size(1) mem unfolding new_queue_def
      by (simp add: Let_def make_block_def init_heap_def)
    moreover have "represents \<lparr>heap = init_heap (2 ^ n) 1, frontBlock = 0, tailBlock = 0,
        largestBlockSize = 2 ^ n\<rparr> [] (1 * (2 ^ n - 1))"
      using n1 False by (intro init_heap_represents) simp_all
    ultimately show ?thesis using n(3) by (intro exI conjI) auto
  next
    case True
    define c where "c = (capacity + MAX_BLOCK_SIZE * 2 - 3) div (MAX_BLOCK_SIZE - 1)"
    have c: "unat c = (unat capacity + 1021) div 511"
    proof -
      have e: "capacity + MAX_BLOCK_SIZE * 2 - 3 = capacity + 1021" by (simp add: MAX_BLOCK_SIZE_def)
      have "unat (capacity + 1021) = unat capacity + 1021" using size(2) by (simp add: unat_word_ariths)
      then show ?thesis unfolding c_def e by (simp add: MAX_BLOCK_SIZE_def unat_div)
    qed
    then have "0 < unat c" by (simp add: div_greater_zero_iff)
    then obtain m where m: "unat c = Suc m" by (cases "unat c") auto
    have "init_loop mem MAX_BLOCK_SIZE (unat c) [] None None =
        init_loop mem MAX_BLOCK_SIZE m (init_heap MAX_BLOCK_SIZE (Suc 0) :: 'a block list)
          (Some 0) (Some 0)"
      using mem m by (simp add: make_block_def Let_def init_heap_def)
    also have "\<dots> = Inr (init_heap MAX_BLOCK_SIZE (unat c), Some 0)"
      using init_loop_correct [of mem MAX_BLOCK_SIZE m 0, OF mem] m by simp
    finally have "new_queue mem capacity = Inr \<lparr>heap = init_heap MAX_BLOCK_SIZE (unat c) :: 'a block list,
        frontBlock = 0, tailBlock = 0, largestBlockSize = MAX_BLOCK_SIZE\<rparr>"
      using True small size(1) unfolding new_queue_def by (simp add: Let_def c_def follow_def)
    moreover have "represents \<lparr>heap = init_heap MAX_BLOCK_SIZE (unat c),
        frontBlock = 0, tailBlock = 0, largestBlockSize = MAX_BLOCK_SIZE\<rparr> [] (unat c * (2 ^ 9 - 1))"
      using m by (intro init_heap_represents) (simp_all add: MAX_BLOCK_SIZE_def)
    moreover have "unat capacity \<le> unat c * (2 ^ 9 - 1)" unfolding c by simp
    ultimately show ?thesis by blast
  qed
qed

theorem move_queue_correct:
  assumes "represents q xs r"
  shows "\<exists>q' e. move_queue True q = Inr (q', e) \<and> represents q' xs r \<and> represents e [] 31"
proof -
  have "represents \<lparr>heap = init_heap 32 1, frontBlock = 0, tailBlock = 0, largestBlockSize = 32\<rparr> []
    (1 * (2 ^ 5 - 1))" by (rule init_heap_represents) simp_all
  then show ?thesis using assms by (simp add: move_queue_def make_block_def init_heap_def)
qed

subsection \<open>The memory of a block\<close>

lemma align_for_bounds:
  assumes "0 < alignment" "unat ptr + unat alignment < 2 ^ 64"
  shows "unat (align_for alignment ptr) mod unat alignment = 0"
    and "unat ptr \<le> unat (align_for alignment ptr)"
    and "unat (align_for alignment ptr) < unat ptr + unat alignment"
proof -
  have a: "0 < unat alignment" using assms(1) by (simp add: word_less_nat_alt)
  define m where "m = unat ptr mod unat alignment"
  have m: "m < unat alignment" using a by (simp add: m_def)
  have "unat (alignment - ptr mod alignment) = unat alignment - m"
    using m by (simp add: unat_sub word_le_nat_alt unat_mod m_def)
  then have pad: "unat ((alignment - ptr mod alignment) mod alignment) =
      (unat alignment - m) mod unat alignment" by (simp add: unat_mod)
  have "(unat alignment - m) mod unat alignment < unat alignment" using a by simp
  then have u: "unat (align_for alignment ptr) = unat ptr + (unat alignment - m) mod unat alignment"
    using assms(2) pad unat_add_lem [of ptr "(alignment - ptr mod alignment) mod alignment"]
    unfolding align_for_def by simp
  then show "unat ptr \<le> unat (align_for alignment ptr)"
    "unat (align_for alignment ptr) < unat ptr + unat alignment" using a by simp_all
  define k where "k = unat ptr div unat alignment"
  have p: "unat ptr = unat alignment * k + m" by (simp add: m_def k_def)
  show "unat (align_for alignment ptr) mod unat alignment = 0"
  proof (cases "m = 0")
    case True
    then show ?thesis unfolding u p by simp
  next
    case False
    then have "unat ptr + (unat alignment - m) mod unat alignment = unat alignment * (k + 1)"
      using m unfolding p by (simp add: algebra_simps)
    then show ?thesis unfolding u by simp
  qed
qed

subsection \<open>The queue provides the interface\<close>

definition rwq_holds :: "'a rwq \<Rightarrow> 'a list \<Rightarrow> bool" where
  "rwq_holds q xs \<longleftrightarrow> (\<exists>r. represents q xs r)"

lemma enqueue_mem:
  assumes "represents q xs r"
  shows "\<exists>q' r'. enqueue True x q = Inr (True, q') \<and> represents q' (xs @ [x]) r'"
  using inner_enqueue_correct [OF assms, of CanAlloc True x]
  by (auto simp: enqueue_def split: if_splits)

lemma enqueue_any:
  assumes "represents q xs r"
  shows "\<exists>ok q' r'. enqueue mem x q = Inr (ok, q') \<and> represents q' (if ok then xs @ [x] else xs) r'"
  using inner_enqueue_correct [OF assms, of CanAlloc mem x]
  by (fastforce simp: enqueue_def split: if_splits)

interpretation rwq: sized_fifo enqueue try_dequeue rwq_holds size_approx
proof unfold_locales
  fix q :: "'a rwq" and xs x mem
  show "rwq_holds q xs \<Longrightarrow> \<exists>q'. enqueue True x q = Inr (True, q') \<and> rwq_holds q' (xs @ [x])"
    unfolding rwq_holds_def by (elim exE) (drule enqueue_mem, blast)
  show "rwq_holds q xs \<Longrightarrow>
      \<exists>ok q'. enqueue mem x q = Inr (ok, q') \<and> rwq_holds q' (if ok then xs @ [x] else xs)"
    unfolding rwq_holds_def by (elim exE) (drule enqueue_any, blast)
  show "rwq_holds q [] \<Longrightarrow> \<exists>q'. try_dequeue q = Inr (None, q') \<and> rwq_holds q' []"
    unfolding rwq_holds_def by (elim exE) (drule consumer_Nil, blast)
  show "rwq_holds q (x # xs) \<Longrightarrow> \<exists>q'. try_dequeue q = Inr (Some x, q') \<and> rwq_holds q' xs"
    unfolding rwq_holds_def by (elim exE) (drule consumer_Cons, blast)
  show "rwq_holds q xs \<Longrightarrow> size_approx q = Inr (of_nat (length xs))"
    unfolding rwq_holds_def by (elim exE) (drule size_approx_correct, blast)
qed

text \<open>The test before every read of a command, on a queue that can hold a byte stream.\<close>

definition poll :: "'a rwq \<Rightarrow> ('a option \<times> 'a rwq) res" where
  "poll q = poll_with size_approx try_dequeue q"

lemmas poll_Nil = rwq.poll_Nil [folded poll_def]
lemmas poll_Cons = rwq.poll_Cons [folded poll_def]

subsection \<open>The default queue\<close>

text \<open>The queue of the servers: \<open>ReaderWriterQueue<uint8_t> rx, tx\<close>, with the default size 15.\<close>

definition default_queue :: "'a rwq" where
  "default_queue = \<lparr>heap = [(new_block 16)\<lparr>next_blk := Some 0\<rparr>], frontBlock = 0, tailBlock = 0,
     largestBlockSize = 16\<rparr>"

lemma new_queue_default: "new_queue (\<lambda>_. True) 15 = Inr default_queue"
proof -
  have "ceilToPow2 16 = 16" using ceilToPow2_mask [of 15 4] by simp
  then show ?thesis by (simp add: new_queue_def make_block_def default_queue_def MAX_BLOCK_SIZE_def)
qed

lemma default_queue_represents: "represents default_queue [] 15"
  using init_heap_represents [of 1 4 16] by (simp add: init_heap_def default_queue_def)

lemma default_queue_holds: "rwq_holds default_queue []"
  using default_queue_represents unfolding rwq_holds_def by blast

subsection \<open>Properties\<close>

text \<open>
  C1. A queue constructed for any number of elements answers every sequence of enqueues (with
  memory available) and dequeues as the abstract first-in first-out queue does: no element is
  lost, duplicated or reordered, no assertion fails and no cell is read before it was written.
\<close>

theorem rwq_refines_fifo:
  assumes "0 < capacity" "unat capacity < 2 ^ 32"
  shows "\<exists>(q :: 'a rwq) q'. new_queue (\<lambda>_. True) capacity = Inr q \<and>
    impl_run enqueue try_dequeue ops q = Inr (fst (spec_run ops []), q') \<and>
    rwq_holds q' (snd (spec_run ops []))"
proof -
  have "\<exists>(q :: 'a rwq) r. new_queue (\<lambda>_. True) capacity = Inr q \<and> represents q [] r \<and>
      unat capacity \<le> r"
    by (rule new_queue_correct [OF assms]) simp
  then obtain q :: "'a rwq" and r where
    q: "new_queue (\<lambda>_. True) capacity = Inr q" and "represents q [] r" by blast
  then have "rwq_holds q []" unfolding rwq_holds_def by blast
  from rwq.run_refines [OF this, of ops] q show ?thesis by blast
qed

theorem rwq_refines_fifo_witness:
  "\<exists>q q'. new_queue (\<lambda>_. True) 1 = Inr q \<and>
    impl_run enqueue try_dequeue [Enq 10, Enq 20, Deq, Enq (30 :: u8), Deq, Deq, Deq] q =
      Inr ([Some 10, Some 20, Some 30, None], q') \<and> rwq_holds q' []"
proof -
  have h: "0 < (1 :: size_t)" "unat (1 :: size_t) < 2 ^ 32" by simp_all
  have s: "spec_run [Enq 10, Enq 20, Deq, Enq (30 :: u8), Deq, Deq, Deq] [] =
    ([Some 10, Some 20, Some 30, None], [])" by simp
  from rwq_refines_fifo [OF h, of "[Enq 10, Enq 20, Deq, Enq (30 :: u8), Deq, Deq, Deq]"]
  show ?thesis unfolding s fst_conv snd_conv .
qed

text \<open>
  C11. What an enqueue does is decided by the spare room \<open>r\<close> of the queue. With room, both forms
  append the element and use up one place. Without room, \<open>try_enqueue\<close> returns false, \<open>enqueue\<close>
  appends the element in a new block, and if no memory is found for the block it returns false;
  where false is returned the elements are unchanged.
\<close>

theorem enqueue_spec:
  assumes "represents q xs r"
  shows "(0 < r \<longrightarrow> (\<exists>q'. try_enqueue x q = Inr (True, q') \<and> represents q' (xs @ [x]) (r - 1)) \<and>
      (\<exists>q'. enqueue mem x q = Inr (True, q') \<and> represents q' (xs @ [x]) (r - 1))) \<and>
    (r = 0 \<longrightarrow> (\<exists>q'. try_enqueue x q = Inr (False, q') \<and> represents q' xs 0) \<and>
      (\<exists>q'. enqueue False x q = Inr (False, q') \<and> represents q' xs 0) \<and>
      (\<exists>q' r'. enqueue True x q = Inr (True, q') \<and> represents q' (xs @ [x]) r'))"
  using inner_enqueue_correct [OF assms, of CannotAlloc False x]
    inner_enqueue_correct [OF assms, of CanAlloc False x]
    inner_enqueue_correct [OF assms, of CanAlloc True x]
    inner_enqueue_correct [OF assms, of CanAlloc mem x]
  unfolding try_enqueue_def enqueue_def by auto

theorem enqueue_spec_witness:
  "\<exists>q. try_enqueue (7 :: u8) default_queue = Inr (True, q) \<and> represents q [7] 14"
  using enqueue_spec [OF default_queue_represents, of "7 :: u8"] by simp

fun try_enqueue_all :: "'a list \<Rightarrow> 'a rwq \<Rightarrow> (bool list \<times> 'a rwq) res" where
  "try_enqueue_all [] q = Inr ([], q)"
| "try_enqueue_all (x # xs) q =
     bindE (try_enqueue x q) (\<lambda>(ok, q).
     bindE (try_enqueue_all xs q) (\<lambda>(oks, q). Inr (ok # oks, q)))"

lemma try_enqueue_all_room:
  "represents q ys r \<Longrightarrow> \<exists>q'. try_enqueue_all xs q =
      Inr (replicate (min r (length xs)) True @ replicate (length xs - r) False, q') \<and>
    represents q' (ys @ take r xs) (r - length xs)"
proof (induction xs arbitrary: q ys r)
  case (Cons x xs)
  show ?case
  proof (cases r)
    case 0
    with inner_enqueue_correct [OF Cons.prems, of CannotAlloc False x] obtain q1 where
      "try_enqueue x q = Inr (False, q1)" "represents q1 ys 0" by (auto simp: try_enqueue_def)
    with Cons.IH [of q1 ys 0] 0 show ?thesis by auto
  next
    case (Suc n)
    with inner_enqueue_correct [OF Cons.prems, of CannotAlloc False x] obtain q1 where
      "try_enqueue x q = Inr (True, q1)" "represents q1 (ys @ [x]) n" by (auto simp: try_enqueue_def)
    with Cons.IH [of q1 "ys @ [x]" n] Suc show ?thesis by auto
  qed
qed simp

text \<open>
  C10. A queue constructed for \<open>capacity\<close> elements takes that many without allocating: of any
  list of attempts, the first \<open>capacity\<close> succeed.
\<close>

theorem capacity_without_allocation:
  assumes "0 < capacity" "unat capacity < 2 ^ 32" "length xs \<le> unat capacity"
  shows "\<exists>(q :: 'a rwq) q'. new_queue (\<lambda>_. True) capacity = Inr q \<and>
    try_enqueue_all xs q = Inr (replicate (length xs) True, q') \<and> rwq_holds q' xs"
proof -
  have "\<exists>(q :: 'a rwq) r. new_queue (\<lambda>_. True) capacity = Inr q \<and> represents q [] r \<and>
      unat capacity \<le> r"
    by (rule new_queue_correct [OF assms(1,2)]) simp
  then obtain q :: "'a rwq" and r where
    q: "new_queue (\<lambda>_. True) capacity = Inr q" "represents q [] r" "unat capacity \<le> r" by blast
  with try_enqueue_all_room [OF q(2), of xs] assms(3) show ?thesis
    unfolding rwq_holds_def by (auto simp: min_absorb2)
qed

theorem capacity_without_allocation_witness:
  "\<exists>(q :: bool rwq) q'. new_queue (\<lambda>_. True) 2 = Inr q \<and>
    try_enqueue_all [True, False] q = Inr ([True, True], q') \<and> rwq_holds q' [True, False]"
proof -
  have h: "0 < (2 :: size_t)" "unat (2 :: size_t) < 2 ^ 32" "length [True, False] \<le> unat (2 :: size_t)"
    by simp_all
  have r: "replicate (length [True, False]) True = [True, True]" by simp
  show ?thesis using capacity_without_allocation [OF h] unfolding r .
qed

text \<open>
  C12. \<open>try_dequeue\<close> returns and removes the first element, \<open>peek\<close> returns it and leaves the
  elements as they are, \<open>pop\<close> removes it; on an empty queue they report so and change nothing.
  None of them makes the spare room smaller.
\<close>

theorem consumer_spec:
  assumes "represents q xs r"
  shows "\<exists>q1 q2 q3 r2 r3.
    peek q = Inr (case xs of [] \<Rightarrow> None | x # _ \<Rightarrow> Some x, q1) \<and> represents q1 xs r \<and>
    try_dequeue q = Inr (case xs of [] \<Rightarrow> None | x # _ \<Rightarrow> Some x, q2) \<and>
    represents q2 (drop 1 xs) r2 \<and> r \<le> r2 \<and>
    pop q = Inr (xs \<noteq> [], q3) \<and> represents q3 (drop 1 xs) r3 \<and> r \<le> r3"
proof (cases xs)
  case Nil
  with consumer_Nil [of q r] assms show ?thesis by (auto intro!: exI [of _ r])
next
  case (Cons x ys)
  with consumer_Cons [of q x ys r] assms obtain q1 q' r'
    where "peek q = Inr (Some x, q1)" "represents q1 xs r" "try_dequeue q = Inr (Some x, q')"
      "pop q = Inr (True, q')" "represents q' ys r'" "r \<le> r'"
    by blast
  then show ?thesis unfolding Cons by (auto intro!: exI [of _ q'] exI [of _ r'] exI [of _ q1])
qed

theorem consumer_spec_witness:
  "\<exists>q. try_dequeue (default_queue :: u8 rwq) = Inr (None, q) \<and> rwq_holds q []"
  using consumer_spec [OF default_queue_represents] unfolding rwq_holds_def by fastforce

text \<open>
  Without concurrent access \<open>size_approx\<close> is the number of elements, modulo the width of
  \<open>size_t\<close>, and \<open>max_capacity\<close> of an empty queue is the number of elements that can be enqueued
  without an allocation. Both walks end: they come back to the front block.
\<close>

theorem size_and_capacity:
  assumes "represents q xs r"
  shows "size_approx q = Inr (of_nat (length xs)) \<and> (xs = [] \<longrightarrow> max_capacity q = Inr (of_nat r))"
  using size_approx_correct [OF assms] max_capacity_correct [of q r] assms by blast

theorem size_and_capacity_witness:
  "size_approx (default_queue :: u8 rwq) = Inr 0 \<and> max_capacity (default_queue :: u8 rwq) = Inr 15"
  using size_and_capacity [OF default_queue_represents] by simp

text \<open>
  C14. The destructor destroys every element left in the queue once, in the order of the queue,
  and frees every block once, never using a block it has freed.
\<close>

theorem destructor_spec:
  assumes "represents q xs r"
  shows "\<exists>freed. destruct q = Inr (xs, freed) \<and> distinct freed \<and> set freed = {..<length (heap q)}"
  using assms by (rule destruct_correct)

theorem destructor_spec_witness:
  "\<exists>freed. destruct (default_queue :: u8 rwq) = Inr ([], freed) \<and> distinct freed \<and> set freed = {0}"
  using destructor_spec [OF default_queue_represents] by (auto simp: default_queue_def)

text \<open>
  \<open>ceilToPow2\<close> computes the least power of two that is not less than its argument, for
  arguments from 1 to 2 to the power 63.
\<close>

theorem ceilToPow2_spec:
  assumes "0 < unat x" "unat x \<le> 2 ^ 63"
  shows "\<exists>n < 64. ceilToPow2 x = 2 ^ n \<and> unat x \<le> 2 ^ n \<and> (\<forall>m. unat x \<le> 2 ^ m \<longrightarrow> n \<le> m)"
  using assms by (rule ceilToPow2_least)

theorem ceilToPow2_spec_witness:
  "\<exists>n < 64. ceilToPow2 1000 = 2 ^ n \<and> (1000::nat) \<le> 2 ^ n \<and> (\<forall>m. (1000::nat) \<le> 2 ^ m \<longrightarrow> n \<le> m)"
  using ceilToPow2_spec [of 1000] by simp

text \<open>
  C13. Moving a queue hands its elements and room to the new queue, and leaves the old one empty
  and usable, with room for 31 elements.
\<close>

theorem move_spec:
  assumes "represents q xs r"
  shows "\<exists>q' e. move_queue True q = Inr (q', e) \<and> represents q' xs r \<and> represents e [] 31"
  using assms by (rule move_queue_correct)

theorem move_spec_witness:
  "\<exists>q' e. move_queue True (default_queue :: u8 rwq) = Inr (q', e) \<and> represents q' [] 15 \<and> represents e [] 31"
  using move_spec [OF default_queue_represents] .

text \<open>
  The memory \<open>make_block\<close> asks for is enough: the block and its elements lie inside it, one
  after the other, each at an address that is a multiple of the alignment of its type.
\<close>

theorem block_layout_fits:
  assumes align: "0 < alignBlock" "0 < alignT"
    and fits: "unat newBlockRaw + unat sizeofBlock + unat alignBlock + unat sizeofT * unat capacity +
      unat alignT < 2 ^ 64"
    and layout: "block_layout sizeofBlock alignBlock alignT newBlockRaw = (blk, dat)"
  shows "unat newBlockRaw \<le> unat blk \<and> unat blk mod unat alignBlock = 0 \<and>
    unat blk + unat sizeofBlock \<le> unat dat \<and> unat dat mod unat alignT = 0 \<and>
    unat dat + unat sizeofT * unat capacity \<le>
      unat newBlockRaw + unat (block_bytes sizeofBlock alignBlock sizeofT alignT capacity)"
proof -
  have a: "0 < unat alignBlock" "0 < unat alignT" using align by (simp_all add: word_less_nat_alt)
  have blk: "blk = align_for alignBlock newBlockRaw" "dat = align_for alignT (blk + sizeofBlock)"
    using layout by (auto simp: block_layout_def Let_def)
  have 1: "unat blk mod unat alignBlock = 0" "unat newBlockRaw \<le> unat blk"
    "unat blk < unat newBlockRaw + unat alignBlock"
    unfolding blk(1) using align(1) fits by (intro align_for_bounds; simp)+
  then have s: "unat (blk + sizeofBlock) = unat blk + unat sizeofBlock"
    using fits by (simp add: unat_word_ariths)
  have 2: "unat dat mod unat alignT = 0" "unat blk + unat sizeofBlock \<le> unat dat"
    "unat dat < unat blk + unat sizeofBlock + unat alignT"
    unfolding blk(2) s [symmetric] using align(2) fits 1 s by (intro align_for_bounds; simp)+
  have m: "unat (sizeofT * capacity) = unat sizeofT * unat capacity"
    using fits by (simp add: unat_word_ariths)
  define total where "total = sizeofBlock + alignBlock + (sizeofT * capacity + alignT)"
  have total: "unat total =
      unat sizeofBlock + unat alignBlock + (unat sizeofT * unat capacity + unat alignT)"
    using fits m unfolding total_def by (simp add: unat_word_ariths)
  then have "2 \<le> unat total" using a by linarith
  then have "unat (total - 2) = unat total - 2" by (simp add: unat_sub word_le_nat_alt)
  moreover have "block_bytes sizeofBlock alignBlock sizeofT alignT capacity = total - 2"
    by (simp add: block_bytes_def total_def)
  ultimately have "unat (block_bytes sizeofBlock alignBlock sizeofT alignT capacity) = unat total - 2"
    by simp
  with 1 2 total a show ?thesis by linarith
qed

theorem block_layout_fits_witness:
  "\<exists>blk dat. block_layout 192 8 1 1003 = (blk, dat) \<and> unat blk mod 8 = 0 \<and>
     unat dat + 16 \<le> 1003 + unat (block_bytes 192 8 1 1 16)"
proof -
  obtain blk dat where l: "block_layout 192 8 1 1003 = (blk, dat)" by fastforce
  have "0 < (8::u64)" "0 < (1::u64)" "unat (1003::u64) + unat (192::u64) + unat (8::u64) +
    unat (1::u64) * unat (16::u64) + unat (1::u64) < 2 ^ 64" by simp_all
  from block_layout_fits [OF this l] l show ?thesis by simp
qed

end
