(* ===== verification/Server.thy ===== *)
theory Server
  imports Rw_Queue_Correct
begin

text \<open>
  The TCP server the simulated ports share (\<open>Server.cpp\<close>, \<open>Server.h\<close>, \<open>err.h\<close>). The thread that
  runs \<open>Listen\<close> moves bytes from the socket to the queue \<open>tx\<close> and from the queue \<open>rx\<close> to the
  socket, while the simulation thread reads \<open>tx\<close> and writes \<open>rx\<close>. \<open>Listen\<close> is a machine that
  performs one call per step, the operating system answers each call, and the two threads
  interleave step by step.
\<close>

subsection \<open>The object\<close>

text \<open>
  \<open>running\<close> is not initialised by the constructor: \<open>None\<close> is the indeterminate value. \<open>thread_id\<close>
  tells only whether a thread was created.
\<close>

record server =
  name :: string
  sockfd :: "int option"
  port :: "u16 option"
  thread_id :: "unit option"
  debug :: bool
  running :: "bool option"
  rx :: "u8 rwq"
  tx :: "u8 rwq"
  period :: u32

text \<open>The constructor: \<open>mem\<close> answers the allocations of the two queues, \<open>rx\<close> first.\<close>

definition new_server :: "bool \<Rightarrow> bool \<Rightarrow> string \<Rightarrow> u32 \<Rightarrow> bool \<Rightarrow> server res" where
  "new_server mem_rx mem_tx nm per dbg =
     bindE (new_queue (\<lambda>_. mem_rx) 15) (\<lambda>r.
     bindE (new_queue (\<lambda>_. mem_tx) 15) (\<lambda>t.
       Inr \<lparr>name = nm, sockfd = None, port = None, thread_id = None, debug = dbg,
            running = None, rx = r, tx = t, period = per\<rparr>))"

text \<open>\<open>fail (msg)\<close>.\<close>

definition fail :: "string \<Rightarrow> 'a res" where
  "fail msg = Inl (Exit msg)"

text \<open>\<open>Start\<close>: \<open>rv\<close> is the answer of \<open>pthread_create\<close>.\<close>

definition Start :: "u16 \<Rightarrow> int \<Rightarrow> server \<Rightarrow> server res" where
  "Start p rv s =
     (let s = s\<lparr>port := Some p\<rparr>
      in if rv \<noteq> 0 then fail ''Failed to spawn thread!'' else Inr (s\<lparr>thread_id := Some ()\<rparr>))"

text \<open>
  The destructor up to the join: it clears \<open>running\<close> if it is set. Reading it before \<open>Listen\<close>
  has set it reads an indeterminate value.
\<close>

definition Stop :: "server \<Rightarrow> server res" where
  "Stop s = (case running s of
     None \<Rightarrow> Inl UninitRead
   | Some r \<Rightarrow> Inr (if r then s\<lparr>running := Some False\<rparr> else s))"

text \<open>
  The whole destructor, once the thread has ended: the members \<open>tx\<close> and \<open>rx\<close> are destroyed.
\<close>

definition delete_server :: "server \<Rightarrow> unit res" where
  "delete_server s =
     bindE (Stop s) (\<lambda>s. bindE (destruct (tx s)) (\<lambda>_. bindE (destruct (rx s)) (\<lambda>_. Inr ())))"

subsection \<open>The thread\<close>

text \<open>
  Where the thread is: before the calls that open the socket, in \<open>accept\<close>, at the head of the
  loop, in the loop over \<open>cmd\<close> with the bytes left to queue, at the test of \<open>rx\<close>, in the loop
  that fills \<open>resp\<close>, in \<open>Send\<close>, or after \<open>done\<close>.
\<close>

datatype listen_pc =
    Opening | Accepting | Looping | Queueing "u8 list" | Checking
  | Emptying "u8 list" | Sending "u8 list" | Terminated

text \<open>
  The answers of the operating system to the calls of one step. \<open>read_data\<close> is \<open>None\<close> when \<open>read\<close>
  returns a negative number, and the bytes read otherwise; \<open>malloc_ok\<close> that of \<open>malloc\<close>.
\<close>

record os =
  socket_rv :: int
  setsockopt_rv :: int
  bind_rv :: int
  accept_rv :: int
  read_data :: "u8 list option"
  write_rv :: int
  malloc_ok :: bool

text \<open>
  The system, with what went through it so far (no step depends on that record): the bytes read
  from sockets, those that were queued in \<open>tx\<close>, those the simulation took from \<open>tx\<close>, those it
  queued in \<open>rx\<close>, those passed to \<open>write\<close>, and those \<open>write\<close> accepted.
\<close>

record link =
  srv :: server
  pc :: listen_pc
  from_host :: "u8 list"
  queued :: "u8 list"
  to_sim :: "u8 list"
  from_sim :: "u8 list"
  passed :: "u8 list"
  to_host :: "u8 list"

text \<open>\<open>Send\<close>: with \<open>debug\<close> the buffer of 256 bytes is terminated at \<open>len\<close>.\<close>

definition Send :: "os \<Rightarrow> u8 list \<Rightarrow> link \<Rightarrow> link res" where
  "Send os buf s =
     (if debug (srv s) \<and> 256 \<le> length buf then Inl OutOfBounds
      else let rv = write_rv os
           in if rv < 0 then fail ''ERROR writing to socket''
              else Inr (s\<lparr>passed := passed s @ buf, to_host := to_host s @ take (nat rv) buf\<rparr>))"

text \<open>One step of \<open>Listen\<close>.\<close>

fun listen_at :: "listen_pc \<Rightarrow> os \<Rightarrow> link \<Rightarrow> link res" where
  "listen_at Opening os s =
     (let s = s\<lparr>srv := (srv s)\<lparr>running := Some True\<rparr>\<rparr>
      in if socket_rv os < 0 then fail ''ERROR opening socket''
         else if setsockopt_rv os < 0 then fail ''setsockopt(SO_REUSEADDR) failed''
         else if bind_rv os < 0 then fail ''ERROR on binding''
         else Inr (s\<lparr>srv := (srv s)\<lparr>sockfd := Some (socket_rv os)\<rparr>, pc := Accepting\<rparr>))"
| "listen_at Accepting os s =
     (if accept_rv os < 0 then fail ''ERROR on accept'' else Inr (s\<lparr>pc := Looping\<rparr>))"
| "listen_at Looping os s =
     (case running (srv s) of
        None \<Rightarrow> Inl UninitRead
      | Some False \<Rightarrow> Inr (s\<lparr>pc := Terminated\<rparr>)
      | Some True \<Rightarrow>
          (case read_data os of
             None \<Rightarrow> Inr (s\<lparr>pc := Checking\<rparr>)
           | Some bs \<Rightarrow>
               if bs = [] then Inr (s\<lparr>pc := Accepting\<rparr>)
               else if debug (srv s) \<and> 256 \<le> length bs then Inl OutOfBounds
               else Inr (s\<lparr>pc := Queueing bs, from_host := from_host s @ bs\<rparr>)))"
| "listen_at (Queueing []) os s = Inr (s\<lparr>pc := Checking\<rparr>)"
| "listen_at (Queueing (b # bs)) os s =
     bindE (enqueue (malloc_ok os) b (tx (srv s))) (\<lambda>(ok, q).
       Inr (s\<lparr>srv := (srv s)\<lparr>tx := q\<rparr>, pc := Queueing bs,
              queued := (if ok then queued s @ [b] else queued s)\<rparr>))"
| "listen_at Checking os s =
     bindE (size_approx (rx (srv s))) (\<lambda>n.
       Inr (s\<lparr>pc := (if n \<noteq> 0 then Emptying [] else Looping)\<rparr>))"
| "listen_at (Emptying resp) os s =
     (if length resp < 256 then
        bindE (try_dequeue (rx (srv s))) (\<lambda>(val, q).
          Inr (s\<lparr>srv := (srv s)\<lparr>rx := q\<rparr>,
                 pc := (case val of None \<Rightarrow> Sending resp | Some v \<Rightarrow> Emptying (resp @ [v]))\<rparr>))
      else Inr (s\<lparr>pc := Sending resp\<rparr>))"
| "listen_at (Sending resp) os s = bindE (Send os resp s) (\<lambda>s. Inr (s\<lparr>pc := Looping\<rparr>))"
| "listen_at Terminated os s = Inr s"

definition listen :: "os \<Rightarrow> link \<Rightarrow> link res" where
  "listen os s = listen_at (pc s) os s"

text \<open>What \<open>read\<close> and \<open>write\<close> can answer: at most as many bytes as the call asks for.\<close>

definition os_ok :: "os \<Rightarrow> link \<Rightarrow> bool" where
  "os_ok os s \<longleftrightarrow>
     (case read_data os of None \<Rightarrow> True | Some bs \<Rightarrow> length bs \<le> 255) \<and>
     (case pc s of Sending resp \<Rightarrow> write_rv os \<le> int (length resp) | _ \<Rightarrow> True)"

subsection \<open>The simulation thread\<close>

text \<open>
  The two operations of the simulation, as the servers for the ports use them: take a byte, if
  there is one, and queue one.
\<close>

definition sim_get :: "link \<Rightarrow> (u8 option \<times> link) res" where
  "sim_get s = bindE (poll (tx (srv s))) (\<lambda>(r, q).
     Inr (r, s\<lparr>srv := (srv s)\<lparr>tx := q\<rparr>,
               to_sim := to_sim s @ (case r of None \<Rightarrow> [] | Some b \<Rightarrow> [b])\<rparr>))"

definition sim_put :: "bool \<Rightarrow> u8 \<Rightarrow> link \<Rightarrow> (bool \<times> link) res" where
  "sim_put m b s = bindE (enqueue m b (rx (srv s))) (\<lambda>(ok, q).
     Inr (ok, s\<lparr>srv := (srv s)\<lparr>rx := q\<rparr>,
                from_sim := (if ok then from_sim s @ [b] else from_sim s)\<rparr>))"

definition sim_stop :: "link \<Rightarrow> link res" where
  "sim_stop s = bindE (Stop (srv s)) (\<lambda>v. Inr (s\<lparr>srv := v\<rparr>))"

text \<open>The interleaving of the two threads. \<open>lossless\<close> steps are given all the memory they ask
  for, and their writes are not cut short.\<close>

inductive sys_step :: "link \<Rightarrow> link \<Rightarrow> bool" where
  Thread: "os_ok os s \<Longrightarrow> listen os s = Inr s' \<Longrightarrow> sys_step s s'"
| Get: "sim_get s = Inr (r, s') \<Longrightarrow> sys_step s s'"
| Put: "sim_put m b s = Inr (ok, s') \<Longrightarrow> sys_step s s'"
| Halt: "sim_stop s = Inr s' \<Longrightarrow> sys_step s s'"

definition os_lossless :: "os \<Rightarrow> link \<Rightarrow> bool" where
  "os_lossless os s \<longleftrightarrow> os_ok os s \<and> malloc_ok os \<and>
     (case pc s of Sending resp \<Rightarrow> write_rv os = int (length resp) | _ \<Rightarrow> True)"

inductive lossless_step :: "link \<Rightarrow> link \<Rightarrow> bool" where
  Thread: "os_lossless os s \<Longrightarrow> listen os s = Inr s' \<Longrightarrow> lossless_step s s'"
| Get: "sim_get s = Inr (r, s') \<Longrightarrow> lossless_step s s'"
| Put: "sim_put m b s = Inr (ok, s') \<Longrightarrow> lossless_step s s'"
| Halt: "sim_stop s = Inr s' \<Longrightarrow> lossless_step s s'"

definition started :: "server \<Rightarrow> link" where
  "started v = \<lparr>srv = v, pc = Opening, from_host = [], queued = [], to_sim = [], from_sim = [],
     passed = [], to_host = []\<rparr>"

subsection \<open>The streams\<close>

text \<open>The bytes the thread holds in its buffers: those to be queued, and those to be sent.\<close>

fun in_cmd :: "listen_pc \<Rightarrow> u8 list" where
  "in_cmd (Queueing bs) = bs"
| "in_cmd _ = []"

fun in_resp :: "listen_pc \<Rightarrow> u8 list" where
  "in_resp (Emptying bs) = bs"
| "in_resp (Sending bs) = bs"
| "in_resp _ = []"

text \<open>
  The invariant: both queues are well formed, what was queued is what the simulation took and
  what is left in \<open>tx\<close>, and what the simulation queued is what was passed to \<open>write\<close>, what is in
  \<open>resp\<close> and what is left in \<open>rx\<close>.
\<close>

definition streams_ok :: "link \<Rightarrow> bool" where
  "streams_ok s \<longleftrightarrow>
     (\<exists>txs rxs. rwq_holds (tx (srv s)) txs \<and> rwq_holds (rx (srv s)) rxs \<and>
        queued s = to_sim s @ txs \<and> from_sim s = passed s @ in_resp (pc s) @ rxs) \<and>
     length (in_cmd (pc s)) \<le> 255 \<and> length (in_resp (pc s)) \<le> 256 \<and>
     (pc s \<noteq> Opening \<longrightarrow> running (srv s) \<noteq> None)"

lemma streams_okI:
  "rwq_holds (tx (srv s)) txs \<Longrightarrow> rwq_holds (rx (srv s)) rxs \<Longrightarrow> queued s = to_sim s @ txs \<Longrightarrow>
   from_sim s = passed s @ in_resp (pc s) @ rxs \<Longrightarrow> length (in_cmd (pc s)) \<le> 255 \<Longrightarrow>
   length (in_resp (pc s)) \<le> 256 \<Longrightarrow> (pc s \<noteq> Opening \<longrightarrow> running (srv s) \<noteq> None) \<Longrightarrow> streams_ok s"
  unfolding streams_ok_def by blast

lemma streams_okE:
  assumes "streams_ok s"
  obtains txs rxs where "rwq_holds (tx (srv s)) txs" "rwq_holds (rx (srv s)) rxs"
    "queued s = to_sim s @ txs" "from_sim s = passed s @ in_resp (pc s) @ rxs"
    "length (in_cmd (pc s)) \<le> 255" "length (in_resp (pc s)) \<le> 256"
    "pc s \<noteq> Opening \<Longrightarrow> running (srv s) \<noteq> None"
  using assms unfolding streams_ok_def by blast

lemma Send_result:
  assumes "Send os buf s = r"
  obtains (overflow) "debug (srv s)" "256 \<le> length buf" "r = Inl OutOfBounds"
    | (error) "write_rv os < 0" "r = Inl (Exit ''ERROR writing to socket'')"
    | (sent) "0 \<le> write_rv os" "\<not> (debug (srv s) \<and> 256 \<le> length buf)"
        "r = Inr (s\<lparr>passed := passed s @ buf, to_host := to_host s @ take (nat (write_rv os)) buf\<rparr>)"
  using assms by (auto simp: Send_def fail_def Let_def split: if_splits)

lemma listen_streams_ok:
  assumes ok: "streams_ok s" and os: "os_ok os s" and step: "listen os s = Inr s'"
  shows "streams_ok s'"
  using ok
proof (cases rule: streams_okE)
  case (1 txs rxs)
  show ?thesis
  proof (cases "pc s")
    case Opening
    with 1 step show ?thesis
      by (intro streams_okI [of _ txs rxs])
        (auto simp: listen_def fail_def Let_def split: if_splits)
  next
    case Accepting
    with 1 step show ?thesis
      by (intro streams_okI [of _ txs rxs]) (auto simp: listen_def fail_def split: if_splits)
  next
    case Looping
    with 1 step os show ?thesis
      by (intro streams_okI [of _ txs rxs])
        (auto simp: listen_def os_ok_def split: if_splits option.splits bool.splits)
  next
    case (Queueing bs)
    show ?thesis
    proof (cases bs)
      case Nil
      with Queueing 1 step show ?thesis
        by (intro streams_okI [of _ txs rxs]) (auto simp: listen_def)
    next
      case (Cons b cs)
      from rwq.enq_result [OF 1(1) refl, of "malloc_ok os" b] obtain w q' where
        q: "enqueue (malloc_ok os) b (tx (srv s)) = Inr (w, q')" "rwq_holds q' (if w then txs @ [b] else txs)" .
      with Queueing Cons 1 step show ?thesis
        by (intro streams_okI [of _ "if w then txs @ [b] else txs" rxs]) (auto simp: listen_def)
    qed
  next
    case Checking
    with 1 step show ?thesis
      by (intro streams_okI [of _ txs rxs]) (auto simp: listen_def bindE_eq_Inr)
  next
    case (Emptying resp)
    show ?thesis
    proof (cases "length resp < 256")
      case True
      show ?thesis
      proof (cases rule: rwq.deq_result [OF 1(2) refl, case_names empty first])
        case (empty q')
        with True Emptying 1 step show ?thesis
          by (intro streams_okI [of _ txs "[]"]) (auto simp: listen_def)
      next
        case (first q')
        with True Emptying 1 step show ?thesis
          by (intro streams_okI [of _ txs "tl rxs"]) (auto simp: listen_def)
      qed
    next
      case False
      with Emptying 1 step show ?thesis
        by (intro streams_okI [of _ txs rxs]) (auto simp: listen_def)
    qed
  next
    case (Sending resp)
    with 1 step show ?thesis
      by (intro streams_okI [of _ txs rxs])
        (auto simp: listen_def bindE_eq_Inr Send_def fail_def Let_def split: if_splits)
  next
    case Terminated
    with 1 step show ?thesis
      by (intro streams_okI [of _ txs rxs]) (auto simp: listen_def)
  qed
qed

lemma sim_get_streams_ok:
  assumes "streams_ok s"
  shows "\<exists>r s'. sim_get s = Inr (r, s') \<and> streams_ok s' \<and> pc s' = pc s \<and> queued s' = queued s \<and>
    from_host s' = from_host s \<and> passed s' = passed s \<and> to_host s' = to_host s \<and> srv s' = (srv s)\<lparr>tx := tx (srv s')\<rparr>"
  using assms
proof (cases rule: streams_okE)
  case (1 txs rxs)
  show ?thesis
  proof (cases rule: rwq.poll_result [OF 1(1), folded poll_def, OF refl, case_names nothing first])
    case (nothing q')
    with 1 show ?thesis by (auto simp: sim_get_def intro!: streams_okI [of _ txs rxs])
  next
    case (first q')
    with 1 show ?thesis by (auto simp: sim_get_def intro!: streams_okI [of _ "tl txs" rxs])
  qed
qed

lemma sim_put_streams_ok:
  assumes "streams_ok s"
  shows "\<exists>ok s'. sim_put m b s = Inr (ok, s') \<and> streams_ok s' \<and> pc s' = pc s \<and> queued s' = queued s \<and>
    from_host s' = from_host s \<and> passed s' = passed s \<and> to_host s' = to_host s \<and>
    from_sim s' = from_sim s @ (if ok then [b] else []) \<and> srv s' = (srv s)\<lparr>rx := rx (srv s')\<rparr>"
  using assms
proof (cases rule: streams_okE)
  case (1 txs rxs)
  from rwq.enq_result [OF 1(2) refl, of m b] obtain w q' where
    "enqueue m b (rx (srv s)) = Inr (w, q')" "rwq_holds q' (if w then rxs @ [b] else rxs)" .
  with 1 show ?thesis
    by (auto simp: sim_put_def intro!: streams_okI [of _ txs "if w then rxs @ [b] else rxs"])
qed

lemma sim_stop_streams_ok:
  assumes "streams_ok s" "sim_stop s = Inr s'"
  shows "streams_ok s'"
  using assms(1)
proof (cases rule: streams_okE)
  case (1 txs rxs)
  with assms(2) show ?thesis
    by (intro streams_okI [of _ txs rxs])
      (auto simp: sim_stop_def Stop_def bindE_eq_Inr split: option.splits if_splits)
qed

lemma sys_step_streams_ok: "sys_step s s' \<Longrightarrow> streams_ok s \<Longrightarrow> streams_ok s'"
proof (induction rule: sys_step.induct)
  case (Get s r s')
  with sim_get_streams_ok [of s] show ?case by auto
next
  case (Put m b s ok s')
  with sim_put_streams_ok [of s m b] show ?case by auto
qed (auto intro: listen_streams_ok sim_stop_streams_ok)

lemma started_streams_ok:
  "rwq_holds (tx v) [] \<Longrightarrow> rwq_holds (rx v) [] \<Longrightarrow> streams_ok (started v)"
  by (rule streams_okI [of _ "[]" "[]"]) (simp_all add: started_def)


text \<open>When nothing is dropped and no write is cut short, the streams are those of the sockets.\<close>

definition lossless_ok :: "link \<Rightarrow> bool" where
  "lossless_ok s \<longleftrightarrow> from_host s = queued s @ in_cmd (pc s) \<and> to_host s = passed s"

lemma listen_lossless:
  assumes ok: "streams_ok s" "lossless_ok s" and os: "os_lossless os s" and step: "listen os s = Inr s'"
  shows "lossless_ok s'"
proof (cases "pc s")
  case (Queueing bs)
  show ?thesis
  proof (cases bs)
    case (Cons b cs)
    from ok(1) obtain txs where "rwq_holds (tx (srv s)) txs" by (auto elim: streams_okE)
    with rwq.enq_mem [of "tx (srv s)" txs b] obtain q' where "enqueue True b (tx (srv s)) = Inr (True, q')"
      by blast
    with Queueing Cons ok(2) os step show ?thesis
      by (auto simp: listen_def lossless_ok_def os_lossless_def)
  qed (use Queueing ok(2) step in \<open>auto simp: listen_def lossless_ok_def\<close>)
next
  case (Sending resp)
  with ok(2) os step show ?thesis
    by (auto simp: listen_def lossless_ok_def os_lossless_def bindE_eq_Inr Send_def fail_def Let_def
        split: if_splits)
qed (use ok(2) os step in \<open>auto simp: listen_def lossless_ok_def os_lossless_def os_ok_def bindE_eq_Inr
    fail_def Let_def split: if_splits option.splits bool.splits\<close>)

lemma lossless_step_ok:
  "lossless_step s s' \<Longrightarrow> streams_ok s \<and> lossless_ok s \<Longrightarrow> streams_ok s' \<and> lossless_ok s'"
proof (induction rule: lossless_step.induct)
  case (Thread os s s')
  then show ?case using listen_streams_ok listen_lossless unfolding os_lossless_def by blast
next
  case (Get s r s')
  with sim_get_streams_ok [of s] show ?case by (auto simp: lossless_ok_def)
next
  case (Put m b s ok s')
  with sim_put_streams_ok [of s m b] show ?case by (auto simp: lossless_ok_def)
next
  case (Halt s s')
  then show ?case using sim_stop_streams_ok [of s s']
    by (auto simp: lossless_ok_def sim_stop_def bindE_eq_Inr)
qed

lemma reachable_lossless:
  "lossless_step\<^sup>*\<^sup>* s s' \<Longrightarrow> streams_ok s \<and> lossless_ok s \<Longrightarrow> streams_ok s' \<and> lossless_ok s'"
  by (induction rule: rtranclp_induct) (use lossless_step_ok in blast)+

lemma reachable_streams_ok: "sys_step\<^sup>*\<^sup>* s s' \<Longrightarrow> streams_ok s \<Longrightarrow> streams_ok s'"
  by (induction rule: rtranclp_induct) (use sys_step_streams_ok in blast)+

lemma new_server_eq:
  "new_server True True nm per dbg = Inr \<lparr>name = nm, sockfd = None, port = None, thread_id = None,
     debug = dbg, running = None, rx = default_queue, tx = default_queue, period = per\<rparr>"
  by (simp add: new_server_def new_queue_default)

lemma started_ok:
  assumes "bindE (new_server True True nm per dbg) (Start p rv) = Inr v"
  shows "streams_ok (started v)" "lossless_ok (started v)"
  using assms default_queue_holds
  by (auto simp: new_server_eq Start_def Let_def fail_def lossless_ok_def started_def split: if_splits
      intro!: streams_okI [of _ "[]" "[]"])

lemma listen_fault:
  assumes ok: "streams_ok s" and os: "os_ok os s" and step: "listen os s = Inl e"
  shows "(\<exists>msg. e = Exit msg \<and> (pc s = Opening \<or> pc s = Accepting \<or> (\<exists>resp. pc s = Sending resp \<and> write_rv os < 0))) \<or>
    e = OutOfBounds \<and> debug (srv s) \<and> (\<exists>resp. pc s = Sending resp \<and> length resp = 256)"
  using ok
proof (cases rule: streams_okE)
  case (1 txs rxs)
  show ?thesis
  proof (cases "pc s")
    case (Queueing bs)
    with step rwq.enq_any [OF 1(1), of "malloc_ok os" "hd bs"] show ?thesis
      by (cases bs) (auto simp: listen_def)
  next
    case Checking
    with step rwq.count [OF 1(2)] show ?thesis by (auto simp: listen_def)
  next
    case (Emptying resp)
    with step 1 show ?thesis
      by (cases rule: rwq.deq_result [OF 1(2) refl]) (auto simp: listen_def split: if_splits)
  next
    case (Sending resp)
    with step 1 show ?thesis
      by (auto simp: listen_def bindE_eq_Inl Send_def fail_def Let_def split: if_splits)
  qed (use 1 step os in \<open>auto simp: listen_def os_ok_def fail_def Let_def
      split: if_splits option.splits bool.splits\<close>)
qed

subsection \<open>The thread gets on\<close>

fun listen_run :: "os list \<Rightarrow> link \<Rightarrow> link res" where
  "listen_run [] s = Inr s"
| "listen_run (os # oss) s = bindE (listen os s) (listen_run oss)"

text \<open>An operating system that has no data for \<open>read\<close>, and takes \<open>w\<close> bytes in a \<open>write\<close>.\<close>

definition quiet :: "int \<Rightarrow> os" where
  "quiet w = \<lparr>socket_rv = 3, setsockopt_rv = 0, bind_rv = 0, accept_rv = 4, read_data = None,
     write_rv = w, malloc_ok = True\<rparr>"

lemma listen_run_append:
  "listen_run (a @ b) s = bindE (listen_run a s) (listen_run b)"
proof (induction a arbitrary: s)
  case (Cons os a)
  then show ?case by (cases "listen os s") auto
qed simp

lemma listen_run_snoc:
  "listen_run (replicate (Suc k) q) s = bindE (listen_run (replicate k q) s) (listen q)"
proof -
  have "replicate (Suc k) q = replicate k q @ [q]" by (simp add: replicate_append_same)
  moreover have "listen_run [q] = listen q" by (rule ext) (simp add: bindE_def split: sum.splits)
  ultimately show ?thesis by (simp only: listen_run_append)
qed

lemma quiet_write [simp]: "write_rv (quiet w) = w"
  by (simp add: quiet_def)

lemma fill_resp:
  "rwq_holds (rx (srv s)) xs \<Longrightarrow> pc s = Emptying resp \<Longrightarrow> length resp + n = 256 \<Longrightarrow>
   \<exists>k q'. k \<le> n + 1 \<and> rwq_holds q' (drop n xs) \<and>
     listen_run (replicate k (quiet w)) s =
       Inr (s\<lparr>srv := (srv s)\<lparr>rx := q'\<rparr>, pc := Sending (resp @ take n xs)\<rparr>)"
proof (induction n arbitrary: s resp xs)
  case 0
  then show ?case by (intro exI [of _ "1"] exI [of _ "rx (srv s)"]) (auto simp: listen_def)
next
  case (Suc n)
  show ?case
  proof (cases rule: rwq.deq_result [OF Suc.prems(1) refl, case_names empty first])
    case (empty q')
    with Suc.prems show ?thesis
      by (intro exI [of _ "1"] exI [of _ q']) (auto simp: listen_def)
  next
    case (first q')
    let ?s = "s\<lparr>srv := (srv s)\<lparr>rx := q'\<rparr>, pc := Emptying (resp @ [hd xs])\<rparr>"
    have step: "listen (quiet w) s = Inr ?s" using first Suc.prems by (auto simp: listen_def)
    from Suc.IH [of ?s "tl xs" "resp @ [hd xs]"] first Suc.prems obtain k q'' where
      "k \<le> n + 1" "rwq_holds q'' (drop n (tl xs))"
      "listen_run (replicate k (quiet w)) ?s =
         Inr (?s\<lparr>srv := (srv ?s)\<lparr>rx := q''\<rparr>, pc := Sending ((resp @ [hd xs]) @ take n (tl xs))\<rparr>)"
      by auto
    with step first(1) show ?thesis
      by (intro exI [of _ "Suc k"] exI [of _ q'']) (cases xs; auto)
  qed
qed

text \<open>From the head of the loop on, one pass moves up to 256 bytes to the socket.\<close>

lemma pass_to_send:
  assumes rx: "rwq_holds (rx (srv s)) xs" "xs \<noteq> []" "length xs < 2 ^ 64"
    and at: "pc s = Looping" "running (srv s) = Some True"
  shows "\<exists>k q'. k \<le> 259 \<and> rwq_holds q' (drop 256 xs) \<and>
    listen_run (replicate k (quiet w)) s = Inr (s\<lparr>srv := (srv s)\<lparr>rx := q'\<rparr>, pc := Sending (take 256 xs)\<rparr>)"
proof -
  let ?s = "s\<lparr>pc := Emptying []\<rparr>"
  have "listen (quiet w) s = Inr (s\<lparr>pc := Checking\<rparr>)" using at by (simp add: listen_def quiet_def)
  moreover from rx rwq.count_pos [of "rx (srv s)" "hd xs" "tl xs"]
  have "listen (quiet w) (s\<lparr>pc := Checking\<rparr>) = Inr ?s" by (cases xs) (auto simp: listen_def)
  moreover from fill_resp [of ?s xs "[]" 256 w] rx obtain k q' where
    "k \<le> 257" "rwq_holds q' (drop 256 xs)"
    "listen_run (replicate k (quiet w)) ?s = Inr (s\<lparr>srv := (srv s)\<lparr>rx := q'\<rparr>, pc := Sending (take 256 xs)\<rparr>)"
    by auto
  ultimately show ?thesis
    by (intro exI [of _ "Suc (Suc k)"] exI [of _ q'])
      simp
qed


lemma lossy_step:
  assumes "sys_step s s'" "streams_ok s"
    and "subseq (queued s @ in_cmd (pc s)) (from_host s) \<and> subseq (to_host s) (passed s)"
  shows "subseq (queued s' @ in_cmd (pc s')) (from_host s') \<and> subseq (to_host s') (passed s')"
  using assms
proof (induction rule: sys_step.induct)
  case (Thread os s s')
  show ?case
  proof (cases "pc s")
    case (Queueing bs)
    show ?thesis
    proof (cases bs)
      case (Cons b cs)
      have "subseq (queued s @ cs) (queued s @ b # cs)" by (intro list_emb_append_mono) auto
      with Thread Queueing Cons show ?thesis
        by (auto simp: listen_def bindE_eq_Inr intro: subseq_order.trans)
    qed (use Queueing Thread in \<open>auto simp: listen_def\<close>)
  next
    case (Sending resp)
    have "subseq (take n resp) resp" for n by (simp add: prefix_imp_subseq take_is_prefix)
    with Sending Thread show ?thesis
      by (auto simp: listen_def bindE_eq_Inr Send_def fail_def Let_def list_emb_append_mono split: if_splits)
  qed (use Thread in \<open>auto simp: listen_def bindE_eq_Inr fail_def Let_def list_emb_append_mono
        split: if_splits option.splits bool.splits\<close>)
next
  case (Get s r s')
  with sim_get_streams_ok [of s] show ?case by auto
next
  case (Put m b s ok s')
  with sim_put_streams_ok [of s m b] show ?case by auto
next
  case (Halt s s')
  then show ?case by (auto simp: sim_stop_def bindE_eq_Inr)
qed

lemma reachable_lossy:
  assumes "sys_step\<^sup>*\<^sup>* s s'" "streams_ok s"
    and "subseq (queued s @ in_cmd (pc s)) (from_host s) \<and> subseq (to_host s) (passed s)"
  shows "subseq (queued s' @ in_cmd (pc s')) (from_host s') \<and> subseq (to_host s') (passed s')"
  using assms
proof (induction rule: rtranclp_induct)
  case (step s' s'')
  then show ?case using lossy_step [of s' s''] reachable_streams_ok [of s s'] by blast
qed

subsection \<open>The end of the thread\<close>

text \<open>The thread comes to its end, in a system that does nothing else.\<close>

definition ends :: "link \<Rightarrow> bool" where
  "ends s \<longleftrightarrow> (\<exists>k s'. listen_run (replicate k (quiet 0)) s = Inr s' \<and> pc s' = Terminated)"

lemma ends_run:
  assumes "listen_run (replicate k (quiet 0)) s = Inr s'" "ends s'"
  shows "ends s"
proof -
  from assms(2) obtain j s'' where "listen_run (replicate j (quiet 0)) s' = Inr s''" "pc s'' = Terminated"
    unfolding ends_def by blast
  with assms(1) have "listen_run (replicate (k + j) (quiet 0)) s = Inr s''"
    by (simp add: replicate_add listen_run_append)
  with \<open>pc s'' = Terminated\<close> show ?thesis unfolding ends_def by blast
qed

lemma ends_step: "listen (quiet 0) s = Inr s' \<Longrightarrow> ends s' \<Longrightarrow> ends s"
  by (rule ends_run [of 1]) simp_all

lemma ends_Looping:
  assumes "pc s = Looping" "running (srv s) = Some False"
  shows "ends s"
proof -
  have "listen_run (replicate 1 (quiet 0)) s = Inr (s\<lparr>pc := Terminated\<rparr>)"
    using assms by (simp add: listen_def)
  then show ?thesis unfolding ends_def by (intro exI conjI) (assumption, simp)
qed

lemma ends_Sending:
  assumes "pc s = Sending resp" "running (srv s) = Some False" "\<not> debug (srv s)"
  shows "ends s"
proof (rule ends_step)
  show "listen (quiet 0) s = Inr (s\<lparr>pc := Looping, passed := passed s @ resp\<rparr>)"
    using assms by (simp add: listen_def Send_def)
qed (use assms in \<open>simp add: ends_Looping\<close>)

lemma ends_Emptying:
  assumes "rwq_holds (rx (srv s)) xs" "pc s = Emptying resp" "length resp \<le> 256"
    and "running (srv s) = Some False" "\<not> debug (srv s)"
  shows "ends s"
proof -
  from fill_resp [OF assms(1,2), of "256 - length resp" 0] assms(3) obtain k q' where
    "listen_run (replicate k (quiet 0)) s = Inr (s\<lparr>srv := (srv s)\<lparr>rx := q'\<rparr>,
       pc := Sending (resp @ take (256 - length resp) xs)\<rparr>)" by auto
  then show ?thesis
    by (rule ends_run) (use assms in \<open>simp add: ends_Sending\<close>)
qed

lemma ends_Checking:
  assumes "rwq_holds (rx (srv s)) xs" "pc s = Checking"
    and "running (srv s) = Some False" "\<not> debug (srv s)"
  shows "ends s"
proof (rule ends_step)
  show "listen (quiet 0) s = Inr (s\<lparr>pc := if (of_nat (length xs) :: size_t) \<noteq> 0 then Emptying [] else Looping\<rparr>)"
    using assms rwq.count [OF assms(1)] by (simp add: listen_def)
qed (use assms in \<open>auto intro: ends_Looping ends_Emptying\<close>)

lemma ends_Queueing:
  assumes "rwq_holds (rx (srv s)) xs" "rwq_holds (tx (srv s)) txs" "pc s = Queueing bs"
    and "running (srv s) = Some False" "\<not> debug (srv s)"
  shows "ends s"
  using assms
proof (induction bs arbitrary: s txs)
  case Nil
  show ?case
    by (rule ends_step [of _ "s\<lparr>pc := Checking\<rparr>"])
      (use Nil in \<open>auto simp: listen_def intro: ends_Checking\<close>)
next
  case (Cons b bs)
  from rwq.enq_mem [OF Cons.prems(2), of b] obtain q' where
    q': "enqueue True b (tx (srv s)) = Inr (True, q')" "rwq_holds q' (txs @ [b])" by blast
  show ?case
    by (rule ends_step [of _ "s\<lparr>srv := (srv s)\<lparr>tx := q'\<rparr>, pc := Queueing bs, queued := queued s @ [b]\<rparr>"])
      (use Cons.prems q' in \<open>auto simp: listen_def quiet_def intro: Cons.IH\<close>)
qed

lemma ends_stopped:
  assumes "streams_ok s" "running (srv s) = Some False" "\<not> debug (srv s)"
    and "pc s \<noteq> Opening" "pc s \<noteq> Accepting"
  shows "ends s"
  using assms(1)
proof (cases rule: streams_okE)
  case (1 txs rxs)
  have "pc s = Terminated \<Longrightarrow> ends s"
    unfolding ends_def by (intro exI [of _ 0] exI [of _ s]) simp
  with 1 assms show ?thesis
    by (cases "pc s") (auto intro: ends_Looping ends_Sending ends_Emptying ends_Checking ends_Queueing)
qed

lemma quiet_run_streams_ok:
  "listen_run (replicate k (quiet 0)) s = Inr s' \<Longrightarrow> streams_ok s \<Longrightarrow> streams_ok s'"
proof (induction k arbitrary: s)
  case (Suc k)
  then obtain s1 where s1: "listen (quiet 0) s = Inr s1" "listen_run (replicate k (quiet 0)) s1 = Inr s'"
    by (auto simp: bindE_eq_Inr)
  have "os_ok (quiet 0) s" by (simp add: os_ok_def quiet_def split: listen_pc.split)
  with listen_streams_ok Suc.prems s1 have "streams_ok s1" by blast
  with Suc.IH s1 show ?case by blast
qed simp

lemma delete_ok:
  assumes "streams_ok s" "pc s = Terminated"
  shows "delete_server (srv s) = Inr ()"
  using assms(1)
proof (cases rule: streams_okE)
  case (1 txs rxs)
  from destruct_correct 1(1,2) obtain f1 f2 where
    "destruct (tx (srv s)) = Inr f1" "destruct (rx (srv s)) = Inr f2"
    unfolding rwq_holds_def by meson
  with 1 assms(2) show ?thesis
    by (auto simp: delete_server_def Stop_def split: option.splits)
qed

definition opening_ok :: "bool \<Rightarrow> link \<Rightarrow> bool" where
  "opening_ok dbg s \<longleftrightarrow> debug (srv s) = dbg \<and> (pc s = Opening \<longrightarrow> running (srv s) = None)"

lemma listen_opening_ok: "listen os s = Inr s' \<Longrightarrow> opening_ok dbg s \<Longrightarrow> opening_ok dbg s'"
  unfolding opening_ok_def
  by (cases "(pc s, os, s)" rule: listen_at.cases)
    (auto simp: listen_def bindE_eq_Inr Send_def fail_def Let_def
      split: if_splits option.splits bool.splits)

lemma sys_step_opening_ok:
  "sys_step s s' \<Longrightarrow> streams_ok s \<Longrightarrow> opening_ok dbg s \<Longrightarrow> opening_ok dbg s'"
proof (induction rule: sys_step.induct)
  case (Thread os s s')
  then show ?case by (blast intro: listen_opening_ok)
next
  case (Get s r s')
  then show ?case by (auto simp: opening_ok_def sim_get_def bindE_eq_Inr)
next
  case (Put m b s ok s')
  then show ?case by (auto simp: opening_ok_def sim_put_def bindE_eq_Inr)
next
  case (Halt s s')
  then show ?case
    by (auto simp: opening_ok_def sim_stop_def Stop_def bindE_eq_Inr split: option.splits if_splits)
qed

lemma reachable_opening_ok:
  "sys_step\<^sup>*\<^sup>* s s' \<Longrightarrow> streams_ok s \<Longrightarrow> opening_ok dbg s \<Longrightarrow> opening_ok dbg s'"
proof (induction rule: rtranclp_induct)
  case (step s' s'')
  then show ?case using sys_step_opening_ok reachable_streams_ok by blast
qed

subsection \<open>Properties\<close>

text \<open>
  C20. Both directions of the link are streams. In every interleaving of the two threads in
  which no allocation fails and no write is cut short, the bytes read from the socket are those
  the simulation took, those waiting in \<open>tx\<close> and those still in \<open>cmd\<close>, in this order, and the
  bytes the simulation queued are those the socket accepted, those in \<open>resp\<close> and those waiting
  in \<open>rx\<close>.
\<close>

theorem server_streams:
  assumes "bindE (new_server True True nm per dbg) (Start p rv) = Inr v"
    and "lossless_step\<^sup>*\<^sup>* (started v) s"
  shows "\<exists>txs rxs. rwq_holds (tx (srv s)) txs \<and> rwq_holds (rx (srv s)) rxs \<and>
    from_host s = to_sim s @ txs @ in_cmd (pc s) \<and> from_sim s = to_host s @ in_resp (pc s) @ rxs"
proof -
  from reachable_lossless [OF assms(2)] started_ok [OF assms(1)]
  have "streams_ok s" "lossless_ok s" by blast+
  then show ?thesis by (auto simp: lossless_ok_def elim!: streams_okE)
qed

definition example_server :: server where
  "example_server = \<lparr>name = ''JTAGServer'', sockfd = None, port = Some 2345, thread_id = Some (),
     debug = False, running = None, rx = default_queue, tx = default_queue, period = 8\<rparr>"

lemma example_server_starts:
  "bindE (new_server True True ''JTAGServer'' 8 False) (Start 2345 0) = Inr example_server"
  by (simp add: new_server_eq Start_def Let_def example_server_def)

text \<open>A run in which a client connects and sends the byte of \<open>'A'\<close>, and the simulation takes it.\<close>

definition one_byte :: os where
  "one_byte = (quiet 0)\<lparr>read_data := Some [0x41]\<rparr>"

lemma example_run:
  "\<exists>s. lossless_step\<^sup>*\<^sup>* (started example_server) s \<and> to_sim s = [0x41] \<and> from_host s = [0x41]"
proof -
  let ?v = "example_server\<lparr>running := Some True, sockfd := Some 3\<rparr>"
  let ?s1 = "(started example_server)\<lparr>srv := ?v, pc := Accepting\<rparr>"
  let ?s3 = "?s1\<lparr>pc := Queueing [0x41], from_host := [0x41]\<rparr>"
  from rwq.enq_mem [OF default_queue_holds, of "0x41 :: u8"] obtain q where
    q: "enqueue True (0x41 :: u8) default_queue = Inr (True, q)" "rwq_holds q [0x41]" by auto
  from poll_Cons [OF q(2)] obtain q' where q': "poll q = Inr (Some 0x41, q')" by auto
  let ?s4 = "?s3\<lparr>srv := ?v\<lparr>tx := q\<rparr>, pc := Queueing [], queued := [0x41]\<rparr>"
  let ?s5 = "?s4\<lparr>srv := ?v\<lparr>tx := q'\<rparr>, to_sim := [0x41]\<rparr>"
  have a1: "lossless_step (started example_server) ?s1"
    by (rule lossless_step.Thread [of one_byte])
      (simp_all add: os_lossless_def os_ok_def one_byte_def quiet_def listen_def started_def)
  have a2: "lossless_step ?s1 (?s1\<lparr>pc := Looping\<rparr>)"
    by (rule lossless_step.Thread [of one_byte])
      (simp_all add: os_lossless_def os_ok_def one_byte_def quiet_def listen_def started_def)
  have a3: "lossless_step (?s1\<lparr>pc := Looping\<rparr>) ?s3"
    by (rule lossless_step.Thread [of one_byte])
      (simp_all add: os_lossless_def os_ok_def one_byte_def quiet_def listen_def started_def
        example_server_def)
  have a4: "lossless_step ?s3 ?s4"
    by (rule lossless_step.Thread [of one_byte])
      (simp_all add: os_lossless_def os_ok_def one_byte_def quiet_def listen_def started_def
        example_server_def q(1))
  have a5: "lossless_step ?s4 ?s5"
    by (rule lossless_step.Get [of _ "Some 0x41"])
      (simp add: sim_get_def q' started_def)
  note more = rtranclp.rtrancl_into_rtrancl [of lossless_step]
  have "lossless_step\<^sup>*\<^sup>* (started example_server) ?s5"
    by (rule more [OF more [OF more [OF more [OF more [OF rtranclp.rtrancl_refl a1] a2] a3] a4] a5])
  moreover have "to_sim ?s5 = [0x41]" "from_host ?s5 = [0x41]" by simp_all
  ultimately show ?thesis by blast
qed

theorem server_streams_witness:
  "\<exists>(s :: link) txs. to_sim s = [0x41] \<and> from_host s = [0x41] \<and> rwq_holds (tx (srv s)) txs \<and>
     from_host s = to_sim s @ txs @ in_cmd (pc s)"
proof -
  from example_run obtain s where s: "lossless_step\<^sup>*\<^sup>* (started example_server) s"
    "to_sim s = [0x41]" "from_host s = [0x41]" by blast
  from server_streams [OF example_server_starts s(1)] s(2,3) show ?thesis by metis
qed

text \<open>
  C21. Whatever the operating system answers (allocations fail, writes are cut short), bytes are
  lost but never reordered, repeated or made up, and the simulation takes the queued bytes in
  order, without loss.
\<close>

theorem server_order:
  assumes "bindE (new_server True True nm per dbg) (Start p rv) = Inr v"
    and "sys_step\<^sup>*\<^sup>* (started v) s"
  shows "prefix (to_sim s) (queued s) \<and> subseq (queued s) (from_host s) \<and>
    prefix (passed s) (from_sim s) \<and> subseq (to_host s) (passed s)"
proof -
  have "streams_ok s" using reachable_streams_ok [OF assms(2)] started_ok(1) [OF assms(1)] .
  moreover have "subseq (queued s @ in_cmd (pc s)) (from_host s) \<and> subseq (to_host s) (passed s)"
    by (rule reachable_lossy [OF assms(2) started_ok(1) [OF assms(1)]]) (simp add: started_def)
  ultimately show ?thesis by (auto elim!: streams_okE dest: list_emb_appendD intro: subseq_order.trans)
qed

lemma lossless_is_step: "lossless_step s s' \<Longrightarrow> sys_step s s'"
  by (induction rule: lossless_step.induct) (auto simp: os_lossless_def intro: sys_step.intros)

theorem server_order_witness:
  "\<exists>s :: link. to_sim s = [0x41] \<and> prefix (to_sim s) (queued s) \<and> subseq (queued s) (from_host s)"
proof -
  from example_run obtain s where s: "lossless_step\<^sup>*\<^sup>* (started example_server) s" "to_sim s = [0x41]" by blast
  have "sys_step\<^sup>*\<^sup>* (started example_server) s"
    using s(1) by (rule rtranclp_mono [THEN predicate2D, rotated]) (auto intro: lossless_is_step)
  from server_order [OF example_server_starts this] s(2) show ?thesis by metis
qed

text \<open>
  C22. The thread never faults, whatever the interleaving and the answers of the operating
  system, except that it exits when the operating system reports an error of \<open>socket\<close>,
  \<open>setsockopt\<close>, \<open>bind\<close>, \<open>accept\<close> or \<open>write\<close>, and that in debug mode it writes past the end of
  \<open>resp\<close> when it sends a full buffer. The operations of the simulation never fault.
\<close>

theorem server_faults:
  assumes "bindE (new_server True True nm per dbg) (Start p rv) = Inr v"
    and "sys_step\<^sup>*\<^sup>* (started v) s" and "os_ok os s"
  shows "(\<forall>e. listen os s = Inl e \<longrightarrow>
      (\<exists>msg. e = Exit msg) \<and>
        (pc s = Opening \<or> pc s = Accepting \<or> (\<exists>resp. pc s = Sending resp \<and> write_rv os < 0)) \<or>
      e = OutOfBounds \<and> debug (srv s) \<and> (\<exists>resp. pc s = Sending resp \<and> length resp = 256)) \<and>
    (\<exists>r s'. sim_get s = Inr (r, s')) \<and> (\<exists>ok s'. sim_put m b s = Inr (ok, s'))"
proof -
  have "streams_ok s" using reachable_streams_ok [OF assms(2)] started_ok(1) [OF assms(1)] .
  from listen_fault [OF this assms(3)] sim_get_streams_ok [OF this] sim_put_streams_ok [OF this]
  show ?thesis by meson
qed

theorem server_faults_witness:
  "\<exists>r s'. sim_get (started example_server) = Inr (r, s')"
  using server_faults [OF example_server_starts rtranclp.rtrancl_refl, of one_byte]
  by (simp add: os_ok_def one_byte_def started_def)

text \<open>
  C23. Bytes the simulation has queued get out: from the head of its loop the thread, even when
  the client sends nothing, passes the next 256 queued bytes (or all, when there are fewer) to
  the socket in at most 260 steps, and is back at the head of the loop.
\<close>

theorem server_flushes:
  assumes rx: "rwq_holds (rx (srv s)) xs" "xs \<noteq> []" "length xs < 2 ^ 64"
    and at: "pc s = Looping" "running (srv s) = Some True"
    and buf: "debug (srv s) \<longrightarrow> length xs < 256"
  shows "\<exists>k s'. k \<le> 260 \<and> listen_run (replicate k (quiet (int (min 256 (length xs))))) s = Inr s' \<and>
    pc s' = Looping \<and> to_host s' = to_host s @ take 256 xs \<and> rwq_holds (rx (srv s')) (drop 256 xs)"
proof -
  obtain w where w: "w = int (min 256 (length xs))" by simp
  then have w': "\<not> w < 0" "take (min (nat w) 256) xs = take 256 xs" by (simp_all add: min_def)
  let ?q = "quiet w"
  from pass_to_send [OF rx at] obtain k q' where
    k: "k \<le> 259" "rwq_holds q' (drop 256 xs)" and
    run: "listen_run (replicate k ?q) s = Inr (s\<lparr>srv := (srv s)\<lparr>rx := q'\<rparr>, pc := Sending (take 256 xs)\<rparr>)"
    by blast
  have "listen_run (replicate (Suc k) ?q) s = bindE (listen_run (replicate k ?q) s) (listen ?q)"
    by (rule listen_run_snoc)
  also have "\<dots> = Inr (s\<lparr>srv := (srv s)\<lparr>rx := q'\<rparr>, pc := Looping, passed := passed s @ take 256 xs,
      to_host := to_host s @ take 256 xs\<rparr>)"
    using buf by (simp add: run listen_def Send_def w') (auto simp: min_def)
  finally show ?thesis using k unfolding w
    by (intro exI [of _ "Suc k"]) (simp del: replicate_Suc)
qed

theorem server_flushes_witness:
  "\<exists>k s s'. from_sim s = [] \<and> listen_run (replicate k (quiet 1)) s = Inr s' \<and> to_host s' = [0x31]"
proof -
  from rwq.enq_mem [OF default_queue_holds, of "0x31 :: u8"] obtain q where
    q: "rwq_holds q [0x31 :: u8]" by auto
  let ?s = "(started (example_server\<lparr>running := Some True, rx := q\<rparr>))\<lparr>pc := Looping\<rparr>"
  from server_flushes [of ?s "[0x31]"] q obtain k s' where
    "listen_run (replicate k (quiet 1)) ?s = Inr s'" "to_host s' = [0x31]"
    by (auto simp: started_def example_server_def)
  then show ?thesis
    by - (rule exI [of _ k], rule exI [of _ ?s], rule exI [of _ s'], simp add: started_def)
qed

text \<open>
  In debug mode the termination of the response with a zero byte overruns the buffer: once
  256 bytes are queued in \<open>rx\<close>, the next pass of the thread writes to \<open>resp[256]\<close>.
\<close>

theorem server_debug_overrun:
  assumes rx: "rwq_holds (rx (srv s)) xs" "256 \<le> length xs" "length xs < 2 ^ 64"
    and at: "pc s = Looping" "running (srv s) = Some True" "debug (srv s)"
  shows "\<exists>k. listen_run (replicate k (quiet w)) s = Inl OutOfBounds"
proof -
  from rx pass_to_send [OF rx(1) _ rx(3) at(1,2), of w] obtain k q' where
    run: "listen_run (replicate k (quiet w)) s =
      Inr (s\<lparr>srv := (srv s)\<lparr>rx := q'\<rparr>, pc := Sending (take 256 xs)\<rparr>)" by fastforce
  have "listen_run (replicate (Suc k) (quiet w)) s =
      bindE (listen_run (replicate k (quiet w)) s) (listen (quiet w))"
    by (rule listen_run_snoc)
  also have "\<dots> = Inl OutOfBounds" using at rx by (simp add: run listen_def Send_def min_def)
  finally show ?thesis by blast
qed

theorem server_debug_overrun_witness:
  "\<exists>k s. debug (srv s) \<and> listen_run (replicate k (quiet 256)) s = Inl OutOfBounds"
proof -
  from rwq.enq_all_mem [OF default_queue_holds, of "\<lambda>_. True" "replicate 256 (0x31 :: u8)"] obtain q where
    q: "rwq_holds q (replicate 256 (0x31 :: u8))" by auto
  let ?s = "(started (example_server\<lparr>debug := True, running := Some True, rx := q\<rparr>))\<lparr>pc := Looping\<rparr>"
  from server_debug_overrun [of ?s "replicate 256 0x31" 256] q obtain k where
    "listen_run (replicate k (quiet 256)) ?s = Inl OutOfBounds" by (auto simp: started_def)
  then show ?thesis by (intro exI [of _ k] exI [of _ ?s]) (auto simp: started_def)
qed



end
