(* ===== verification/Uart_Server.thy ===== *)
theory Uart_Server
  imports Server
begin

text \<open>
  The UART server (\<open>UARTServer.cpp\<close>, \<open>UARTServer.h\<close>): two state machines, one that assembles
  bytes from the pin \<open>tx_pin\<close> of the simulated design and queues them for the client, and one
  that sends the bytes of the client on the pin \<open>rx_pin\<close>. Both work on even ticks only and
  count a bit as \<open>period * 2\<close> ticks.
\<close>

subsection \<open>State\<close>

datatype state_t = STATE_IDLE | STATE_DATA | STATE_STOP | STATE_DONE | STATE_MAX_ENUM

text \<open>The static variables of \<open>doUARTServer\<close>. There is one set of them, shared by all servers.\<close>

record uart =
  tx_state :: state_t
  rx_state :: state_t
  tx_start :: u64
  rx_start :: u64
  rxc :: u8
  rcnt :: u8
  txc :: u8
  tcnt :: u8

definition uart_init :: uart where
  "uart_init = \<lparr>tx_state = STATE_IDLE, rx_state = STATE_IDLE, tx_start = 0, rx_start = 0,
     rxc = 0, rcnt = 0, txc = 0, tcnt = 0\<rparr>"

definition new_uart_server :: "bool \<Rightarrow> bool \<Rightarrow> u32 \<Rightarrow> bool \<Rightarrow> server res" where
  "new_uart_server mem_rx mem_tx per dbg = new_server mem_rx mem_tx ''UARTServer'' per dbg"

subsection \<open>One call of \<open>doUARTServer\<close>\<close>

text \<open>\<open>period * 2\<close> is computed in 32 bits, and extended to 64 bits for the remainder.\<close>

definition bit_time :: "server \<Rightarrow> u64" where
  "bit_time s = ucast (period s * 2)"

definition remainder :: "u64 \<Rightarrow> u64 \<Rightarrow> u64 res" where
  "remainder a b = (if b = 0 then Inl DivByZero else Inr (a mod b))"

text \<open>\<open>!start || (((t - start) % (period * 2)) == 0)\<close>.\<close>

definition due :: "u64 \<Rightarrow> u64 \<Rightarrow> server \<Rightarrow> bool res" where
  "due t start s =
     (if start = 0 then Inr True else bindE (remainder (t - start) (bit_time s)) (\<lambda>r. Inr (r = 0)))"

text \<open>The machine that reads \<open>tx_pin\<close>. \<open>mem\<close> is the answer of \<open>malloc\<close> for the queue.\<close>

definition uart_receive :: "bool \<Rightarrow> u64 \<Rightarrow> u8 \<Rightarrow> uart \<Rightarrow> server \<Rightarrow> (uart \<times> server) res" where
  "uart_receive mem t tx_pin u s =
     bindE (due t (tx_start u) s) (\<lambda>go.
       if \<not> go then Inr (u, s)
       else case tx_state u of
         STATE_IDLE \<Rightarrow>
           Inr (if tx_pin = 0 then u\<lparr>tx_state := STATE_DATA, tx_start := t\<rparr> else u, s)
       | STATE_DATA \<Rightarrow>
           let c = drop_bit 1 (rxc u);
               c = (if truth tx_pin then c OR 0x80 else c);
               n = rcnt u + 1
           in Inr (u\<lparr>rxc := c, rcnt := n,
                     tx_state := (if n = 8 then STATE_STOP else STATE_DATA)\<rparr>, s)
       | STATE_STOP \<Rightarrow>
           bindE (enqueue mem (rxc u) (rx s)) (\<lambda>(ok, q).
             Inr (u\<lparr>tx_state := STATE_IDLE, rxc := 0, rcnt := 0, tx_start := 0\<rparr>, s\<lparr>rx := q\<rparr>))
       | _ \<Rightarrow> Inr (u, s))"

text \<open>The machine that drives \<open>rx_pin\<close>.\<close>

definition uart_transmit ::
  "u64 \<Rightarrow> u8 \<Rightarrow> uart \<Rightarrow> server \<Rightarrow> (uart \<times> server \<times> u8) res" where
  "uart_transmit t rx_pin u s =
     bindE (due t (rx_start u) s) (\<lambda>go.
       if \<not> go then Inr (u, s, rx_pin)
       else case rx_state u of
         STATE_IDLE \<Rightarrow>
           bindE (poll (tx s)) (\<lambda>(r, q).
             case r of
               None \<Rightarrow> Inr (u, s\<lparr>tx := q\<rparr>, rx_pin)
             | Some c \<Rightarrow> Inr (u\<lparr>txc := c, rx_state := STATE_DATA, rx_start := t\<rparr>, s\<lparr>tx := q\<rparr>, 0))
       | STATE_DATA \<Rightarrow>
           let n = tcnt u + 1
           in Inr (u\<lparr>txc := drop_bit 1 (txc u), tcnt := n,
                     rx_state := (if n = 8 then STATE_STOP else STATE_DATA)\<rparr>, s,
                   if truth (txc u AND 1) then 1 else 0)
       | STATE_STOP \<Rightarrow> Inr (u\<lparr>rx_state := STATE_DONE\<rparr>, s, 1)
       | _ \<Rightarrow> Inr (u, s, rx_pin))"

definition uart_finish :: "u64 \<Rightarrow> uart \<Rightarrow> server \<Rightarrow> uart res" where
  "uart_finish t u s =
     (if rx_state u = STATE_DONE then
        bindE (remainder (t - rx_start u) (bit_time s)) (\<lambda>r.
          Inr (if r = ucast (period s * 2 - 2)
               then u\<lparr>rx_state := STATE_IDLE, txc := 0, tcnt := 0, rx_start := 0\<rparr> else u))
      else Inr u)"

text \<open>The result of the call is always true; it is left out.\<close>

definition doUARTServer ::
  "bool \<Rightarrow> u64 \<Rightarrow> u8 \<Rightarrow> u8 \<Rightarrow> uart \<Rightarrow> server \<Rightarrow> (uart \<times> server \<times> u8) res" where
  "doUARTServer mem t tx_pin rx_pin u s =
     (case running s of
        None \<Rightarrow> Inl UninitRead
      | Some r \<Rightarrow>
          if \<not> r \<or> truth (t AND 1) then Inr (u, s, rx_pin)
          else
            bindE (uart_receive mem t tx_pin u s) (\<lambda>(u, s).
            bindE (uart_transmit t rx_pin u s) (\<lambda>(u, s, rx_pin).
            bindE (uart_finish t u s) (\<lambda>u. Inr (u, s, rx_pin)))))"

text \<open>
  A simulation that calls the server once per tick, from tick \<open>t\<close> on, with the values \<open>pins\<close> on
  \<open>tx_pin\<close>. The result has the value of \<open>rx_pin\<close> after every call.
\<close>

fun uart_run ::
  "u64 \<Rightarrow> u8 list \<Rightarrow> u8 \<Rightarrow> uart \<Rightarrow> server \<Rightarrow> (u8 list \<times> uart \<times> server) res" where
  "uart_run t [] rx_pin u s = Inr ([], u, s)"
| "uart_run t (p # pins) rx_pin u s =
     bindE (doUARTServer True t p rx_pin u s) (\<lambda>(u, s, rx_pin).
     bindE (uart_run (t + 1) pins rx_pin u s) (\<lambda>(out, u, s). Inr (rx_pin # out, u, s)))"

subsection \<open>Frames\<close>

text \<open>
  What the wire should carry for a byte: a start bit, the eight bits of the byte with the least
  significant first, and a stop bit, each for \<open>n\<close> ticks.
\<close>

definition frame_bit :: "u8 \<Rightarrow> nat \<Rightarrow> u8" where
  "frame_bit b j = (if j = 0 then 0 else if j \<le> 8 then of_bool (bit b (j - 1)) else 1)"

definition frame :: "nat \<Rightarrow> u8 \<Rightarrow> u8 list" where
  "frame n b = map (\<lambda>d. frame_bit b (d div n)) [0..<10 * n]"

lemma length_frame [simp]: "length (frame n b) = 10 * n"
  by (simp add: frame_def)

lemma nth_frame [simp]: "d < 10 * n \<Longrightarrow> frame n b ! d = frame_bit b (d div n)"
  by (simp add: frame_def)

subsection \<open>Runs by invariants\<close>

text \<open>
  The number of ticks is an offset \<open>d\<close> from the tick \<open>t0\<close>. An invariant \<open>I d\<close> of the state before
  the call at offset \<open>d\<close>, with a condition \<open>P d\<close> on the pin after that call.
\<close>

lemma uart_run_invariant:
  assumes "I 0 rx_pin u s"
    and "\<And>d rx_pin u s. d < length pins \<Longrightarrow> I d rx_pin u s \<Longrightarrow>
      \<exists>u' s' rx_pin'. doUARTServer True (t0 + of_nat d) (pins ! d) rx_pin u s = Inr (u', s', rx_pin') \<and>
        I (Suc d) rx_pin' u' s' \<and> P d rx_pin'"
  shows "\<exists>out rx_pin' u' s'. uart_run t0 pins rx_pin u s = Inr (out, u', s') \<and>
    I (length pins) rx_pin' u' s' \<and> length out = length pins \<and> (\<forall>d < length pins. P d (out ! d))"
  using assms
proof (induction pins arbitrary: I t0 rx_pin u s P)
  case Nil
  then show ?case by auto
next
  case (Cons p pins)
  from Cons.prems(2) [of 0] Cons.prems(1) obtain u1 s1 pin1 where
    1: "doUARTServer True t0 p rx_pin u s = Inr (u1, s1, pin1)" "I (Suc 0) pin1 u1 s1" "P 0 pin1"
    by fastforce
  have "\<exists>out rx_pin' u' s'. uart_run (t0 + 1) pins pin1 u1 s1 = Inr (out, u', s') \<and>
    I (Suc (length pins)) rx_pin' u' s' \<and> length out = length pins \<and> (\<forall>d < length pins. P (Suc d) (out ! d))"
  proof (rule Cons.IH [of "\<lambda>d. I (Suc d)"])
    fix d rx_pin u s
    assume "d < length pins" "I (Suc d) rx_pin u s"
    with Cons.prems(2) [of "Suc d" rx_pin u s] show
      "\<exists>u' s' rx_pin'. doUARTServer True (t0 + 1 + of_nat d) (pins ! d) rx_pin u s = Inr (u', s', rx_pin') \<and>
        I (Suc (Suc d)) rx_pin' u' s' \<and> P (Suc d) rx_pin'"
      by (simp add: add.assoc)
  qed (rule 1(2))
  then obtain out rx_pin' u' s' where
    2: "uart_run (t0 + 1) pins pin1 u1 s1 = Inr (out, u', s')" "I (Suc (length pins)) rx_pin' u' s'"
    "length out = length pins" "\<forall>d < length pins. P (Suc d) (out ! d)" by blast
  have "\<forall>d < Suc (length pins). P d ((pin1 # out) ! d)"
    using 1(3) 2(4) by (auto simp: less_Suc_eq_0_disj)
  with 1(1) 2 show ?case
    by - (rule exI [of _ "pin1 # out"], rule exI [of _ rx_pin'], rule exI [of _ u'], rule exI [of _ s'], simp)
qed

lemma uart_run_append:
  "uart_run t (ps @ qs) rx_pin u s =
     bindE (uart_run t ps rx_pin u s) (\<lambda>(out1, u, s).
       bindE (uart_run (t + of_nat (length ps)) qs (last (rx_pin # out1)) u s) (\<lambda>(out2, u, s).
         Inr (out1 @ out2, u, s)))"
proof (induction ps arbitrary: t rx_pin u s)
  case Nil
  show ?case by (cases "uart_run t qs rx_pin u s") auto
next
  case (Cons p ps)
  show ?case
    by (cases "doUARTServer True t p rx_pin u s")
      (auto simp: Cons.IH add.assoc bindE_def split: sum.splits)
qed

subsection \<open>The clock of a frame\<close>

text \<open>
  The server runs with \<open>n\<close> ticks per bit, and \<open>len\<close> ticks can be counted from the even tick \<open>t0\<close>.
\<close>

definition clocked :: "u64 \<Rightarrow> nat \<Rightarrow> nat \<Rightarrow> server \<Rightarrow> bool" where
  "clocked t0 n len s \<longleftrightarrow> running s = Some True \<and> n = 2 * unat (period s) \<and> 0 < n \<and> n < 2 ^ 32 \<and>
     t0 \<noteq> 0 \<and> even (unat t0) \<and> unat t0 + len < 2 ^ 64"

lemma unat_ucast_32_64 [simp]: "unat (ucast (x :: u32) :: u64) = unat x"
proof -
  have "unat x < 2 ^ LENGTH(32)" by (rule unsigned_less)
  then have "unat x < 2 ^ 64" by simp
  then show ?thesis by (simp add: unsigned_ucast_eq take_bit_nat_eq_self)
qed

lemma clocked_bit_time:
  assumes "clocked t0 n len s"
  shows "unat (bit_time s) = n" "unat (period s * 2 - 2) = n - 2" "bit_time s \<noteq> 0"
proof -
  have p: "unat (period s * 2) = n" using assms
    by (simp add: clocked_def unat_word_ariths mult.commute)
  then show 1: "unat (bit_time s) = n" by (simp add: bit_time_def)
  have "2 \<le> period s * 2" using p assms by (simp add: word_le_nat_alt clocked_def)
  then show "unat (period s * 2 - 2) = n - 2" using p by (simp add: unat_sub word_le_nat_alt)
  show "bit_time s \<noteq> 0" using 1 assms by (auto simp: clocked_def)
qed

lemma clocked_offset:
  assumes "clocked t0 n len s" "d \<le> len"
  shows "unat (t0 + of_nat d) = unat t0 + d" "t0 + of_nat d - t0 = of_nat d" "unat (of_nat d :: u64) = d"
    "t0 + of_nat d \<noteq> 0"
proof -
  from assms have "unat t0 + d < 2 ^ 64" "d < 2 ^ 64" by (simp_all add: clocked_def)
  then show d: "unat (of_nat d :: u64) = d" and t: "unat (t0 + of_nat d) = unat t0 + d"
    by (simp_all add: unat_of_nat unat_word_ariths)
  show "t0 + of_nat d - t0 = of_nat d" by simp
  have "0 < unat t0" using assms by (simp add: clocked_def unat_gt_0)
  with t show "t0 + of_nat d \<noteq> 0" by (metis add_gr_0 less_numeral_extra(3) unat_0)
qed

lemma clocked_mod:
  assumes "clocked t0 n len s" "d \<le> len"
  shows "unat (of_nat (d mod n) :: u64) = d mod n"
proof (rule clocked_offset(3) [OF assms(1)])
  have "d mod n \<le> d" by (rule mod_less_eq_dividend)
  with assms(2) show "d mod n \<le> len" by (rule order_trans [rotated])
qed

lemma clocked_odd:
  assumes "clocked t0 n len s" "d \<le> len"
  shows "(t0 + of_nat d) AND 1 = 0 \<longleftrightarrow> even d"
proof -
  have "unat ((t0 + of_nat d) AND 1) = (unat t0 + d) mod 2"
    using clocked_offset [OF assms] by (simp add: and_one_eq unat_mod)
  with assms(1) show ?thesis
    by (simp add: clocked_def word_unat_eq_iff) (metis even_add even_iff_mod_2_eq_zero)
qed

lemma remainder_offset:
  assumes "clocked t0 n len s" "d \<le> len"
  shows "remainder (t0 + of_nat d - t0) (bit_time s) = Inr (of_nat (d mod n))"
proof -
  have "unat ((of_nat d :: u64) mod bit_time s) = d mod n"
    using clocked_offset [OF assms] clocked_bit_time [OF assms(1)] by (simp add: unat_mod)
  moreover have "unat (of_nat (d mod n) :: u64) = d mod n"
    using assms(1,2) by (rule clocked_mod)
  ultimately show ?thesis
    using clocked_bit_time(3) [OF assms(1)] by (simp add: remainder_def word_unat_eq_iff)
qed

lemma due_0 [simp]: "due t 0 s = Inr True"
  by (simp add: due_def)

lemma due_offset:
  assumes "clocked t0 n len s" "d \<le> len"
  shows "due (t0 + of_nat d) t0 s = Inr (n dvd d)"
proof -
  have "unat (of_nat (d mod n) :: u64) = d mod n"
    using assms(1,2) by (rule clocked_mod)
  then have "(of_nat (d mod n) :: u64) = 0 \<longleftrightarrow> n dvd d" by (simp add: word_unat_eq_iff dvd_eq_mod_eq_0)
  moreover have "t0 \<noteq> 0" using assms by (simp add: clocked_def)
  ultimately show ?thesis using remainder_offset [OF assms] by (simp add: due_def)
qed

lemma finish_offset:
  assumes "clocked t0 n len s" "d \<le> len" "rx_start u = t0"
  shows "uart_finish (t0 + of_nat d) u s = Inr (if rx_state u = STATE_DONE \<and> d mod n = n - 2
    then u\<lparr>rx_state := STATE_IDLE, txc := 0, tcnt := 0, rx_start := 0\<rparr> else u)"
proof -
  have "unat (of_nat (d mod n) :: u64) = d mod n"
    using assms(1,2) by (rule clocked_mod)
  then have "(of_nat (d mod n) :: u64) = ucast (period s * 2 - 2) \<longleftrightarrow> d mod n = n - 2"
    by (simp add: word_unat_eq_iff clocked_bit_time(2) [OF assms(1)])
  with remainder_offset [OF assms(1,2)] assms(3) show ?thesis by (simp add: uart_finish_def)
qed


subsection \<open>Receiving a frame\<close>

text \<open>The machines have no variable in common.\<close>

definition same_send :: "uart \<Rightarrow> uart \<Rightarrow> bool" where
  "same_send u u' \<longleftrightarrow> rx_state u' = rx_state u \<and> rx_start u' = rx_start u \<and> txc u' = txc u \<and> tcnt u' = tcnt u"

definition same_recv :: "uart \<Rightarrow> uart \<Rightarrow> bool" where
  "same_recv u u' \<longleftrightarrow> tx_state u' = tx_state u \<and> tx_start u' = tx_start u \<and> rxc u' = rxc u \<and> rcnt u' = rcnt u"

text \<open>
  The state of the receiving machine before the call at offset \<open>d\<close> of a frame that starts at
  \<open>t0\<close> and carries \<open>b\<close>: idle, then with \<open>k\<close> bits of \<open>b\<close> at the top of \<open>rxc\<close>, then idle
  again.
\<close>

definition recv_idle :: "uart \<Rightarrow> bool" where
  "recv_idle u \<longleftrightarrow> tx_state u = STATE_IDLE \<and> tx_start u = 0 \<and> rxc u = 0 \<and> rcnt u = 0"

definition recv_bits :: "u64 \<Rightarrow> u8 \<Rightarrow> nat \<Rightarrow> uart \<Rightarrow> bool" where
  "recv_bits t0 b k u \<longleftrightarrow> tx_state u = (if k = 8 then STATE_STOP else STATE_DATA) \<and> tx_start u = t0 \<and>
     rxc u = push_bit (8 - k) b \<and> rcnt u = of_nat k"

definition recv_at :: "u64 \<Rightarrow> nat \<Rightarrow> u8 \<Rightarrow> nat \<Rightarrow> uart \<Rightarrow> bool" where
  "recv_at t0 n b d u \<longleftrightarrow>
     (if d = 0 \<or> 9 * n < d then recv_idle u else recv_bits t0 b ((d - 1) div n) u)"

lemma shift_in:
  assumes "k < 8"
  shows "(if bit b k then drop_bit 1 (push_bit (8 - k) b) OR 0x80 else drop_bit 1 (push_bit (8 - k) b)) =
    push_bit (8 - Suc k) (b :: u8)"
proof (rule bit_word_eqI)
  fix i
  assume i: "i < LENGTH(8)"
  have e: "bit (0x80 :: u8) i \<longleftrightarrow> i = 7"
    using bit_exp_iff [where 'a = u8, of 7 i] i by auto
  show "bit (if bit b k then drop_bit 1 (push_bit (8 - k) b) OR 0x80 else drop_bit 1 (push_bit (8 - k) b)) i =
      bit (push_bit (8 - Suc k) b) i"
  proof (cases "i = 7")
    case True
    have "Suc 7 - (8 - k) = k" "7 - (7 - k) = k" using assms by auto
    with True assms e show ?thesis by (auto simp: bit_simps)
  next
    case False
    have "Suc i - (8 - k) = i - (7 - k)" using assms by auto
    with False i assms e show ?thesis by (auto simp: bit_simps)
  qed
qed

lemma pred_div_same: "0 < n \<Longrightarrow> \<not> n dvd d \<Longrightarrow> (d - 1) div n = d div (n::nat)"
  by (cases d) (auto simp: div_Suc dvd_eq_mod_eq_0)

lemma pred_div_mult: "0 < n \<Longrightarrow> (Suc k * n - 1) div n = k"
  by (rule div_nat_eqI) (auto simp: algebra_simps)

text \<open>Where in its frame a tick is: at its start, inside a bit, at a data bit, at the stop bit, or after.\<close>

lemma recv_place:
  fixes n d :: nat
  assumes "0 < n"
  obtains (start) "d = 0" | (inside) "0 < d" "d \<le> 9 * n" "\<not> n dvd d" | (data) k where "k < 8" "d = Suc k * n"
    | (stop) "d = 9 * n" | (rest) "9 * n < d"
proof (cases "n dvd d")
  case True
  then obtain k where k: "d = k * n" by (metis dvdE mult.commute)
  show thesis
  proof (cases k)
    case (Suc j)
    have "j < 8 \<or> j = 8 \<or> 9 * n < d" using k assms Suc by auto
    with data [of j] stop rest k Suc show thesis by auto
  qed (use start k in simp)
qed (use start inside rest in fastforce)

lemma recv_data_tick:
  assumes c: "clocked t0 n len s" "d \<le> len" and even: "even d" and k8: "k < 8" "d = Suc k * n"
    and at: "recv_at t0 n b d u" and pin: "pin = frame_bit b (d div n)"
    and q: "rwq_holds (rx s) (if 9 * n < d then xs @ [b] else xs)"
  shows "\<exists>u' q'. uart_receive True (t0 + of_nat d) pin u s = Inr (u', s\<lparr>rx := q'\<rparr>) \<and>
    recv_at t0 n b (Suc d) u' \<and> rwq_holds q' (if 9 * n < Suc d then xs @ [b] else xs) \<and>
    same_send u u'"
proof -
  have n: "0 < n" using c(1) by (simp add: clocked_def)
  have kn: "Suc k * n \<le> 8 * n" using k8 by (intro mult_le_mono1) simp
  have "(d - 1) div n = k" using k8 n pred_div_mult [of n k] by simp
  moreover have "d div n = Suc k" using k8 n by simp
  moreover have "d \<le> 9 * n" "\<not> 9 * n < Suc d" using k8(2) n kn by linarith+
  moreover have "0 < d" using k8(2) n by simp
  ultimately have k: "(d - 1) div n = k" "d div n = Suc k" "d \<le> 9 * n" "\<not> 9 * n < Suc d" "0 < d"
    by blast+
  with at have u: "recv_bits t0 b k u" by (simp add: recv_at_def)
  let ?c = "if truth pin then drop_bit 1 (rxc u) OR 0x80 else drop_bit 1 (rxc u)"
  let ?u = "u\<lparr>rxc := ?c, rcnt := rcnt u + 1, tx_state := (if rcnt u + 1 = 8 then STATE_STOP else STATE_DATA)\<rparr>"
  have cnt: "rcnt u + 1 = of_nat (Suc k)" using u by (simp add: recv_bits_def)
  have "k \<in> {0, 1, 2, 3, 4, 5, 6, 7}" using k8 by auto
  then have eight: "rcnt u + 1 = 8 \<longleftrightarrow> Suc k = 8" unfolding cnt by auto
  have "pin \<noteq> 0 \<longleftrightarrow> bit b k" using pin k k8 by (simp add: frame_bit_def)
  with u have "?c = (if bit b k then drop_bit 1 (push_bit (8 - k) b) OR 0x80 else drop_bit 1 (push_bit (8 - k) b))"
    by (simp only: recv_bits_def)
  also note shift_in [OF k8(1)]
  finally have bits: "?c = push_bit (8 - Suc k) b" .
  have "uart_receive True (t0 + of_nat d) pin u s = Inr (?u, s\<lparr>rx := rx s\<rparr>)"
    using u k8 due_offset [OF c] by (simp add: uart_receive_def recv_bits_def Let_def)
  moreover have "recv_bits t0 b (Suc k) ?u"
    using u cnt eight bits unfolding recv_bits_def by simp
  ultimately show ?thesis using k q
    by (intro exI [of _ ?u] exI [of _ "rx s"]) (simp add: recv_at_def same_send_def)
qed

lemma recv_tick:
  assumes c: "clocked t0 n len s" "d \<le> len" and even: "even d"
    and at: "recv_at t0 n b d u" and pin: "d < 10 * n" "pin = frame_bit b (d div n)"
    and q: "rwq_holds (rx s) (if 9 * n < d then xs @ [b] else xs)"
  shows "\<exists>u' q'. uart_receive True (t0 + of_nat d) pin u s = Inr (u', s\<lparr>rx := q'\<rparr>) \<and>
    recv_at t0 n b (Suc d) u' \<and> rwq_holds q' (if 9 * n < Suc d then xs @ [b] else xs) \<and>
    same_send u u'"
proof -
  have n: "0 < n" using c(1) by (simp add: clocked_def)
  show ?thesis
  proof (cases rule: recv_place [OF n, of d])
    case 1
    with at have "recv_idle u" by (simp add: recv_at_def)
    with 1 n q pin show ?thesis
      by (auto simp: uart_receive_def same_send_def recv_idle_def recv_at_def recv_bits_def frame_bit_def
        intro!: exI [of _ "rx s"])
  next
    case 2
    then have "recv_bits t0 b ((d - 1) div n) u" using at by (simp add: recv_at_def)
    moreover have "(d - 1) div n = d div n" using 2 n by (intro pred_div_same)
    moreover have "d \<noteq> 9 * n" using 2 by auto
    ultimately show ?thesis using 2 n q due_offset [OF c]
      by (auto simp: uart_receive_def same_send_def recv_at_def recv_bits_def intro!: exI [of _ "rx s"])
  next
    case (3 k)
    with recv_data_tick [OF c even _ _ at _ q] pin show ?thesis by blast
  next
    case 4
    then have "(d - 1) div n = 8" using n by (auto intro: div_nat_eqI)
    with 4 n at have u: "recv_bits t0 b 8 u" by (simp add: recv_at_def)
    from rwq.enq_mem [OF q, of b] 4 obtain q' where "enqueue True b (rx s) = Inr (True, q')" "rwq_holds q' (xs @ [b])"
      by auto
    with u 4 n due_offset [OF c] show ?thesis
      by (auto simp: uart_receive_def same_send_def recv_at_def recv_bits_def recv_idle_def intro!: exI [of _ q'])
  next
    case 5
    then have "d div n = 9" using pin n by (intro div_nat_eqI) auto
    with pin have "pin = 1" by (simp add: frame_bit_def)
    with 5 n q at show ?thesis
      by (auto simp: uart_receive_def same_send_def recv_at_def recv_idle_def intro!: exI [of _ "rx s"])
  qed
qed


subsection \<open>Sending a frame\<close>

definition send_idle :: "uart \<Rightarrow> bool" where
  "send_idle u \<longleftrightarrow> rx_state u = STATE_IDLE \<and> rx_start u = 0 \<and> tcnt u = 0"

definition send_bits :: "u64 \<Rightarrow> u8 \<Rightarrow> nat \<Rightarrow> uart \<Rightarrow> bool" where
  "send_bits t0 b k u \<longleftrightarrow>
     rx_state u = (if k < 8 then STATE_DATA else if k = 8 then STATE_STOP else STATE_DONE) \<and>
     rx_start u = t0 \<and> txc u = drop_bit k b \<and> tcnt u = of_nat (min k 8)"

definition send_at :: "u64 \<Rightarrow> nat \<Rightarrow> u8 \<Rightarrow> nat \<Rightarrow> uart \<Rightarrow> bool" where
  "send_at t0 n b d u \<longleftrightarrow>
     (if d = 0 \<or> 10 * n - 2 < d then send_idle u else send_bits t0 b ((d - 1) div n) u)"

lemma low_bit: "truth ((w :: u8) AND 1) \<longleftrightarrow> bit w 0"
  by (simp add: and_one_eq bit_0 odd_iff_mod_2_eq_one even_iff_mod_2_eq_zero)

lemma send_place:
  fixes n d :: nat
  assumes "2 \<le> n" "even n" "even d" "d < 10 * n"
  obtains (start) "d = 0" | (inside) "0 < d" "d \<le> 10 * n - 2" "\<not> n dvd d" | (data) k where "k < 8" "d = Suc k * n"
    | (stop) "d = 9 * n"
proof (cases "n dvd d")
  case True
  then obtain k where k: "d = k * n" by (metis dvdE mult.commute)
  have "k < 10" using assms(4) unfolding k using assms(1) by simp
  then have "k = 0 \<or> k = Suc (k - 1) \<and> k - 1 < 8 \<or> k = 9" by linarith
  then show thesis
  proof (elim disjE)
    assume "k = Suc (k - 1) \<and> k - 1 < 8"
    with data [of "k - 1"] k show thesis by simp
  qed (use start stop k in simp_all)
next
  case False
  have "d \<noteq> 10 * n - 1" using assms(2,3) \<open>2 \<le> n\<close> by auto
  then have "d \<le> 10 * n - 2" using assms(4) by linarith
  with False start inside show thesis by (cases "d = 0") auto
qed

lemma send_inside_tick:
  assumes c: "clocked t0 n len s" "d \<le> len" and even: "even d" and place: "0 < d" "d \<le> 10 * n - 2" "\<not> n dvd d"
    and at: "send_at t0 n b d u" and pin: "pin = frame_bit b ((d - 1) div n)"
    and q: "rwq_holds (tx s) xs"
  shows "\<exists>u' u'' q'. uart_transmit (t0 + of_nat d) pin u s = Inr (u', s\<lparr>tx := q'\<rparr>, frame_bit b (d div n)) \<and>
    uart_finish (t0 + of_nat d) u' (s\<lparr>tx := q'\<rparr>) = Inr u'' \<and>
    send_at t0 n b (Suc d) u'' \<and> rwq_holds q' xs \<and>
    same_recv u u''"
proof -
  have n: "2 \<le> n" "even n" using c(1) by (auto simp: clocked_def)
  have d: "d < 10 * n" using place(2) n by linarith
  from place have u: "send_bits t0 b ((d - 1) div n) u" using at by (simp add: send_at_def)
  have k: "(d - 1) div n = d div n" using place n by (intro pred_div_same) auto
  have "d div n < 10" using d n by (simp add: less_mult_imp_div_less)
  have last: "d div n = 9 \<and> d mod n = n - 2 \<longleftrightarrow> d = 10 * n - 2"
  proof -
    have "d = 9 * n + (n - 2) \<longleftrightarrow> d = 10 * n - 2" using n by linarith
    moreover have divmod: "(9 * n + m) div n = 9" "(9 * n + m) mod n = m" if "m < n" for m using that by simp_all
    have "n - 2 < n" using n by simp
    note divmod [OF this]
    moreover have "d = d div n * n + d mod n" by simp
    ultimately show ?thesis by metis
  qed
  have "uart_transmit (t0 + of_nat d) pin u s = Inr (u, s\<lparr>tx := tx s\<rparr>, frame_bit b (d div n))"
    using place u pin k due_offset [OF c] by (auto simp: uart_transmit_def send_bits_def)
  moreover have "uart_finish (t0 + of_nat d) u s = Inr (if d = 10 * n - 2
      then u\<lparr>rx_state := STATE_IDLE, txc := 0, tcnt := 0, rx_start := 0\<rparr> else u)"
    using u k last \<open>d div n < 10\<close> finish_offset [OF c, of u]
    by (auto simp: send_bits_def split: if_splits)
  moreover have "send_at t0 n b (Suc d) (if d = 10 * n - 2
      then u\<lparr>rx_state := STATE_IDLE, txc := 0, tcnt := 0, rx_start := 0\<rparr> else u)"
    using place u k by (auto simp: send_at_def send_idle_def)
  ultimately show ?thesis using place(1) q
    by - (rule exI [of _ u], rule exI [of _ "if d = 10 * n - 2
        then u\<lparr>rx_state := STATE_IDLE, txc := 0, tcnt := 0, rx_start := 0\<rparr> else u"],
      rule exI [of _ "tx s"], simp add: same_recv_def)
qed

lemma send_data_tick:
  assumes c: "clocked t0 n len s" "d \<le> len" and even: "even d" and place: "k < 8" "d = Suc k * n"
    and at: "send_at t0 n b d u" and pin: "pin = frame_bit b ((d - 1) div n)"
    and q: "rwq_holds (tx s) xs"
  shows "\<exists>u' u'' q'. uart_transmit (t0 + of_nat d) pin u s = Inr (u', s\<lparr>tx := q'\<rparr>, frame_bit b (d div n)) \<and>
    uart_finish (t0 + of_nat d) u' (s\<lparr>tx := q'\<rparr>) = Inr u'' \<and>
    send_at t0 n b (Suc d) u'' \<and> rwq_holds q' xs \<and>
    same_recv u u''"
proof -
  have n: "2 \<le> n" "even n" using c(1) by (auto simp: clocked_def)
  have kn: "Suc k * n \<le> 8 * n" using place by (intro mult_le_mono1) simp
  have le: "d \<le> 10 * n - 2" "Suc d \<le> 10 * n - 2" using place(2) n kn by linarith+
  have k: "(d - 1) div n = k" "d div n = Suc k" "d mod n = 0" "0 < d"
    using place n pred_div_mult [of n k] by auto
  note k = this le
  from k have u: "send_bits t0 b k u" using at by (simp add: send_at_def)
  let ?u = "u\<lparr>txc := drop_bit 1 (txc u), tcnt := tcnt u + 1,
    rx_state := (if tcnt u + 1 = 8 then STATE_STOP else STATE_DATA)\<rparr>"
  have cnt: "tcnt u + 1 = of_nat (Suc k)" using u place by (simp add: send_bits_def)
  have "k \<in> {0, 1, 2, 3, 4, 5, 6, 7}" using place by auto
  then have eight: "tcnt u + 1 = 8 \<longleftrightarrow> k = 7" unfolding cnt by auto
  have "uart_transmit (t0 + of_nat d) pin u s = Inr (?u, s\<lparr>tx := tx s\<rparr>, frame_bit b (d div n))"
    using place u k due_offset [OF c]
    by (auto simp: uart_transmit_def send_bits_def frame_bit_def low_bit bit_simps Let_def)
  moreover have "uart_finish (t0 + of_nat d) ?u s = Inr ?u"
    by (simp add: uart_finish_def)
  moreover have "send_bits t0 b (Suc k) ?u"
    using u place eight cnt by (auto simp: send_bits_def)
  moreover from this have "send_at t0 n b (Suc d) ?u" using k by (simp add: send_at_def)
  ultimately show ?thesis using k(4) q
    by - (rule exI [of _ ?u], rule exI [of _ ?u], rule exI [of _ "tx s"], simp add: same_recv_def)
qed

lemma send_stop_tick:
  assumes c: "clocked t0 n len s" "d \<le> len" and even: "even d" and place: "d = 9 * n"
    and at: "send_at t0 n b d u" and pin: "pin = frame_bit b ((d - 1) div n)"
    and q: "rwq_holds (tx s) xs"
  shows "\<exists>u' u'' q'. uart_transmit (t0 + of_nat d) pin u s = Inr (u', s\<lparr>tx := q'\<rparr>, frame_bit b (d div n)) \<and>
    uart_finish (t0 + of_nat d) u' (s\<lparr>tx := q'\<rparr>) = Inr u'' \<and>
    send_at t0 n b (Suc d) u'' \<and> rwq_holds q' xs \<and>
    same_recv u u''"
proof -
  have n: "2 \<le> n" "even n" using c(1) by (auto simp: clocked_def)
  have k: "(d - 1) div n = 8" "d div n = 9" "d mod n = 0" "0 < d" "d \<le> 10 * n - 2"
    using place n pred_div_mult [of n 8] by auto
  then have u: "send_bits t0 b 8 u" using at by (simp add: send_at_def)
  let ?u = "u\<lparr>rx_state := STATE_DONE\<rparr>"
  have "uart_transmit (t0 + of_nat d) pin u s = Inr (?u, s\<lparr>tx := tx s\<rparr>, frame_bit b (d div n))"
    using place u k due_offset [OF c] by (auto simp: uart_transmit_def send_bits_def frame_bit_def)
  moreover have "uart_finish (t0 + of_nat d) ?u s = Inr (if n = 2
      then ?u\<lparr>rx_state := STATE_IDLE, txc := 0, tcnt := 0, rx_start := 0\<rparr> else ?u)"
    using finish_offset [OF c, of ?u] u k n by (auto simp: send_bits_def)
  moreover have "send_bits t0 b 9 ?u" using u by (simp add: send_bits_def)
  then have "send_at t0 n b (Suc d) (if n = 2
      then ?u\<lparr>rx_state := STATE_IDLE, txc := 0, tcnt := 0, rx_start := 0\<rparr> else ?u)"
    using place n k by (auto simp: send_at_def send_idle_def)
  ultimately show ?thesis using k(4) q
    by - (rule exI [of _ ?u], rule exI [of _ "if n = 2
        then ?u\<lparr>rx_state := STATE_IDLE, txc := 0, tcnt := 0, rx_start := 0\<rparr> else ?u"],
      rule exI [of _ "tx s"], simp add: same_recv_def)
qed

lemma send_tick:
  assumes c: "clocked t0 n len s" "d \<le> len" and even: "even d" and d: "d < 10 * n"
    and at: "send_at t0 n b d u" and pin: "d = 0 \<or> pin = frame_bit b ((d - 1) div n)"
    and q: "rwq_holds (tx s) (if d = 0 then b # xs else xs)" "length xs < 2 ^ 64 - 1"
  shows "\<exists>u' u'' q'. uart_transmit (t0 + of_nat d) pin u s = Inr (u', s\<lparr>tx := q'\<rparr>, frame_bit b (d div n)) \<and>
    uart_finish (t0 + of_nat d) u' (s\<lparr>tx := q'\<rparr>) = Inr u'' \<and>
    send_at t0 n b (Suc d) u'' \<and> rwq_holds q' xs \<and>
    same_recv u u''"
proof -
  have n: "2 \<le> n" "even n" using c(1) by (auto simp: clocked_def)
  show ?thesis
  proof (cases rule: send_place [OF n even d])
    case 1
    with at have u: "send_idle u" by (simp add: send_at_def)
    from poll_Cons [of "tx s" b xs] q 1 obtain q' where "poll (tx s) = Inr (Some b, q')" "rwq_holds q' xs"
      by auto
    with 1 u n show ?thesis
      by (auto simp: uart_transmit_def same_recv_def uart_finish_def send_idle_def send_at_def send_bits_def frame_bit_def
          intro!: exI [of _ q'])
  next
    case 2
    with send_inside_tick [OF c even 2 at] pin q show ?thesis by simp
  next
    case (3 k)
    then have "0 < d" using n by simp
    with send_data_tick [OF c even 3 at] pin q show ?thesis by simp
  next
    case 4
    then have "0 < d" using n by simp
    with send_stop_tick [OF c even 4 at] pin q show ?thesis by simp
  qed
qed


subsection \<open>Whole calls\<close>

text \<open>Neither machine disturbs the other, nor faults, whatever the state of both.\<close>

lemma remainder_ok: "bit_time s \<noteq> 0 \<Longrightarrow> \<exists>r. remainder a (bit_time s) = Inr r"
  by (simp add: remainder_def)

lemma due_ok: "bit_time s \<noteq> 0 \<Longrightarrow> \<exists>g. due t t0 s = Inr g"
  by (auto simp: due_def remainder_def)

lemma receive_any:
  assumes "rwq_holds (rx s) ys" "bit_time s \<noteq> 0"
  shows "\<exists>u' q' ys'. uart_receive mem t pin u s = Inr (u', s\<lparr>rx := q'\<rparr>) \<and>
    rwq_holds q' ys' \<and> prefix ys ys' \<and>
    same_send u u'"
proof -
  from due_ok [OF assms(2)] obtain g where g: "due t (tx_start u) s = Inr g" by blast
  from rwq.enq_result [OF assms(1) refl, of mem "rxc u"] obtain ok q' where
    q': "enqueue mem (rxc u) (rx s) = Inr (ok, q')" "rwq_holds q' (if ok then ys @ [rxc u] else ys)" .
  show ?thesis
  proof (cases "g \<and> tx_state u = STATE_STOP")
    case True
    with g q' show ?thesis
      by (intro exI [of _ "u\<lparr>tx_state := STATE_IDLE, rxc := 0, rcnt := 0, tx_start := 0\<rparr>"] exI [of _ q']
          exI [of _ "if ok then ys @ [rxc u] else ys"]) (simp add: uart_receive_def same_send_def)
  next
    case False
    with g assms(1) show ?thesis
      by (cases "tx_state u") (auto simp: uart_receive_def same_send_def Let_def intro!: exI [of _ "rx s"] exI [of _ ys])
  qed
qed

lemma transmit_any:
  assumes "rwq_holds (tx s) ys" "bit_time s \<noteq> 0"
  shows "\<exists>u' u'' q' ys' pin'. uart_transmit t pin u s = Inr (u', s\<lparr>tx := q'\<rparr>, pin') \<and>
    uart_finish t u' (s\<lparr>tx := q'\<rparr>) = Inr u'' \<and> rwq_holds q' ys' \<and> suffix ys' ys \<and>
    same_recv u u''"
proof -
  from due_ok [OF assms(2)] obtain g where g: "due t (rx_start u) s = Inr g" by blast
  have fin: "\<exists>u2. uart_finish t u1 (s\<lparr>tx := q'\<rparr>) = Inr u2 \<and> same_recv u1 u2" for u1 q'
    using assms(2) by (auto simp: uart_finish_def remainder_def bit_time_def same_recv_def)
  have "\<exists>u' q' ys' pin'. uart_transmit t pin u s = Inr (u', s\<lparr>tx := q'\<rparr>, pin') \<and>
    rwq_holds q' ys' \<and> suffix ys' ys \<and>
    same_recv u u'"
  proof (cases "g \<and> rx_state u = STATE_IDLE")
    case True
    show ?thesis
    proof (cases rule: rwq.poll_result [OF assms(1), folded poll_def, OF refl, case_names nothing first])
      case (nothing q')
      with True g show ?thesis
        by (auto simp: uart_transmit_def same_recv_def intro!: exI [of _ q'] exI [of _ ys])
    next
      case (first q')
      with True g show ?thesis
        by (auto simp: uart_transmit_def same_recv_def intro!: exI [of _ q'] exI [of _ "tl ys"] suffix_tl)
    qed
  next
    case False
    with g assms(1) show ?thesis
      by (cases "rx_state u") (auto simp: uart_transmit_def same_recv_def Let_def intro!: exI [of _ "tx s"] exI [of _ ys])
  qed
  then obtain u' q' ys' pin' where 1: "uart_transmit t pin u s = Inr (u', s\<lparr>tx := q'\<rparr>, pin')"
    "rwq_holds q' ys'" "suffix ys' ys"
    "same_recv u u'" by blast
  from fin [of u' q'] obtain u2 where "uart_finish t u' (s\<lparr>tx := q'\<rparr>) = Inr u2" "same_recv u' u2" by blast
  with 1 show ?thesis by (auto simp: same_recv_def)
qed


text \<open>What a call leaves alone.\<close>

abbreviation same_server :: "server \<Rightarrow> server \<Rightarrow> bool" where
  "same_server s s' \<equiv> s' = s\<lparr>rx := rx s', tx := tx s'\<rparr>"

lemma odd_call:
  "running s = Some True \<Longrightarrow> truth (t AND 1) \<Longrightarrow> doUARTServer mem t pin rx_pin u s = Inr (u, s, rx_pin)"
  by (simp add: doUARTServer_def)

definition receives :: "server \<Rightarrow> u64 \<Rightarrow> nat \<Rightarrow> u8 \<Rightarrow> u8 list \<Rightarrow> nat \<Rightarrow> u8 \<Rightarrow> uart \<Rightarrow> server \<Rightarrow> bool" where
  "receives s0 t0 n b xs d rx_pin u s \<longleftrightarrow>
     (\<exists>r t ys. s = s0\<lparr>rx := r, tx := t\<rparr> \<and> rwq_holds t ys \<and> recv_at t0 n b d u \<and>
        rwq_holds r (if 9 * n < d then xs @ [b] else xs))"

definition sends :: "server \<Rightarrow> u64 \<Rightarrow> nat \<Rightarrow> u8 \<Rightarrow> u8 list \<Rightarrow> nat \<Rightarrow> u8 \<Rightarrow> uart \<Rightarrow> server \<Rightarrow> bool" where
  "sends s0 t0 n b xs d rx_pin u s \<longleftrightarrow>
     (\<exists>r t ys. s = s0\<lparr>rx := r, tx := t\<rparr> \<and> rwq_holds r ys \<and> send_at t0 n b d u \<and>
        (d = 0 \<or> rx_pin = frame_bit b ((d - 1) div n)) \<and>
        rwq_holds t (if d = 0 then b # xs else xs))"

lemma receivesI:
  "rwq_holds t ys \<Longrightarrow> recv_at t0 n b d u \<Longrightarrow> rwq_holds r (if 9 * n < d then xs @ [b] else xs) \<Longrightarrow>
   receives s0 t0 n b xs d rx_pin u (s0\<lparr>rx := r, tx := t\<rparr>)"
  unfolding receives_def by blast

lemma sendsI:
  "rwq_holds r ys \<Longrightarrow> send_at t0 n b d u \<Longrightarrow> d = 0 \<or> rx_pin = frame_bit b ((d - 1) div n) \<Longrightarrow>
   rwq_holds t (if d = 0 then b # xs else xs) \<Longrightarrow> sends s0 t0 n b xs d rx_pin u (s0\<lparr>rx := r, tx := t\<rparr>)"
  unfolding sends_def by blast

lemma recv_at_odd:
  assumes "odd d" "even n" "0 < n" "recv_at t0 n b d u"
  shows "recv_at t0 n b (Suc d) u" "9 * n < Suc d \<longleftrightarrow> 9 * n < d"
proof -
  have nd: "\<not> n dvd d" using assms by (meson dvd_trans)
  moreover have "0 < d" using assms(1) by (cases d) auto
  ultimately have "(d - 1) div n = d div n" using assms(3) by (intro pred_div_same)
  moreover have "d \<noteq> 9 * n" using nd by auto
  ultimately show "recv_at t0 n b (Suc d) u" "9 * n < Suc d \<longleftrightarrow> 9 * n < d"
    using assms(4) \<open>0 < d\<close> by (auto simp: recv_at_def)
qed

lemma send_at_odd:
  assumes "odd d" "even n" "0 < n" "send_at t0 n b d u"
  shows "send_at t0 n b (Suc d) u" "(d - 1) div n = d div n"
proof -
  have nd: "\<not> n dvd d" using assms by (meson dvd_trans)
  moreover have "0 < d" using assms(1) by (cases d) auto
  ultimately show k: "(d - 1) div n = d div n" using assms(3) by (intro pred_div_same)
  have "d \<noteq> 10 * n - 2" using assms by auto
  with k show "send_at t0 n b (Suc d) u" using assms(4) \<open>0 < d\<close> by (auto simp: send_at_def)
qed

lemma recv_at_same: "same_recv u u' \<Longrightarrow> recv_at t0 n b d u' = recv_at t0 n b d u"
  by (auto simp: same_recv_def recv_at_def recv_idle_def recv_bits_def)

lemma send_at_same: "same_send u u' \<Longrightarrow> send_at t0 n b d u' = send_at t0 n b d u"
  by (auto simp: same_send_def send_at_def send_idle_def send_bits_def)

lemma receives_call:
  assumes c: "clocked t0 n len s0" "10 * n \<le> len" and d: "d < 10 * n"
    and at: "receives s0 t0 n b xs d rx_pin u s"
  shows "\<exists>u' s' rx_pin'. doUARTServer True (t0 + of_nat d) (frame n b ! d) rx_pin u s = Inr (u', s', rx_pin') \<and>
    receives s0 t0 n b xs (Suc d) rx_pin' u' s'"
proof -
  from at obtain r t ys where s: "s = s0\<lparr>rx := r, tx := t\<rparr>" and t: "rwq_holds t ys"
    and at: "recv_at t0 n b d u" and r: "rwq_holds r (if 9 * n < d then xs @ [b] else xs)"
    unfolding receives_def by blast
  have c': "clocked t0 n len (s0\<lparr>rx := r', tx := t'\<rparr>)" for r' t' using c(1) by (simp add: clocked_def)
  have cs: "clocked t0 n len s" "clocked t0 n len (s\<lparr>rx := r'\<rparr>)" for r' using c(1) s by (simp_all add: clocked_def)
  have n: "even n" "0 < n" using c(1) by (auto simp: clocked_def)
  have run: "running s = Some True" using c(1) s by (simp add: clocked_def)
  have dl: "d \<le> len" using c d by simp
  note odd = clocked_odd [OF c(1) dl]
  show ?thesis
  proof (cases "even d")
    case False
    with odd run have "doUARTServer True (t0 + of_nat d) (frame n b ! d) rx_pin u s = Inr (u, s, rx_pin)"
      by (intro odd_call) simp_all
    moreover have "receives s0 t0 n b xs (Suc d) rx_pin u s"
      using recv_at_odd [OF False n at] t r unfolding s by (intro receivesI) simp_all
    ultimately show ?thesis by blast
  next
    case True
    have "rwq_holds (rx s) (if 9 * n < d then xs @ [b] else xs)" using s r by simp
    from recv_tick [OF cs(1) dl True at d _ this, of "frame n b ! d"] d obtain u1 r1 where
      1: "uart_receive True (t0 + of_nat d) (frame n b ! d) u s = Inr (u1, s\<lparr>rx := r1\<rparr>)"
      "recv_at t0 n b (Suc d) u1" "rwq_holds r1 (if 9 * n < Suc d then xs @ [b] else xs)" by auto
    have "bit_time (s\<lparr>rx := r1\<rparr>) \<noteq> 0" "rwq_holds (tx (s\<lparr>rx := r1\<rparr>)) ys"
      using clocked_bit_time(3) [OF c(1)] s t by (simp_all add: bit_time_def)
    from transmit_any [OF this(2,1), of "t0 + of_nat d" rx_pin u1] obtain u2 u3 t1 ys' pin' where
      2: "uart_transmit (t0 + of_nat d) rx_pin u1 (s\<lparr>rx := r1\<rparr>) = Inr (u2, s\<lparr>rx := r1, tx := t1\<rparr>, pin')"
      "uart_finish (t0 + of_nat d) u2 (s\<lparr>rx := r1, tx := t1\<rparr>) = Inr u3" "rwq_holds t1 ys'" "same_recv u1 u3"
      by auto
    have "doUARTServer True (t0 + of_nat d) (frame n b ! d) rx_pin u s = Inr (u3, s\<lparr>rx := r1, tx := t1\<rparr>, pin')"
      using run odd True 1(1) 2(1,2) by (simp add: doUARTServer_def)
    moreover have "receives s0 t0 n b xs (Suc d) pin' u3 (s\<lparr>rx := r1, tx := t1\<rparr>)"
      using 1(2,3) 2(3) recv_at_same [OF 2(4)] receivesI [of t1 ys' t0 n b "Suc d" u3 r1] s by simp
    ultimately show ?thesis by blast
  qed
qed


lemma sends_call:
  assumes c: "clocked t0 n len s0" "10 * n \<le> len" and d: "d < 10 * n" and xs: "length xs < 2 ^ 64 - 1"
    and at: "sends s0 t0 n b xs d rx_pin u s"
  shows "\<exists>u' s'. doUARTServer True (t0 + of_nat d) pin rx_pin u s = Inr (u', s', frame_bit b (d div n)) \<and>
    sends s0 t0 n b xs (Suc d) (frame_bit b (d div n)) u' s'"
proof -
  from at obtain r t ys where s: "s = s0\<lparr>rx := r, tx := t\<rparr>" and r: "rwq_holds r ys"
    and at: "send_at t0 n b d u" and p: "d = 0 \<or> rx_pin = frame_bit b ((d - 1) div n)"
    and t: "rwq_holds t (if d = 0 then b # xs else xs)"
    unfolding sends_def by blast
  have c': "clocked t0 n len (s0\<lparr>rx := r', tx := t'\<rparr>)" for r' t' using c(1) by (simp add: clocked_def)
  have cs: "clocked t0 n len s" "clocked t0 n len (s\<lparr>rx := r'\<rparr>)" for r' using c(1) s by (simp_all add: clocked_def)
  have n: "even n" "0 < n" using c(1) by (auto simp: clocked_def)
  have run: "running s = Some True" using c(1) s by (simp add: clocked_def)
  have dl: "d \<le> len" using c d by simp
  note odd = clocked_odd [OF c(1) dl]
  show ?thesis
  proof (cases "even d")
    case False
    note k = send_at_odd [OF False n at]
    have pos: "0 < d" using False by (cases d) auto
    with k p have "rx_pin = frame_bit b (d div n)" by simp
    moreover from this have "sends s0 t0 n b xs (Suc d) (frame_bit b (d div n)) u s"
      using k r t pos unfolding s by (intro sendsI) simp_all
    ultimately show ?thesis using False odd run by (simp add: odd_call)
  next
    case True
    have "rwq_holds (rx s) ys" "bit_time s \<noteq> 0"
      using clocked_bit_time(3) [OF c(1)] s r by (simp_all add: bit_time_def)
    from receive_any [OF this, of True "t0 + of_nat d" pin u] obtain u1 r1 ys' where
      1: "uart_receive True (t0 + of_nat d) pin u s = Inr (u1, s\<lparr>rx := r1\<rparr>)" "rwq_holds r1 ys'" "same_send u u1"
      by blast
    have "send_at t0 n b d u1" "rwq_holds (tx (s\<lparr>rx := r1\<rparr>)) (if d = 0 then b # xs else xs)"
      using at send_at_same [OF 1(3)] s t by simp_all
    from send_tick [OF cs(2) dl True d this(1) p this(2) xs] obtain u2 u3 t1 where
      2: "uart_transmit (t0 + of_nat d) rx_pin u1 (s\<lparr>rx := r1\<rparr>) = Inr (u2, s\<lparr>rx := r1, tx := t1\<rparr>, frame_bit b (d div n))"
      "uart_finish (t0 + of_nat d) u2 (s\<lparr>rx := r1, tx := t1\<rparr>) = Inr u3" "send_at t0 n b (Suc d) u3" "rwq_holds t1 xs"
      by auto
    have "doUARTServer True (t0 + of_nat d) pin rx_pin u s =
        Inr (u3, s\<lparr>rx := r1, tx := t1\<rparr>, frame_bit b (d div n))"
      using run odd True 1(1) 2(1,2) by (simp add: doUARTServer_def)
    moreover have "sends s0 t0 n b xs (Suc d) (frame_bit b (d div n)) u3 (s\<lparr>rx := r1, tx := t1\<rparr>)"
      using sendsI [OF 1(2) 2(3), of "frame_bit b (d div n)" t1 xs s0] 2(4) s by simp
    ultimately show ?thesis by blast
  qed
qed

lemma receive_frame:
  assumes c: "clocked t0 n (10 * n) s" and u: "recv_idle u"
    and q: "rwq_holds (rx s) xs" "rwq_holds (tx s) ys"
  shows "\<exists>out u' r t ys'. uart_run t0 (frame n b) rx_pin u s = Inr (out, u', s\<lparr>rx := r, tx := t\<rparr>) \<and>
    length out = 10 * n \<and> recv_idle u' \<and> rwq_holds r (xs @ [b]) \<and> rwq_holds t ys'"
proof -
  have n: "0 < n" using c by (simp add: clocked_def)
  have "receives s t0 n b xs 0 rx_pin u s"
    using receivesI [of "tx s" ys t0 n b 0 u "rx s" xs s rx_pin] u q by (simp add: recv_at_def)
  then have "\<exists>out rx_pin' u' s'. uart_run t0 (frame n b) rx_pin u s = Inr (out, u', s') \<and>
    receives s t0 n b xs (length (frame n b)) rx_pin' u' s' \<and> length out = length (frame n b) \<and>
    (\<forall>d < length (frame n b). True)"
    by (rule uart_run_invariant) (use receives_call [OF c] in simp)
  then show ?thesis using n by (auto simp: receives_def recv_at_def) blast
qed

lemma send_frame:
  assumes c: "clocked t0 n (10 * n) s" and u: "send_idle u" and ps: "length ps = 10 * n"
    and q: "rwq_holds (tx s) (b # xs)" "rwq_holds (rx s) ys" "length xs < 2 ^ 64 - 1"
  shows "\<exists>u' r t ys'. uart_run t0 ps rx_pin u s = Inr (frame n b, u', s\<lparr>rx := r, tx := t\<rparr>) \<and>
    send_idle u' \<and> rwq_holds t xs \<and> rwq_holds r ys'"
proof -
  have n: "0 < n" using c by (simp add: clocked_def)
  have "sends s t0 n b xs 0 rx_pin u s"
    using sendsI [of "rx s" ys t0 n b 0 u rx_pin "tx s" xs s] u q by (simp add: send_at_def)
  then have "\<exists>out rx_pin' u' s'. uart_run t0 ps rx_pin u s = Inr (out, u', s') \<and>
    sends s t0 n b xs (length ps) rx_pin' u' s' \<and> length out = length ps \<and>
    (\<forall>d < length ps. out ! d = frame_bit b (d div n))"
    by (rule uart_run_invariant) (use sends_call [OF c _ _ q(3)] ps in fastforce)
  then obtain out rx_pin' u' s' where 1: "uart_run t0 ps rx_pin u s = Inr (out, u', s')"
    "sends s t0 n b xs (10 * n) rx_pin' u' s'" "length out = 10 * n"
    "\<forall>d < 10 * n. out ! d = frame_bit b (d div n)" unfolding ps by blast
  from 1(3,4) have "out = frame n b" by (intro nth_equalityI) simp_all
  with 1(1,2) n show ?thesis by (auto simp: sends_def send_at_def)
qed

subsection \<open>Streams of frames\<close>

lemma clocked_next:
  assumes "clocked t0 n (m + len) s" "even m"
  shows "clocked (t0 + of_nat m) n len s"
proof -
  have "unat (t0 + of_nat m) = unat t0 + m" "t0 + of_nat m \<noteq> 0" using clocked_offset [OF assms(1), of m] by simp_all
  then show ?thesis using assms by (simp add: clocked_def)
qed

lemma clocked_mono: "clocked t0 n len s \<Longrightarrow> len' \<le> len \<Longrightarrow> clocked t0 n len' s"
  by (simp add: clocked_def)

lemma clocked_queues: "clocked t0 n len (s\<lparr>rx := r, tx := t\<rparr>) = clocked t0 n len s"
  by (simp add: clocked_def)

definition frames :: "nat \<Rightarrow> u8 list \<Rightarrow> u8 list" where
  "frames n bs = concat (map (frame n) bs)"

lemma length_frames [simp]: "length (frames n bs) = 10 * n * length bs"
  by (induction bs) (simp_all add: frames_def)

lemma send_frames:
  assumes "clocked t0 n (10 * n * length bs) s" "send_idle u" "length ps = 10 * n * length bs"
    and "rwq_holds (tx s) bs" "rwq_holds (rx s) ys" "length bs < 2 ^ 64"
  shows "\<exists>u' r t ys'. uart_run t0 ps rx_pin u s = Inr (frames n bs, u', s\<lparr>rx := r, tx := t\<rparr>) \<and>
    send_idle u' \<and> rwq_holds t [] \<and> rwq_holds r ys'"
  using assms
proof (induction bs arbitrary: t0 u s ps rx_pin ys)
  case Nil
  then show ?case
    by (intro exI [of _ u] exI [of _ "rx s"] exI [of _ "tx s"] exI [of _ ys]) (simp add: frames_def)
next
  case (Cons b bs)
  let ?m = "10 * n"
  have len: "?m * length (b # bs) = ?m + ?m * length bs" by simp
  have "clocked t0 n ?m s" by (rule clocked_mono [OF Cons.prems(1)]) simp
  from send_frame [OF this Cons.prems(2) _ Cons.prems(4,5), of "take ?m ps" rx_pin] Cons.prems(3,6)
  obtain u1 r1 t1 ys1 where 1: "uart_run t0 (take ?m ps) rx_pin u s = Inr (frame n b, u1, s\<lparr>rx := r1, tx := t1\<rparr>)"
    "send_idle u1" "rwq_holds t1 bs" "rwq_holds r1 ys1" by auto
  let ?s = "s\<lparr>rx := r1, tx := t1\<rparr>" and ?t = "t0 + of_nat ?m"
  have "clocked ?t n (?m * length bs) ?s"
    unfolding clocked_queues by (rule clocked_next) (use Cons.prems(1) len in simp_all)
  from Cons.IH [OF this 1(2), of "drop ?m ps" ys1 "last (rx_pin # frame n b)"] 1(3,4) Cons.prems(3,6)
  obtain u' r t ys' where 2: "uart_run ?t (drop ?m ps) (last (rx_pin # frame n b)) u1 ?s =
      Inr (frames n bs, u', s\<lparr>rx := r, tx := t\<rparr>)" "send_idle u'" "rwq_holds t []" "rwq_holds r ys'"
    by auto
  have "length (take ?m ps) = ?m" using Cons.prems(3) by simp
  with 1(1) 2(1) uart_run_append [of t0 "take ?m ps" "drop ?m ps" rx_pin u s]
  have "uart_run t0 ps rx_pin u s = Inr (frames n (b # bs), u', s\<lparr>rx := r, tx := t\<rparr>)"
    by (simp add: frames_def del: take_append)
  with 2 show ?case by blast
qed

lemma receive_frames:
  assumes "clocked t0 n (10 * n * length bs) s" "recv_idle u"
    and "rwq_holds (rx s) xs" "rwq_holds (tx s) ys"
  shows "\<exists>out u' r t ys'. uart_run t0 (frames n bs) rx_pin u s = Inr (out, u', s\<lparr>rx := r, tx := t\<rparr>) \<and>
    recv_idle u' \<and> rwq_holds r (xs @ bs) \<and> rwq_holds t ys'"
  using assms
proof (induction bs arbitrary: t0 u s xs rx_pin ys)
  case Nil
  then show ?case
    by (intro exI [of _ "[]"] exI [of _ u] exI [of _ "rx s"] exI [of _ "tx s"] exI [of _ ys]) (simp add: frames_def)
next
  case (Cons b bs)
  let ?m = "10 * n"
  have len: "?m * length (b # bs) = ?m + ?m * length bs" by simp
  have "clocked t0 n ?m s" by (rule clocked_mono [OF Cons.prems(1)]) simp
  from receive_frame [OF this Cons.prems(2-4), of b rx_pin]
  obtain out1 u1 r1 t1 ys1 where 1: "uart_run t0 (frame n b) rx_pin u s = Inr (out1, u1, s\<lparr>rx := r1, tx := t1\<rparr>)"
    "recv_idle u1" "rwq_holds r1 (xs @ [b])" "rwq_holds t1 ys1" by blast
  let ?s = "s\<lparr>rx := r1, tx := t1\<rparr>" and ?t = "t0 + of_nat ?m"
  have "clocked ?t n (?m * length bs) ?s"
    unfolding clocked_queues by (rule clocked_next) (use Cons.prems(1) len in simp_all)
  from Cons.IH [OF this 1(2), of "xs @ [b]" ys1 "last (rx_pin # out1)"] 1(3,4)
  obtain out2 u' r t ys' where 2: "uart_run ?t (frames n bs) (last (rx_pin # out1)) u1 ?s =
      Inr (out2, u', s\<lparr>rx := r, tx := t\<rparr>)" "recv_idle u'" "rwq_holds r (xs @ b # bs)" "rwq_holds t ys'"
    by auto
  have "uart_run t0 (frames n (b # bs)) rx_pin u s = Inr (out1 @ out2, u', s\<lparr>rx := r, tx := t\<rparr>)"
    using 1(1) 2(1) uart_run_append [of t0 "frame n b" "frames n bs" rx_pin u s]
    by (simp add: frames_def)
  with 2 show ?case by blast
qed

subsection \<open>Properties\<close>

text \<open>
  C25. Everything a client has sent goes out on \<open>rx_pin\<close> as frames of ten bits, one after the
  other without a gap, whatever happens on the other pin meanwhile.
\<close>

theorem uart_sends:
  assumes "clocked t0 n (10 * n * length bs) s" "send_idle u" "length pins = 10 * n * length bs"
    and "rwq_holds (tx s) bs" "rwq_holds (rx s) ys" "length bs < 2 ^ 64"
  shows "\<exists>u' s'. uart_run t0 pins rx_pin u s = Inr (frames n bs, u', s') \<and>
    send_idle u' \<and> rwq_holds (tx s') []"
  using send_frames [OF assms, of rx_pin] by fastforce

definition running_uart :: "u8 rwq \<Rightarrow> server" where
  "running_uart q = \<lparr>name = ''UARTServer'', sockfd = Some 3, port = Some 7777, thread_id = Some (),
     debug = False, running = Some True, rx = default_queue, tx = q, period = 4\<rparr>"

theorem uart_sends_witness:
  "\<exists>q u' s'. uart_run 2 (replicate 160 1) 1 uart_init (running_uart q) =
     Inr (frames 8 [0x55, 0x0F], u', s') \<and> rwq_holds (tx s') []"
proof -
  from rwq.enq_all_mem [OF default_queue_holds, of "\<lambda>_. True" "[0x55, 0x0F :: u8]"] obtain q where
    q: "rwq_holds q [0x55, 0x0F :: u8]" by auto
  from uart_sends [of 2 8 "[0x55, 0x0F]" "running_uart q" uart_init "replicate 160 1" "[]" 1] q default_queue_holds
  show ?thesis by (auto simp: clocked_def running_uart_def send_idle_def uart_init_def)
qed

text \<open>
  Frames on \<open>tx_pin\<close>, one after the other, are assembled into the bytes they carry, and
  queued for the client in order.
\<close>

theorem uart_receives:
  assumes "clocked t0 n (10 * n * length bs) s" "recv_idle u"
    and "rwq_holds (rx s) xs" "rwq_holds (tx s) ys"
  shows "\<exists>out u' s'. uart_run t0 (frames n bs) rx_pin u s = Inr (out, u', s') \<and>
    recv_idle u' \<and> rwq_holds (rx s') (xs @ bs)"
  using receive_frames [OF assms, of rx_pin] by fastforce

theorem uart_receives_witness:
  "\<exists>out u' s'. uart_run 2 (frames 8 [0x55, 0x0F]) 1 uart_init (running_uart default_queue) =
     Inr (out, u', s') \<and> rwq_holds (rx s') [0x55, 0x0F]"
  using uart_receives [of 2 8 "[0x55, 0x0F]" "running_uart default_queue" uart_init "[]" "[]" 1] default_queue_holds
  by (auto simp: clocked_def running_uart_def recv_idle_def uart_init_def)

text \<open>
  C26. The two machines are inverse to each other: when the \<open>rx_pin\<close> of one server is the
  \<open>tx_pin\<close> of another with the same period, the bytes queued in the one arrive in the other, in
  order and complete, after ten bit times each.
\<close>

theorem uart_link:
  assumes "clocked t0 n (10 * n * length bs) s1" "send_idle u1" "length pins = 10 * n * length bs"
    and "rwq_holds (tx s1) bs" "rwq_holds (rx s1) ys" "length bs < 2 ^ 64"
    and "running s2 = Some True" "period s2 = period s1" "recv_idle u2"
    and "rwq_holds (rx s2) xs" "rwq_holds (tx s2) zs"
  shows "\<exists>wire u1' s1' out u2' s2'. uart_run t0 pins pin1 u1 s1 = Inr (wire, u1', s1') \<and>
    uart_run t0 wire pin2 u2 s2 = Inr (out, u2', s2') \<and>
    rwq_holds (tx s1') [] \<and> rwq_holds (rx s2') (xs @ bs)"
proof -
  have "clocked t0 n (10 * n * length bs) s2" using assms(1,7) unfolding clocked_def assms(8) by blast
  from send_frames [OF assms(1-6), of pin1] receive_frames [OF this assms(9-11), of pin2]
  show ?thesis by fastforce
qed

theorem uart_link_witness:
  "\<exists>q wire u1' s1' out u2' s2'. uart_run 2 (replicate 160 1) 1 uart_init (running_uart q) = Inr (wire, u1', s1') \<and>
     uart_run 2 wire 1 uart_init (running_uart default_queue) = Inr (out, u2', s2') \<and>
     rwq_holds (rx s2') [0x55, 0x0F]"
proof -
  from rwq.enq_all_mem [OF default_queue_holds, of "\<lambda>_. True" "[0x55, 0x0F :: u8]"] obtain q where
    q: "rwq_holds q [0x55, 0x0F :: u8]" by auto
  from uart_link [of 2 8 "[0x55, 0x0F]" "running_uart q" uart_init "replicate 160 1" "[]"
      "running_uart default_queue" uart_init "[]" "[]" 1 1] q default_queue_holds
  show ?thesis by (fastforce simp: clocked_def running_uart_def send_idle_def recv_idle_def uart_init_def)
qed

text \<open>
  A call never faults once the server runs and its bit time is not zero; before the thread
  has set \<open>running\<close> it reads a variable without a value, and a period of which the double wraps
  around to zero is a division by zero as soon as a frame has begun.
\<close>

theorem uart_faults:
  assumes "rwq_holds (rx s) xs" "rwq_holds (tx s) ys"
  shows "(running s = None \<longrightarrow> doUARTServer mem t tx_pin rx_pin u s = Inl UninitRead) \<and>
    (running s \<noteq> None \<longrightarrow> period s * 2 \<noteq> 0 \<longrightarrow>
      (\<exists>u' s' rx_pin'. doUARTServer mem t tx_pin rx_pin u s = Inr (u', s', rx_pin'))) \<and>
    (running s = Some True \<longrightarrow> period s * 2 = 0 \<longrightarrow> t AND 1 = 0 \<longrightarrow> tx_start u \<noteq> 0 \<longrightarrow>
      doUARTServer mem t tx_pin rx_pin u s = Inl DivByZero)"
proof (intro conjI impI)
  assume run: "running s \<noteq> None" and p: "period s * 2 \<noteq> 0"
  then have b: "bit_time s \<noteq> 0"
    by (metis bit_time_def unat_0 unat_ucast_32_64 word_unat_eq_iff)
  from receive_any [OF assms(1) b, of mem t tx_pin u] obtain u1 r1 where
    1: "uart_receive mem t tx_pin u s = Inr (u1, s\<lparr>rx := r1\<rparr>)" by blast
  have "bit_time (s\<lparr>rx := r1\<rparr>) \<noteq> 0" "rwq_holds (tx (s\<lparr>rx := r1\<rparr>)) ys"
    using b assms(2) by (simp_all add: bit_time_def)
  from transmit_any [OF this(2,1), of t rx_pin u1] obtain u2 u3 t1 pin' where
    "uart_transmit t rx_pin u1 (s\<lparr>rx := r1\<rparr>) = Inr (u2, s\<lparr>rx := r1, tx := t1\<rparr>, pin')"
    "uart_finish t u2 (s\<lparr>rx := r1, tx := t1\<rparr>) = Inr u3" by auto
  with 1 run show "\<exists>u' s' rx_pin'. doUARTServer mem t tx_pin rx_pin u s = Inr (u', s', rx_pin')"
    by (auto simp: doUARTServer_def)
qed (auto simp: doUARTServer_def uart_receive_def due_def remainder_def bit_time_def)

theorem uart_faults_witness:
  "doUARTServer True 4 1 1 (uart_init\<lparr>tx_start := 2\<rparr>) ((running_uart default_queue)\<lparr>period := 0x80000000\<rparr>) =
     Inl DivByZero"
  using uart_faults [of "(running_uart default_queue)\<lparr>period := 0x80000000\<rparr>" "[]" "[]" True 4 1 1
      "uart_init\<lparr>tx_start := 2\<rparr>"] default_queue_holds
  by (simp add: running_uart_def)

text \<open>
  The tick 0 stands for "no frame has begun": a frame that begins at tick 0 is sampled on
  every even tick instead of once per bit. With the default period, the byte queued for a frame
  of 0x55 is 0x78, two and a half bits into the frame.
\<close>

theorem uart_misreads_at_zero:
  "case uart_run 0 (take 20 (frame 8 0x55)) 1 uart_init (running_uart default_queue) of
     Inr (out, u, s) \<Rightarrow> (case try_dequeue (rx s) of Inr (Some b, _) \<Rightarrow> b = 0x78 | _ \<Rightarrow> False)
   | _ \<Rightarrow> False"
  by code_simp

subsection \<open>The type of the variables\<close>

text \<open>
  What the static variables can hold. The two machines go through the first three and the first
  four states. A counter has the number of bits that are done, and a shift register is zero where
  no bit has come in yet, or where all have gone out; a machine that is idle has no start.
\<close>

fun receiver_ok :: "state_t \<Rightarrow> u8 \<Rightarrow> u8 \<Rightarrow> u64 \<Rightarrow> bool" where
  "receiver_ok STATE_IDLE n c start \<longleftrightarrow> n = 0 \<and> c = 0 \<and> start = 0"
| "receiver_ok STATE_DATA n c start \<longleftrightarrow> n < 8 \<and> (\<forall>i < 8. bit c i \<longrightarrow> 8 - unat n \<le> i)"
| "receiver_ok STATE_STOP n c start \<longleftrightarrow> n = 8"
| "receiver_ok _ n c start \<longleftrightarrow> False"

fun sender_ok :: "state_t \<Rightarrow> u8 \<Rightarrow> u8 \<Rightarrow> u64 \<Rightarrow> bool" where
  "sender_ok STATE_IDLE n c start \<longleftrightarrow> n = 0 \<and> c = 0 \<and> start = 0"
| "sender_ok STATE_DATA n c start \<longleftrightarrow> n < 8 \<and> (\<forall>i < 8. bit c i \<longrightarrow> i < 8 - unat n)"
| "sender_ok STATE_MAX_ENUM n c start \<longleftrightarrow> False"
| "sender_ok _ n c start \<longleftrightarrow> n = 8 \<and> c = 0"

definition uart_ok :: "uart \<Rightarrow> bool" where
  "uart_ok u \<longleftrightarrow> receiver_ok (tx_state u) (rcnt u) (rxc u) (tx_start u) \<and>
     sender_ok (rx_state u) (tcnt u) (txc u) (rx_start u)"

lemma count_next: "n < 8 \<Longrightarrow> unat (n + 1) = unat n + 1 \<and> (n + 1 = 8 \<or> n + 1 < 8)" for n :: u8
proof -
  assume "n < 8"
  then have "unat n < 8" by (simp add: word_less_nat_alt)
  then have "unat (n + 1) = unat n + 1" by (simp add: unat_plus_if_size word_size)
  moreover have "n + 1 = 8 \<or> n + 1 < 8" if "unat (n + 1) = unat n + 1"
    using \<open>unat n < 8\<close> that by (auto simp: word_less_nat_alt word_unat_eq_iff)
  ultimately show ?thesis by blast
qed

lemma shifted_in:
  fixes c n :: u8
  assumes "\<forall>i < 8. bit c i \<longrightarrow> 8 - unat n \<le> i" "n < 8"
  shows "\<forall>i < 8. bit (drop_bit 1 c) i \<longrightarrow> 8 - unat (n + 1) \<le> i"
    "\<forall>i < 8. bit (drop_bit 1 c OR 0x80) i \<longrightarrow> 8 - unat (n + 1) \<le> i"
proof -
  have small: "bit c i \<Longrightarrow> i < 8" for i by (drule bit_imp_le_length) simp
  have x80: "bit (0x80 :: u8) i \<Longrightarrow> i = 7" for i
  proof -
    have "(0x80 :: u8) = push_bit 7 1" by simp
    then show "bit (0x80 :: u8) i \<Longrightarrow> i = 7" by (simp only: bit_simps) auto
  qed
  from count_next [OF assms(2)] have n: "unat (n + 1) = unat n + 1" by blast
  show drop: "\<forall>i < 8. bit (drop_bit 1 c) i \<longrightarrow> 8 - unat (n + 1) \<le> i"
    using assms(1) small n by (fastforce simp: bit_simps simp del: drop_bit_Suc)
  show "\<forall>i < 8. bit (drop_bit 1 c OR 0x80) i \<longrightarrow> 8 - unat (n + 1) \<le> i"
  proof (intro allI impI)
    fix i assume "i < 8" "bit (drop_bit 1 c OR 0x80) i"
    then consider "bit (drop_bit 1 c) i" | "i = 7" using x80 by (auto simp only: bit_or_iff)
    then show "8 - unat (n + 1) \<le> i" using drop \<open>i < 8\<close> n by cases auto
  qed
qed

lemma shifted_out:
  fixes c n :: u8
  assumes "\<forall>i < 8. bit c i \<longrightarrow> i < 8 - unat n" "n < 8"
  shows "\<forall>i < 8. bit (drop_bit 1 c) i \<longrightarrow> i < 8 - unat (n + 1)"
    "n + 1 = 8 \<Longrightarrow> drop_bit 1 c = 0"
proof -
  have small: "bit c i \<Longrightarrow> i < 8" for i by (drule bit_imp_le_length) simp
  from count_next [OF assms(2)] have n: "unat (n + 1) = unat n + 1" by blast
  show *: "\<forall>i < 8. bit (drop_bit 1 c) i \<longrightarrow> i < 8 - unat (n + 1)"
    using assms(1) small n by (fastforce simp: bit_simps simp del: drop_bit_Suc)
  assume "n + 1 = 8"
  then have "unat (n + 1) = 8" by simp
  then show "drop_bit 1 c = 0"
    using * small by (intro bit_word_eqI) (auto simp del: drop_bit_Suc)
qed

lemma receive_ok:
  assumes ok: "uart_ok u" and run: "uart_receive mem t tx_pin u s = Inr (u', s')"
  shows "uart_ok u' \<and> tx s' = tx s \<and> running s' = running s \<and> period s' = period s"
proof (cases "due t (tx_start u) s = Inr True")
  case True
  show ?thesis
  proof (cases "tx_state u")
    case STATE_IDLE
    with True ok run show ?thesis by (auto simp: uart_receive_def uart_ok_def split: if_splits)
  next
    case STATE_DATA
    with ok have n: "rcnt u < 8" and c: "\<forall>i < 8. bit (rxc u) i \<longrightarrow> 8 - unat (rcnt u) \<le> i"
      by (simp_all add: uart_ok_def)
    from STATE_DATA True ok run shifted_in [OF c n] count_next [OF n] show ?thesis
      by (auto simp: uart_receive_def uart_ok_def Let_def simp del: drop_bit_Suc)
  next
    case STATE_STOP
    with True ok run show ?thesis
      by (auto simp: uart_receive_def uart_ok_def bindE_eq_Inr)
  qed (use ok in \<open>simp_all add: uart_ok_def\<close>)
next
  case False
  with ok run show ?thesis by (auto simp: uart_receive_def bindE_eq_Inr split: if_splits)
qed

lemma transmit_ok:
  assumes ok: "uart_ok u" and run: "uart_transmit t rx_pin u s = Inr (u', s', pin')"
  shows "uart_ok u' \<and> (pin' = rx_pin \<or> pin' = 0 \<or> pin' = 1) \<and> running s' = running s \<and> period s' = period s"
proof (cases "due t (rx_start u) s = Inr True")
  case True
  show ?thesis
  proof (cases "rx_state u")
    case STATE_IDLE
    with True ok run show ?thesis
      by (auto simp: uart_transmit_def uart_ok_def bindE_eq_Inr split: option.splits dest: bit_imp_le_length)
  next
    case STATE_DATA
    with ok have n: "tcnt u < 8" and c: "\<forall>i < 8. bit (txc u) i \<longrightarrow> i < 8 - unat (tcnt u)"
      by (simp_all add: uart_ok_def)
    from STATE_DATA True ok run shifted_out [OF c n] count_next [OF n] show ?thesis
      by (auto simp: uart_transmit_def uart_ok_def Let_def split: if_splits simp del: drop_bit_Suc)
  next
    case STATE_STOP
    with True ok run show ?thesis by (auto simp: uart_transmit_def uart_ok_def)
  next
    case STATE_DONE
    with True ok run show ?thesis by (auto simp: uart_transmit_def)
  next
    case STATE_MAX_ENUM
    with ok show ?thesis by (simp add: uart_ok_def)
  qed
next
  case False
  with ok run show ?thesis by (auto simp: uart_transmit_def bindE_eq_Inr split: if_splits)
qed

lemma finish_ok: "uart_ok u \<Longrightarrow> uart_finish t u s = Inr u' \<Longrightarrow> uart_ok u'"
  by (auto simp: uart_finish_def uart_ok_def bindE_eq_Inr split: if_splits)

text \<open>
  C29. The variables keep their type: they have it at the start, and every call that returns
  keeps it. So the last two values of \<open>state_t\<close> never get into the receiver and the last never
  into the sender, no counter goes past 8, and between frames all counters and registers are zero.
  A call sets the pin to 0 or 1 or leaves it.
\<close>

theorem uart_keeps_type:
  "uart_ok uart_init \<and>
   (uart_ok u \<longrightarrow> doUARTServer mem t tx_pin rx_pin u s = Inr (u', s', pin') \<longrightarrow>
      uart_ok u' \<and> (pin' = rx_pin \<or> pin' = 0 \<or> pin' = 1) \<and> running s' = running s \<and> period s' = period s)"
proof (intro conjI impI)
  show "uart_ok uart_init" by (simp add: uart_ok_def uart_init_def)
  assume ok: "uart_ok u" and run: "doUARTServer mem t tx_pin rx_pin u s = Inr (u', s', pin')"
  have "uart_ok u' \<and> (pin' = rx_pin \<or> pin' = 0 \<or> pin' = 1) \<and> running s' = running s \<and> period s' = period s"
  proof (cases "running s = Some True \<and> \<not> truth (t AND 1)")
    case True
    with run obtain u1 s1 u2 where "uart_receive mem t tx_pin u s = Inr (u1, s1)"
      "uart_transmit t rx_pin u1 s1 = Inr (u2, s', pin')" "uart_finish t u2 s' = Inr u'"
      by (auto simp: doUARTServer_def bindE_eq_Inr)
    with receive_ok [OF ok this(1)] show ?thesis by (auto dest: transmit_ok finish_ok)
  next
    case False
    with run ok show ?thesis by (auto simp: doUARTServer_def split: option.splits if_splits)
  qed
  then show "uart_ok u'" "pin' = rx_pin \<or> pin' = 0 \<or> pin' = 1" "running s' = running s" "period s' = period s"
    by blast+
qed

theorem uart_keeps_type_witness:
  "uart_ok (fst (projr (doUARTServer True 4 0 1 uart_init (running_uart default_queue)))) \<and>
   tx_state (fst (projr (doUARTServer True 4 0 1 uart_init (running_uart default_queue)))) = STATE_DATA"
proof -
  have "case doUARTServer True 4 0 1 uart_init (running_uart default_queue) of
      Inr (u, s, p) \<Rightarrow> tx_state u = STATE_DATA | _ \<Rightarrow> False" by code_simp
  then obtain u s p where run: "doUARTServer True 4 0 1 uart_init (running_uart default_queue) = Inr (u, s, p)"
    "tx_state u = STATE_DATA" by (auto split: sum.splits)
  with uart_keeps_type [of uart_init True 4 0 1 "running_uart default_queue" u s p] show ?thesis by simp
qed

end
