(* ===== verification/Jtag_Link.thy ===== *)
theory Jtag_Link
  imports Server
begin

text \<open>
  The two ends of the JTAG link (\<open>JTAGServer.cpp\<close>, \<open>JTAGServer.h\<close>, \<open>JTAGClient.cpp\<close>,
  \<open>JTAGClient.h\<close>), which speak the remote bitbang protocol of OpenOCD, with the command \<open>S\<close> added
  for SWD.
\<close>

subsection \<open>The server\<close>

definition new_jtag_server :: "bool \<Rightarrow> bool \<Rightarrow> u32 \<Rightarrow> bool \<Rightarrow> server res" where
  "new_jtag_server mem_rx mem_tx per dbg = new_server mem_rx mem_tx ''JTAGServer'' per dbg"

text \<open>The pins the server drives. \<open>tms\<close> is driven by the target when it answers on SWD.\<close>

record pins =
  tck :: u8
  tdi :: u8
  tms :: u8
  srst :: u8

text \<open>The command byte \<open>cmd\<close>: the pins after it, and the byte it answers, if any.\<close>

definition jtag_command :: "u8 \<Rightarrow> u8 \<Rightarrow> pins \<Rightarrow> pins \<times> u8 option" where
  "jtag_command cmd tdo p =
     (if 0x30 \<le> cmd \<and> cmd \<le> 0x37 then
        (p\<lparr>tdi := (if truth ((cmd - 0x30) AND 1) then 1 else 0),
           tms := (if truth ((cmd - 0x30) AND 2) then 1 else 0),
           tck := (if truth ((cmd - 0x30) AND 4) then 1 else 0)\<rparr>, None)
      else if 0x72 \<le> cmd \<and> cmd \<le> 0x75 then
        (p\<lparr>srst := (if truth ((cmd - 0x72) AND 1) then 0 else 1)\<rparr>, None)
      else if cmd = 0x52 then (p, Some (if truth tdo then 0x31 else 0x30))
      else if cmd = 0x53 then
        let c = 0x30;
            c = (if truth tdo then c + 1 else c);
            c = (if truth (tms p) then c + 2 else c)
        in (p, Some c)
      else (p, None))"

text \<open>
  One call. The answer goes to \<open>rx\<close>, for which \<open>malloc\<close> answers \<open>mem\<close>; that it may find no memory
  is ignored. The result of the call, always true, is left out.
\<close>

definition doJTAGServer :: "bool \<Rightarrow> u8 \<Rightarrow> pins \<Rightarrow> server \<Rightarrow> (pins \<times> server) res" where
  "doJTAGServer mem tdo p s =
     bindE (poll (tx s)) (\<lambda>(r, q).
       let s = s\<lparr>tx := q\<rparr>
       in case r of
            None \<Rightarrow> Inr (p, s)
          | Some cmd \<Rightarrow>
              (case jtag_command cmd tdo p of
                 (p, None) \<Rightarrow> Inr (p, s)
               | (p, Some c) \<Rightarrow> bindE (enqueue mem c (rx s)) (\<lambda>(ok, q). Inr (p, s\<lparr>rx := q\<rparr>))))"

subsection \<open>The client\<close>

record jtag_client =
  jtagsock :: int
  client_period :: u32

definition new_jtag_client :: "int \<Rightarrow> jtag_client" where
  "new_jtag_client per = \<lparr>jtagsock = -1, client_period = word_of_int per\<rparr>"

definition jtag_client_Start :: "int \<Rightarrow> int \<Rightarrow> jtag_client \<Rightarrow> jtag_client res" where
  "jtag_client_Start sock connect_rv c =
     (let c = c\<lparr>jtagsock := sock\<rparr>
      in if jtagsock c < 0 then fail ''Unable to create jtagsock!''
         else if connect_rv \<noteq> 0 then fail ''Failed to connect to localhost''
         else Inr c)"

text \<open>\<open>Stop\<close> and the destructor: the descriptors they close.\<close>

definition jtag_client_Stop :: "jtag_client \<Rightarrow> int list" where
  "jtag_client_Stop c = [jtagsock c]"

definition delete_jtag_client :: "jtag_client \<Rightarrow> int list" where
  "delete_jtag_client c = (if jtagsock c \<noteq> -1 then jtag_client_Stop c else [])"

text \<open>
  The calls of the operating system an exchange makes, in order: two writes of a byte and a read
  of one, with the number of bytes each reports.
\<close>

record exchange =
  write1 :: int
  write2 :: int
  read_n :: int
  read_byte :: u8

definition jtag_bits :: "u8 \<Rightarrow> u8 \<Rightarrow> u8 \<Rightarrow> u8" where
  "jtag_bits ck ms di = 0x30 OR push_bit 2 ck OR push_bit 1 ms OR di"

text \<open>The result: \<open>tdo\<close>, \<open>tms\<close>, and the bytes written to the socket.\<close>

definition doJTAGClient :: "exchange \<Rightarrow> u8 \<Rightarrow> u8 \<Rightarrow> u8 \<Rightarrow> u8 \<Rightarrow> u8 \<Rightarrow> (u8 \<times> u8 \<times> u8 list) res" where
  "doJTAGClient x ck tdo di ms tmsoe =
     (let b = jtag_bits ck ms di
      in if write1 x \<noteq> 1 then fail ''JTAGClient IO error''
         else if write2 x \<noteq> 1 then fail ''JTAGClient IO error''
         else if read_n x \<noteq> 1 then fail ''JTAGClient IO error''
         else
           let r = read_byte x;
               tdo = (if truth ((r - 0x30) AND 1) then 1 else 0);
               ms = (if tmsoe = 0 then (if truth ((r - 0x30) AND 2) then 1 else 0) else ms)
           in Inr (tdo, ms, [b, 0x53]))"

subsection \<open>Runs of the server\<close>

text \<open>
  A run of calls. Between two calls the design is evaluated: it sets \<open>tdo\<close>, and \<open>tms\<close> if it drives
  it, and an element of \<open>evals\<close> is what it sets them to before a call.
\<close>

fun jtag_run :: "(u8 \<times> u8 option) list \<Rightarrow> pins \<Rightarrow> server \<Rightarrow> (pins \<times> server) res" where
  "jtag_run [] p s = Inr (p, s)"
| "jtag_run ((tdo, ms) # evals) p s =
     bindE (doJTAGServer True tdo (case ms of None \<Rightarrow> p | Some m \<Rightarrow> p\<lparr>tms := m\<rparr>) s) (\<lambda>(p, s).
       jtag_run evals p s)"

text \<open>What the run should do: execute the commands one per call, and answer in order.\<close>

fun jtag_exec :: "(u8 \<times> u8 option) list \<Rightarrow> u8 list \<Rightarrow> pins \<Rightarrow> pins \<times> u8 list \<times> u8 list" where
  "jtag_exec [] cmds p = (p, [], cmds)"
| "jtag_exec ((tdo, ms) # evals) [] p = jtag_exec evals [] (case ms of None \<Rightarrow> p | Some m \<Rightarrow> p\<lparr>tms := m\<rparr>)"
| "jtag_exec ((tdo, ms) # evals) (c # cmds) p =
     (let (p, r) = jtag_command c tdo (case ms of None \<Rightarrow> p | Some m \<Rightarrow> p\<lparr>tms := m\<rparr>);
          (p, rs, rest) = jtag_exec evals cmds p
      in (p, (case r of None \<Rightarrow> rs | Some x \<Rightarrow> x # rs), rest))"

lemma server_update_commute: "s\<lparr>tx := t, rx := r\<rparr> = (s\<lparr>rx := r, tx := t\<rparr> :: server)"
  by simp

lemma doJTAGServer_Nil:
  assumes "rwq_holds (tx s) []"
  shows "\<exists>q. doJTAGServer mem tdo p s = Inr (p, s\<lparr>tx := q\<rparr>) \<and> rwq_holds q []"
  using poll_Nil [OF assms] by (auto simp: doJTAGServer_def Let_def)

lemma doJTAGServer_Cons:
  assumes "rwq_holds (tx s) (c # cs)" "rwq_holds (rx s) rs" "length cs < 2 ^ 64 - 1"
  shows "\<exists>t r. doJTAGServer True tdo p s = Inr (fst (jtag_command c tdo p), s\<lparr>rx := r, tx := t\<rparr>) \<and>
    rwq_holds t cs \<and>
    rwq_holds r (rs @ (case snd (jtag_command c tdo p) of None \<Rightarrow> [] | Some x \<Rightarrow> [x]))"
proof -
  from poll_Cons [OF assms(1,3)] obtain t where t: "poll (tx s) = Inr (Some c, t)" "rwq_holds t cs" by blast
  obtain p' a where pa: "jtag_command c tdo p = (p', a)" by fastforce
  show ?thesis
  proof (cases a)
    case None
    with t pa assms(2) show ?thesis
      by (intro exI [of _ t] exI [of _ "rx s"]) (simp add: doJTAGServer_def)
  next
    case (Some x)
    from rwq.enq_mem [OF assms(2), of x] obtain r where
      "enqueue True x (rx s) = Inr (True, r)" "rwq_holds r (rs @ [x])" by blast
    with t pa Some show ?thesis
      by (intro exI [of _ t] exI [of _ r]) (simp add: doJTAGServer_def server_update_commute)
  qed
qed

lemma jtag_run_exec:
  assumes "rwq_holds (tx s) cmds" "rwq_holds (rx s) rs" "length cmds < 2 ^ 64"
  shows "\<exists>t r. jtag_run evals p s = Inr (fst (jtag_exec evals cmds p), s\<lparr>rx := r, tx := t\<rparr>) \<and>
    rwq_holds t (drop (length evals) cmds) \<and>
    rwq_holds r (rs @ fst (snd (jtag_exec evals cmds p)))"
  using assms
proof (induction evals cmds p arbitrary: s rs rule: jtag_exec.induct)
  case (1 cmds p)
  then show ?case by (intro exI [of _ "tx s"] exI [of _ "rx s"]) simp
next
  case (2 tdo ms evals p)
  let ?p = "case ms of None \<Rightarrow> p | Some m \<Rightarrow> p\<lparr>tms := m\<rparr>"
  from doJTAGServer_Nil [OF 2(2), of True tdo ?p] obtain q where
    q: "doJTAGServer True tdo ?p s = Inr (?p, s\<lparr>tx := q\<rparr>)" "rwq_holds q []" by blast
  from 2(1) [of "s\<lparr>tx := q\<rparr>" rs] q(2) 2(3) obtain t r where
    "jtag_run evals ?p (s\<lparr>tx := q\<rparr>) = Inr (fst (jtag_exec evals [] ?p), s\<lparr>rx := r, tx := t\<rparr>)"
    "rwq_holds t []" "rwq_holds r (rs @ fst (snd (jtag_exec evals [] ?p)))" by auto
  with q show ?case by (intro exI [of _ t] exI [of _ r]) simp
next
  case (3 tdo ms evals c cmds p)
  let ?p = "case ms of None \<Rightarrow> p | Some m \<Rightarrow> p\<lparr>tms := m\<rparr>"
  obtain p' a where pa: "jtag_command c tdo ?p = (p', a)" by fastforce
  obtain p'' as rest where ex: "jtag_exec evals cmds p' = (p'', as, rest)" by (metis prod_cases3)
  from doJTAGServer_Cons [OF 3(2,3), of tdo ?p] 3(4) pa obtain t1 r1 where
    1: "doJTAGServer True tdo ?p s = Inr (p', s\<lparr>rx := r1, tx := t1\<rparr>)" "rwq_holds t1 cmds"
    "rwq_holds r1 (rs @ (case a of None \<Rightarrow> [] | Some x \<Rightarrow> [x]))" by auto
  from 3(1) [OF pa [symmetric] refl, of "s\<lparr>rx := r1, tx := t1\<rparr>" "rs @ (case a of None \<Rightarrow> [] | Some x \<Rightarrow> [x])"]
    1(2,3) 3(4) ex obtain t r where
    "jtag_run evals p' (s\<lparr>rx := r1, tx := t1\<rparr>) = Inr (p'', s\<lparr>rx := r, tx := t\<rparr>)"
    "rwq_holds t (drop (length evals) cmds)"
    "rwq_holds r (rs @ (case a of None \<Rightarrow> [] | Some x \<Rightarrow> [x]) @ as)" by auto
  with 1(1) pa ex show ?case
    by (intro exI [of _ t] exI [of _ r]) (cases a; simp add: Let_def)
qed


subsection \<open>An exchange\<close>

lemma bit_cases: "(w :: u8) \<le> 1 \<Longrightarrow> w = 0 \<or> w = 1"
  by (simp add: word_le_nat_alt word_unat_eq_iff) linarith

lemma jtag_command_bits:
  assumes "ck \<le> 1" "ms \<le> 1" "di \<le> 1"
  shows "jtag_command (jtag_bits ck ms di) tdo p = (p\<lparr>tdi := di, tms := ms, tck := ck\<rparr>, None)"
  using assms [THEN bit_cases] by (elim disjE) (simp_all add: jtag_bits_def jtag_command_def)

definition jtag_answer :: "u8 \<Rightarrow> u8 \<Rightarrow> u8" where
  "jtag_answer tdo ms = 0x30 + of_bool (truth tdo) + (if truth ms then 2 else 0)"

lemma jtag_command_S: "jtag_command 0x53 tdo p = (p, Some (jtag_answer tdo (tms p)))"
  by (simp add: jtag_command_def jtag_answer_def)

lemma jtag_answer_bits:
  "truth ((jtag_answer tdo ms - 0x30) AND 1) \<longleftrightarrow> truth tdo"
  "truth ((jtag_answer tdo ms - 0x30) AND 2) \<longleftrightarrow> truth ms"
  by (simp_all add: jtag_answer_def)

subsection \<open>Properties\<close>


definition idle_pins :: pins where
  "idle_pins = \<lparr>tck = 0, tdi = 0, tms = 0, srst = 1\<rparr>"


text \<open>
  C31. An exchange carries the pins across. When the two bytes the client writes are queued in the
  server, two calls of the server set \<open>tck\<close>, \<open>tdi\<close> and \<open>tms\<close> as on the client's side, leave
  \<open>srst\<close> alone, and queue one byte; from that byte the client reads the \<open>tdo\<close> of the design, and,
  when it does not drive \<open>tms\<close> itself, the \<open>tms\<close> at the server, which the design may have driven
  meanwhile.
\<close>

theorem jtag_exchange:
  assumes "ck \<le> 1" "di \<le> 1" "ms \<le> 1"
    and "rwq_holds (tx s) [jtag_bits ck ms di, 0x53]" "rwq_holds (rx s) []"
  shows "\<exists>p' s' reply. jtag_run [(tdo1, ms1), (tdo2, ms2)] p s = Inr (p', s') \<and>
    tck p' = ck \<and> tdi p' = di \<and> srst p' = srst p \<and> tms p' = (case ms2 of None \<Rightarrow> ms | Some m \<Rightarrow> m) \<and>
    rwq_holds (tx s') [] \<and> rwq_holds (rx s') [reply] \<and>
    doJTAGClient \<lparr>write1 = 1, write2 = 1, read_n = 1, read_byte = reply\<rparr> ck tdo di ms tmsoe =
      Inr (of_bool (truth tdo2), if tmsoe = 0 then of_bool (truth (tms p')) else ms,
           [jtag_bits ck ms di, 0x53])"
proof -
  let ?q = "\<lambda>p. case ms1 of None \<Rightarrow> p | Some m \<Rightarrow> p\<lparr>tms := m\<rparr>"
  let ?p = "(?q p)\<lparr>tdi := di, tms := ms, tck := ck\<rparr>"
  let ?p' = "case ms2 of None \<Rightarrow> ?p | Some m \<Rightarrow> ?p\<lparr>tms := m\<rparr>"
  have "jtag_exec [(tdo1, ms1), (tdo2, ms2)] [jtag_bits ck ms di, 0x53] p = (?p', [jtag_answer tdo2 (tms ?p')], [])"
    by (simp add: jtag_command_bits [OF assms(1,3,2)] jtag_command_S)
  with jtag_run_exec [OF assms(4,5), of "[(tdo1, ms1), (tdo2, ms2)]" p]
  obtain t r where 1: "jtag_run [(tdo1, ms1), (tdo2, ms2)] p s = Inr (?p', s\<lparr>rx := r, tx := t\<rparr>)"
    "rwq_holds t []" "rwq_holds r [jtag_answer tdo2 (tms ?p')]" by auto
  have pins: "tck ?p' = ck" "tdi ?p' = di" "srst ?p' = srst p" "tms ?p' = (case ms2 of None \<Rightarrow> ms | Some m \<Rightarrow> m)"
    by (simp_all split: option.split)
  have client: "doJTAGClient \<lparr>write1 = 1, write2 = 1, read_n = 1, read_byte = jtag_answer tdo2 (tms ?p')\<rparr> ck tdo di ms tmsoe =
      Inr (of_bool (truth tdo2), if tmsoe = 0 then of_bool (truth (tms ?p')) else ms, [jtag_bits ck ms di, 0x53])"
    by (simp add: doJTAGClient_def Let_def jtag_answer_bits)
  show ?thesis
    by (rule exI [of _ ?p'], rule exI [of _ "s\<lparr>rx := r, tx := t\<rparr>"], rule exI [of _ "jtag_answer tdo2 (tms ?p')"],
        intro conjI) (use 1 pins client in simp_all)
qed

theorem jtag_exchange_witness:
  "\<exists>q p' s' reply. jtag_run [(0, None), (1, Some 1)] idle_pins (example_server\<lparr>tx := q\<rparr>) = Inr (p', s') \<and>
     tck p' = 1 \<and> rwq_holds (rx s') [reply] \<and>
     doJTAGClient \<lparr>write1 = 1, write2 = 1, read_n = 1, read_byte = reply\<rparr> 1 0 0 0 0 = Inr (1, 1, [0x34, 0x53])"
proof -
  from rwq.enq_all_mem [OF default_queue_holds, of "\<lambda>_. True" "[0x34, 0x53 :: u8]"] obtain q where
    q: "rwq_holds q [0x34, 0x53 :: u8]" by auto
  have b: "jtag_bits 1 0 0 = 0x34" by (simp add: jtag_bits_def)
  from jtag_exchange [of 1 0 0 "example_server\<lparr>tx := q\<rparr>" 0 None 1 "Some 1" idle_pins 0 0] q default_queue_holds
  show ?thesis by (fastforce simp: b example_server_def)
qed

end
