(* ===== verification/Gpio_Link.thy ===== *)
theory Gpio_Link
  imports Server
begin

text \<open>
  The two ends of the GPIO link (\<open>GPIOServer.cpp\<close>, \<open>GPIOServer.h\<close>, \<open>GPIOClient.cpp\<close>,
  \<open>GPIOClient.h\<close>). An end keeps the outputs it sent last, sends a byte for every output that
  changed since, and applies the bytes it receives to its inputs.
\<close>

subsection \<open>Masks and bytes\<close>

text \<open>
  \<open>1 << i\<close> is a shift of an \<open>int\<close> of 32 bits, which is then extended with its sign to the 64 bits
  of the inputs and outputs. A shift by 32 or more is not defined.
\<close>

definition shl_int :: "nat \<Rightarrow> u64 res" where
  "shl_int i = (if i < 32 then Inr (scast (push_bit i (1 :: u32))) else Inl BadShift)"

definition gpio_byte :: "nat \<Rightarrow> bool \<Rightarrow> u8" where
  "gpio_byte i on = (if on then (of_nat i AND 0x7F) OR 0x80 else of_nat i AND 0x7F)"

text \<open>\<open>*input |= (1 << off)\<close> or \<open>*input &= ~(1 << off)\<close>, for a signal the input has.\<close>

definition gpio_apply :: "u8 \<Rightarrow> size_t \<Rightarrow> u64 \<Rightarrow> u64 res" where
  "gpio_apply cmd input_cnt inp =
     (let off = cmd AND 0x7F
      in if ucast off < input_cnt then
           bindE (shl_int (unat off)) (\<lambda>m.
             Inr (if truth (cmd AND 0x80) then inp OR m else inp AND NOT m))
         else Inr inp)"

subsection \<open>The server\<close>

text \<open>\<open>last_output\<close> is the member \<open>output\<close>, which the constructor does not initialise, and the static variable \<open>init\<close>.\<close>

record gpio =
  last_output :: "u64 option"
  init :: bool

definition new_gpio_server :: "bool \<Rightarrow> bool \<Rightarrow> u32 \<Rightarrow> bool \<Rightarrow> server res" where
  "new_gpio_server mem_rx mem_tx per dbg = new_server mem_rx mem_tx ''GPIOServer'' per dbg"

text \<open>The loop from \<open>i\<close> on, with \<open>k\<close> outputs left. A byte without memory is reported and lost.\<close>

primrec server_send_loop ::
  "(nat \<Rightarrow> bool) \<Rightarrow> nat \<Rightarrow> nat \<Rightarrow> u64 \<Rightarrow> u64 \<Rightarrow> u8 rwq \<Rightarrow> u8 rwq res" where
  "server_send_loop mem 0 i out old q = Inr q"
| "server_send_loop mem (Suc k) i out old q =
     bindE (shl_int i) (\<lambda>m.
       if out AND m \<noteq> old AND m then
         bindE (enqueue (mem i) (gpio_byte i (truth (out AND m))) q) (\<lambda>(ok, q).
           server_send_loop mem k (Suc i) out old q)
       else server_send_loop mem k (Suc i) out old q)"

definition server_SendOutputs ::
  "(nat \<Rightarrow> bool) \<Rightarrow> u64 \<Rightarrow> size_t \<Rightarrow> gpio \<Rightarrow> server \<Rightarrow> (gpio \<times> server) res" where
  "server_SendOutputs mem out output_cnt g s =
     (case last_output g of
        None \<Rightarrow> Inl UninitRead
      | Some old \<Rightarrow>
          if out \<noteq> old then
            bindE (server_send_loop mem (unat output_cnt) 0 out old (rx s)) (\<lambda>q.
              Inr (g\<lparr>last_output := Some out\<rparr>, s\<lparr>rx := q\<rparr>))
          else Inr (g, s))"

text \<open>The loop over the commands, up to a flush command or until none is left.\<close>

fun server_recv_loop :: "nat \<Rightarrow> size_t \<Rightarrow> u64 \<Rightarrow> u8 rwq \<Rightarrow> (u64 \<times> u8 rwq) res" where
  "server_recv_loop 0 input_cnt inp q = Inl OutOfFuel"
| "server_recv_loop (Suc fuel) input_cnt inp q =
     bindE (poll q) (\<lambda>(r, q).
       case r of
         None \<Rightarrow> Inr (inp, q)
       | Some cmd \<Rightarrow>
           if cmd = 0xFF then Inr (inp, q)
           else bindE (gpio_apply cmd input_cnt inp) (\<lambda>inp. server_recv_loop fuel input_cnt inp q))"

definition doGPIOServer ::
  "(nat \<Rightarrow> bool) \<Rightarrow> nat \<Rightarrow> u64 \<Rightarrow> size_t \<Rightarrow> u64 \<Rightarrow> size_t \<Rightarrow> gpio \<Rightarrow> server \<Rightarrow> (u64 \<times> gpio \<times> server) res" where
  "doGPIOServer mem fuel inp input_cnt out output_cnt g s =
     (case running s of
        None \<Rightarrow> Inl UninitRead
      | Some False \<Rightarrow> Inr (inp, g, s)
      | Some True \<Rightarrow>
          bindE (if \<not> init g then
                   bindE (server_SendOutputs mem out output_cnt (g\<lparr>last_output := Some (NOT out)\<rparr>) s)
                     (\<lambda>(g, s). Inr (g\<lparr>init := True\<rparr>, s))
                 else server_SendOutputs mem out output_cnt g s) (\<lambda>(g, s).
          bindE (server_recv_loop fuel input_cnt inp (tx s)) (\<lambda>(inp, q).
            Inr (inp, g, s\<lparr>tx := q\<rparr>))))"

subsection \<open>The client\<close>

record gpio_client =
  gpiosock :: int
  client_period :: u32

definition new_gpio_client :: "int \<Rightarrow> gpio_client" where
  "new_gpio_client per = \<lparr>gpiosock = -1, client_period = word_of_int per\<rparr>"

text \<open>
  \<open>Start\<close>: the socket is made non-blocking before it is connected, and an error of \<open>fcntl\<close> is
  only reported.
\<close>

definition gpio_client_Start :: "int \<Rightarrow> int \<Rightarrow> gpio_client \<Rightarrow> gpio_client res" where
  "gpio_client_Start sock connect_rv c =
     (let c = c\<lparr>gpiosock := sock\<rparr>
      in if gpiosock c < 0 then fail ''Unable to create gpiosock!''
         else if connect_rv \<noteq> 0 then fail ''Failed to connect to localhost''
         else Inr c)"

text \<open>\<open>Stop\<close> and the destructor: the descriptors they close.\<close>

definition gpio_client_Stop :: "gpio_client \<Rightarrow> int list" where
  "gpio_client_Stop c = [gpiosock c]"

definition delete_gpio_client :: "gpio_client \<Rightarrow> int list" where
  "delete_gpio_client c = (if gpiosock c \<noteq> -1 then gpio_client_Stop c else [])"

text \<open>A store in \<open>data[65]\<close> at \<open>idx\<close>, the number of bytes stored before.\<close>

definition put_data :: "u8 list \<Rightarrow> u8 \<Rightarrow> u8 list res" where
  "put_data buf b = (if length buf < 65 then Inr (buf @ [b]) else Inl OutOfBounds)"

primrec client_send_loop :: "nat \<Rightarrow> nat \<Rightarrow> u64 \<Rightarrow> u64 \<Rightarrow> u8 list \<Rightarrow> u8 list res" where
  "client_send_loop 0 i out old buf = Inr buf"
| "client_send_loop (Suc k) i out old buf =
     bindE (shl_int i) (\<lambda>m.
       if out AND m \<noteq> old AND m then
         bindE (put_data buf (gpio_byte i (truth (out AND m)))) (\<lambda>buf.
           client_send_loop k (Suc i) out old buf)
       else client_send_loop k (Suc i) out old buf)"

text \<open>The result has the bytes passed to \<open>write\<close>; that it writes fewer is only reported.\<close>

definition client_SendOutputs :: "u64 \<Rightarrow> size_t \<Rightarrow> gpio \<Rightarrow> (gpio \<times> u8 list) res" where
  "client_SendOutputs out output_cnt g =
     (case last_output g of
        None \<Rightarrow> Inl UninitRead
      | Some old \<Rightarrow>
          if out \<noteq> old then
            bindE (client_send_loop (unat output_cnt) 0 out old []) (\<lambda>buf.
            bindE (put_data buf 0xFF) (\<lambda>buf.
              Inr (g\<lparr>last_output := Some out\<rparr>, buf)))
          else Inr (g, []))"

text \<open>The non-blocking reads: \<open>avail\<close> are the bytes that have arrived.\<close>

fun client_recv_loop :: "size_t \<Rightarrow> u64 \<Rightarrow> u8 list \<Rightarrow> (u64 \<times> u8 list) res" where
  "client_recv_loop input_cnt inp [] = Inr (inp, [])"
| "client_recv_loop input_cnt inp (cmd # avail) =
     (if cmd = 0xFF then Inr (inp, avail)
      else bindE (gpio_apply cmd input_cnt inp) (\<lambda>inp. client_recv_loop input_cnt inp avail))"

definition doGPIOClient ::
  "u8 list \<Rightarrow> u64 \<Rightarrow> size_t \<Rightarrow> u64 \<Rightarrow> size_t \<Rightarrow> gpio \<Rightarrow> (u64 \<times> gpio \<times> u8 list \<times> u8 list) res" where
  "doGPIOClient avail inp input_cnt out output_cnt g =
     bindE (if \<not> init g then
              bindE (client_SendOutputs out output_cnt (g\<lparr>last_output := Some (NOT out)\<rparr>))
                (\<lambda>(g, buf). Inr (g\<lparr>init := True\<rparr>, buf))
            else client_SendOutputs out output_cnt g) (\<lambda>(g, buf).
     bindE (client_recv_loop input_cnt inp avail) (\<lambda>(inp, avail).
       Inr (inp, g, buf, avail)))"

subsection \<open>What is sent\<close>

text \<open>The bytes for the outputs \<open>i\<close> to \<open>i + k - 1\<close> that changed.\<close>

primrec changes :: "nat \<Rightarrow> nat \<Rightarrow> u64 \<Rightarrow> u64 \<Rightarrow> u8 list" where
  "changes 0 i out old = []"
| "changes (Suc k) i out old =
     (if bit out i \<noteq> bit old i then [gpio_byte i (bit out i)] else []) @ changes k (Suc i) out old"

text \<open>For the first 31 outputs the mask is the bit.\<close>

lemma masks_low: "list_all (\<lambda>i. scast (push_bit i (1 :: u32)) = (2 ^ i :: u64) \<and> (2 ^ i :: u64) \<noteq> 0) [0..<31]"
  by code_simp

lemma shl_int_low: "i < 31 \<Longrightarrow> shl_int i = Inr (2 ^ i)"
  and pow2_neq: "i < 31 \<Longrightarrow> (2 ^ i :: u64) \<noteq> 0"
  using masks_low by (simp_all add: list_all_iff shl_int_def)

lemma and_bit: "(w :: u64) AND 2 ^ i = (if bit w i then 2 ^ i else 0)"
  by (rule bit_eqI) (auto simp: bit_simps)

lemma server_send_loop_changes:
  "i + k \<le> 31 \<Longrightarrow> server_send_loop (\<lambda>_. True) k i out old q = enq_all enqueue (\<lambda>_. True) (changes k i out old) q"
proof (induction k arbitrary: i q)
  case (Suc k)
  then have "server_send_loop (\<lambda>_. True) k (Suc i) out old =
      enq_all enqueue (\<lambda>_. True) (changes k (Suc i) out old)" by (auto intro!: ext)
  with Suc.prems show ?case
    by (auto simp: shl_int_low and_bit pow2_neq)
qed simp

lemma length_changes: "length (changes k i out old) \<le> k"
  by (induction k arbitrary: i) (auto intro: le_SucI)

lemma client_send_loop_changes:
  "i + k \<le> 31 \<Longrightarrow> length buf + k \<le> 64 \<Longrightarrow> client_send_loop k i out old buf = Inr (buf @ changes k i out old)"
proof (induction k arbitrary: i buf)
  case (Suc k)
  then show ?case
    by (auto simp: shl_int_low and_bit pow2_neq put_data_def)
qed simp

subsection \<open>What is received\<close>

lemma gpio_bytes_low:
  "list_all (\<lambda>i. list_all (\<lambda>on. unat (gpio_byte i on AND 0x7F) = i \<and>
     (truth (gpio_byte i on AND 0x80) \<longleftrightarrow> on) \<and> gpio_byte i on \<noteq> 0xFF) [True, False]) [0..<31]"
  by code_simp

lemma gpio_byte_parts:
  assumes "i < 31"
  shows "unat (gpio_byte i on AND 0x7F) = i" "truth (gpio_byte i on AND 0x80) \<longleftrightarrow> on" "gpio_byte i on \<noteq> 0xFF"
  using gpio_bytes_low assms by (cases on; simp add: list_all_iff)+

lemma gpio_apply_byte:
  assumes "i < 31" "i < unat cnt"
  shows "gpio_apply (gpio_byte i on) cnt inp = Inr (if on then inp OR 2 ^ i else inp AND NOT (2 ^ i))"
proof -
  have "unat (ucast (gpio_byte i on AND 0x7F) :: size_t) = i"
  proof -
    have "unat (gpio_byte i on AND 0x7F) < 2 ^ 64" using gpio_byte_parts(1) [OF assms(1)] assms(1) by simp
    then show ?thesis using gpio_byte_parts(1) [OF assms(1)]
      by (simp add: unsigned_ucast_eq take_bit_nat_eq_self)
  qed
  then have "(ucast (gpio_byte i on AND 0x7F) :: size_t) < cnt" using assms by (simp add: word_less_nat_alt)
  then show ?thesis using gpio_byte_parts [OF assms(1)] shl_int_low [OF assms(1)]
    by (simp add: gpio_apply_def Let_def)
qed

text \<open>
  The result of applying bytes one by one, and what it is for the bytes of the changes: the
  outputs from \<open>i\<close> to \<open>i + k - 1\<close>, if those that did not change agree with the inputs.
\<close>

fun apply_all :: "size_t \<Rightarrow> u8 list \<Rightarrow> u64 \<Rightarrow> u64 res" where
  "apply_all cnt [] inp = Inr inp"
| "apply_all cnt (b # bs) inp = bindE (gpio_apply b cnt inp) (apply_all cnt bs)"

definition merged :: "nat \<Rightarrow> nat \<Rightarrow> u64 \<Rightarrow> u64 \<Rightarrow> u64 \<Rightarrow> bool" where
  "merged i k out inp inp' \<longleftrightarrow>
     (\<forall>j < 64. bit inp' j = (if i \<le> j \<and> j < i + k then bit out j else bit inp j))"

lemma apply_changes:
  assumes "i + k \<le> 31" "i + k \<le> unat cnt"
    and "\<And>j. i \<le> j \<Longrightarrow> j < i + k \<Longrightarrow> bit out j = bit old j \<Longrightarrow> bit inp j = bit out j"
  shows "\<exists>inp'. apply_all cnt (changes k i out old) inp = Inr inp' \<and> merged i k out inp inp'"
  using assms
proof (induction k arbitrary: i inp)
  case 0
  then show ?case by (auto simp: merged_def)
next
  case (Suc k)
  let ?inp = "if bit out i \<noteq> bit old i then if bit out i then inp OR 2 ^ i else inp AND NOT (2 ^ i) else inp"
  have b: "bit ?inp j = (if j = i then bit out j else bit inp j)" if "j < 64" for j
    using Suc.prems(3) [of i] that Suc.prems(1) by (auto simp: bit_simps)
  have "\<exists>inp'. apply_all cnt (changes k (Suc i) out old) ?inp = Inr inp' \<and> merged (Suc i) k out ?inp inp'"
  proof (rule Suc.IH)
    fix j assume "Suc i \<le> j" "j < Suc i + k" "bit out j = bit old j"
    with Suc.prems(1,3) b [of j] show "bit ?inp j = bit out j" by simp
  qed (use Suc.prems in simp_all)
  then obtain inp' where 1: "apply_all cnt (changes k (Suc i) out old) ?inp = Inr inp'"
    "merged (Suc i) k out ?inp inp'" by blast
  have "merged i (Suc k) out inp inp'"
    unfolding merged_def
  proof (intro allI impI)
    fix j :: nat assume j: "j < 64"
    with 1(2) have "bit inp' j = (if Suc i \<le> j \<and> j < Suc i + k then bit out j else bit ?inp j)"
      unfolding merged_def by blast
    with b [OF j] show "bit inp' j = (if i \<le> j \<and> j < i + Suc k then bit out j else bit inp j)" by auto
  qed
  moreover have "apply_all cnt (changes (Suc k) i out old) inp = Inr inp'"
    using 1(1) gpio_apply_byte [of i cnt] Suc.prems(1,2) by auto
  ultimately show ?case by blast
qed

lemma changes_no_flush: "i + k \<le> 31 \<Longrightarrow> 0xFF \<notin> set (changes k i out old)"
  by (induction k arbitrary: i) (auto simp: gpio_byte_parts(3) dest: sym)

lemma server_recv_all:
  assumes "rwq_holds q (bs @ rest)" "0xFF \<notin> set bs" "apply_all cnt bs inp = Inr inp'"
    and "length bs < fuel" "length (bs @ rest) < 2 ^ 64" "rest = [] \<or> hd rest = 0xFF"
  shows "\<exists>q'. server_recv_loop fuel cnt inp q = Inr (inp', q') \<and> rwq_holds q' (tl rest)"
  using assms
proof (induction bs arbitrary: q inp fuel)
  case Nil
  from Nil(4) obtain f where f: "fuel = Suc f" by (cases fuel) auto
  show ?case
  proof (cases rest)
    case Nil
    with Nil.prems f poll_Nil [of q] show ?thesis by auto
  next
    case (Cons c cs)
    with Nil.prems f poll_Cons [of q c cs] show ?thesis by auto
  qed
next
  case (Cons b bs)
  from Cons.prems(4) obtain f where f: "fuel = Suc f" "length bs < f" by (cases fuel) auto
  from poll_Cons [of q b "bs @ rest"] Cons.prems(1,5) obtain q1 where
    1: "poll q = Inr (Some b, q1)" "rwq_holds q1 (bs @ rest)" by auto
  from Cons.prems(3) obtain inp1 where
    2: "gpio_apply b cnt inp = Inr inp1" "apply_all cnt bs inp1 = Inr inp'" by (auto simp: bindE_eq_Inr)
  from Cons.IH [OF 1(2) _ 2(2) f(2)] Cons.prems(2,5,6) obtain q' where
    "server_recv_loop f cnt inp1 q1 = Inr (inp', q')" "rwq_holds q' (tl rest)" by auto
  with 1(1) 2(1) f(1) Cons.prems(2) show ?case by auto
qed

lemma client_recv_all:
  assumes "0xFF \<notin> set bs" "apply_all cnt bs inp = Inr inp'" "rest = [] \<or> hd rest = 0xFF"
  shows "client_recv_loop cnt inp (bs @ rest) = Inr (inp', tl rest)"
  using assms
proof (induction bs arbitrary: inp)
  case Nil
  then show ?case by (cases rest) auto
next
  case (Cons b bs)
  then show ?case by (auto simp: bindE_eq_Inr)
qed


subsection \<open>Limits\<close>

lemma server_send_loop_limit:
  assumes "rwq_holds q xs" "i \<le> 32" "32 < i + k"
  shows "server_send_loop mem k i out old q = Inl BadShift"
  using assms
proof (induction k arbitrary: i q xs)
  case (Suc k)
  show ?case
  proof (cases "i = 32")
    case False
    then have m: "shl_int i = Inr (scast (push_bit i (1 :: u32)))" using Suc.prems by (simp add: shl_int_def)
    have IH: "server_send_loop mem k (Suc i) out old q' = Inl BadShift" if "rwq_holds q' ys" for q' ys
      using Suc.IH [OF that] Suc.prems False by simp
    from rwq.enq_any [OF Suc.prems(1), of "mem i"] m Suc.prems(1) show ?thesis
      by (auto intro: IH) (metis IH bindE_simps(2) case_prod_conv)
  qed (simp add: shl_int_def)
qed simp

lemma client_send_loop_limit:
  assumes "length buf \<le> i" "i \<le> 32" "32 < i + k"
  shows "client_send_loop k i out old buf = Inl BadShift"
  using assms
proof (induction k arbitrary: i buf)
  case (Suc k)
  show ?case
  proof (cases "i = 32")
    case False
    then show ?thesis using Suc by (simp add: shl_int_def put_data_def)
  qed (simp add: shl_int_def)
qed simp

lemma client_send_loop_bound:
  assumes "length buf \<le> i" "i + k \<le> 32"
  shows "\<exists>buf'. client_send_loop k i out old buf = Inr buf' \<and> length buf' \<le> i + k"
  using assms
proof (induction k arbitrary: i buf)
  case (Suc k)
  let ?m = "scast (push_bit i (1 :: u32)) :: u64"
  let ?b = "gpio_byte i (truth (out AND ?m))"
  have m: "shl_int i = Inr ?m" using Suc.prems by (simp add: shl_int_def)
  from Suc.IH [of buf "Suc i"] Suc.IH [of "buf @ [?b]" "Suc i"] Suc.prems m
  show ?case by (simp add: put_data_def)
qed simp

subsection \<open>Properties\<close>

text \<open>The sender's record of its outputs agrees with the receiver's inputs.\<close>

definition synced :: "size_t \<Rightarrow> gpio \<Rightarrow> u64 \<Rightarrow> bool" where
  "synced cnt g inp \<longleftrightarrow>
     (init g \<longrightarrow> (\<exists>old. last_output g = Some old \<and> (\<forall>j < unat cnt. bit inp j = bit old j)))"

text \<open>What either end sends in a call, the first call included.\<close>

definition sent :: "size_t \<Rightarrow> u64 \<Rightarrow> gpio \<Rightarrow> u8 list" where
  "sent cnt out g = changes (unat cnt) 0 out (if init g then the (last_output g) else NOT out)"

lemma apply_sent:
  assumes "unat cnt \<le> 31" "synced cnt g inp"
  shows "\<exists>inp'. apply_all cnt (sent cnt out g) inp = Inr inp' \<and> merged 0 (unat cnt) out inp inp' \<and>
    (\<forall>j < unat cnt. bit inp' j = bit out j)"
proof -
  have "\<exists>inp'. apply_all cnt (sent cnt out g) inp = Inr inp' \<and> merged 0 (unat cnt) out inp inp'"
    unfolding sent_def
  proof (rule apply_changes)
    fix j
    assume j: "j < 0 + unat cnt" "bit out j = bit (if init g then the (last_output g) else NOT out) j"
    show "bit inp j = bit out j"
    proof (cases "init g")
      case True
      with assms(2) j show ?thesis by (auto simp: synced_def)
    next
      case False
      with j assms(1) show ?thesis by (simp add: bit_not_iff possible_bit_word)
    qed
  qed (use assms(1) in simp_all)
  then obtain inp' where inp': "apply_all cnt (sent cnt out g) inp = Inr inp'" "merged 0 (unat cnt) out inp inp'"
    by blast
  then have "bit inp' j = bit out j" if "j < unat cnt" for j
    using that assms(1) unfolding merged_def by simp
  with inp' show ?thesis by blast
qed

lemma server_outputs:
  assumes "unat cnt \<le> 31" "synced cnt g inp" "rwq_holds (rx s) xs"
  shows "\<exists>q. (if \<not> init g then
        bindE (server_SendOutputs (\<lambda>_. True) out cnt (g\<lparr>last_output := Some (NOT out)\<rparr>) s)
          (\<lambda>(g, s). Inr (g\<lparr>init := True\<rparr>, s))
      else server_SendOutputs (\<lambda>_. True) out cnt g s) =
    Inr (\<lparr>last_output = Some out, init = True\<rparr>, s\<lparr>rx := q\<rparr>) \<and> rwq_holds q (xs @ sent cnt out g)"
proof -
  from rwq.enq_all_mem [OF assms(3), of "\<lambda>_. True" "sent cnt out g"] obtain q where
    q: "enq_all enqueue (\<lambda>_. True) (sent cnt out g) (rx s) = Inr q" "rwq_holds q (xs @ sent cnt out g)" by blast
  have neq: "out \<noteq> NOT out"
  proof
    assume "out = NOT out"
    then have "bit out 0 = bit (NOT out) 0" by simp
    then show False by (simp add: bit_simps)
  qed
  have same: "changes k i out out = []" for k i by (induction k arbitrary: i) simp_all
  show ?thesis
  proof (cases "init g")
    case True
    then obtain old where old: "last_output g = Some old" using assms(2) by (auto simp: synced_def)
    show ?thesis
    proof (cases "out = old")
      case True
      with \<open>init g\<close> old same assms(3) show ?thesis
        by (intro exI [of _ "rx s"]) (auto simp: server_SendOutputs_def sent_def)
    next
      case False
      with True old q assms(1) show ?thesis
        by (intro exI [of _ q]) (auto simp: server_SendOutputs_def sent_def server_send_loop_changes)
    qed
  next
    case False
    with neq q assms(1) show ?thesis
      by (intro exI [of _ q]) (auto simp: server_SendOutputs_def sent_def server_send_loop_changes)
  qed
qed

lemma client_outputs:
  assumes "unat cnt \<le> 31" "synced cnt g inp"
  shows "\<exists>buf. (if \<not> init g then
        bindE (client_SendOutputs out cnt (g\<lparr>last_output := Some (NOT out)\<rparr>))
          (\<lambda>(g, buf). Inr (g\<lparr>init := True\<rparr>, buf))
      else client_SendOutputs out cnt g) =
    Inr (\<lparr>last_output = Some out, init = True\<rparr>, buf) \<and>
    (buf = sent cnt out g @ [0xFF] \<or> buf = [] \<and> sent cnt out g = [])"
proof -
  have neq: "out \<noteq> NOT out"
  proof
    assume "out = NOT out"
    then have "bit out 0 = bit (NOT out) 0" by simp
    then show False by (simp add: bit_simps)
  qed
  have same: "changes k i out out = []" for k i by (induction k arbitrary: i) simp_all
  have len: "length (changes (unat cnt) 0 out old) < 65" for old
    using length_changes [of "unat cnt" 0 out old] assms(1) by simp
  show ?thesis
  proof (cases "init g")
    case True
    then obtain old where old: "last_output g = Some old" using assms(2) by (auto simp: synced_def)
    show ?thesis
    proof (cases "out = old")
      case True
      with \<open>init g\<close> old same show ?thesis
        by (auto simp: client_SendOutputs_def sent_def)
    next
      case False
      with True old len assms(1) show ?thesis
        by (auto simp: client_SendOutputs_def sent_def client_send_loop_changes put_data_def)
    qed
  next
    case False
    with neq len assms(1) show ?thesis
      by (auto simp: client_SendOutputs_def sent_def client_send_loop_changes put_data_def)
  qed
qed

text \<open>
  C32. From server to client: a call of the server queues bytes from which the client, when they
  reach it, sets exactly its first \<open>cnt\<close> inputs to the outputs of the server, in the first call as
  in any later one, for up to 31 signals. The two ends are in step again afterwards.
\<close>

theorem gpio_server_to_client:
  assumes "unat cnt \<le> 31" "synced cnt g inp" "running s = Some True"
    and "rwq_holds (rx s) []" "rwq_holds (tx s) []" "0 < fuel"
  shows "\<exists>g' s' bytes inp'. doGPIOServer (\<lambda>_. True) fuel sinp scnt out cnt g s = Inr (sinp, g', s') \<and>
    rwq_holds (rx s') bytes \<and> client_recv_loop cnt inp bytes = Inr (inp', []) \<and>
    merged 0 (unat cnt) out inp inp' \<and> synced cnt g' inp'"
proof -
  from server_outputs [OF assms(1,2,4), of out] obtain q where
    1: "(if \<not> init g then
        bindE (server_SendOutputs (\<lambda>_. True) out cnt (g\<lparr>last_output := Some (NOT out)\<rparr>) s)
          (\<lambda>(g, s). Inr (g\<lparr>init := True\<rparr>, s))
      else server_SendOutputs (\<lambda>_. True) out cnt g s) =
      Inr (\<lparr>last_output = Some out, init = True\<rparr>, s\<lparr>rx := q\<rparr>)" "rwq_holds q (sent cnt out g)" by auto
  from poll_Nil [OF assms(5)] assms(6) obtain t where t: "server_recv_loop fuel scnt sinp (tx s) = Inr (sinp, t)"
    by (cases fuel) auto
  from apply_sent [OF assms(1,2), of out] obtain inp' where
    2: "apply_all cnt (sent cnt out g) inp = Inr inp'" "merged 0 (unat cnt) out inp inp'"
    "\<forall>j < unat cnt. bit inp' j = bit out j" by blast
  have "0xFF \<notin> set (sent cnt out g)" unfolding sent_def by (rule changes_no_flush) (use assms(1) in simp)
  from client_recv_all [OF this 2(1), of "[]"]
  have "client_recv_loop cnt inp (sent cnt out g) = Inr (inp', [])" by simp
  moreover have "doGPIOServer (\<lambda>_. True) fuel sinp scnt out cnt g s =
      Inr (sinp, \<lparr>last_output = Some out, init = True\<rparr>, s\<lparr>rx := q, tx := t\<rparr>)"
    unfolding doGPIOServer_def assms(3) option.case bool.case 1(1) by (simp add: t)
  moreover have "synced cnt \<lparr>last_output = Some out, init = True\<rparr> inp'"
    using 2(3) by (simp add: synced_def)
  ultimately show ?thesis using 1(2) 2(2)
    by - (rule exI [of _ "\<lparr>last_output = Some out, init = True\<rparr>"], rule exI [of _ "s\<lparr>rx := q, tx := t\<rparr>"],
      rule exI [of _ "sent cnt out g"], rule exI [of _ inp'], simp)
qed

definition running_gpio :: server where
  "running_gpio = \<lparr>name = ''GPIOServer'', sockfd = Some 3, port = Some 8888, thread_id = Some (),
     debug = False, running = Some True, rx = default_queue, tx = default_queue, period = 2\<rparr>"

definition gpio_unset :: gpio where
  "gpio_unset = \<lparr>last_output = None, init = False\<rparr>"

theorem gpio_server_to_client_witness:
  "\<exists>g' s' bytes inp'. doGPIOServer (\<lambda>_. True) 1 0 0 0xA5 8 gpio_unset running_gpio = Inr (0, g', s') \<and>
     rwq_holds (rx s') bytes \<and> client_recv_loop 8 0 bytes = Inr (inp', []) \<and> merged 0 8 0xA5 0 inp'"
  using gpio_server_to_client [of 8 gpio_unset 0 running_gpio 1 0 0 "0xA5"] default_queue_holds
  by (fastforce simp: synced_def gpio_unset_def running_gpio_def)

text \<open>
  C33. From client to server: the bytes the client writes in a call end with a flush command, up
  to which the server reads; one call of the server then sets exactly its first \<open>cnt\<close> inputs to
  the outputs of the client, for up to 31 signals, and leaves the bytes of later calls alone.
\<close>

theorem gpio_client_to_server:
  assumes "unat cnt \<le> 31" "synced cnt g inp" "rwq_holds q (bytes @ later)"
    and "doGPIOClient [] cinp ccnt out cnt g = Inr (cinp', g', bytes, avail)"
    and "length (bytes @ later) < 2 ^ 64" "bytes = [] \<longrightarrow> later = []" "length bytes < fuel"
  shows "\<exists>inp' q'. server_recv_loop fuel cnt inp q = Inr (inp', q') \<and> rwq_holds q' later \<and>
    merged 0 (unat cnt) out inp inp' \<and> synced cnt g' inp' \<and> cinp' = cinp \<and> length bytes \<le> 32"
proof -
  from client_outputs [OF assms(1,2), of out] obtain buf where
    1: "(if \<not> init g then
        bindE (client_SendOutputs out cnt (g\<lparr>last_output := Some (NOT out)\<rparr>))
          (\<lambda>(g, buf). Inr (g\<lparr>init := True\<rparr>, buf))
      else client_SendOutputs out cnt g) = Inr (\<lparr>last_output = Some out, init = True\<rparr>, buf)"
    "buf = sent cnt out g @ [0xFF] \<or> buf = [] \<and> sent cnt out g = []" by blast
  have "doGPIOClient [] cinp ccnt out cnt g = Inr (cinp, \<lparr>last_output = Some out, init = True\<rparr>, buf, [])"
    unfolding doGPIOClient_def 1(1) by simp
  with assms(4) have c: "bytes = buf" "cinp' = cinp" "g' = \<lparr>last_output = Some out, init = True\<rparr>" by auto
  from apply_sent [OF assms(1,2), of out] obtain inp' where
    2: "apply_all cnt (sent cnt out g) inp = Inr inp'" "merged 0 (unat cnt) out inp inp'"
    "\<forall>j < unat cnt. bit inp' j = bit out j" by blast
  have ff: "0xFF \<notin> set (sent cnt out g)" unfolding sent_def by (rule changes_no_flush) (use assms(1) in simp)
  have len: "length (sent cnt out g) \<le> 31"
    unfolding sent_def using length_changes order_trans assms(1) by blast
  have "\<exists>q'. server_recv_loop fuel cnt inp q = Inr (inp', q') \<and> rwq_holds q' later"
    using 1(2)
  proof
    assume buf: "buf = sent cnt out g @ [0xFF]"
    from server_recv_all [OF _ ff 2(1), of q "0xFF # later" fuel] assms(3,5,7) buf c(1) show ?thesis by simp
  next
    assume buf: "buf = [] \<and> sent cnt out g = []"
    from server_recv_all [OF _ ff 2(1), of q "[]" fuel] assms(3,5,6,7) buf c(1) show ?thesis by simp
  qed
  with 1(2) 2(2,3) c len show ?thesis by (auto simp: synced_def)
qed

theorem gpio_client_to_server_witness:
  "\<exists>g' bytes inp' q q'. doGPIOClient [] 0 0 0xA5 8 gpio_unset = Inr (0, g', bytes, []) \<and>
     server_recv_loop 40 8 0 q = Inr (inp', q') \<and> rwq_holds q' [] \<and> merged 0 8 0xA5 0 inp'"
proof -
  let ?bytes = "[0x80, 0x01, 0x82, 0x03, 0x04, 0x85, 0x06, 0x87, 0xFF :: u8]"
  have c: "doGPIOClient [] 0 0 0xA5 8 gpio_unset = Inr (0, \<lparr>last_output = Some 0xA5, init = True\<rparr>, ?bytes, [])"
    by code_simp
  from rwq.enq_all_mem [OF default_queue_holds, of "\<lambda>_. True" ?bytes] obtain q where q: "rwq_holds q ?bytes" by auto
  from gpio_client_to_server [OF _ _ _ c, of 0 q "[]" 40] q obtain inp' q' where
    "server_recv_loop 40 8 0 q = Inr (inp', q')" "rwq_holds q' []" "merged 0 8 0xA5 0 inp'"
    by (auto simp: synced_def gpio_unset_def)
  with c show ?thesis by blast
qed

text \<open>
  The limits of the masks. With more than 32 outputs either end shifts by 32 or more when
  the outputs change. The buffer of the client is never overrun, for no number of outputs. A
  command for the signal 31 sets the inputs 32 to 63 as well.
\<close>

theorem gpio_limits:
  assumes "last_output g = Some old" "out \<noteq> old" "rwq_holds (rx s) xs"
  shows "(32 < unat cnt \<longrightarrow> server_SendOutputs mem out cnt g s = Inl BadShift \<and>
      client_SendOutputs out cnt g = Inl BadShift) \<and>
    client_SendOutputs out cnt g \<noteq> Inl OutOfBounds \<and>
    gpio_apply (gpio_byte 31 True) 32 0 = Inr 0xFFFFFFFF80000000"
proof -
  have "client_SendOutputs out cnt g \<noteq> Inl OutOfBounds"
  proof (cases "unat cnt \<le> 32")
    case True
    from client_send_loop_bound [of "[]" 0 "unat cnt" out old] True obtain buf where
      "client_send_loop (unat cnt) 0 out old [] = Inr buf" "length buf \<le> 32" by auto
    with assms show ?thesis by (simp add: client_SendOutputs_def put_data_def)
  next
    case False
    with assms client_send_loop_limit [of "[]" 0 "unat cnt" out old] show ?thesis
      by (simp add: client_SendOutputs_def)
  qed
  moreover have "gpio_apply (gpio_byte 31 True) 32 0 = Inr 0xFFFFFFFF80000000" by code_simp
  moreover have "32 < unat cnt \<Longrightarrow> server_SendOutputs mem out cnt g s = Inl BadShift \<and>
      client_SendOutputs out cnt g = Inl BadShift"
    using assms server_send_loop_limit [OF assms(3), of 0 "unat cnt" mem out old]
      client_send_loop_limit [of "[]" 0 "unat cnt" out old]
    by (simp add: server_SendOutputs_def client_SendOutputs_def)
  ultimately show ?thesis by blast
qed

theorem gpio_limits_witness:
  "client_SendOutputs 1 64 \<lparr>last_output = Some 0, init = True\<rparr> = Inl BadShift"
  using gpio_limits [of "\<lparr>last_output = Some 0, init = True\<rparr>" 0 1 running_gpio "[]" 64 "\<lambda>_. True"]
  by (simp add: running_gpio_def default_queue_holds)

end
