(* ===== verification/Verilator_Utils.thy ===== *)
theory Verilator_Utils
  imports Uart_Server Jtag_Link Gpio_Link
begin

text \<open>
  The class \<open>VerilatorUtils\<close> (\<open>verilator_utils.cpp\<close>, \<open>verilator_utils.h\<close>), which a testbench calls
  once per tick: the simulation time with its timeout, the window in which waveforms are dumped,
  the options of the command line, the loading of programs, and the calls of the servers and
  clients, each at its own period.
\<close>

subsection \<open>State\<close>

text \<open>The calls of the waveform writer, which is not part of the repository, are recorded.\<close>

datatype fst_call = FstOpen string | FstDump u64 | FstFlush | FstClose

text \<open>
  \<open>fstDumping\<close> is not initialised by the constructor. \<open>mem\<close> is the memory of the design, as an
  array of words, if the testbench passed one.
\<close>

record utils =
  now :: u64
  timeout :: u64
  fstDump :: bool
  fstDumpStart :: u64
  fstDumpStop :: u64
  fstFileName :: string
  fstDumping :: "bool option"
  tfp :: "fst_call list"
  jtagServerEnable :: bool
  jtagServerPort :: u32
  uartServerEnable :: bool
  uartServerPort :: u32
  jtagClientEnable :: bool
  jtagClientPort :: u32
  gpioServerEnable :: bool
  gpioServerPort :: u32
  gpioClientEnable :: bool
  gpioClientPort :: u32
  mem_words :: "u32 list option"
  jtag_server :: server
  uart_server :: server
  uart_statics :: uart
  gpio_server :: server
  gpio_server_statics :: gpio
  jtag_client :: jtag_client
  gpio_client :: gpio_client
  gpio_client_statics :: gpio

definition new_utils :: "bool \<Rightarrow> u32 list option \<Rightarrow> utils res" where
  "new_utils mem m =
     bindE (new_jtag_server mem mem 8 False) (\<lambda>js.
     bindE (new_uart_server mem mem 4 False) (\<lambda>us.
     bindE (new_gpio_server mem mem 2 False) (\<lambda>gs.
       Inr \<lparr>now = 0, timeout = 0, fstDump = False, fstDumpStart = 0, fstDumpStop = 0,
            fstFileName = ''../sim.fst'', fstDumping = None, tfp = [],
            jtagServerEnable = False, jtagServerPort = 2345,
            uartServerEnable = False, uartServerPort = 7777,
            jtagClientEnable = False, jtagClientPort = 2345,
            gpioServerEnable = False, gpioServerPort = 8888,
            gpioClientEnable = False, gpioClientPort = 8888,
            mem_words = m, jtag_server = js,
            uart_server = us, uart_statics = uart_init,
            gpio_server = gs, gpio_server_statics = \<lparr>last_output = None, init = False\<rparr>,
            jtag_client = new_jtag_client 1,
            gpio_client = new_gpio_client 2,
            gpio_client_statics = \<lparr>last_output = None, init = False\<rparr>\<rparr>)))"

subsection \<open>The tick\<close>

text \<open>
  \<open>doCycle\<close>: \<open>finish\<close> is the answer of \<open>Verilated::gotFinish\<close>. Reading \<open>fstDumping\<close> before it was
  set is a fault.
\<close>

definition call_fst :: "fst_call list \<Rightarrow> utils \<Rightarrow> utils" where
  "call_fst cs u = u\<lparr>tfp := tfp u @ cs\<rparr>"

definition fst_window :: "utils \<Rightarrow> utils res" where
  "fst_window u =
     (if fstDumpStop u \<noteq> 0 \<and> fstDumpStop u \<le> now u then
        (case fstDumping u of
           None \<Rightarrow> Inl UninitRead
         | Some dumping \<Rightarrow>
             Inr ((if dumping then call_fst [FstFlush, FstClose] u else u)\<lparr>fstDumping := Some False\<rparr>))
      else if fstDump u \<and> fstDumpStart u \<le> now u then
        (case fstDumping u of
           None \<Rightarrow> Inl UninitRead
         | Some dumping \<Rightarrow>
             Inr ((if \<not> dumping then call_fst [FstOpen (fstFileName u)] u else u)\<lparr>fstDumping := Some True\<rparr>))
      else Inr u)"

definition doCycle :: "bool \<Rightarrow> utils \<Rightarrow> (bool \<times> utils) res" where
  "doCycle finish u =
     bindE (fst_window u) (\<lambda>u.
       case fstDumping u of
         None \<Rightarrow> Inl UninitRead
       | Some dumping \<Rightarrow>
           let u = (if dumping then call_fst [FstDump (now u)] u else u)
           in if timeout u \<noteq> 0 \<and> timeout u \<le> now u then Inr (False, u)
              else if finish then Inr (False, call_fst [FstFlush, FstClose] u)
              else Inr (True, u\<lparr>now := now u + 1\<rparr>))"

text \<open>
  The destructor, up to the servers, and whole; \<open>is_open\<close> is the answer of \<open>tfp->isOpen ()\<close>, and
  the result has the descriptors of the clients that are closed.
\<close>

definition close_dump :: "bool \<Rightarrow> utils \<Rightarrow> utils res" where
  "close_dump is_open u =
     (case fstDumping u of
        None \<Rightarrow> Inl UninitRead
      | Some dumping \<Rightarrow> Inr (if dumping \<and> is_open then call_fst [FstFlush, FstClose] u else u))"

definition delete_utils :: "bool \<Rightarrow> utils \<Rightarrow> (utils \<times> int list) res" where
  "delete_utils is_open u =
     bindE (close_dump is_open u) (\<lambda>u.
     bindE (delete_server (jtag_server u)) (\<lambda>_.
     bindE (delete_server (uart_server u)) (\<lambda>_.
     let closed = delete_jtag_client (jtag_client u) @ delete_gpio_client (gpio_client u)
     in bindE (delete_server (gpio_server u)) (\<lambda>_. Inr (u, closed)))))"

subsection \<open>The servers and clients\<close>

text \<open>\<open>(t % period) == 0\<close>.\<close>

definition on_period :: "utils \<Rightarrow> u32 \<Rightarrow> bool res" where
  "on_period u per = bindE (remainder (now u) (ucast per)) (\<lambda>r. Inr (r = 0))"

definition when_due :: "bool \<Rightarrow> utils \<Rightarrow> u32 \<Rightarrow> 'a \<Rightarrow> 'a res \<Rightarrow> 'a res" where
  "when_due enable u per dflt action =
     (if enable then bindE (on_period u per) (\<lambda>due. if due then action else Inr dflt) else Inr dflt)"

text \<open>Without a pointer for \<open>srst\<close> a dummy stands in for it.\<close>

definition utils_doJTAGServer ::
  "bool \<Rightarrow> u8 \<Rightarrow> pins \<Rightarrow> bool \<Rightarrow> utils \<Rightarrow> (pins \<times> utils) res" where
  "utils_doJTAGServer mem tdo p has_srst u =
     when_due (jtagServerEnable u) u (period (jtag_server u)) (p, u)
       (bindE (doJTAGServer mem tdo p (jtag_server u)) (\<lambda>(p', s).
          Inr (if has_srst then p' else p'\<lparr>srst := srst p\<rparr>, u\<lparr>jtag_server := s\<rparr>)))"

definition utils_doUARTServer :: "bool \<Rightarrow> u8 \<Rightarrow> u8 \<Rightarrow> utils \<Rightarrow> (u8 \<times> utils) res" where
  "utils_doUARTServer mem tx_pin rx_pin u =
     (if uartServerEnable u then
        bindE (doUARTServer mem (now u) tx_pin rx_pin (uart_statics u) (uart_server u)) (\<lambda>(st, s, rx_pin).
          Inr (rx_pin, u\<lparr>uart_statics := st, uart_server := s\<rparr>))
      else Inr (rx_pin, u))"

definition utils_doJTAGClient ::
  "exchange \<Rightarrow> u8 \<Rightarrow> u8 \<Rightarrow> u8 \<Rightarrow> u8 \<Rightarrow> u8 \<Rightarrow> utils \<Rightarrow> (u8 \<times> u8 \<times> u8 list) res" where
  "utils_doJTAGClient x ck tdo di ms tmsoe u =
     when_due (jtagClientEnable u) u (jtag_client.client_period (jtag_client u)) (tdo, ms, [])
       (doJTAGClient x ck tdo di ms tmsoe)"

definition utils_doGPIOServer ::
  "(nat \<Rightarrow> bool) \<Rightarrow> nat \<Rightarrow> u64 \<Rightarrow> size_t \<Rightarrow> u64 \<Rightarrow> size_t \<Rightarrow> utils \<Rightarrow> (u64 \<times> utils) res" where
  "utils_doGPIOServer mem fuel inp input_cnt out output_cnt u =
     when_due (gpioServerEnable u) u (period (gpio_server u)) (inp, u)
       (bindE (doGPIOServer mem fuel inp input_cnt out output_cnt (gpio_server_statics u) (gpio_server u))
          (\<lambda>(inp, g, s). Inr (inp, u\<lparr>gpio_server_statics := g, gpio_server := s\<rparr>)))"

definition utils_doGPIOClient ::
  "u8 list \<Rightarrow> u64 \<Rightarrow> size_t \<Rightarrow> u64 \<Rightarrow> size_t \<Rightarrow> utils \<Rightarrow> (u64 \<times> utils \<times> u8 list \<times> u8 list) res" where
  "utils_doGPIOClient avail inp input_cnt out output_cnt u =
     when_due (gpioClientEnable u) u (gpio_client.client_period (gpio_client u)) (inp, u, [], avail)
       (bindE (doGPIOClient avail inp input_cnt out output_cnt (gpio_client_statics u))
          (\<lambda>(inp, g, buf, avail). Inr (inp, u\<lparr>gpio_client_statics := g\<rparr>, buf, avail)))"

subsection \<open>Programs\<close>

text \<open>\<open>mem[i]\<close> as a word, and as the bytes of a little-endian host.\<close>

definition set_word :: "nat \<Rightarrow> u32 \<Rightarrow> u32 list option \<Rightarrow> u32 list option res" where
  "set_word i w m = (case m of
     None \<Rightarrow> Inl WildPointer
   | Some ws \<Rightarrow> if i < length ws then Inr (Some (ws[i := w])) else Inl OutOfBounds)"

definition with_byte :: "nat \<Rightarrow> u8 \<Rightarrow> u32 \<Rightarrow> u32" where
  "with_byte k b w = (w AND NOT (push_bit (8 * k) 0xFF)) OR push_bit (8 * k) (ucast b)"

definition set_byte :: "nat \<Rightarrow> u8 \<Rightarrow> u32 list option \<Rightarrow> u32 list option res" where
  "set_byte i b m = (case m of
     None \<Rightarrow> Inl WildPointer
   | Some ws \<Rightarrow>
       if i div 4 < length ws then Inr (Some (ws[i div 4 := with_byte (i mod 4) b (ws ! (i div 4))]))
       else Inl OutOfBounds)"

text \<open>
  \<open>loadElf\<close>. The functions \<open>load_elf_file\<close> and \<open>read_32\<close> of the library \<open>elf-loader\<close> are
  parameters: the image of a file with its size, and the word at an offset of an image.
\<close>

function elf_loop :: "('img \<Rightarrow> int \<Rightarrow> u32) \<Rightarrow> 'img \<Rightarrow> int \<Rightarrow> int \<Rightarrow> u32 list option \<Rightarrow> u32 list option res" where
  "elf_loop read_32 img sz i m =
     (if i < sz then
        bindE (set_word (nat (i div 4)) (read_32 img i) m) (elf_loop read_32 img sz (i + 4))
      else Inr m)"
  by pat_completeness auto
termination
  by (relation "measure (\<lambda>(read_32, img, sz, i, m). nat (sz - i))") auto

declare elf_loop.simps [simp del]

definition loadElf ::
  "(string \<Rightarrow> ('img \<times> int) option) \<Rightarrow> ('img \<Rightarrow> int \<Rightarrow> u32) \<Rightarrow> string \<Rightarrow> utils \<Rightarrow> (bool \<times> utils) res" where
  "loadElf load_elf_file read_32 fileName u =
     (case load_elf_file fileName of
        None \<Rightarrow> Inr (False, u)
      | Some (img, sz) \<Rightarrow>
          bindE (elf_loop read_32 img sz 0 (mem_words u)) (\<lambda>m. Inr (True, u\<lparr>mem_words := m\<rparr>)))"

text \<open>
  \<open>loadBin\<close>: \<open>files\<close> tells which files can be opened, with the size \<open>ftell\<close> reports and the bytes
  \<open>fread\<close> then obtains.
\<close>

fun bin_loop :: "nat \<Rightarrow> u8 list \<Rightarrow> u32 list option \<Rightarrow> u32 list option res" where
  "bin_loop i [] m = Inr m"
| "bin_loop i (b # bs) m = bindE (set_byte i b m) (bin_loop (Suc i) bs)"

definition loadBin :: "(string \<Rightarrow> (int \<times> u8 list) option) \<Rightarrow> string \<Rightarrow> utils \<Rightarrow> (bool \<times> utils) res" where
  "loadBin files fileName u =
     (case files fileName of
        None \<Rightarrow> Inr (False, u)
      | Some (sz, bytes) \<Rightarrow>
          bindE (bin_loop 0 bytes (mem_words u)) (\<lambda>m.
            Inr (int (length bytes) = sz, u\<lparr>mem_words := m\<rparr>)))"

subsection \<open>Options\<close>

text \<open>
  \<open>strtol (arg, NULL, 10)\<close>: white space, a sign, and digits, up to the first other character; the
  value is confined to the range of \<open>long\<close>. \<open>atoi\<close> is its low half.
\<close>

definition is_space :: "char \<Rightarrow> bool" where
  "is_space c \<longleftrightarrow> c = CHR '' '' \<or> (9 \<le> (of_char c :: nat) \<and> (of_char c :: nat) \<le> 13)"

definition is_digit :: "char \<Rightarrow> bool" where
  "is_digit c \<longleftrightarrow> 48 \<le> (of_char c :: nat) \<and> (of_char c :: nat) \<le> 57"

definition digits_value :: "string \<Rightarrow> int" where
  "digits_value ds = foldl (\<lambda>n c. 10 * n + (of_char c - 48)) 0 ds"

definition clamp_long :: "int \<Rightarrow> int" where
  "clamp_long n = max (- (2 ^ 63)) (min (2 ^ 63 - 1) n)"

definition strtol :: "string \<Rightarrow> i64" where
  "strtol arg =
     (let s = dropWhile is_space arg;
          neg = (s \<noteq> [] \<and> hd s = CHR ''-'');
          s = (if s \<noteq> [] \<and> (hd s = CHR ''-'' \<or> hd s = CHR ''+'') then tl s else s);
          n = digits_value (takeWhile is_digit s)
      in word_of_int (clamp_long (if neg then - n else n)))"

definition atoi :: "string \<Rightarrow> u32" where
  "atoi arg = ucast (strtol arg)"

datatype opt_key = OPT_TIMEOUT | OPT_ELFLOAD | OPT_BINLOAD | Key char

text \<open>The answers of the operating system, and the libraries, an option may use.\<close>

record 'img opt_env =
  pthread_rv :: int
  sock_rv :: int
  connect_rv :: int
  elf_files :: "string \<Rightarrow> ('img \<times> int) option"
  elf_read_32 :: "'img \<Rightarrow> int \<Rightarrow> u32"
  bin_files :: "string \<Rightarrow> (int \<times> u8 list) option"

text \<open>An optional argument of an option; a missing one is \<open>None\<close>.\<close>

definition arg_port :: "string option \<Rightarrow> u32 \<Rightarrow> u32" where
  "arg_port arg dflt = (case arg of None \<Rightarrow> dflt | Some a \<Rightarrow> atoi a)"

datatype opt_result = OptOk | ArgpErrUnknown

definition need_arg :: "string option \<Rightarrow> string res" where
  "need_arg arg = (case arg of None \<Rightarrow> Inl WildPointer | Some a \<Rightarrow> Inr a)"

definition parseOpts ::
  "'img opt_env \<Rightarrow> opt_key \<Rightarrow> string option \<Rightarrow> utils \<Rightarrow> (opt_result \<times> utils) res" where
  "parseOpts env key arg u = (case key of
     OPT_TIMEOUT \<Rightarrow> bindE (need_arg arg) (\<lambda>a. Inr (OptOk, u\<lparr>timeout := strtol a\<rparr>))
   | OPT_ELFLOAD \<Rightarrow> bindE (need_arg arg) (\<lambda>a.
       bindE (loadElf (elf_files env) (elf_read_32 env) a u) (\<lambda>(ok, u). Inr (OptOk, u)))
   | OPT_BINLOAD \<Rightarrow> bindE (need_arg arg) (\<lambda>a.
       bindE (loadBin (bin_files env) a u) (\<lambda>(ok, u). Inr (OptOk, u)))
   | Key c \<Rightarrow>
       if c = CHR ''f'' then
         Inr (OptOk, u\<lparr>fstDump := True,
           fstFileName := (case arg of None \<Rightarrow> fstFileName u | Some a \<Rightarrow> a)\<rparr>)
       else if c = CHR ''s'' then bindE (need_arg arg) (\<lambda>a. Inr (OptOk, u\<lparr>fstDumpStart := strtol a\<rparr>))
       else if c = CHR ''t'' then bindE (need_arg arg) (\<lambda>a. Inr (OptOk, u\<lparr>fstDumpStop := strtol a\<rparr>))
       else if c = CHR ''j'' then
         let u = u\<lparr>jtagServerEnable := True, jtagServerPort := arg_port arg (jtagServerPort u)\<rparr>
         in bindE (Start (ucast (jtagServerPort u)) (pthread_rv env) (jtag_server u)) (\<lambda>s.
              Inr (OptOk, u\<lparr>jtag_server := s\<rparr>))
       else if c = CHR ''u'' then
         let u = u\<lparr>uartServerEnable := True, uartServerPort := arg_port arg (uartServerPort u)\<rparr>
         in bindE (Start (ucast (uartServerPort u)) (pthread_rv env) (uart_server u)) (\<lambda>s.
              Inr (OptOk, u\<lparr>uart_server := s\<rparr>))
       else if c = CHR ''r'' then
         let u = u\<lparr>jtagClientEnable := True, jtagClientPort := arg_port arg (jtagClientPort u)\<rparr>
         in bindE (jtag_client_Start (sock_rv env) (connect_rv env) (jtag_client u)) (\<lambda>c.
              Inr (OptOk, u\<lparr>jtag_client := c\<rparr>))
       else if c = CHR ''g'' then
         let u = u\<lparr>gpioServerEnable := True, gpioServerPort := arg_port arg (gpioServerPort u)\<rparr>
         in bindE (Start (ucast (gpioServerPort u)) (pthread_rv env) (gpio_server u)) (\<lambda>s.
              Inr (OptOk, u\<lparr>gpio_server := s\<rparr>))
       else if c = CHR ''x'' then
         let u = u\<lparr>gpioClientEnable := True, gpioClientPort := arg_port arg (gpioClientPort u)\<rparr>
         in bindE (gpio_client_Start (sock_rv env) (connect_rv env) (gpio_client u)) (\<lambda>c.
              Inr (OptOk, u\<lparr>gpio_client := c\<rparr>))
       else Inr (ArgpErrUnknown, u))"

end
