(* ===== verification/Verilator_Utils_Correct.thy ===== *)
theory Verilator_Utils_Correct
  imports Verilator_Utils
begin

text \<open>
  What the class \<open>VerilatorUtils\<close> guarantees: the window of the waveform dump, the end of a
  simulation with a timeout, the periods of the servers, the numbers of the command line, and the
  memory after a program was loaded.
\<close>

subsection \<open>Runs of ticks\<close>

text \<open>The loop of a testbench, for \<open>n\<close> ticks in which the design does not finish.\<close>

primrec ticks :: "nat \<Rightarrow> utils \<Rightarrow> (bool \<times> utils) res" where
  "ticks 0 u = Inr (True, u)"
| "ticks (Suc n) u = bindE (doCycle False u) (\<lambda>(go, u). if go then ticks n u else Inr (False, u))"

text \<open>The calls a run of \<open>n\<close> ticks from tick 0 on should make.\<close>

definition dump_end :: "utils \<Rightarrow> nat \<Rightarrow> nat" where
  "dump_end u n = (if fstDumpStop u = 0 then n else min n (unat (fstDumpStop u)))"

definition dump_log :: "utils \<Rightarrow> nat \<Rightarrow> fst_call list" where
  "dump_log u n =
     (if fstDump u \<and> unat (fstDumpStart u) < dump_end u n then
        [FstOpen (fstFileName u)] @ map (\<lambda>d. FstDump (of_nat d)) [unat (fstDumpStart u)..<dump_end u n] @
        (if dump_end u n < n then [FstFlush, FstClose] else [])
      else [])"

definition dumping_before :: "utils \<Rightarrow> nat \<Rightarrow> bool" where
  "dumping_before u d \<longleftrightarrow> fstDump u \<and> unat (fstDumpStart u) < d \<and>
     (fstDumpStop u = 0 \<or> d \<le> unat (fstDumpStop u))"

text \<open>What stays as it is during a run.\<close>

definition tick_state :: "utils \<Rightarrow> nat \<Rightarrow> utils" where
  "tick_state u d = u\<lparr>now := of_nat d, fstDumping := Some (dumping_before u d), tfp := tfp u @ dump_log u d\<rparr>"

lemma unat_small: "d < 2 ^ 64 \<Longrightarrow> unat (of_nat d :: u64) = d"
  by (simp add: unat_of_nat)

lemma le_small: "d < 2 ^ 64 \<Longrightarrow> (w :: u64) \<le> of_nat d \<longleftrightarrow> unat w \<le> d"
  by (simp add: word_le_nat_alt unat_small)

definition edge_calls :: "utils \<Rightarrow> nat \<Rightarrow> fst_call list" where
  "edge_calls u d =
     (if dumping_before u d \<and> \<not> dumping_before u (Suc d) then [FstFlush, FstClose]
      else if dumping_before u (Suc d) \<and> \<not> dumping_before u d then [FstOpen (fstFileName u)] else [])"

lemma dump_log_Suc:
  "dump_log u (Suc d) =
     dump_log u d @ edge_calls u d @ (if dumping_before u (Suc d) then [FstDump (of_nat d)] else [])"
proof -
  have stop0: "fstDumpStop u \<noteq> 0 \<longleftrightarrow> 0 < unat (fstDumpStop u)" by (simp add: unat_gt_0)
  let ?a = "unat (fstDumpStart u)" and ?b = "unat (fstDumpStop u)"
  consider "\<not> fstDump u" | "fstDump u" "fstDumpStop u = 0"
    | "fstDump u" "fstDumpStop u \<noteq> 0" "d < ?b" | "fstDump u" "fstDumpStop u \<noteq> 0" "d = ?b"
    | "fstDump u" "fstDumpStop u \<noteq> 0" "?b < d" by linarith
  then show ?thesis
  proof cases
    case 1
    then show ?thesis by (simp add: dump_log_def edge_calls_def dumping_before_def)
  next
    case 2
    then show ?thesis
      by (cases "?a < d"; cases "?a = d")
        (auto simp: dump_log_def edge_calls_def dumping_before_def dump_end_def)
  next
    case 3
    then show ?thesis
      by (cases "?a < d"; cases "?a = d")
        (auto simp: dump_log_def edge_calls_def dumping_before_def dump_end_def min_def)
  next
    case 4
    then show ?thesis
      by (cases "?a < d") (auto simp: dump_log_def edge_calls_def dumping_before_def dump_end_def min_def)
  next
    case 5
    then show ?thesis
      by (auto simp: dump_log_def edge_calls_def dumping_before_def dump_end_def min_def)
  qed
qed

lemma tick_window:
  assumes "d < 2 ^ 64"
  shows "fst_window (tick_state u d) =
    Inr ((tick_state u d)\<lparr>fstDumping := Some (dumping_before u (Suc d)),
      tfp := tfp u @ dump_log u d @ edge_calls u d\<rparr>)"
proof -
  note le = le_small [OF assms]
  note defs = fst_window_def tick_state_def call_fst_def edge_calls_def
  consider (stopped) "fstDumpStop u \<noteq> 0" "unat (fstDumpStop u) \<le> d"
    | (on) "fstDumpStop u = 0 \<or> d < unat (fstDumpStop u)" "fstDump u" "unat (fstDumpStart u) \<le> d"
    | (off) "fstDumpStop u = 0 \<or> d < unat (fstDumpStop u)" "\<not> fstDump u \<or> d < unat (fstDumpStart u)"
    by linarith
  then show ?thesis
  proof cases
    case stopped
    then have "\<not> dumping_before u (Suc d)" by (auto simp: dumping_before_def)
    with stopped show ?thesis
      by (cases "dumping_before u d") (simp_all add: defs le)
  next
    case on
    then have "dumping_before u (Suc d)" by (auto simp: dumping_before_def)
    moreover have "\<not> (fstDumpStop u \<noteq> 0 \<and> unat (fstDumpStop u) \<le> d)" using on(1) by auto
    ultimately show ?thesis using on(2,3)
      by (cases "dumping_before u d") (auto simp: defs le)
  next
    case off
    then have "\<not> dumping_before u (Suc d)" "\<not> dumping_before u d" by (auto simp: dumping_before_def)
    moreover have "\<not> (fstDumpStop u \<noteq> 0 \<and> unat (fstDumpStop u) \<le> d)" using off(1) by auto
    moreover have "\<not> (fstDump u \<and> unat (fstDumpStart u) \<le> d)" using off(2) by auto
    ultimately show ?thesis by (auto simp: defs le)
  qed
qed

lemma tick_step:
  assumes "d < 2 ^ 64" "timeout u = 0 \<or> d < unat (timeout u)"
  shows "doCycle False (tick_state u d) = Inr (True, tick_state u (Suc d))"
proof -
  have "\<not> (timeout u \<noteq> 0 \<and> timeout u \<le> of_nat d)" using assms by (auto simp: le_small)
  then show ?thesis
    by (simp add: doCycle_def tick_window [OF assms(1)] Let_def)
      (simp add: tick_state_def call_fst_def dump_log_Suc add.commute)
qed

lemma tick_timeout:
  assumes "d < 2 ^ 64" "timeout u \<noteq> 0" "unat (timeout u) \<le> d"
  shows "doCycle finish (tick_state u d) = Inr (False, (tick_state u (Suc d))\<lparr>now := of_nat d\<rparr>)"
proof -
  have "timeout u \<noteq> 0 \<and> timeout u \<le> of_nat d" using assms by (simp add: le_small)
  then show ?thesis
    by (simp add: doCycle_def tick_window [OF assms(1)] Let_def)
      (simp add: tick_state_def call_fst_def dump_log_Suc)
qed

lemma ticks_run:
  assumes "d + n \<le> 2 ^ 64" "timeout u = 0 \<or> d + n \<le> unat (timeout u)"
  shows "ticks n (tick_state u d) = Inr (True, tick_state u (d + n))"
  using assms
proof (induction n arbitrary: d)
  case (Suc n)
  then have "doCycle False (tick_state u d) = Inr (True, tick_state u (Suc d))"
    by (intro tick_step) auto
  with Suc.IH [of "Suc d"] Suc.prems show ?case by simp
qed simp

lemma ticks_append:
  "ticks (m + n) u = bindE (ticks m u) (\<lambda>(go, u). if go then ticks n u else Inr (False, u))"
proof (induction m arbitrary: u)
  case (Suc m)
  show ?case by (cases "doCycle False u") (auto simp: Suc.IH)
qed simp

lemma tick_state_0:
  "now u = 0 \<Longrightarrow> fstDumping u = Some False \<Longrightarrow> tick_state u 0 = u"
  by (simp add: tick_state_def dumping_before_def dump_log_def dump_end_def)


subsection \<open>Options and numbers\<close>

fun parse_all :: "'img opt_env \<Rightarrow> (opt_key \<times> string option) list \<Rightarrow> utils \<Rightarrow> utils res" where
  "parse_all env [] u = Inr u"
| "parse_all env ((key, arg) # opts) u = bindE (parseOpts env key arg u) (\<lambda>(r, u). parse_all env opts u)"

lemma load_fst:
  "loadElf files read fileName u = Inr (r, u') \<Longrightarrow> fstDumping u' = fstDumping u"
  "loadBin bins fileName u = Inr (r, u') \<Longrightarrow> fstDumping u' = fstDumping u"
  by (auto simp: loadElf_def loadBin_def bindE_eq_Inr split: option.splits)

lemma parseOpts_fst: "parseOpts env key arg u = Inr (r, u') \<Longrightarrow> fstDumping u' = fstDumping u"
  by (cases key) (auto simp: parseOpts_def bindE_eq_Inr Let_def load_fst split: if_splits)

lemma parse_all_fst: "parse_all env opts u = Inr u' \<Longrightarrow> fstDumping u' = fstDumping u"
proof (induction opts arbitrary: u)
  case (Cons a opts)
  then show ?case by (cases a) (auto simp: bindE_eq_Inr dest: parseOpts_fst)
qed simp

lemma new_utils_eq: "\<exists>u. new_utils True m = Inr u \<and> now u = 0 \<and> fstDumping u = None \<and> tfp u = [] \<and>
    jtag_server u = \<lparr>name = ''JTAGServer'', sockfd = None, port = None, thread_id = None,
      debug = False, running = None, rx = default_queue, tx = default_queue, period = 8\<rparr> \<and>
    mem_words u = m"
  by (simp add: new_utils_def new_jtag_server_def new_uart_server_def new_gpio_server_def new_server_eq)

text \<open>A number in decimal.\<close>

fun show_dec :: "nat \<Rightarrow> string" where
  "show_dec n = (if n < 10 then [char_of (48 + n)] else show_dec (n div 10) @ [char_of (48 + n mod 10)])"

declare show_dec.simps [simp del]

lemma of_char_digit: "d < 10 \<Longrightarrow> (of_char (char_of (48 + d)) :: nat) = 48 + d"
  by simp

lemma digits_value_snoc: "digits_value (ds @ [c]) = 10 * digits_value ds + (of_char c - 48)"
  by (simp add: digits_value_def)

lemma of_char_int: "(of_char c :: int) = int (of_char c)"
  by (simp add: of_char_def)

lemma show_dec_digits: "list_all is_digit (show_dec n) \<and> show_dec n \<noteq> [] \<and> digits_value (show_dec n) = int n"
proof (induction n rule: show_dec.induct)
  case (1 n)
  show ?case
  proof (cases "n < 10")
    case True
    then show ?thesis
      by (subst (1 2 3) show_dec.simps) (simp add: is_digit_def of_char_digit digits_value_def of_char_int)
  next
    case False
    have d: "n mod 10 \<le> 9" "n mod 10 < 10" by simp_all
    have n: "10 * int (n div 10) + int (n mod 10) = int n"
      by (metis mult_div_mod_eq of_nat_add of_nat_mult of_nat_numeral)
    have e: "show_dec n = show_dec (n div 10) @ [char_of (48 + n mod 10)]"
      using False by (subst show_dec.simps) simp
    show ?thesis
      using 1 False of_char_digit [OF d(2)] d n unfolding e
      by (simp add: is_digit_def digits_value_snoc of_char_int)
  qed
qed

lemma takeWhile_digits:
  "list_all is_digit ds \<Longrightarrow> rest = [] \<or> \<not> is_digit (hd rest) \<Longrightarrow> takeWhile is_digit (ds @ rest) = ds"
  by (cases rest) (auto simp: takeWhile_append2 list_all_iff)

lemma strtol_dec:
  assumes "list_all is_space ws" "rest = [] \<or> \<not> is_digit (hd rest)" "n < 2 ^ 63"
  shows "strtol (ws @ show_dec n @ rest) = of_nat n" "strtol (ws @ CHR ''-'' # show_dec n @ rest) = - of_nat n"
proof -
  from show_dec_digits [of n] obtain c cs where c: "show_dec n = c # cs" "is_digit c" by (cases "show_dec n") auto
  have notspace: "\<not> is_space c" "c \<noteq> CHR ''-''" "c \<noteq> CHR ''+''" "\<not> is_space CHR ''-''"
    using c(2) by (auto simp: is_space_def is_digit_def)
  have ws: "dropWhile is_space (ws @ x # xs) = x # xs" if "\<not> is_space x" for x xs
    using assms(1) that by (simp add: dropWhile_append2 list_all_iff)
  have tw: "takeWhile is_digit (c # cs @ rest) = show_dec n"
    using takeWhile_digits [of "show_dec n" rest] show_dec_digits [of n] assms(2) c by simp
  have clamp: "clamp_long (int n) = int n" "clamp_long (- int n) = - int n"
    using assms(3) by (simp_all add: clamp_long_def)
  show "strtol (ws @ show_dec n @ rest) = of_nat n"
    using tw clamp show_dec_digits [of n] unfolding strtol_def c(1) append_Cons ws [OF notspace(1)]
    by (simp add: notspace c(1) Let_def)
  show "strtol (ws @ CHR ''-'' # show_dec n @ rest) = - of_nat n"
    using tw clamp show_dec_digits [of n] unfolding strtol_def c(1) append_Cons ws [OF notspace(4)]
    by (simp add: notspace c(1) Let_def)
qed


subsection \<open>Memory images\<close>

lemma elf_loop_step: "i < sz \<Longrightarrow> elf_loop read_32 img sz i m =
    bindE (set_word (nat (i div 4)) (read_32 img i) m) (elf_loop read_32 img sz (i + 4))"
  by (subst elf_loop.simps) simp

lemma elf_loop_done: "\<not> i < sz \<Longrightarrow> elf_loop read_32 img sz i m = Inr m"
  by (subst elf_loop.simps) simp

text \<open>The words of an image from word \<open>i\<close> on: \<open>k\<close> of them, the last one maybe in part.\<close>

lemma elf_loop_fits:
  assumes "4 * int (i + k) < sz + 4" "sz \<le> 4 * int (i + k)" "i + k \<le> length ws"
  shows "elf_loop read_32 img sz (4 * int i) (Some ws) =
    Inr (Some (take i ws @ map (\<lambda>j. read_32 img (4 * int j)) [i..<i + k] @ drop (i + k) ws))"
  using assms
proof (induction k arbitrary: i ws)
  case 0
  then show ?case by (simp add: elf_loop_done)
next
  case (Suc k)
  let ?ws = "ws[i := read_32 img (4 * int i)]"
  have "elf_loop read_32 img sz (4 * int i) (Some ws) = elf_loop read_32 img sz (4 * int (Suc i)) (Some ?ws)"
    using Suc.prems by (subst elf_loop_step) (auto simp: set_word_def algebra_simps)
  also have "\<dots> = Inr (Some (take (Suc i) ?ws @ map (\<lambda>j. read_32 img (4 * int j)) [Suc i..<Suc i + k] @
      drop (Suc i + k) ?ws))"
    by (rule Suc.IH) (use Suc.prems in auto)
  also have "take (Suc i) ?ws = take i ws @ [read_32 img (4 * int i)]"
    using Suc.prems by (simp add: take_Suc_conv_app_nth)
  finally show ?case using Suc.prems by (simp add: upt_rec [of i])
qed

lemma elf_loop_overrun:
  assumes "4 * int (length ws) < sz" "i \<le> length ws"
  shows "elf_loop read_32 img sz (4 * int i) (Some ws) = Inl OutOfBounds"
  using assms
proof (induction "length ws - i" arbitrary: i ws)
  case 0
  then show ?case by (subst elf_loop_step) (auto simp: set_word_def)
next
  case (Suc k)
  have "elf_loop read_32 img sz (4 * int i) (Some ws) =
      elf_loop read_32 img sz (4 * int (Suc i)) (Some (ws[i := read_32 img (4 * int i)]))"
    using Suc.prems Suc.hyps(2) by (subst elf_loop_step) (auto simp: set_word_def algebra_simps)
  also have "\<dots> = Inl OutOfBounds" by (rule Suc.hyps(1)) (use Suc.prems Suc.hyps(2) in auto)
  finally show ?case .
qed

text \<open>The memory as bytes.\<close>

definition byte_at :: "u32 list \<Rightarrow> nat \<Rightarrow> u8" where
  "byte_at ws i = ucast (drop_bit (8 * (i mod 4)) (ws ! (i div 4)))"

lemma bit_with_byte:
  "bit (with_byte k b w) n \<longleftrightarrow> n < 32 \<and> (if 8 * k \<le> n \<and> n < 8 * k + 8 then bit b (n - 8 * k) else bit w n)"
proof -
  have ff: "(0xFF :: u32) = mask 8" by (simp add: mask_eq_exp_minus_1)
  have "bit b (n - 8 * k) \<Longrightarrow> n - 8 * k < 8" using bit_imp_le_length [of b "n - 8 * k"] by simp
  then show ?thesis
    unfolding with_byte_def ff by (auto simp: bit_simps dest: bit_imp_le_length)
qed

lemma byte_with_byte:
  assumes "k < 4" "j < 4"
  shows "(ucast (drop_bit (8 * j) (with_byte k b w)) :: u8) = (if j = k then b else ucast (drop_bit (8 * j) w))"
proof (rule bit_word_eqI)
  fix n assume n: "n < LENGTH(8)"
  have "8 * k \<le> n + 8 * j \<and> n + 8 * j < 8 * k + 8 \<longleftrightarrow> j = k" using n by auto
  then show "bit (ucast (drop_bit (8 * j) (with_byte k b w)) :: u8) n =
      bit (if j = k then b else ucast (drop_bit (8 * j) w)) n"
    using n assms by (auto simp: bit_simps bit_with_byte add.commute)
qed

lemma set_byte_at:
  assumes "i < 4 * length ws"
  shows "\<exists>ws'. set_byte i b (Some ws) = Inr (Some ws') \<and> length ws' = length ws \<and>
    (\<forall>j < 4 * length ws. byte_at ws' j = (if j = i then b else byte_at ws j))"
proof -
  let ?ws = "ws[i div 4 := with_byte (i mod 4) b (ws ! (i div 4))]"
  have "byte_at ?ws j = (if j = i then b else byte_at ws j)" if "j < 4 * length ws" for j
  proof (cases "j div 4 = i div 4")
    case True
    then have "j = i \<longleftrightarrow> j mod 4 = i mod 4" by (metis div_mult_mod_eq)
    with True assms show ?thesis by (simp add: byte_at_def byte_with_byte)
  qed (auto simp: byte_at_def)
  with assms show ?thesis by (auto simp: set_byte_def)
qed

lemma bin_loop_fits:
  assumes "i + length bs \<le> 4 * length ws"
  shows "\<exists>ws'. bin_loop i bs (Some ws) = Inr (Some ws') \<and> length ws' = length ws \<and>
    (\<forall>j < 4 * length ws. byte_at ws' j =
      (if i \<le> j \<and> j < i + length bs then bs ! (j - i) else byte_at ws j))"
  using assms
proof (induction bs arbitrary: i ws)
  case (Cons b bs)
  from Cons.prems set_byte_at [of i ws b] obtain w1 where 1: "set_byte i b (Some ws) = Inr (Some w1)"
    "length w1 = length ws" "\<forall>j < 4 * length ws. byte_at w1 j = (if j = i then b else byte_at ws j)" by auto
  from Cons.IH [of "Suc i" w1] Cons.prems 1(2) obtain w2 where 2: "bin_loop (Suc i) bs (Some w1) = Inr (Some w2)"
    "length w2 = length ws" "\<forall>j < 4 * length ws. byte_at w2 j =
      (if Suc i \<le> j \<and> j < Suc i + length bs then bs ! (j - Suc i) else byte_at w1 j)" by auto
  have "\<forall>j < 4 * length ws. byte_at w2 j =
      (if i \<le> j \<and> j < i + length (b # bs) then (b # bs) ! (j - i) else byte_at ws j)"
    using 1(3) 2(3) by (auto simp: nth_Cons' Suc_diff_le le_Suc_eq)
  with 1(1) 2(1,2) show ?case by auto
qed (auto intro!: exI [of _ ws])

lemma bin_loop_overrun:
  assumes "4 * length ws < i + length bs" "i \<le> 4 * length ws"
  shows "bin_loop i bs (Some ws) = Inl OutOfBounds"
  using assms
proof (induction bs arbitrary: i ws)
  case (Cons b bs)
  show ?case
  proof (cases "i = 4 * length ws")
    case False
    with Cons.prems set_byte_at [of i ws b] obtain w1 where "set_byte i b (Some ws) = Inr (Some w1)"
      "length w1 = length ws" by auto
    with Cons.IH [of w1 "Suc i"] Cons.prems False show ?thesis by simp
  qed (simp add: set_byte_def)
qed simp


subsection \<open>Periods\<close>

lemma when_due_eq:
  assumes "per \<noteq> 0"
  shows "when_due enable u per dflt action =
    (if enable \<and> unat (now u) mod unat per = 0 then action else Inr dflt)"
proof -
  have "(ucast per :: u64) \<noteq> 0" using assms by (metis unat_0 unat_ucast_32_64 word_unat_eq_iff)
  moreover have "now u mod ucast per = 0 \<longleftrightarrow> unat (now u) mod unat per = 0"
    by (simp add: word_unat_eq_iff unat_mod)
  ultimately show ?thesis by (simp add: when_due_def on_period_def remainder_def)
qed

subsection \<open>Properties\<close>


definition example_utils :: utils where
  "example_utils = (case new_utils True None of Inl _ \<Rightarrow> undefined | Inr u \<Rightarrow>
     u\<lparr>fstDump := True, fstDumpStart := 2, fstDumpStop := 4, timeout := 6, fstDumping := Some False\<rparr>)"

lemma example_utils:
  "now example_utils = 0" "fstDumping example_utils = Some False" "timeout example_utils = 6"
  "tfp example_utils = []" "fstDump example_utils" "fstDumpStart example_utils = 2"
  "fstDumpStop example_utils = 4" "fstFileName example_utils = ''../sim.fst''"
  by (simp_all add: example_utils_def new_utils_def new_jtag_server_def new_uart_server_def
      new_gpio_server_def new_server_eq)


text \<open>
  A simulation with a timeout ends: it runs exactly as many ticks as the timeout says, and
  the next call of \<open>doCycle\<close> returns false, with the time at the timeout.
\<close>

theorem timeout_ends:
  assumes "now u = 0" "fstDumping u = Some False" "timeout u \<noteq> 0"
  shows "(\<forall>n \<le> unat (timeout u). \<exists>u'. ticks n u = Inr (True, u')) \<and>
    (\<exists>u'. ticks (Suc (unat (timeout u))) u = Inr (False, u') \<and> now u' = timeout u)"
proof -
  let ?T = "unat (timeout u)"
  have "?T < 2 ^ LENGTH(64)" by (rule unsigned_less)
  then have T: "?T < 2 ^ 64" by simp
  note run = ticks_run [of 0 _ u, unfolded tick_state_0 [OF assms(1,2)]]
  have "ticks n u = Inr (True, tick_state u n)" if "n \<le> ?T" for n
    using run [of n] that T by simp
  moreover have "ticks (Suc ?T) u = bindE (ticks ?T u) (\<lambda>(go, u). if go then ticks 1 u else Inr (False, u))"
    using ticks_append [of ?T 1 u] by simp
  ultimately show ?thesis
    using tick_timeout [OF T assms(3) order_refl, of False] by auto
qed

theorem timeout_ends_witness:
  "\<exists>u'. ticks 7 example_utils = Inr (False, u') \<and> now u' = 6"
proof -
  have e: "Suc (unat (timeout example_utils)) = 7" and "timeout example_utils \<noteq> 0"
    by (simp_all add: example_utils)
  from timeout_ends [OF example_utils(1,2) this(2)] show ?thesis
    unfolding e unfolding example_utils(3) by blast
qed

text \<open>
  The member \<open>fstDumping\<close> is read before it is written, whatever the options: the
  constructor leaves it out, no option sets it, and the first tick tests it, as does the
  destructor of an object that was never ticked.
\<close>

theorem fst_uninitialised:
  assumes "new_utils True m = Inr u" "parse_all env opts u = Inr u'"
  shows "doCycle finish u' = Inl UninitRead \<and> delete_utils is_open u' = Inl UninitRead"
proof -
  have "fstDumping u' = None" using parse_all_fst [OF assms(2)] new_utils_eq [of m] assms(1) by auto
  then show ?thesis
    by (auto simp: doCycle_def fst_window_def delete_utils_def close_dump_def split: option.splits)
qed

theorem fst_uninitialised_witness:
  "\<exists>u. new_utils True None = Inr u \<and> doCycle False (u\<lparr>timeout := 100\<rparr>) = Inl UninitRead"
proof -
  from new_utils_eq [of None] obtain u where u: "new_utils True None = Inr u" by blast
  have "parse_all \<lparr>pthread_rv = 0, sock_rv = 3, connect_rv = 0, elf_files = (\<lambda>_. None :: (unit \<times> int) option),
      elf_read_32 = (\<lambda>_ _. 0), bin_files = (\<lambda>_. None)\<rparr> [(OPT_TIMEOUT, Some (show_dec 100))] u =
      Inr (u\<lparr>timeout := 100\<rparr>)"
    using strtol_dec(1) [of "[]" "[]" 100] by (simp add: parseOpts_def need_arg_def)
  from fst_uninitialised [OF u this] u show ?thesis by blast
qed

text \<open>
  The servers and clients are called at their own period: an enabled one exactly on the
  ticks that are a multiple of it, a disabled one never, and nothing changes otherwise.
\<close>

theorem periods:
  assumes "period (jtag_server u) \<noteq> 0" "period (gpio_server u) \<noteq> 0"
    and "jtag_client.client_period (jtag_client u) \<noteq> 0" "gpio_client.client_period (gpio_client u) \<noteq> 0"
  shows "utils_doJTAGServer mem tdo p srst_given u =
      (if jtagServerEnable u \<and> unat (now u) mod unat (period (jtag_server u)) = 0 then
         bindE (doJTAGServer mem tdo p (jtag_server u)) (\<lambda>(p', s).
           Inr (if srst_given then p' else p'\<lparr>srst := srst p\<rparr>, u\<lparr>jtag_server := s\<rparr>))
       else Inr (p, u)) \<and>
    (\<not> (jtagClientEnable u \<and> unat (now u) mod unat (jtag_client.client_period (jtag_client u)) = 0) \<longrightarrow>
      utils_doJTAGClient x ck tdo di ms tmsoe u = Inr (tdo, ms, [])) \<and>
    (\<not> (gpioServerEnable u \<and> unat (now u) mod unat (period (gpio_server u)) = 0) \<longrightarrow>
      utils_doGPIOServer mem' fuel inp icnt out ocnt u = Inr (inp, u)) \<and>
    (\<not> (gpioClientEnable u \<and> unat (now u) mod unat (gpio_client.client_period (gpio_client u)) = 0) \<longrightarrow>
      utils_doGPIOClient avail inp icnt out ocnt u = Inr (inp, u, [], avail)) \<and>
    (\<not> uartServerEnable u \<longrightarrow> utils_doUARTServer mem tx_pin rx_pin u = Inr (rx_pin, u))"
  using assms
  by (simp add: utils_doJTAGServer_def utils_doJTAGClient_def utils_doGPIOServer_def
      utils_doGPIOClient_def utils_doUARTServer_def when_due_eq)

theorem periods_witness:
  "\<exists>u. new_utils True None = Inr u \<and>
     utils_doJTAGServer True 0 idle_pins False (u\<lparr>jtagServerEnable := True, now := 12\<rparr>) =
       Inr (idle_pins, u\<lparr>jtagServerEnable := True, now := 12\<rparr>)"
proof -
  obtain u where u: "new_utils True None = Inr u" "period (jtag_server u) = 8" "period (gpio_server u) = 2"
    "jtag_client.client_period (jtag_client u) = 1" "gpio_client.client_period (gpio_client u) = 2"
    by (simp add: new_utils_def new_jtag_server_def new_uart_server_def new_gpio_server_def new_server_eq
        new_jtag_client_def new_gpio_client_def)
  with periods [of "u\<lparr>jtagServerEnable := True, now := 12\<rparr>" True 0 idle_pins False] show ?thesis by simp
qed

text \<open>
  C35. Numbers on the command line: the decimal of a number below 2 to the 63, with white space
  before it, is read as that number by the options that take a time; a port option starts the
  server at the number modulo 2 to the 16, so that a port out of range wraps around unnoticed.
\<close>

theorem number_options:
  assumes "list_all is_space ws" "rest = [] \<or> \<not> is_digit (hd rest)" "n < 2 ^ 63" "pthread_rv env = 0"
  shows "parseOpts env OPT_TIMEOUT (Some (ws @ show_dec n @ rest)) u = Inr (OptOk, u\<lparr>timeout := of_nat n\<rparr>) \<and>
    parseOpts env (Key CHR ''s'') (Some (ws @ show_dec n @ rest)) u = Inr (OptOk, u\<lparr>fstDumpStart := of_nat n\<rparr>) \<and>
    parseOpts env (Key CHR ''t'') (Some (ws @ show_dec n @ rest)) u = Inr (OptOk, u\<lparr>fstDumpStop := of_nat n\<rparr>) \<and>
    (\<exists>u'. parseOpts env (Key CHR ''j'') (Some (ws @ show_dec n @ rest)) u = Inr (OptOk, u') \<and>
      jtagServerEnable u' \<and> port (jtag_server u') = Some (of_nat (n mod 2 ^ 16)))"
proof -
  note n = strtol_dec(1) [OF assms(1-3)]
  have "(ucast (ucast (of_nat n :: i64) :: u32) :: u16) = of_nat n"
    by (simp add: word_unat_eq_iff unsigned_ucast_eq unsigned_of_nat take_bit_take_bit)
  moreover have "(of_nat n :: u16) = of_nat (n mod 2 ^ 16)"
    by (simp add: unat_of_nat word_unat_eq_iff)
  ultimately have "(ucast (atoi (ws @ show_dec n @ rest)) :: u16) = of_nat (n mod 2 ^ 16)"
    by (simp add: atoi_def n)
  with assms(4) show ?thesis
    by (simp add: parseOpts_def need_arg_def n arg_port_def Start_def Let_def)
qed

theorem number_options_witness:
  "\<exists>u u'. new_utils True None = Inr u \<and>
     parseOpts \<lparr>pthread_rv = 0, sock_rv = 3, connect_rv = 0, elf_files = (\<lambda>_. None :: (unit \<times> int) option),
       elf_read_32 = (\<lambda>_ _. 0), bin_files = (\<lambda>_. None)\<rparr> (Key CHR ''j'') (Some (show_dec 67881)) u = Inr (OptOk, u') \<and>
     port (jtag_server u') = Some 2345"
proof -
  from new_utils_eq [of None] obtain u where u: "new_utils True None = Inr u" by blast
  from number_options [of "[]" "[]" 67881 "\<lparr>pthread_rv = 0, sock_rv = 3, connect_rv = 0,
      elf_files = (\<lambda>_. None :: (unit \<times> int) option), elf_read_32 = (\<lambda>_ _. 0), bin_files = (\<lambda>_. None)\<rparr>" u]
  show ?thesis using u by auto
qed

text \<open>
  Loading an ELF image of at most the size of the memory writes its words to the start of
  the memory, the last one even if the image covers it only in part, and leaves the rest alone. A
  larger image writes past the end of the memory, and without a memory any image is written
  through a null pointer.
\<close>

theorem loadElf_writes:
  assumes "load_elf_file f = Some (img, sz)" "0 < sz"
  shows "(\<forall>ws. mem_words u = Some ws \<and> sz \<le> 4 * int (length ws) \<longrightarrow>
      loadElf load_elf_file read_32 f u = Inr (True, u\<lparr>mem_words :=
        Some (map (\<lambda>j. read_32 img (4 * int j)) [0..<nat ((sz + 3) div 4)] @ drop (nat ((sz + 3) div 4)) ws)\<rparr>)) \<and>
    (\<forall>ws. mem_words u = Some ws \<and> 4 * int (length ws) < sz \<longrightarrow>
      loadElf load_elf_file read_32 f u = Inl OutOfBounds) \<and>
    (mem_words u = None \<longrightarrow> loadElf load_elf_file read_32 f u = Inl WildPointer)"
proof -
  let ?k = "nat ((sz + 3) div 4)"
  have k: "4 * int (0 + ?k) < sz + 4" "sz \<le> 4 * int (0 + ?k)" using assms(2) by auto
  have "elf_loop read_32 img sz 0 None = Inl WildPointer"
    using assms(2) by (subst elf_loop_step) (simp_all add: set_word_def)
  moreover have "elf_loop read_32 img sz 0 (Some ws) = Inl OutOfBounds" if "4 * int (length ws) < sz" for ws
    using elf_loop_overrun [OF that, of 0] by simp
  moreover have "elf_loop read_32 img sz 0 (Some ws) =
      Inr (Some (map (\<lambda>j. read_32 img (4 * int j)) [0..<?k] @ drop ?k ws))" if "sz \<le> 4 * int (length ws)" for ws
  proof -
    have "0 + ?k \<le> length ws" using that by auto
    from elf_loop_fits [OF k this] show ?thesis by simp
  qed
  ultimately show ?thesis using assms(1) by (simp add: loadElf_def)
qed

theorem loadElf_writes_witness:
  "\<exists>u. new_utils True (Some [1, 2, 3]) = Inr u \<and>
     loadElf (\<lambda>_. Some ([7 :: u32, 8], 5)) (\<lambda>img i. img ! nat (i div 4)) ''a.elf'' u =
       Inr (True, u\<lparr>mem_words := Some [7, 8, 3]\<rparr>)"
proof -
  from new_utils_eq [of "Some [1, 2, 3]"] obtain u where
    u: "new_utils True (Some [1, 2, 3]) = Inr u" "mem_words u = Some [1, 2, 3]" by blast
  from loadElf_writes [of "\<lambda>_. Some ([7 :: u32, 8], 5)" "''a.elf''" "[7, 8]" 5 u "\<lambda>img i. img ! nat (i div 4)"] u
  show ?thesis by (simp add: upt_rec eval_nat_numeral)
qed

text \<open>
  Loading a binary file of at most the size of the memory puts its bytes at the start of the
  memory of a little-endian host, and changes no other byte; it succeeds if all bytes were read.
  A larger file is written past the end of the memory.
\<close>

theorem loadBin_writes:
  assumes "files f = Some (sz, bs)" "mem_words u = Some ws"
  shows "(length bs \<le> 4 * length ws \<longrightarrow>
      (\<exists>ws'. loadBin files f u = Inr (int (length bs) = sz, u\<lparr>mem_words := Some ws'\<rparr>) \<and>
        length ws' = length ws \<and>
        (\<forall>j < 4 * length ws. byte_at ws' j = (if j < length bs then bs ! j else byte_at ws j)))) \<and>
    (4 * length ws < length bs \<longrightarrow> loadBin files f u = Inl OutOfBounds)"
proof (intro conjI impI)
  assume "length bs \<le> 4 * length ws"
  with bin_loop_fits [of 0 bs ws] obtain ws' where "bin_loop 0 bs (Some ws) = Inr (Some ws')"
    "length ws' = length ws" "\<forall>j < 4 * length ws. byte_at ws' j = (if j < length bs then bs ! j else byte_at ws j)"
    by auto
  with assms show "\<exists>ws'. loadBin files f u = Inr (int (length bs) = sz, u\<lparr>mem_words := Some ws'\<rparr>) \<and>
        length ws' = length ws \<and>
        (\<forall>j < 4 * length ws. byte_at ws' j = (if j < length bs then bs ! j else byte_at ws j))"
    by (intro exI [of _ ws']) (simp add: loadBin_def)
next
  assume "4 * length ws < length bs"
  with bin_loop_overrun [of ws 0 bs] assms show "loadBin files f u = Inl OutOfBounds"
    by (simp add: loadBin_def)
qed

theorem loadBin_writes_witness:
  "\<exists>u ws'. new_utils True (Some [0, 0]) = Inr u \<and>
     loadBin (\<lambda>_. Some (5, [1, 2, 3, 4, 5])) ''a.bin'' u = Inr (True, u\<lparr>mem_words := Some ws'\<rparr>) \<and> byte_at ws' 4 = 5"
proof -
  from new_utils_eq [of "Some [0, 0]"] obtain u where
    u: "new_utils True (Some [0, 0]) = Inr u" "mem_words u = Some [0, 0]" by blast
  from loadBin_writes [of "\<lambda>_. Some (5, [1, 2, 3, 4, 5])" "''a.bin''" 5 "[1, 2, 3, 4, 5]" u "[0, 0]"] u
  show ?thesis by auto
qed

end
