(* ===== verification/Semaphore.thy ===== *)
theory Semaphore
  imports Rw_Queue_Correct
begin

text \<open>
  The semaphores of \<open>atomicops.h\<close>: the wrapper of the POSIX semaphore, and \<open>LightweightSemaphore\<close>,
  which counts in user space and goes to the operating system only to sleep. An operation is a
  machine that performs one atomic access to the count, or one call of the operating system, per
  step, so that the two threads that use a semaphore can interleave at every such point. The count
  is accessed sequentially consistently.
\<close>

subsection \<open>State\<close>

text \<open>\<open>m_sema\<close> is the value of the semaphore of the operating system.\<close>

record sema =
  m_count :: i64
  m_sema :: nat

definition new_sema :: "i64 \<Rightarrow> sema res" where
  "new_sema initialCount =
     bindE (assertE (0 \<le> sint initialCount)) (\<lambda>_. Inr \<lparr>m_count = initialCount, m_sema = 0\<rparr>)"

text \<open>\<open>fetch_add_acquire\<close> and \<open>fetch_add_release\<close> of \<open>m_count\<close>: the old value.\<close>

definition fetch_add :: "i64 \<Rightarrow> sema \<Rightarrow> i64 \<times> sema" where
  "fetch_add increment s = (m_count s, s\<lparr>m_count := m_count s + increment\<rparr>)"

definition availableApprox :: "sema \<Rightarrow> i64" where
  "availableApprox s = (let count = m_count s in if 0 < sint count then count else 0)"

subsection \<open>Waiting\<close>

text \<open>
  The answers of \<open>sem_wait\<close>, \<open>sem_timedwait\<close> and \<open>sem_trywait\<close>: the call was interrupted, after
  which the wrapper repeats it, has taken the semaphore, or has failed otherwise.
\<close>

datatype kernel_answer = Interrupted | Acquired | Failed

text \<open>The calls: \<open>tryWait\<close>, and \<open>wait\<close> with a timeout, which is \<open>-1\<close> when none is given.\<close>

datatype wait_call = TryWait | WaitFor i64

text \<open>
  Where a wait is: in \<open>tryWait\<close> at the load and at the decrement; in \<open>waitWithPartialSpinning\<close> in
  the loop that spins, with the value of \<open>spin\<close>, at its decrement, at the decrement after the
  loop, in \<open>m_sema.wait\<close> or \<open>m_sema.timed_wait\<close>, and after a timeout at the increment, at the
  second decrement and in \<open>m_sema.try_wait\<close>.
\<close>

datatype wait_pc =
    TryLoad | TryTake | SpinLoad nat | SpinTake | LastTake
  | KernelWait | KernelTimed | Restore | Retake | TryKernel

text \<open>One step: where the wait is next, or what it returned.\<close>

fun wait_at :: "wait_call \<Rightarrow> kernel_answer \<Rightarrow> wait_pc \<Rightarrow> sema \<Rightarrow> (wait_pc + bool) \<times> sema" where
  "wait_at call ans TryLoad s =
     (if 0 < sint (m_count s) then (Inl TryTake, s)
      else case call of TryWait \<Rightarrow> (Inr False, s) | WaitFor _ \<Rightarrow> (Inl (SpinLoad 10000), s))"
| "wait_at call ans TryTake s = (let (old, s) = fetch_add (-1) s in (Inr True, s))"
| "wait_at call ans (SpinLoad spin) s =
     (case spin of
        Suc spin \<Rightarrow> if 0 < sint (m_count s) then (Inl SpinTake, s) else (Inl (SpinLoad spin), s)
      | 0 \<Rightarrow> (Inl LastTake, s))"
| "wait_at call ans SpinTake s = (let (old, s) = fetch_add (-1) s in (Inr True, s))"
| "wait_at call ans LastTake s =
     (let (old, s) = fetch_add (-1) s
      in if 0 < sint old then (Inr True, s)
         else case call of
           WaitFor timeout_usecs \<Rightarrow> if sint timeout_usecs < 0 then (Inl KernelWait, s) else (Inl KernelTimed, s)
         | TryWait \<Rightarrow> (Inl KernelWait, s))"
| "wait_at call ans KernelWait s =
     (case ans of
        Interrupted \<Rightarrow> (Inl KernelWait, s)
      | Acquired \<Rightarrow> (Inr True, s\<lparr>m_sema := m_sema s - 1\<rparr>)
      | Failed \<Rightarrow> (Inr False, s))"
| "wait_at call ans KernelTimed s =
     (case ans of
        Interrupted \<Rightarrow> (Inl KernelTimed, s)
      | Acquired \<Rightarrow> (Inr True, s\<lparr>m_sema := m_sema s - 1\<rparr>)
      | Failed \<Rightarrow> (Inl Restore, s))"
| "wait_at call ans Restore s =
     (let (old, s) = fetch_add 1 s in if sint old < 0 then (Inr False, s) else (Inl Retake, s))"
| "wait_at call ans Retake s =
     (let (old, s) = fetch_add (-1) s in if 0 < sint old then (Inl TryKernel, s) else (Inl Restore, s))"
| "wait_at call ans TryKernel s =
     (case ans of
        Interrupted \<Rightarrow> (Inl TryKernel, s)
      | Acquired \<Rightarrow> (Inr True, s\<lparr>m_sema := m_sema s - 1\<rparr>)
      | Failed \<Rightarrow> (Inl Restore, s))"

text \<open>
  What the operating system can answer: it gives the semaphore out only when its value is not
  zero, and a wait without a timeout on a valid semaphore fails only because it is interrupted.
\<close>

definition kernel_can :: "kernel_answer \<Rightarrow> wait_pc \<Rightarrow> sema \<Rightarrow> bool" where
  "kernel_can ans pc s \<longleftrightarrow>
     (pc \<in> {KernelWait, KernelTimed, TryKernel} \<and> ans = Acquired \<longrightarrow> 0 < m_sema s) \<and>
     (pc = KernelWait \<longrightarrow> ans \<noteq> Failed)"

subsection \<open>Signalling\<close>

text \<open>
  \<open>signal\<close>: at the increment, or in \<open>m_sema.signal (1)\<close>, which repeats \<open>sem_post\<close> until it succeeds;
  \<open>posted\<close> tells whether it does in this step.
\<close>

datatype signal_pc = Adding i64 | Posting

fun signal_at :: "bool \<Rightarrow> signal_pc \<Rightarrow> sema \<Rightarrow> (signal_pc option \<times> sema) res" where
  "signal_at posted (Adding count) s =
     bindE (assertE (0 \<le> sint count)) (\<lambda>_.
       let (old, s) = fetch_add count s
       in bindE (assertE (-1 \<le> sint old)) (\<lambda>_.
            Inr (if sint old < 0 then Some Posting else None, s)))"
| "signal_at posted Posting s =
     (if posted then Inr (None, s\<lparr>m_sema := m_sema s + 1\<rparr>) else Inr (Some Posting, s))"

subsection \<open>The deadline of a timed wait\<close>

text \<open>
  \<open>timed_wait\<close> of the wrapper computes a point in time, in seconds and nanoseconds, from the time
  \<open>clock_gettime\<close> reports.
\<close>

definition deadline :: "int \<times> int \<Rightarrow> u64 \<Rightarrow> int \<times> int" where
  "deadline ts usecs =
     (let tv_sec = fst ts + uint (usecs div 1000000);
          tv_nsec = snd ts + uint ((usecs mod 1000000) * 1000)
      in if 1000000000 \<le> tv_nsec then (tv_sec + 1, tv_nsec - 1000000000) else (tv_sec, tv_nsec))"

lemma deadline_exact:
  assumes "0 \<le> snd ts" "snd ts < 1000000000"
  shows "0 \<le> snd (deadline ts usecs)" "snd (deadline ts usecs) < 1000000000"
    "fst (deadline ts usecs) * 1000000000 + snd (deadline ts usecs) =
       fst ts * 1000000000 + snd ts + uint usecs * 1000"
proof -
  have m: "uint (usecs mod 1000000) = uint usecs mod 1000000" "uint (usecs div 1000000) = uint usecs div 1000000"
    by (simp_all add: uint_mod uint_div)
  have "uint (usecs mod 1000000) * 1000 < 2 ^ LENGTH(64)" unfolding m by simp
  then have n: "uint ((usecs mod 1000000) * 1000) = (uint usecs mod 1000000) * 1000"
    by (simp add: uint_word_ariths m take_bit_eq_mod)
  have le: "(uint usecs mod 1000000) * 1000 \<le> 999999000" "0 \<le> uint usecs mod 1000000" by simp_all
  from le assms show "0 \<le> snd (deadline ts usecs)" "snd (deadline ts usecs) < 1000000000"
    by (auto simp: deadline_def Let_def n)
  have "uint usecs div 1000000 * 1000000000 + uint usecs mod 1000000 * 1000 = uint usecs * 1000"
    using div_mult_mod_eq [of "uint usecs" 1000000] by linarith
  then show "fst (deadline ts usecs) * 1000000000 + snd (deadline ts usecs) =
       fst ts * 1000000000 + snd ts + uint usecs * 1000"
    by (auto simp: deadline_def Let_def n m(2))
qed

subsection \<open>Counting\<close>

lemma sint_inc: "sint (w :: i64) < 2 ^ 63 - 1 \<Longrightarrow> sint (w + 1) = sint w + 1"
  and sint_dec: "- (2 ^ 63) < sint (w :: i64) \<Longrightarrow> sint (w - 1) = sint w - 1"
  using sint_ge [of w] sint_lt [of w]
  by (simp_all add: sint_word_ariths signed_take_bit_int_eq_self)

text \<open>
  The account of a semaphore. \<open>c\<close> is the count and \<open>k\<close> the value of the semaphore of the operating
  system with the post that is on its way; \<open>n\<close> tokens have been signalled and not yet been taken by
  a wait that returned. A wait that has decremented the count below its start owes it a token.
\<close>

fun account :: "wait_pc \<Rightarrow> int \<Rightarrow> nat \<Rightarrow> nat \<Rightarrow> bool" where
  "account TryLoad c k n \<longleftrightarrow> k = 0 \<and> c = int n"
| "account (SpinLoad _) c k n \<longleftrightarrow> k = 0 \<and> c = int n"
| "account LastTake c k n \<longleftrightarrow> k = 0 \<and> c = int n"
| "account TryTake c k n \<longleftrightarrow> k = 0 \<and> c = int n \<and> 0 < n"
| "account SpinTake c k n \<longleftrightarrow> k = 0 \<and> c = int n \<and> 0 < n"
| "account KernelWait c k n \<longleftrightarrow> k = (if n = 0 then 0 else 1) \<and> c = int n - 1"
| "account KernelTimed c k n \<longleftrightarrow> k = (if n = 0 then 0 else 1) \<and> c = int n - 1"
| "account Restore c k n \<longleftrightarrow> k = (if n = 0 then 0 else 1) \<and> c = int n - 1"
| "account Retake c k n \<longleftrightarrow> k = 1 \<and> c = int n \<and> 0 < n"
| "account TryKernel c k n \<longleftrightarrow> k = 1 \<and> c = int n - 1 \<and> 0 < n"

text \<open>A step of a wait keeps the account; a wait that returns true has taken a token.\<close>

lemma wait_step:
  assumes acc: "account pc (sint (m_count s)) (m_sema s + p) n" and n: "n < 2 ^ 62"
    and can: "kernel_can ans pc s" and step: "wait_at call ans pc s = (r, s')"
  shows "case r of
      Inl pc' \<Rightarrow> account pc' (sint (m_count s')) (m_sema s' + p) n
    | Inr True \<Rightarrow> 0 < n \<and> m_sema s' + p = 0 \<and> sint (m_count s') = int n - 1
    | Inr False \<Rightarrow> m_sema s' + p = 0 \<and> sint (m_count s') = int n"
proof -
  have small: "int n < 2 ^ 62" using n by simp
  note counts = sint_inc [of "m_count s"] sint_dec [of "m_count s"]
  show ?thesis
    using acc can step small counts
    by (cases pc; cases ans; cases call)
      (auto simp: kernel_can_def fetch_add_def Let_def split: if_splits nat.splits)
qed

text \<open>A signal adds a token, and posts when a wait owes one.\<close>

lemma signal_add:
  assumes acc: "account pc (sint (m_count s)) (m_sema s) n" and n: "n < 2 ^ 62"
  shows "\<exists>r s'. signal_at posted (Adding 1) s = Inr (r, s') \<and> r \<in> {None, Some Posting} \<and>
    account pc (sint (m_count s')) (m_sema s' + of_bool (r = Some Posting)) (Suc n)"
proof -
  have small: "int n < 2 ^ 62" using n by simp
  note counts = sint_inc [of "m_count s"]
  show ?thesis
    using acc small counts by (cases pc) (auto simp: fetch_add_def Let_def)
qed

end
