(* ===== verification/Threads.thy ===== *)
theory Threads
  imports Prelude
begin

text \<open>
  Two threads that share a state, step by step: a schedule tells which of them makes the next step.
  The locales state what a component shows of its two threads, and draw the conclusions for every
  schedule.
\<close>

datatype thread = This | That

fun swap_thread :: "thread \<Rightarrow> thread" where
  "swap_thread This = That"
| "swap_thread That = This"

fun run_threads :: "('s \<Rightarrow> 's res) \<Rightarrow> ('s \<Rightarrow> 's res) \<Rightarrow> thread list \<Rightarrow> 's \<Rightarrow> 's res" where
  "run_threads f g [] s = Inr s"
| "run_threads f g (This # w) s = bindE (f s) (run_threads f g w)"
| "run_threads f g (That # w) s = bindE (g s) (run_threads f g w)"

lemma run_threads_swap: "run_threads f g (map swap_thread w) s = run_threads g f w s"
proof (induction w arbitrary: s)
  case (Cons t w)
  then have "run_threads f g (map swap_thread w) = run_threads g f w" by (simp add: fun_eq_iff)
  then show ?case by (cases t) simp_all
qed simp

lemma count_swap: "count_list (map swap_thread w) This = count_list w That"
proof (induction w)
  case (Cons t w)
  then show ?case by (cases t) simp_all
qed simp

text \<open>An invariant that both threads keep, without a fault.\<close>

locale two_threads =
  fixes this that :: "'s \<Rightarrow> 's res" and inv :: "'s \<Rightarrow> bool"
  assumes this_keeps: "inv s \<Longrightarrow> \<exists>s'. this s = Inr s' \<and> inv s'"
    and that_keeps: "inv s \<Longrightarrow> \<exists>s'. that s = Inr s' \<and> inv s'"
begin

lemma run_keeps: "inv s \<Longrightarrow> \<exists>s'. run_threads this that w s = Inr s' \<and> inv s'"
proof (induction w arbitrary: s)
  case (Cons t w)
  show ?case
  proof (cases t)
    case This
    with this_keeps [OF Cons.prems] Cons.IH show ?thesis by fastforce
  next
    case That
    with that_keeps [OF Cons.prems] Cons.IH show ?thesis by fastforce
  qed
qed simp

end

text \<open>
  One of them, besides, comes closer to the end of its operation with each of its own steps, and is
  not held up by those of the other: it returns within a number of its own steps.
\<close>

locale wait_free = two_threads this that inv
  for this that :: "'s \<Rightarrow> 's res" and inv :: "'s \<Rightarrow> bool" +
  fixes left :: "'s \<Rightarrow> nat"
  assumes this_left: "inv s \<Longrightarrow> this s = Inr s' \<Longrightarrow> left s' \<le> left s - 1"
    and that_left: "inv s \<Longrightarrow> that s = Inr s' \<Longrightarrow> left s' = left s"
begin

lemma run_left:
  "inv s \<Longrightarrow> run_threads this that w s = Inr s' \<Longrightarrow> left s' \<le> left s - count_list w This"
proof (induction w arbitrary: s)
  case (Cons t w)
  show ?case
  proof (cases t)
    case This
    from this_keeps [OF Cons.prems(1)] obtain s1 where s1: "this s = Inr s1" "inv s1" by blast
    with Cons.IH [OF s1(2)] Cons.prems(2) This this_left [OF Cons.prems(1) s1(1)] show ?thesis by simp
  next
    case That
    from that_keeps [OF Cons.prems(1)] obtain s1 where s1: "that s = Inr s1" "inv s1" by blast
    with Cons.IH [OF s1(2)] Cons.prems(2) That that_left [OF Cons.prems(1) s1(1)] show ?thesis by simp
  qed
qed simp

lemma run_returns:
  assumes "inv s" "left s \<le> count_list w This"
  shows "\<exists>s'. run_threads this that w s = Inr s' \<and> inv s' \<and> left s' = 0"
proof -
  from run_keeps [OF assms(1), of w] obtain s' where "run_threads this that w s = Inr s'" "inv s'" by blast
  with run_left [OF assms(1), of w s'] assms(2) show ?thesis by auto
qed

end

end
