(* ===== verification/Rw_Threads.thy ===== *)
theory Rw_Threads
  imports Rw_Queue Threads
begin

text \<open>
  \<open>ReaderWriterQueue\<close> with its two threads at once. The operations of \<open>Rw_Queue\<close> are taken apart
  into steps between which the other thread may run: a step makes one access to a variable that
  the other thread writes or reads (\<open>front\<close>, \<open>tail\<close> and \<open>next\<close> of a block, a cell, \<open>frontBlock\<close>,
  \<open>tailBlock\<close>); reads of variables that only the own thread writes go with the next access. The
  accesses take effect in one order, as the fences of the code are there to ensure.
\<close>

subsection \<open>The producer\<close>

text \<open>The arguments of \<open>inner_enqueue\<close>: the mode, the answer of \<open>malloc\<close> and the element.\<close>

type_synonym 'a put_call = "alloc_mode \<times> bool \<times> 'a"

text \<open>
  Where \<open>inner_enqueue\<close> is, with its local variables \<open>blockTail\<close>, \<open>nextBlockTail\<close>, \<open>tailBlockNext\<close>
  and \<open>newBlock\<close>; its \<open>tailBlock_\<close> is always \<open>tailBlock\<close>.
\<close>

datatype put_pc =
    PutEnter
  | PutFront size_t size_t       \<comment> \<open>before the load of \<open>front\<close>\<close>
  | PutCell size_t size_t        \<comment> \<open>before the construction of the element\<close>
  | PutTail size_t               \<comment> \<open>before the store to \<open>tail\<close>\<close>
  | PutNext                      \<comment> \<open>before the test of \<open>next\<close> against \<open>frontBlock\<close>\<close>
  | NextFront nat                \<comment> \<open>the same in the next block\<close>
  | NextCell nat size_t
  | NextTail nat size_t
  | NextAdvance nat              \<comment> \<open>before the store to \<open>tailBlock\<close>\<close>
  | PutNew                       \<comment> \<open>before the allocation of a block\<close>
  | NewLink nat                  \<comment> \<open>before the store to \<open>next\<close>\<close>
  | NewAdvance nat

text \<open>The new block, filled and linked while no one else can reach it.\<close>

definition filled_block :: "size_t \<Rightarrow> 'a \<Rightarrow> nat option \<Rightarrow> 'a block res" where
  "filled_block newBlockSize element p =
     bindE (construct (new_block newBlockSize) 0 element) (\<lambda>nb.
     bindE (assertE (front nb = 0)) (\<lambda>_.
       Inr (nb\<lparr>tail := 1, localTail := 1, next_blk := p\<rparr>)))"

fun put_at :: "'a put_call \<Rightarrow> put_pc \<Rightarrow> 'a rwq \<Rightarrow> ((put_pc + bool) \<times> 'a rwq) res" where
  "put_at c PutEnter q =
     bindE (deref q (tailBlock q)) (\<lambda>b.
       let blockFront = localFront b;
           blockTail = tail b;
           nextBlockTail = (blockTail + 1) AND sizeMask b
       in Inr (Inl (if nextBlockTail \<noteq> blockFront then PutCell blockTail nextBlockTail
                    else PutFront blockTail nextBlockTail), q))"
| "put_at c (PutFront blockTail nextBlockTail) q =
     bindE (deref q (tailBlock q)) (\<lambda>b.
       let b = b\<lparr>localFront := front b\<rparr>
       in Inr (Inl (if nextBlockTail \<noteq> localFront b then PutCell blockTail nextBlockTail else PutNext),
            store q (tailBlock q) b))"
| "put_at (m, mem, element) (PutCell blockTail nextBlockTail) q =
     bindE (deref q (tailBlock q)) (\<lambda>b.
     bindE (construct b blockTail element) (\<lambda>b.
       Inr (Inl (PutTail nextBlockTail), store q (tailBlock q) b)))"
| "put_at c (PutTail nextBlockTail) q =
     bindE (deref q (tailBlock q)) (\<lambda>b.
       Inr (Inr True, store q (tailBlock q) (b\<lparr>tail := nextBlockTail\<rparr>)))"
| "put_at (m, mem, element) PutNext q =
     bindE (deref q (tailBlock q)) (\<lambda>b.
       if next_blk b \<noteq> Some (frontBlock q) then
         bindE (follow (next_blk b)) (\<lambda>tailBlockNext. Inr (Inl (NextFront tailBlockNext), q))
       else (case m of CanAlloc \<Rightarrow> Inr (Inl PutNew, q) | CannotAlloc \<Rightarrow> Inr (Inr False, q)))"
| "put_at c (NextFront tailBlockNext) q =
     bindE (deref q tailBlockNext) (\<lambda>nb.
       let nb = nb\<lparr>localFront := front nb\<rparr>;
           nextBlockFront = localFront nb;
           nextBlockTail = tail nb
       in bindE (assertE (nextBlockFront = nextBlockTail)) (\<lambda>_.
            Inr (Inl (NextCell tailBlockNext nextBlockTail), store q tailBlockNext nb)))"
| "put_at (m, mem, element) (NextCell tailBlockNext nextBlockTail) q =
     bindE (deref q tailBlockNext) (\<lambda>nb.
     bindE (construct nb nextBlockTail element) (\<lambda>nb.
       Inr (Inl (NextTail tailBlockNext nextBlockTail), store q tailBlockNext nb)))"
| "put_at c (NextTail tailBlockNext nextBlockTail) q =
     bindE (deref q tailBlockNext) (\<lambda>nb.
       Inr (Inl (NextAdvance tailBlockNext),
         store q tailBlockNext (nb\<lparr>tail := (nextBlockTail + 1) AND sizeMask nb\<rparr>)))"
| "put_at c (NextAdvance tailBlockNext) q = Inr (Inr True, q\<lparr>tailBlock := tailBlockNext\<rparr>)"
| "put_at (m, mem, element) PutNew q =
     bindE (deref q (tailBlock q)) (\<lambda>b.
       let newBlockSize = (if MAX_BLOCK_SIZE \<le> largestBlockSize q then largestBlockSize q
                           else largestBlockSize q * 2)
       in if mem then
            bindE (filled_block newBlockSize element (next_blk b)) (\<lambda>nb.
              Inr (Inl (NewLink (length (heap q))),
                q\<lparr>largestBlockSize := newBlockSize, heap := heap q @ [nb]\<rparr>))
          else Inr (Inr False, q))"
| "put_at c (NewLink newBlock) q =
     bindE (deref q (tailBlock q)) (\<lambda>b.
       Inr (Inl (NewAdvance newBlock), store q (tailBlock q) (b\<lparr>next_blk := Some newBlock\<rparr>)))"
| "put_at c (NewAdvance newBlock) q = Inr (Inr True, q\<lparr>tailBlock := newBlock\<rparr>)"

subsection \<open>The consumer\<close>

datatype take_call = DequeueCall | PopCall | PeekCall

text \<open>
  Where \<open>try_dequeue\<close>, \<open>pop\<close> or \<open>peek\<close> is, with \<open>blockFront\<close> (\<open>nextBlockFront\<close> after an advance),
  \<open>nextBlock\<close>, and the element that was moved out; \<open>frontBlock_\<close> is always \<open>frontBlock\<close>. The value
  of a \<open>pop\<close> is not returned by the code; it is kept for the record.
\<close>

datatype 'a take_pc =
    TakeEnter
  | TakeTail                     \<comment> \<open>before the load of \<open>tail\<close>\<close>
  | TakeBlock                    \<comment> \<open>before the test of \<open>frontBlock_\<close> against \<open>tailBlock\<close>\<close>
  | TakeAgain                    \<comment> \<open>before the second load of \<open>tail\<close>\<close>
  | AheadNext                    \<comment> \<open>before the load of \<open>next\<close>\<close>
  | AheadTail nat                \<comment> \<open>before the load of \<open>tail\<close> in the next block\<close>
  | AheadBlock nat               \<comment> \<open>before the store to \<open>frontBlock\<close>\<close>
  | AheadPeek nat
  | TakeCell size_t              \<comment> \<open>before the element is moved out and destroyed\<close>
  | TakeFront size_t 'a          \<comment> \<open>before the store to \<open>front\<close>\<close>

fun take_at :: "take_call \<Rightarrow> 'a take_pc \<Rightarrow> 'a rwq \<Rightarrow> (('a take_pc + 'a option) \<times> 'a rwq) res" where
  "take_at c TakeEnter q =
     bindE (deref q (frontBlock q)) (\<lambda>b.
       let blockTail = localTail b; blockFront = front b
       in Inr (Inl (if blockFront \<noteq> blockTail then TakeCell blockFront else TakeTail), q))"
| "take_at c TakeTail q =
     bindE (deref q (frontBlock q)) (\<lambda>b.
       let b = b\<lparr>localTail := tail b\<rparr>; blockFront = front b
       in Inr (Inl (if blockFront \<noteq> localTail b then TakeCell blockFront else TakeBlock),
            store q (frontBlock q) b))"
| "take_at c TakeBlock q =
     (if frontBlock q \<noteq> tailBlock q then Inr (Inl TakeAgain, q) else Inr (Inr None, q))"
| "take_at c TakeAgain q =
     bindE (deref q (frontBlock q)) (\<lambda>b.
       let b = b\<lparr>localTail := tail b\<rparr>; blockTail = localTail b; blockFront = front b
       in Inr (Inl (if blockFront \<noteq> blockTail then TakeCell blockFront else AheadNext),
            store q (frontBlock q) b))"
| "take_at c AheadNext q =
     bindE (deref q (frontBlock q)) (\<lambda>b.
     bindE (follow (next_blk b)) (\<lambda>nextBlock. Inr (Inl (AheadTail nextBlock), q)))"
| "take_at c (AheadTail nextBlock) q =
     bindE (deref q nextBlock) (\<lambda>nb.
       let nextBlockFront = front nb
       in if c = PeekCall then
            bindE (assertE (nextBlockFront \<noteq> tail nb)) (\<lambda>_. Inr (Inl (AheadPeek nextBlock), q))
          else
            let nb = nb\<lparr>localTail := tail nb\<rparr>; nextBlockTail = localTail nb
            in bindE (assertE (nextBlockFront \<noteq> nextBlockTail)) (\<lambda>_.
                 Inr (Inl (AheadBlock nextBlock), store q nextBlock nb)))"
| "take_at c (AheadBlock nextBlock) q =
     bindE (deref q nextBlock) (\<lambda>nb.
       Inr (Inl (TakeCell (front nb)), q\<lparr>frontBlock := nextBlock\<rparr>))"
| "take_at c (AheadPeek nextBlock) q =
     bindE (deref q nextBlock) (\<lambda>nb.
     bindE (read_cell nb (front nb)) (\<lambda>x. Inr (Inr (Some x), q)))"
| "take_at c (TakeCell blockFront) q =
     bindE (deref q (frontBlock q)) (\<lambda>b.
     bindE (read_cell b blockFront) (\<lambda>x.
       if c = PeekCall then Inr (Inr (Some x), q)
       else Inr (Inl (TakeFront blockFront x), store q (frontBlock q) (destroy b blockFront))))"
| "take_at c (TakeFront blockFront x) q =
     bindE (deref q (frontBlock q)) (\<lambda>b.
       Inr (Inr (Some x), store q (frontBlock q) (b\<lparr>front := (blockFront + 1) AND sizeMask b\<rparr>)))"

subsection \<open>The size\<close>

text \<open>
  Where \<open>size_approx\<close> is, with \<open>frontBlock_\<close> (here \<open>first\<close>), \<open>block\<close> and \<open>result\<close>, and \<open>blockFront\<close>.
\<close>

datatype size_pc =
    SizeEnter
  | SizeFront nat nat size_t             \<comment> \<open>before the load of \<open>front\<close>\<close>
  | SizeTail nat nat size_t size_t       \<comment> \<open>before the load of \<open>tail\<close>\<close>
  | SizeNext nat nat size_t              \<comment> \<open>before the load of \<open>next\<close>\<close>

fun size_at :: "size_pc \<Rightarrow> 'a rwq \<Rightarrow> (size_pc + size_t) res" where
  "size_at SizeEnter q = Inr (Inl (SizeFront (frontBlock q) (frontBlock q) 0))"
| "size_at (SizeFront first block result) q =
     bindE (deref q block) (\<lambda>b. Inr (Inl (SizeTail first block result (front b))))"
| "size_at (SizeTail first block result blockFront) q =
     bindE (deref q block) (\<lambda>b.
       Inr (Inl (SizeNext first block (result + ((tail b - blockFront) AND sizeMask b)))))"
| "size_at (SizeNext first block result) q =
     bindE (deref q block) (\<lambda>b.
     bindE (follow (next_blk b)) (\<lambda>block.
       Inr (if block \<noteq> first then Inl (SizeFront first block result) else Inr result)))"

subsection \<open>Running alone\<close>

text \<open>Without the other thread the steps are the operations of \<open>Rw_Queue\<close>.\<close>

fun run_put :: "nat \<Rightarrow> 'a put_call \<Rightarrow> put_pc \<Rightarrow> 'a rwq \<Rightarrow> (bool \<times> 'a rwq) res" where
  "run_put 0 c pc q = Inl OutOfFuel"
| "run_put (Suc k) c pc q =
     bindE (put_at c pc q) (\<lambda>(r, q). case r of Inl pc \<Rightarrow> run_put k c pc q | Inr ok \<Rightarrow> Inr (ok, q))"

fun run_take :: "nat \<Rightarrow> take_call \<Rightarrow> 'a take_pc \<Rightarrow> 'a rwq \<Rightarrow> ('a option \<times> 'a rwq) res" where
  "run_take 0 c pc q = Inl OutOfFuel"
| "run_take (Suc k) c pc q =
     bindE (take_at c pc q) (\<lambda>(r, q). case r of Inl pc \<Rightarrow> run_take k c pc q | Inr x \<Rightarrow> Inr (x, q))"

fun run_size :: "nat \<Rightarrow> size_pc \<Rightarrow> 'a rwq \<Rightarrow> size_t res" where
  "run_size 0 pc q = Inl OutOfFuel"
| "run_size (Suc k) pc q = bindE (size_at pc q) (\<lambda>r. case r of Inl pc \<Rightarrow> run_size k pc q | Inr n \<Rightarrow> Inr n)"

lemma deref_cases: "deref q a = Inl WildPointer \<or> a < length (heap q) \<and> deref q a = Inr (heap q ! a)"
  by (simp add: deref_def)

lemma run_put_alone: "run_put 7 (m, mem, x) PutEnter q = inner_enqueue m mem x q"
  unfolding inner_enqueue_def enqueue_next_def enqueue_new_def
  by (auto simp: numeral_eq_Suc deref_def Let_def follow_def construct_def make_block_def assertE_def
      filled_block_def store_def nth_append list_update_append nth_list_update
      split: option.splits alloc_mode.splits)

lemmas alone_defs = numeral_eq_Suc deref_def Let_def follow_def assertE_def store_def nth_list_update

lemma run_take_alone:
  "run_take 9 DequeueCall TakeEnter q = try_dequeue q"
  "run_take 9 PeekCall TakeEnter q = peek q"
  "bindE (run_take 9 PopCall TakeEnter q) (\<lambda>(x, q). Inr (x \<noteq> None, q)) = pop q"
proof -
  define b where "b = heap q ! frontBlock q"
  define n where "n = next_blk b"
  consider "\<not> frontBlock q < length (heap q)" | "frontBlock q < length (heap q)" "front b \<noteq> localTail b"
    | "frontBlock q < length (heap q)" "front b = localTail b" "front b \<noteq> tail b"
    | "frontBlock q < length (heap q)" "front b = localTail b" "front b = tail b" "frontBlock q = tailBlock q"
    | "frontBlock q < length (heap q)" "front b = localTail b" "front b = tail b" "frontBlock q \<noteq> tailBlock q"
    by blast
  then have "run_take 9 DequeueCall TakeEnter q = try_dequeue q \<and> run_take 9 PeekCall TakeEnter q = peek q \<and>
    bindE (run_take 9 PopCall TakeEnter q) (\<lambda>(x, q). Inr (x \<noteq> None, q)) = pop q"
  proof cases
    case 1
    then show ?thesis
      unfolding try_dequeue_def peek_def pop_def find_front_def by (simp add: alone_defs)
  next
    case 2
    then show ?thesis
      unfolding try_dequeue_def peek_def pop_def find_front_def dequeue_front_def peek_front_def pop_front_def b_def
      by (auto simp: alone_defs read_cell_def destroy_def split: option.splits)
  next
    case 3
    then show ?thesis
      unfolding try_dequeue_def peek_def pop_def find_front_def dequeue_front_def peek_front_def pop_front_def b_def
      by (auto simp: alone_defs read_cell_def destroy_def split: option.splits)
  next
    case 4
    then show ?thesis
      unfolding try_dequeue_def peek_def pop_def find_front_def b_def by (simp add: alone_defs)
  next
    case 5
    consider "next_blk b = None" | n where "next_blk b = Some n" "\<not> n < length (heap q)"
      | n where "next_blk b = Some n" "n < length (heap q)" by (cases "next_blk b") auto
    then show ?thesis
    proof cases
      case 1
      with 5 show ?thesis
        unfolding try_dequeue_def peek_def pop_def find_front_def dequeue_ahead_def peek_ahead_def
          pop_ahead_def b_def by (simp add: alone_defs)
    next
      case 2
      with 5 show ?thesis
        unfolding try_dequeue_def peek_def pop_def find_front_def dequeue_ahead_def peek_ahead_def
          pop_ahead_def b_def by (simp add: alone_defs)
    next
      case 3
      with 5 show ?thesis
        unfolding try_dequeue_def peek_def pop_def find_front_def dequeue_ahead_def peek_ahead_def
          pop_ahead_def b_def
        by (cases "n = frontBlock q"; cases "front (heap q ! n) = tail (heap q ! n)";
            cases "unat (front (heap q ! n)) < length (cells (heap q ! n))";
            cases "cells (heap q ! n) ! unat (front (heap q ! n))")
          (simp_all add: alone_defs read_cell_def destroy_def)
    qed
  qed
  then show "run_take 9 DequeueCall TakeEnter q = try_dequeue q" "run_take 9 PeekCall TakeEnter q = peek q"
    "bindE (run_take 9 PopCall TakeEnter q) (\<lambda>(x, q). Inr (x \<noteq> None, q)) = pop q" by blast+
qed

lemma run_size_loop:
  "run_size (3 * k) (SizeFront (frontBlock q) a r) q =
   ring_loop k q (\<lambda>result block b. Inr (result + ((tail b - front b) AND sizeMask b))) r a"
proof (induction k arbitrary: a r)
  case (Suc k)
  have three: "3 * Suc k = Suc (Suc (Suc (3 * k)))" by simp
  show ?case unfolding three using Suc.IH
    by (auto simp: deref_def follow_def split: option.splits)
qed simp

lemma run_size_alone: "run_size (Suc (3 * length (heap q))) SizeEnter q = size_approx q"
  using run_size_loop [of "length (heap q)" q "frontBlock q" 0] by (simp add: size_approx_def)

subsection \<open>The two threads\<close>

text \<open>
  What was put in and what was taken out is recorded, in the order in which the operations
  returned, and, for the operation of the consumer that runs, what had been put in when it began.
\<close>

record 'a duo =
  queue :: "'a rwq"
  putting :: "('a put_call \<times> put_pc) option"
  taking :: "(take_call \<times> 'a take_pc) option"
  entered :: "'a list"
  departed :: "'a list"
  entered_before :: "'a list"

definition idle_duo :: "'a rwq \<Rightarrow> 'a duo" where
  "idle_duo q = \<lparr>queue = q, putting = None, taking = None, entered = [], departed = [],
     entered_before = []\<rparr>"

definition duo_put :: "'a duo \<Rightarrow> 'a duo res" where
  "duo_put s = (case putting s of
     None \<Rightarrow> Inr s
   | Some (c, pc) \<Rightarrow>
       bindE (put_at c pc (queue s)) (\<lambda>(r, q).
         Inr (case r of
           Inl pc \<Rightarrow> s\<lparr>queue := q, putting := Some (c, pc)\<rparr>
         | Inr ok \<Rightarrow> s\<lparr>queue := q, putting := None,
             entered := entered s @ (if ok then [snd (snd c)] else [])\<rparr>)))"

definition duo_take :: "'a duo \<Rightarrow> 'a duo res" where
  "duo_take s = (case taking s of
     None \<Rightarrow> Inr s
   | Some (c, pc) \<Rightarrow>
       bindE (take_at c pc (queue s)) (\<lambda>(r, q).
         Inr (case r of
           Inl pc \<Rightarrow> s\<lparr>queue := q, taking := Some (c, pc)\<rparr>
         | Inr x \<Rightarrow> s\<lparr>queue := q, taking := None,
             departed := departed s @ (if c = PeekCall then [] else case_option [] (\<lambda>x. [x]) x)\<rparr>)))"

inductive duo_step :: "'a duo \<Rightarrow> 'a duo \<Rightarrow> bool" where
  PutBegin: "putting s = None \<Longrightarrow> duo_step s (s\<lparr>putting := Some (c, PutEnter)\<rparr>)"
| PutStep: "duo_put s = Inr s' \<Longrightarrow> duo_step s s'"
| TakeBegin: "taking s = None \<Longrightarrow>
    duo_step s (s\<lparr>taking := Some (c, TakeEnter), entered_before := entered s\<rparr>)"
| TakeStep: "duo_take s = Inr s' \<Longrightarrow> duo_step s s'"

subsection \<open>Properties\<close>


end
