(* ===== verification/Rw_Tso.thy ===== *)
theory Rw_Tso
  imports Rw_Threads
begin

text \<open>
  The two threads of \<open>ReaderWriterQueue\<close> on a processor with store buffers, as x86 has them. A
  thread does not write to the memory: its writes go to a buffer of its own, from which they are
  drained one by one, in order, at any later time. A thread reads what is in its own buffer, and
  otherwise the memory. The steps are those of \<open>Rw_Threads\<close>.
\<close>

subsection \<open>Fences and writes\<close>

text \<open>
  \<open>fence\<close>: on this processor only a sequentially consistent fence has an effect. It lets a thread
  pass when its buffer is empty. The queue has acquire and release fences only.
\<close>

datatype memory_order =
    memory_order_relaxed | memory_order_acquire | memory_order_release | memory_order_acq_rel
  | memory_order_seq_cst

definition fence :: "memory_order \<Rightarrow> 'w list \<Rightarrow> bool" where
  "fence order buffer \<longleftrightarrow> (case order of
     memory_order_seq_cst \<Rightarrow> buffer = []
   | _ \<Rightarrow> True)"

definition passes :: "'w list \<Rightarrow> bool" where
  "passes buffer \<longleftrightarrow> fence memory_order_acquire buffer \<and> fence memory_order_release buffer"

lemma passes [simp]: "passes buffer"
  by (simp add: passes_def fence_def)

text \<open>
  The writes of the queue: to a cell, to a variable of a block or of the queue, and the initialised
  new block with the new \<open>largestBlockSize\<close>, which no other thread can see before it is linked.
\<close>

datatype 'a put_to =
    ToCell nat size_t "'a option"
  | ToFront nat size_t
  | ToTail nat size_t
  | ToLocalFront nat size_t
  | ToLocalTail nat size_t
  | ToNext nat nat
  | ToFrontBlock nat
  | ToTailBlock nat
  | ToNewBlock "'a block" size_t

definition upd :: "nat \<Rightarrow> ('a block \<Rightarrow> 'a block) \<Rightarrow> 'a rwq \<Rightarrow> 'a rwq" where
  "upd a f q = store q a (f (heap q ! a))"

fun do_write :: "'a put_to \<Rightarrow> 'a rwq \<Rightarrow> 'a rwq" where
  "do_write (ToCell a i x) q = upd a (\<lambda>b. b\<lparr>cells := (cells b)[unat i := x]\<rparr>) q"
| "do_write (ToFront a i) q = upd a (\<lambda>b. b\<lparr>front := i\<rparr>) q"
| "do_write (ToTail a i) q = upd a (\<lambda>b. b\<lparr>tail := i\<rparr>) q"
| "do_write (ToLocalFront a i) q = upd a (\<lambda>b. b\<lparr>localFront := i\<rparr>) q"
| "do_write (ToLocalTail a i) q = upd a (\<lambda>b. b\<lparr>localTail := i\<rparr>) q"
| "do_write (ToNext a n) q = upd a (\<lambda>b. b\<lparr>next_blk := Some n\<rparr>) q"
| "do_write (ToFrontBlock n) q = q\<lparr>frontBlock := n\<rparr>"
| "do_write (ToTailBlock n) q = q\<lparr>tailBlock := n\<rparr>"
| "do_write (ToNewBlock b s) q = q\<lparr>largestBlockSize := s, heap := heap q @ [b]\<rparr>"

definition do_writes :: "'a put_to list \<Rightarrow> 'a rwq \<Rightarrow> 'a rwq" where
  "do_writes ws q = fold do_write ws q"

subsection \<open>The write of a step\<close>

text \<open>Every step makes one write at most.\<close>

fun put_write :: "'a put_call \<Rightarrow> put_pc \<Rightarrow> 'a rwq \<Rightarrow> 'a put_to list" where
  "put_write c (PutFront t t') q = [ToLocalFront (tailBlock q) (front (heap q ! tailBlock q))]"
| "put_write (m, mem, x) (PutCell t t') q = [ToCell (tailBlock q) t (Some x)]"
| "put_write c (PutTail t') q = [ToTail (tailBlock q) t']"
| "put_write c (NextFront n) q = [ToLocalFront n (front (heap q ! n))]"
| "put_write (m, mem, x) (NextCell n t) q = [ToCell n t (Some x)]"
| "put_write c (NextTail n t) q = [ToTail n ((t + 1) AND sizeMask (heap q ! n))]"
| "put_write c (NextAdvance n) q = [ToTailBlock n]"
| "put_write (m, mem, x) PutNew q =
     (let s = (if MAX_BLOCK_SIZE \<le> largestBlockSize q then largestBlockSize q else largestBlockSize q * 2)
      in if mem then (case filled_block s x (next_blk (heap q ! tailBlock q)) of
           Inr nb \<Rightarrow> [ToNewBlock nb s] | Inl _ \<Rightarrow> [])
         else [])"
| "put_write c (NewLink n) q = [ToNext (tailBlock q) n]"
| "put_write c (NewAdvance n) q = [ToTailBlock n]"
| "put_write c _ q = []"

fun take_write :: "take_call \<Rightarrow> 'a take_pc \<Rightarrow> 'a rwq \<Rightarrow> 'a put_to list" where
  "take_write c TakeTail q = [ToLocalTail (frontBlock q) (tail (heap q ! frontBlock q))]"
| "take_write c TakeAgain q = [ToLocalTail (frontBlock q) (tail (heap q ! frontBlock q))]"
| "take_write c (AheadTail n) q = (if c = PeekCall then [] else [ToLocalTail n (tail (heap q ! n))])"
| "take_write c (AheadBlock n) q = [ToFrontBlock n]"
| "take_write c (TakeCell f) q = (if c = PeekCall then [] else [ToCell (frontBlock q) f None])"
| "take_write c (TakeFront f x) q = [ToFront (frontBlock q) ((f + 1) AND sizeMask (heap q ! frontBlock q))]"
| "take_write c _ q = []"

lemma put_at_write: "put_at c pc q = Inr (r, q') \<Longrightarrow> q' = do_writes (put_write c pc q) q"
  by (cases "(c, pc, q)" rule: put_at.cases)
    (auto simp: do_writes_def upd_def bindE_eq_Inr Let_def deref_def construct_def follow_def
      split: if_splits alloc_mode.splits option.splits)

lemma take_at_write: "take_at c k q = Inr (r, q') \<Longrightarrow> q' = do_writes (take_write c k q) q"
  by (cases k)
    (auto simp: do_writes_def upd_def bindE_eq_Inr Let_def deref_def destroy_def follow_def
      split: if_splits option.splits)

subsection \<open>The two threads\<close>

text \<open>
  The memory is in \<open>queue\<close>. A thread loads from its view of it, and stores to its buffer; the steps
  of the operations are those of \<open>Rw_Threads\<close>. What was put in before an operation of the consumer
  is what the consumer could see, if the writes of the producer have all reached the memory by then.
\<close>

record 'a tso = "'a duo" +
  put_buffer :: "'a put_to list"
  take_buffer :: "'a put_to list"

definition idle_tso :: "'a rwq \<Rightarrow> 'a tso" where
  "idle_tso q = \<lparr>queue = q, putting = None, taking = None, entered = [], departed = [],
     entered_before = [], put_buffer = [], take_buffer = []\<rparr>"

definition put_view :: "'a tso \<Rightarrow> 'a rwq" where
  "put_view s = do_writes (put_buffer s) (queue s)"

definition take_view :: "'a tso \<Rightarrow> 'a rwq" where
  "take_view s = do_writes (take_buffer s) (queue s)"

definition tso_put :: "'a tso \<Rightarrow> 'a tso res" where
  "tso_put s = (case putting s of
     None \<Rightarrow> Inr s
   | Some (c, pc) \<Rightarrow>
       if \<not> passes (put_buffer s) then Inr s
       else bindE (put_at c pc (put_view s)) (\<lambda>(r, _).
         let s = s\<lparr>put_buffer := put_buffer s @ put_write c pc (put_view s)\<rparr>
         in Inr (case r of
              Inl pc \<Rightarrow> s\<lparr>putting := Some (c, pc)\<rparr>
            | Inr ok \<Rightarrow> s\<lparr>putting := None, entered := entered s @ (if ok then [snd (snd c)] else [])\<rparr>)))"

definition tso_take :: "'a tso \<Rightarrow> 'a tso res" where
  "tso_take s = (case taking s of
     None \<Rightarrow> Inr s
   | Some (c, pc) \<Rightarrow>
       if \<not> passes (take_buffer s) then Inr s
       else bindE (take_at c pc (take_view s)) (\<lambda>(r, _).
         let s = s\<lparr>take_buffer := take_buffer s @ take_write c pc (take_view s)\<rparr>
         in Inr (case r of
              Inl pc \<Rightarrow> s\<lparr>taking := Some (c, pc)\<rparr>
            | Inr x \<Rightarrow> s\<lparr>taking := None,
                departed := departed s @ (if c = PeekCall then [] else case_option [] (\<lambda>x. [x]) x)\<rparr>)))"

inductive tso_step :: "'a tso \<Rightarrow> 'a tso \<Rightarrow> bool" where
  PutCalled: "putting s = None \<Longrightarrow> tso_step s (s\<lparr>putting := Some (c, PutEnter)\<rparr>)"
| PutRuns: "tso_put s = Inr s' \<Longrightarrow> tso_step s s'"
| PutDrains: "put_buffer s = w # ws \<Longrightarrow>
    tso_step s (s\<lparr>queue := do_write w (queue s), put_buffer := ws\<rparr>)"
| TakeCalled: "taking s = None \<Longrightarrow>
    tso_step s (s\<lparr>taking := Some (c, TakeEnter),
      entered_before := (if put_buffer s = [] then entered s else departed s)\<rparr>)"
| TakeRuns: "tso_take s = Inr s' \<Longrightarrow> tso_step s s'"
| TakeDrains: "take_buffer s = w # ws \<Longrightarrow>
    tso_step s (s\<lparr>queue := do_write w (queue s), take_buffer := ws\<rparr>)"

end
