(* ===== verification/Rw_Steps.thy ===== *)
theory Rw_Steps
  imports Rw_Tso Rw_Queue_Correct
begin

text \<open>
  The steps of the two threads of the queue: what each thread has written of an operation under
  way, what it knows of the queue between its steps, what it leaves alone for the other, and which
  steps are right even though a thread reads variables of the other that have been changed since.
\<close>

subsection \<open>Writing to a block\<close>

lemma upd_simps [simp]:
  "frontBlock (upd a f q) = frontBlock q" "tailBlock (upd a f q) = tailBlock q"
  "largestBlockSize (upd a f q) = largestBlockSize q" "length (heap (upd a f q)) = length (heap q)"
  "upd a f (q\<lparr>frontBlock := n\<rparr>) = (upd a f q)\<lparr>frontBlock := n\<rparr>"
  "upd a f (q\<lparr>tailBlock := n\<rparr>) = (upd a f q)\<lparr>tailBlock := n\<rparr>"
  "upd a f (q\<lparr>largestBlockSize := sz\<rparr>) = (upd a f q)\<lparr>largestBlockSize := sz\<rparr>"
  by (simp_all add: upd_def store_def)

lemma heap_upd: "a < length (heap q) \<Longrightarrow> heap (upd a f q) ! b = (if b = a then f (heap q ! a) else heap q ! b)"
  by (simp add: upd_def)

lemma upd_upd: "a < length (heap q) \<Longrightarrow> upd a f (upd a g q) = upd a (\<lambda>b. f (g b)) q"
  by (simp add: upd_def)

lemma upd_commute:
  "a < length (heap q) \<Longrightarrow> b < length (heap q) \<Longrightarrow>
   a \<noteq> b \<or> f (g (heap q ! a)) = g (f (heap q ! a)) \<Longrightarrow> upd a f (upd b g q) = upd b g (upd a f q)"
  by (cases "a = b") (auto simp: upd_def store_def list_update_swap)

lemma upd_append:
  "a < length (heap q) \<Longrightarrow> upd a f (q\<lparr>heap := heap q @ bs\<rparr>) = (upd a f q)\<lparr>heap := heap (upd a f q) @ bs\<rparr>"
  by (simp add: upd_def store_def nth_append list_update_append)

subsection \<open>Operations under way\<close>

text \<open>
  The queue in the middle of operations is the queue as it was before them, changed by what they
  have written so far: the consumer has emptied the cell at \<open>front\<close>; the producer has filled the cell
  at \<open>tail\<close>, advanced \<open>tail\<close> in a block that is not in use yet, or made a new block.
\<close>

definition fill :: "'a \<Rightarrow> 'a block \<Rightarrow> 'a block" where
  "fill x b = b\<lparr>cells := (cells b)[unat (tail b) := Some x]\<rparr>"

definition clear :: "'a block \<Rightarrow> 'a block" where
  "clear b = destroy b (front b)"

definition published :: "'a \<Rightarrow> 'a block \<Rightarrow> 'a block" where
  "published x b = (fill x b)\<lparr>tail := (tail b + 1) AND sizeMask b\<rparr>"

definition grown :: "'a \<Rightarrow> 'a rwq \<Rightarrow> 'a block" where
  "grown x q = (fill x (new_block (largestBlockSize q)))
     \<lparr>tail := 1, localTail := 1, next_blk := next_blk (heap q ! tailBlock q)\<rparr>"

definition with_new :: "'a \<Rightarrow> 'a rwq \<Rightarrow> 'a rwq" where
  "with_new x q = q\<lparr>heap := heap q @ [grown x q]\<rparr>"

fun put_pending :: "'a \<Rightarrow> put_pc \<Rightarrow> 'a rwq \<Rightarrow> 'a rwq" where
  "put_pending x (PutTail t) q = upd (tailBlock q) (fill x) q"
| "put_pending x (NextTail n t) q = upd n (fill x) q"
| "put_pending x (NextAdvance n) q = upd n (published x) q"
| "put_pending x (NewLink n) q = with_new x q"
| "put_pending x (NewAdvance n) q = upd (tailBlock q) (\<lambda>b. b\<lparr>next_blk := Some n\<rparr>) (with_new x q)"
| "put_pending x _ q = q"

fun take_pending :: "'a take_pc \<Rightarrow> 'a rwq \<Rightarrow> 'a rwq" where
  "take_pending (TakeFront f x) q = upd (frontBlock q) clear q"
| "take_pending _ q = q"

text \<open>What each thread knows, between its steps, of the queue as it was before.\<close>

fun put_knows :: "put_pc \<Rightarrow> 'a rwq \<Rightarrow> bool" where
  "put_knows (PutFront t t') q \<longleftrightarrow> (let b = heap q ! tailBlock q in
     t = tail b \<and> t' = (tail b + 1) AND sizeMask b)"
| "put_knows (PutCell t t') q \<longleftrightarrow> (let b = heap q ! tailBlock q in
     t = tail b \<and> t' = (tail b + 1) AND sizeMask b \<and> t' \<noteq> localFront b)"
| "put_knows (PutTail t') q \<longleftrightarrow> (let b = heap q ! tailBlock q in
     t' = (tail b + 1) AND sizeMask b \<and> t' \<noteq> localFront b)"
| "put_knows (NextFront n) q \<longleftrightarrow> next_blk (heap q ! tailBlock q) = Some n \<and> n \<noteq> frontBlock q"
| "put_knows (NextCell n t) q \<longleftrightarrow> next_blk (heap q ! tailBlock q) = Some n \<and> n \<noteq> frontBlock q \<and>
     t = tail (heap q ! n) \<and> localFront (heap q ! n) = tail (heap q ! n)"
| "put_knows (NextTail n t) q \<longleftrightarrow> next_blk (heap q ! tailBlock q) = Some n \<and> n \<noteq> frontBlock q \<and>
     t = tail (heap q ! n) \<and> localFront (heap q ! n) = tail (heap q ! n)"
| "put_knows (NextAdvance n) q \<longleftrightarrow> next_blk (heap q ! tailBlock q) = Some n \<and> n \<noteq> frontBlock q \<and>
     localFront (heap q ! n) = tail (heap q ! n)"
| "put_knows (NewLink n) q \<longleftrightarrow> n = length (heap q)"
| "put_knows (NewAdvance n) q \<longleftrightarrow> n = length (heap q)"
| "put_knows _ q \<longleftrightarrow> True"

text \<open>\<open>was_empty\<close> tells that nothing was in the queue when the operation began.\<close>

fun take_knows :: "bool \<Rightarrow> take_call \<Rightarrow> 'a take_pc \<Rightarrow> 'a rwq \<Rightarrow> bool" where
  "take_knows was_empty c TakeBlock q \<longleftrightarrow> (frontBlock q = tailBlock q \<longrightarrow> was_empty)"
| "take_knows was_empty c TakeAgain q \<longleftrightarrow> frontBlock q \<noteq> tailBlock q"
| "take_knows was_empty c AheadNext q \<longleftrightarrow> frontBlock q \<noteq> tailBlock q \<and>
     (let b = heap q ! frontBlock q in front b = tail b)"
| "take_knows was_empty c (AheadTail n) q \<longleftrightarrow> frontBlock q \<noteq> tailBlock q \<and>
     (let b = heap q ! frontBlock q in front b = tail b \<and> next_blk b = Some n)"
| "take_knows was_empty c (AheadPeek n) q \<longleftrightarrow> c = PeekCall \<and> frontBlock q \<noteq> tailBlock q \<and>
     (let b = heap q ! frontBlock q in front b = tail b \<and> next_blk b = Some n)"
| "take_knows was_empty c (AheadBlock n) q \<longleftrightarrow> c \<noteq> PeekCall \<and> frontBlock q \<noteq> tailBlock q \<and>
     (let b = heap q ! frontBlock q in front b = tail b \<and> next_blk b = Some n) \<and>
     front (heap q ! n) \<noteq> localTail (heap q ! n)"
| "take_knows was_empty c (TakeCell f) q \<longleftrightarrow> (let b = heap q ! frontBlock q in
     f = front b \<and> front b \<noteq> localTail b)"
| "take_knows was_empty c (TakeFront f x) q \<longleftrightarrow> c \<noteq> PeekCall \<and> (let b = heap q ! frontBlock q in
     f = front b \<and> front b \<noteq> localTail b \<and> cells b ! unat f = Some x)"
| "take_knows was_empty c _ q \<longleftrightarrow> True"

subsection \<open>Pending writes and other writes commute\<close>

lemma block_front_tail: "block_ok b \<Longrightarrow> front b \<noteq> localTail b \<Longrightarrow> front b \<noteq> tail b"
  by (auto simp: block_ok_def block_bits_def window_def rdist_eq_0)

lemma fill_clear: "front b \<noteq> tail b \<Longrightarrow> fill x (clear b) = clear (fill x b)"
  by (simp add: fill_def clear_def destroy_def list_update_swap word_unat_eq_iff)

lemma block_fields [simp]:
  "front (fill x b) = front b" "tail (fill x b) = tail b" "localFront (fill x b) = localFront b"
  "localTail (fill x b) = localTail b" "next_blk (fill x b) = next_blk b"
  "sizeMask (fill x b) = sizeMask b" "length (cells (fill x b)) = length (cells b)"
  "front (clear b) = front b" "tail (clear b) = tail b" "localFront (clear b) = localFront b"
  "localTail (clear b) = localTail b" "next_blk (clear b) = next_blk b"
  "sizeMask (clear b) = sizeMask b" "length (cells (clear b)) = length (cells b)"
  "front (published x b) = front b" "localFront (published x b) = localFront b"
  "localTail (published x b) = localTail b" "next_blk (published x b) = next_blk b"
  "sizeMask (published x b) = sizeMask b" "length (cells (published x b)) = length (cells b)"
  "tail (published x b) = (tail b + 1) AND sizeMask b"
  by (simp_all add: fill_def clear_def destroy_def published_def)

lemma take_pending_simps [simp]:
  "frontBlock (take_pending k q) = frontBlock q" "tailBlock (take_pending k q) = tailBlock q"
  "largestBlockSize (take_pending k q) = largestBlockSize q"
  "length (heap (take_pending k q)) = length (heap q)"
  "take_pending k (q\<lparr>tailBlock := n\<rparr>) = (take_pending k q)\<lparr>tailBlock := n\<rparr>"
  "take_pending k (q\<lparr>largestBlockSize := sz\<rparr>) = (take_pending k q)\<lparr>largestBlockSize := sz\<rparr>"
  by (cases k; simp)+

lemma take_pending_fields [simp]:
  assumes "frontBlock q < length (heap q)"
  shows "front (heap (take_pending k q) ! a) = front (heap q ! a)"
    "tail (heap (take_pending k q) ! a) = tail (heap q ! a)"
    "localFront (heap (take_pending k q) ! a) = localFront (heap q ! a)"
    "localTail (heap (take_pending k q) ! a) = localTail (heap q ! a)"
    "next_blk (heap (take_pending k q) ! a) = next_blk (heap q ! a)"
    "sizeMask (heap (take_pending k q) ! a) = sizeMask (heap q ! a)"
    "length (cells (heap (take_pending k q) ! a)) = length (cells (heap q ! a))"
  using assms by (cases k; simp add: heap_upd)+

lemma take_pending_upd:
  assumes "a < length (heap q)" "frontBlock q < length (heap q)"
    and "\<And>g x. k = TakeFront g x \<Longrightarrow> a = frontBlock q \<Longrightarrow>
      clear (f (heap q ! a)) = f (clear (heap q ! a))"
  shows "take_pending k (upd a f q) = upd a f (take_pending k q)"
  using assms by (cases k) (auto intro!: upd_commute)

lemma take_pending_append:
  assumes "frontBlock q < length (heap q)"
  shows "take_pending k (q\<lparr>heap := heap q @ bs\<rparr>) =
    (take_pending k q)\<lparr>heap := heap (take_pending k q) @ bs\<rparr>"
  using assms by (cases k) (simp_all add: upd_append)

lemma take_pending_with_new:
  assumes "frontBlock q < length (heap q)"
  shows "take_pending k (with_new x q) = with_new x (take_pending k q)"
  using assms by (simp add: with_new_def take_pending_append grown_def)

subsection \<open>A step of the producer\<close>

text \<open>What the consumer can rely on when the producer makes a step.\<close>

definition put_respects :: "'a rwq \<Rightarrow> 'a rwq \<Rightarrow> bool" where
  "put_respects q q' \<longleftrightarrow> frontBlock q' = frontBlock q \<and>
     (\<forall>a < length (heap q). let b = heap q ! a; b' = heap q' ! a in
       front b' = front b \<and> localTail b' = localTail b \<and> sizeMask b' = sizeMask b \<and>
       (front b \<noteq> tail b \<longrightarrow> cells b' ! unat (front b) = cells b ! unat (front b)) \<and>
       (\<forall>v. block_ok (b\<lparr>localTail := v\<rparr>) \<longrightarrow> block_ok (b'\<lparr>localTail := v\<rparr>))) \<and>
     (let f = frontBlock q; b = heap q ! f; b' = heap q' ! f in
       f \<noteq> tailBlock q \<longrightarrow> f \<noteq> tailBlock q' \<and> tail b' = tail b \<and> next_blk b' = next_blk b)"

lemma take_knows_kept:
  assumes "take_knows e c k q" "put_respects q q'" "rwq_ring q us fs"
  shows "take_knows e c k q'"
proof -
  note r = rwq_ringD [OF assms(3)]
  have n: "n < length (heap q)" if "next_blk (heap q ! frontBlock q) = Some n" "frontBlock q \<noteq> tailBlock q" for n
  proof -
    from r(2,3,5) that(2) obtain b vs where us: "us = frontBlock q # b # vs"
      by (metis hd_Cons_tl last.simps list.exhaust)
    with r(1) ring_next_front [of "heap q" "frontBlock q" b vs fs] that(1) ring_ok_less [OF r(1), of b]
    show ?thesis by simp
  qed
  have ok: "block_ok (heap q ! frontBlock q)" using r(1,6) by (blast intro: ring_ok_block)
  show ?thesis
    using assms(1,2) r(8) n block_front_tail [OF ok]
    by (cases k) (auto simp: put_respects_def Let_def)
qed

subsubsection \<open>The ring\<close>

lemma ring_block:
  assumes "rwq_ring q us fs" "a \<in> set us \<union> set fs"
  shows "block_ok (heap q ! a)" "a < length (heap q)"
  using rwq_ringD(1) [OF assms(1)] assms(2) by (blast intro: ring_ok_block ring_ok_less)+

lemma ring_free:
  assumes "rwq_ring q us fs" "next_blk (heap q ! tailBlock q) = Some n" "n \<noteq> frontBlock q"
  shows "\<exists>gs. fs = n # gs \<and> contents (heap q ! n) = [] \<and> block_ok (heap q ! n) \<and> n < length (heap q) \<and>
    n \<notin> set us \<and> n \<noteq> tailBlock q"
proof -
  note r = rwq_ringD [OF assms(1)]
  from ring_next [OF r(1)] assms(2,3) r(2,3) obtain gs where fs: "fs = n # gs" by (cases fs) auto
  have "distinct (us @ fs)" "\<forall>a\<in>set fs. contents (heap q ! a) = []" using r(1) by (auto simp: ring_ok_def)
  with fs ring_block [OF assms(1), of n] r(7) show ?thesis by auto
qed

lemma block_publish:
  assumes "block_ok b" "(tail b + 1) AND sizeMask b \<noteq> localFront b"
  shows "construct b (tail b) x = Inr (fill x b)" "block_ok (published x b)"
    "contents (published x b) = contents b @ [x]"
proof -
  from block_enqueue [OF assms, of x] obtain b' where b': "construct b (tail b) x = Inr b'"
    "block_ok (b'\<lparr>tail := (tail b + 1) AND sizeMask b\<rparr>)"
    "contents (b'\<lparr>tail := (tail b + 1) AND sizeMask b\<rparr>) = contents b @ [x]" by blast
  from b'(1) have "b' = fill x b" by (auto simp: construct_def fill_def split: if_splits)
  with b' show "construct b (tail b) x = Inr (fill x b)" "block_ok (published x b)"
    "contents (published x b) = contents b @ [x]" by (simp_all add: published_def)
qed

lemma upd_ring:
  assumes "rwq_ring q us fs" "a \<in> set us \<union> set fs" "block_ok (f (heap q ! a))"
    "next_blk (f (heap q ! a)) = next_blk (heap q ! a)" "contents (f (heap q ! a)) = contents (heap q ! a)"
  shows "rwq_ring (upd a f q) us fs" "chain (heap (upd a f q)) us = chain (heap q) us"
proof -
  note r = rwq_ringD [OF assms(1)]
  have "ring_ok ((heap q)[a := f (heap q ! a)]) us fs"
    using assms r(1) by (intro ring_ok_set) (auto simp: ring_ok_def)
  with r show "rwq_ring (upd a f q) us fs" by (simp add: rwq_ring_def upd_def)
  have "contents (heap (upd a f q) ! c) = contents (heap q ! c)" for c
    using assms(5) ring_block(2) [OF assms(1,2)] by (simp add: heap_upd)
  then show "chain (heap (upd a f q)) us = chain (heap q) us" by (simp add: chain_def)
qed

lemma publish_tail:
  assumes ring: "rwq_ring q us fs" and b: "b = heap q ! tailBlock q"
    and room: "(tail b + 1) AND sizeMask b \<noteq> localFront b"
  shows "rwq_ring (upd (tailBlock q) (published x) q) us fs"
    "chain (heap (upd (tailBlock q) (published x) q)) us = chain (heap q) us @ [x]"
proof -
  note r = rwq_ringD [OF ring]
  have ok: "block_ok b" using ring_block [OF ring, of "tailBlock q"] r(7) b by simp
  note p = block_publish [OF ok room, of x]
  have "ring_ok ((heap q)[tailBlock q := published x b]) us fs"
    using r(1,7) p(2,3) b by (intro ring_ok_set) (auto simp: ring_ok_def)
  with r b show "rwq_ring (upd (tailBlock q) (published x) q) us fs" by (simp add: rwq_ring_def upd_def)
  obtain vs where us: "us = vs @ [tailBlock q]" using r(3,5) by (metis append_butlast_last_id)
  moreover have "distinct us" using r(1) by (simp add: ring_ok_def)
  ultimately show "chain (heap (upd (tailBlock q) (published x) q)) us = chain (heap q) us @ [x]"
    using p(3) r(9) b by (simp add: upd_def)
qed

lemma publish_next:
  assumes ring: "rwq_ring q us fs" and n: "next_blk (heap q ! tailBlock q) = Some n" "n \<noteq> frontBlock q"
    and room: "localFront (heap q ! n) = tail (heap q ! n)"
  shows "\<exists>gs. rwq_ring ((upd n (published x) q)\<lparr>tailBlock := n\<rparr>) (us @ [n]) gs"
    "chain (heap (upd n (published x) q)) (us @ [n]) = chain (heap q) us @ [x]"
proof -
  note r = rwq_ringD [OF ring]
  from ring_free [OF ring n] obtain gs where fs: "fs = n # gs" and b: "contents (heap q ! n) = []"
    "block_ok (heap q ! n)" "n < length (heap q)" "n \<notin> set us" by blast
  have "(tail (heap q ! n) + 1) AND sizeMask (heap q ! n) \<noteq> localFront (heap q ! n)"
    using succ_neq [OF b(2)] room by simp
  note p = block_publish [OF b(2) this, of x]
  have "ring_ok ((heap q)[n := published x (heap q ! n)]) (us @ [n]) gs"
    using r(1) fs p b by (intro ring_ok_advance) auto
  with r show "\<exists>gs. rwq_ring ((upd n (published x) q)\<lparr>tailBlock := n\<rparr>) (us @ [n]) gs"
    by (auto simp: rwq_ring_def upd_def)
  show "chain (heap (upd n (published x) q)) (us @ [n]) = chain (heap q) us @ [x]"
    using p(3) b by (simp add: upd_def)
qed

lemma grown_ok:
  assumes "size_ok (largestBlockSize q)"
  shows "filled_block (largestBlockSize q) x (next_blk (heap q ! tailBlock q)) = Inr (grown x q)"
    "block_ok (grown x q)" "contents (grown x q) = [x]"
    "next_blk (grown x q) = next_blk (heap q ! tailBlock q)"
proof -
  define s where "s = largestBlockSize q"
  obtain n where n: "1 \<le> n" "n < 63" "s = 2 ^ n" using assms by (auto simp: size_ok_def s_def)
  have nb: "block_ok (new_block s :: 'a block)" "contents (new_block s :: 'a block) = []"
    "sizeMask (new_block s :: 'a block) = mask n"
    using new_block_ok [OF n(1,2)] n(3) by simp_all
  have fr: "front (new_block s :: 'a block) = 0" "tail (new_block s :: 'a block) = 0"
    "localFront (new_block s :: 'a block) = 0"
    by (simp_all add: new_block_def)
  have one: "(tail (new_block s :: 'a block) + 1) AND sizeMask (new_block s :: 'a block) = 1"
    unfolding nb(3) fr using n by (simp add: word_unat_eq_iff unat_and_mask one_less_power)
  have "(tail (new_block s :: 'a block) + 1) AND sizeMask (new_block s :: 'a block) \<noteq> localFront (new_block s :: 'a block)"
    unfolding one fr(3) by simp
  note p = block_publish [OF nb(1) this, of x, unfolded nb(2)]
  have g: "grown x q = (published x (new_block s))\<lparr>localTail := tail (published x (new_block s)),
      next_blk := next_blk (heap q ! tailBlock q)\<rparr>"
    using one by (simp add: grown_def published_def s_def fr)
  show "block_ok (grown x q)" "contents (grown x q) = [x]"
    using block_ok_localTail [OF p(2)] p(3) by (simp_all add: g)
  show "filled_block (largestBlockSize q) x (next_blk (heap q ! tailBlock q)) = Inr (grown x q)"
    using p(1) fr by (simp add: filled_block_def grown_def s_def)
  show "next_blk (grown x q) = next_blk (heap q ! tailBlock q)" by (simp add: grown_def)
qed

lemma publish_new:
  fixes q :: "'a rwq" and x :: 'a
  assumes ring: "rwq_ring q us fs" and n: "n = length (heap q)"
  defines "q' \<equiv> (upd (tailBlock q) (\<lambda>b. b\<lparr>next_blk := Some n\<rparr>) (with_new x q))\<lparr>tailBlock := n\<rparr>"
  shows "rwq_ring q' (us @ [n]) fs" "chain (heap q') (us @ [n]) = chain (heap q) us @ [x]"
proof -
  note r = rwq_ringD [OF ring]
  note g = grown_ok [OF r(4), of x]
  have heap: "heap q' = (heap q)[tailBlock q := (heap q ! tailBlock q)\<lparr>next_blk := Some n\<rparr>] @ [grown x q]"
    using r(9) by (simp add: q'_def upd_def with_new_def nth_append list_update_append)
  have "ring_ok (heap q') (us @ [n]) fs"
    using ring_ok_insert [OF r(1) g(2)] g(3,4) r(3) n by (simp add: heap)
  with r show "rwq_ring q' (us @ [n]) fs" by (simp add: rwq_ring_def q'_def with_new_def)
  have "contents (heap q' ! a) = contents (heap q ! a)" if "a \<in> set us" for a
    using ring_block(2) [OF ring, of a] that r(9) by (cases "a = tailBlock q") (simp_all add: heap nth_append)
  then have "chain (heap q') us = chain (heap q) us" by (simp add: chain_def cong: map_cong)
  then show "chain (heap q') (us @ [n]) = chain (heap q) us @ [x]"
    using g(3) n by (simp add: heap nth_append)
qed

subsubsection \<open>The steps\<close>

text \<open>
  The steps a producer may take on the queue \<open>q\<close>, by what they write and where they lead. Of the
  variables of the consumer it may see older values: a \<open>front\<close> that is not past the real one, so
  that the block has no less room than it seems, and a \<open>frontBlock\<close> for which no block is free.
\<close>

definition grown_size :: "'a rwq \<Rightarrow> size_t" where
  "grown_size q = (if MAX_BLOCK_SIZE \<le> largestBlockSize q then largestBlockSize q else largestBlockSize q * 2)"

fun put_legal :: "'a put_call \<Rightarrow> put_pc \<Rightarrow> 'a put_to list \<Rightarrow> (put_pc + bool) \<Rightarrow> 'a rwq \<Rightarrow> bool" where
  "put_legal c PutEnter w r q \<longleftrightarrow> (let b = heap q ! tailBlock q; t' = (tail b + 1) AND sizeMask b in
     w = [] \<and> r = Inl (if t' \<noteq> localFront b then PutCell (tail b) t' else PutFront (tail b) t'))"
| "put_legal c (PutFront t t') w r q \<longleftrightarrow> (\<exists>v. w = [ToLocalFront (tailBlock q) v] \<and>
     block_ok ((heap q ! tailBlock q)\<lparr>localFront := v\<rparr>) \<and> r = Inl (if t' \<noteq> v then PutCell t t' else PutNext))"
| "put_legal (m, mem, x) (PutCell t t') w r q \<longleftrightarrow>
     w = [ToCell (tailBlock q) t (Some x)] \<and> r = Inl (PutTail t')"
| "put_legal c (PutTail t') w r q \<longleftrightarrow> w = [ToTail (tailBlock q) t'] \<and> r = Inr True"
| "put_legal (m, mem, x) PutNext w r q \<longleftrightarrow> w = [] \<and>
     ((\<exists>n. r = Inl (NextFront n) \<and> next_blk (heap q ! tailBlock q) = Some n \<and> n \<noteq> frontBlock q) \<or>
      r = Inl PutNew \<or> r = Inr False)"
| "put_legal c (NextFront n) w r q \<longleftrightarrow>
     w = [ToLocalFront n (tail (heap q ! n))] \<and> r = Inl (NextCell n (tail (heap q ! n)))"
| "put_legal (m, mem, x) (NextCell n t) w r q \<longleftrightarrow> w = [ToCell n t (Some x)] \<and> r = Inl (NextTail n t)"
| "put_legal c (NextTail n t) w r q \<longleftrightarrow>
     w = [ToTail n ((t + 1) AND sizeMask (heap q ! n))] \<and> r = Inl (NextAdvance n)"
| "put_legal c (NextAdvance n) w r q \<longleftrightarrow> w = [ToTailBlock n] \<and> r = Inr True"
| "put_legal (m, mem, x) PutNew w r q \<longleftrightarrow>
     (if mem then w = [ToNewBlock (grown x (q\<lparr>largestBlockSize := grown_size q\<rparr>)) (grown_size q)] \<and>
        r = Inl (NewLink (length (heap q)))
      else w = [] \<and> r = Inr False)"
| "put_legal c (NewLink n) w r q \<longleftrightarrow> w = [ToNext (tailBlock q) n] \<and> r = Inl (NewAdvance n)"
| "put_legal c (NewAdvance n) w r q \<longleftrightarrow> w = [ToTailBlock n] \<and> r = Inr True"

text \<open>What a step makes of the queue, when what is pending is left out.\<close>

fun put_shift :: "'a \<Rightarrow> put_pc \<Rightarrow> 'a put_to list \<Rightarrow> 'a rwq \<Rightarrow> 'a rwq" where
  "put_shift x (PutFront t t') w q = do_writes w q"
| "put_shift x (PutTail t') w q = upd (tailBlock q) (published x) q"
| "put_shift x (NextFront n) w q = do_writes w q"
| "put_shift x (NextAdvance n) w q = (upd n (published x) q)\<lparr>tailBlock := n\<rparr>"
| "put_shift x PutNew w q = (if w = [] then q else q\<lparr>largestBlockSize := grown_size q\<rparr>)"
| "put_shift x (NewAdvance n) w q =
     (upd (tailBlock q) (\<lambda>b. b\<lparr>next_blk := Some n\<rparr>) (with_new x q))\<lparr>tailBlock := n\<rparr>"
| "put_shift x _ w q = q"

text \<open>The queue with the pending writes of both threads, and the outcome of a step.\<close>

definition put_result :: "'a \<Rightarrow> put_pc \<Rightarrow> 'a put_to list \<Rightarrow> (put_pc + bool) \<Rightarrow> 'a take_pc \<Rightarrow> 'a rwq \<Rightarrow> nat list \<Rightarrow> bool" where
  "put_result x pc w r k q us \<longleftrightarrow> (let q' = put_shift x pc w q in
     do_writes w (put_pending x pc (take_pending k q)) =
       (case r of Inl pc \<Rightarrow> put_pending x pc | Inr _ \<Rightarrow> id) (take_pending k q') \<and>
     (\<exists>us' fs'. rwq_ring q' us' fs' \<and> chain (heap q') us' = chain (heap q) us @ (if r = Inr True then [x] else [])) \<and>
     (case r of Inl pc \<Rightarrow> put_knows pc q' | Inr _ \<Rightarrow> True) \<and> put_respects q q')"

lemma put_resultI:
  "do_writes w (put_pending x pc (take_pending k q)) =
     (case r of Inl pc' \<Rightarrow> put_pending x pc' | Inr _ \<Rightarrow> id) (take_pending k (put_shift x pc w q)) \<Longrightarrow>
   rwq_ring (put_shift x pc w q) us' fs' \<Longrightarrow>
   chain (heap (put_shift x pc w q)) us' = chain (heap q) us @ (if r = Inr True then [x] else []) \<Longrightarrow>
   case r of Inl pc' \<Rightarrow> put_knows pc' (put_shift x pc w q) | Inr _ \<Rightarrow> True \<Longrightarrow>
   put_respects q (put_shift x pc w q) \<Longrightarrow> put_result x pc w r k q us"
  unfolding put_result_def Let_def by blast

lemma put_respects_refl [simp]: "put_respects q q"
  by (simp add: put_respects_def Let_def)

lemma put_respects_largest [simp]: "put_respects q (q\<lparr>largestBlockSize := sz\<rparr>)"
  by (simp add: put_respects_def Let_def)

lemma block_ok_both:
  "block_ok (b\<lparr>localFront := v\<rparr>) \<Longrightarrow> block_ok (b\<lparr>localTail := w\<rparr>) \<Longrightarrow> block_ok (b\<lparr>localFront := v, localTail := w\<rparr>)"
proof -
  assume "block_ok (b\<lparr>localFront := v\<rparr>)" "block_ok (b\<lparr>localTail := w\<rparr>)"
  then obtain m n where "block_bits m (b\<lparr>localFront := v\<rparr>)" "block_bits n (b\<lparr>localTail := w\<rparr>)"
    by (auto simp: block_ok_def)
  moreover from this have "m = n"
    by (auto simp: block_bits_def)
  ultimately show ?thesis
    unfolding block_ok_def by (intro exI [of _ n]) (auto simp: block_bits_def window_def slot_def)
qed

lemma put_respects_localFront:
  "a < length (heap q) \<Longrightarrow> block_ok ((heap q ! a)\<lparr>localFront := v\<rparr>) \<Longrightarrow>
   put_respects q (upd a (\<lambda>b. b\<lparr>localFront := v\<rparr>) q)"
  by (auto simp: put_respects_def Let_def heap_upd intro: block_ok_both)

lemma published_localTail: "(published x b)\<lparr>localTail := v\<rparr> = published x (b\<lparr>localTail := v\<rparr>)"
  by (simp add: published_def fill_def)

lemma published_respects:
  assumes "block_ok b" "(tail b + 1) AND sizeMask b \<noteq> localFront b"
  shows "front b \<noteq> tail b \<Longrightarrow> cells (published x b) ! unat (front b) = cells b ! unat (front b)"
    "block_ok (b\<lparr>localTail := v\<rparr>) \<Longrightarrow> block_ok ((published x b)\<lparr>localTail := v\<rparr>)"
proof -
  show "front b \<noteq> tail b \<Longrightarrow> cells (published x b) ! unat (front b) = cells b ! unat (front b)"
    by (simp add: published_def fill_def word_unat_eq_iff)
  show "block_ok (b\<lparr>localTail := v\<rparr>) \<Longrightarrow> block_ok ((published x b)\<lparr>localTail := v\<rparr>)"
    using block_publish(2) [of "b\<lparr>localTail := v\<rparr>" x] assms(2) by (simp add: published_localTail)
qed

lemma put_respects_published:
  assumes "a < length (heap q)" "block_ok (heap q ! a)"
    "(tail (heap q ! a) + 1) AND sizeMask (heap q ! a) \<noteq> localFront (heap q ! a)" "a \<noteq> frontBlock q \<or> a = tailBlock q"
  shows "put_respects q (upd a (published x) q)"
  using assms published_respects [OF assms(2,3)]
  by (auto simp: put_respects_def Let_def heap_upd)

lemma block_ok_next_localTail [simp]: "block_ok (b\<lparr>next_blk := p, localTail := v\<rparr>) = block_ok (b\<lparr>localTail := v\<rparr>)"
  by (simp add: block_ok_def block_bits_def window_def slot_def)

lemma clear_localFront: "clear (b\<lparr>localFront := v\<rparr>) = (clear b)\<lparr>localFront := v\<rparr>"
  by (simp add: clear_def destroy_def)

lemma do_writes_simps [simp]: "do_writes [] q = q" "do_writes (w # ws) q = do_writes ws (do_write w q)"
  by (simp_all add: do_writes_def)

text \<open>Taking over a value of \<open>front\<close>, in any block.\<close>

lemma set_localFront:
  assumes ring: "rwq_ring q us fs" and a: "a \<in> set us \<union> set fs" and ok: "block_ok ((heap q ! a)\<lparr>localFront := v\<rparr>)"
  defines "f \<equiv> \<lambda>b :: 'a block. b\<lparr>localFront := v\<rparr>"
  shows "take_pending k (upd a f q) = upd a f (take_pending k q)"
    "rwq_ring (upd a f q) us fs" "chain (heap (upd a f q)) us = chain (heap q) us" "put_respects q (upd a f q)"
proof -
  have len: "a < length (heap q)" using ring_block(2) [OF ring a] .
  show "take_pending k (upd a f q) = upd a f (take_pending k q)"
    using rwq_ringD(8) [OF ring] len by (intro take_pending_upd) (simp_all add: f_def clear_localFront)
  show "rwq_ring (upd a f q) us fs" "chain (heap (upd a f q)) us = chain (heap q) us"
    using upd_ring [OF ring a, of f] ok by (simp_all add: f_def)
  show "put_respects q (upd a f q)" using put_respects_localFront [OF len ok] by (simp add: f_def)
qed

lemma published_clear: "front b \<noteq> tail b \<Longrightarrow> clear (published x b) = published x (clear b)"
  using fill_clear [of b x] by (simp add: published_def) (simp add: clear_def destroy_def)

lemma take_front_busy:
  assumes "take_knows e d (TakeFront g y) q" "rwq_ring q us fs"
  shows "front (heap q ! frontBlock q) \<noteq> tail (heap q ! frontBlock q)"
  using assms ring_block(1) [OF assms(2), of "frontBlock q"] rwq_ringD(6) [OF assms(2)]
  by (intro block_front_tail) (auto simp: Let_def)

lemma put_front:
  assumes ring: "rwq_ring q us fs" and knows: "put_knows (PutFront t t') q"
    and legal: "put_legal c (PutFront t t') w r q"
  shows "put_result x (PutFront t t') w r k q us"
proof -
  note d = rwq_ringD [OF ring]
  from legal obtain v where v: "w = [ToLocalFront (tailBlock q) v]"
    "block_ok ((heap q ! tailBlock q)\<lparr>localFront := v\<rparr>)" "r = Inl (if t' \<noteq> v then PutCell t t' else PutNext)"
    by auto
  have "tailBlock q \<in> set us \<union> set fs" using d(7) by simp
  note m = set_localFront [OF ring this v(2)]
  show ?thesis
    using knows d(9) m v by (intro put_resultI [where us' = us and fs' = fs]) (auto simp: heap_upd Let_def)
qed

lemma next_front:
  assumes ring: "rwq_ring q us fs" and knows: "put_knows (NextFront n) q"
    and legal: "put_legal c (NextFront n) w r q"
  shows "put_result x (NextFront n) w r k q us"
proof -
  note d = rwq_ringD [OF ring]
  from ring_free [OF ring, of n] knows obtain gs where fs: "fs = n # gs" and nb: "contents (heap q ! n) = []"
    "block_ok (heap q ! n)" "n < length (heap q)" "n \<noteq> tailBlock q" by auto
  have "front (heap q ! n) = tail (heap q ! n)" using contents_Nil [OF nb(2)] nb(1) by simp
  with block_ok_localFront [OF nb(2)] have "block_ok ((heap q ! n)\<lparr>localFront := tail (heap q ! n)\<rparr>)" by simp
  note m = set_localFront [OF ring _ this]
  show ?thesis
    using knows nb fs m legal by (intro put_resultI [where us' = us and fs' = fs]) (auto simp: heap_upd)
qed

lemma put_tail:
  assumes ring: "rwq_ring q us fs" and knows: "put_knows (PutTail t') q" and take: "take_knows e d k q"
    and legal: "put_legal c (PutTail t') w r q"
  shows "put_result x (PutTail t') w r k q us"
proof -
  note d = rwq_ringD [OF ring]
  define b where "b = heap q ! tailBlock q"
  have t': "t' = (tail b + 1) AND sizeMask b" and room: "(tail b + 1) AND sizeMask b \<noteq> localFront b"
    using knows by (auto simp: b_def Let_def)
  define q' where "q' = upd (tailBlock q) (published x) q"
  have commute: "take_pending k q' = upd (tailBlock q) (published x) (take_pending k q)"
    unfolding q'_def using d(8,9) take take_front_busy [OF _ ring]
    by (intro take_pending_upd) (auto intro!: published_clear)
  have "put_respects q q'"
    unfolding q'_def using d(9) ring_block [OF ring, of "tailBlock q"] d(7) room b_def
    by (intro put_respects_published) simp_all
  moreover have "do_writes [ToTail (tailBlock q) t'] (put_pending x (PutTail t') (take_pending k q)) = take_pending k q'"
    unfolding commute using d(8,9) t' by (simp add: upd_upd) (simp add: upd_def published_def b_def)
  ultimately show ?thesis
    using publish_tail [OF ring b_def room, of x] legal
    by (intro put_resultI [where us' = us and fs' = fs]) (simp_all add: q'_def)
qed

lemma next_advance:
  assumes ring: "rwq_ring q us fs" and knows: "put_knows (NextAdvance n) q"
    and legal: "put_legal c (NextAdvance n) w r q"
  shows "put_result x (NextAdvance n) w r k q us"
proof -
  note d = rwq_ringD [OF ring]
  from ring_free [OF ring, of n] knows have n: "n < length (heap q)" "n \<noteq> frontBlock q" "n \<noteq> tailBlock q"
    by auto
  define q' where "q' = (upd n (published x) q)\<lparr>tailBlock := n\<rparr>"
  have "take_pending k (upd n (published x) q) = upd n (published x) (take_pending k q)"
    using n d(8) by (intro take_pending_upd) auto
  then have "do_writes [ToTailBlock n] (put_pending x (NextAdvance n) (take_pending k q)) = take_pending k q'"
    by (simp add: q'_def)
  moreover have "put_respects q (upd n (published x) q)"
    using ring_free [OF ring, of n] knows n succ_neq [of "heap q ! n"] by (intro put_respects_published) auto
  then have "put_respects q q'" using n by (auto simp: put_respects_def q'_def Let_def)
  moreover obtain gs where "rwq_ring q' (us @ [n]) gs"
    using publish_next(1) [OF ring, of n x] knows by (auto simp: q'_def)
  ultimately show ?thesis
    using publish_next(2) [OF ring, of n x] knows legal
    by (intro put_resultI [where us' = "us @ [n]" and fs' = gs]) (simp_all add: q'_def)
qed

lemma new_advance:
  fixes q :: "'a rwq"
  assumes ring: "rwq_ring q us fs" and knows: "put_knows (NewAdvance n) q"
    and legal: "put_legal c (NewAdvance n) w r q"
  shows "put_result x (NewAdvance n) w r k q us"
proof -
  note d = rwq_ringD [OF ring]
  have n: "n = length (heap q)" using knows by simp
  define f where "f = (\<lambda>b :: 'a block. b\<lparr>next_blk := Some n\<rparr>)"
  define q' where "q' = (upd (tailBlock q) f (with_new x q))\<lparr>tailBlock := n\<rparr>"
  have len: "length (heap (with_new x q)) = Suc (length (heap q))" "frontBlock (with_new x q) = frontBlock q"
    "a < length (heap q) \<Longrightarrow> heap (with_new x q) ! a = heap q ! a" for a
    by (simp_all add: with_new_def nth_append)
  have "take_pending k (upd (tailBlock q) f (with_new x q)) = upd (tailBlock q) f (take_pending k (with_new x q))"
    using d(8,9) len by (intro take_pending_upd) (auto simp: f_def clear_def destroy_def)
  then have "do_writes [ToTailBlock n] (put_pending x (NewAdvance n) (take_pending k q)) = take_pending k q'"
    using d(8) by (simp add: q'_def f_def take_pending_with_new)
  moreover have "put_respects q q'"
    using d(8,9) n len by (auto simp: put_respects_def q'_def heap_upd Let_def f_def)
  ultimately show ?thesis
    using publish_new [OF ring n, of x] legal
    by (intro put_resultI [where us' = "us @ [n]" and fs' = fs]) (simp_all add: q'_def f_def)
qed

lemma put_new:
  assumes ring: "rwq_ring q us fs" and legal: "put_legal (m, mem, x) PutNew w r q"
  shows "put_result x PutNew w r k q us"
proof -
  note d = rwq_ringD [OF ring]
  have "size_ok (grown_size q)" using next_size_ok [OF d(4)] by (simp only: grown_size_def)
  then have "rwq_ring (q\<lparr>largestBlockSize := grown_size q\<rparr>) us fs" using ring by (simp add: rwq_ring_def)
  with ring legal d(8) show ?thesis
    by (intro put_resultI [where us' = us and fs' = fs]) (auto simp: with_new_def grown_def split: if_splits)
qed

text \<open>Every legal step keeps the queue in order, and tells the producer what it has to know.\<close>

lemma put_legal_result:
  assumes ring: "rwq_ring q us fs" and knows: "put_knows pc q" and take: "take_knows e d k q"
    and legal: "put_legal (m, mem, x) pc w r q"
  shows "put_result x pc w r k q us"
proof (cases pc)
  case PutEnter
  with ring legal show ?thesis by (intro put_resultI [where us' = us and fs' = fs]) (auto simp: Let_def)
next
  case (PutFront t t')
  with put_front [OF ring] knows legal show ?thesis by blast
next
  case (PutCell t t')
  with ring knows legal rwq_ringD(8,9) [OF ring] show ?thesis
    by (intro put_resultI [where us' = us and fs' = fs]) (auto simp: Let_def fill_def upd_def)
next
  case (PutTail t')
  with put_tail [OF ring _ take] knows legal show ?thesis by blast
next
  case PutNext
  with ring legal show ?thesis by (intro put_resultI [where us' = us and fs' = fs]) auto
next
  case (NextFront n)
  with next_front [OF ring] knows legal show ?thesis by blast
next
  case (NextCell n t)
  with ring knows legal ring_free [OF ring, of n] rwq_ringD(8) [OF ring] show ?thesis
    by (intro put_resultI [where us' = us and fs' = fs]) (auto simp: fill_def upd_def)
next
  case (NextTail n t)
  with ring knows legal ring_free [OF ring, of n] rwq_ringD(8) [OF ring] show ?thesis
    by (intro put_resultI [where us' = us and fs' = fs]) (auto simp: upd_upd, auto simp: upd_def published_def)
next
  case (NextAdvance n)
  with next_advance [OF ring] knows legal show ?thesis by blast
next
  case PutNew
  with put_new [OF ring] legal show ?thesis by blast
next
  case (NewLink n)
  with ring knows legal show ?thesis
    by (intro put_resultI [where us' = us and fs' = fs]) auto
next
  case (NewAdvance n)
  with new_advance [OF ring] knows legal show ?thesis by blast
qed

text \<open>What the producer does is legal, when it sees the queue as it is.\<close>

lemma put_at_legal:
  fixes x :: 'a and k :: "'a take_pc"
  assumes ring: "rwq_ring q us fs" and knows: "put_knows pc q"
  defines "Q \<equiv> put_pending x pc (take_pending k q)"
  shows "\<exists>r Q'. put_at (m, mem, x) pc Q = Inr (r, Q') \<and> put_legal (m, mem, x) pc (put_write (m, mem, x) pc Q) r q"
proof -
  note d = rwq_ringD [OF ring]
  have ok: "block_ok (heap q ! tailBlock q)" using ring_block [OF ring, of "tailBlock q"] d(7) by simp
  note free = ring_free [OF ring]
  show ?thesis
  proof (cases pc)
    case PutEnter
    then show ?thesis using d(8,9) by (auto simp: Q_def deref_def Let_def)
  next
    case (PutFront t t')
    then show ?thesis using d(8,9) block_ok_localFront [OF ok] by (auto simp: Q_def deref_def Let_def)
  next
    case (PutCell t t')
    have "(tail (heap q ! tailBlock q) + 1) AND sizeMask (heap q ! tailBlock q) \<noteq> localFront (heap q ! tailBlock q)"
      using knows PutCell by (auto simp: Let_def)
    from block_publish(1) [OF ok this, of x] knows PutCell have "unat t < length (cells (heap q ! tailBlock q))"
      by (auto simp: construct_def Let_def split: if_splits)
    then show ?thesis using PutCell d(8,9) by (simp add: Q_def deref_def construct_def)
  next
    case (PutTail t')
    then show ?thesis using d(8,9) by (simp add: Q_def deref_def)
  next
    case PutNext
    obtain n where "next_blk (heap q ! tailBlock q) = Some n" using ring_next [OF d(1)] d(3) by auto
    then show ?thesis using PutNext d(8,9) by (cases m) (auto simp: Q_def deref_def follow_def)
  next
    case (NextFront n)
    with knows free [of n] have n: "n < length (heap q)" "contents (heap q ! n) = []" "block_ok (heap q ! n)" by auto
    then have "front (heap q ! n) = tail (heap q ! n)" using contents_Nil [OF n(3)] by simp
    then show ?thesis using NextFront n d(8) by (simp add: Q_def deref_def Let_def)
  next
    case (NextCell n t)
    with knows free [of n] have n: "n < length (heap q)" "block_ok (heap q ! n)" by auto
    have "construct (heap q ! n) (tail (heap q ! n)) x = Inr (fill x (heap q ! n))"
      using block_publish(1) [OF n(2)] succ_neq [OF n(2)] knows NextCell by simp
    then have "unat t < length (cells (heap q ! n))"
      using knows NextCell by (auto simp: construct_def split: if_splits)
    then show ?thesis using NextCell n d(8) by (simp add: Q_def deref_def construct_def)
  next
    case (NextTail n t)
    with knows free [of n] have "n < length (heap q)" by auto
    then show ?thesis using NextTail d(8) by (simp add: Q_def deref_def heap_upd)
  next
    case (NextAdvance n)
    then show ?thesis by simp
  next
    case PutNew
    have "size_ok (grown_size q)" using next_size_ok [OF d(4)] by (simp only: grown_size_def)
    then have f: "filled_block (grown_size q) x (next_blk (heap q ! tailBlock q)) =
        Inr (grown x (q\<lparr>largestBlockSize := grown_size q\<rparr>))"
      using grown_ok(1) [of "q\<lparr>largestBlockSize := grown_size q\<rparr>" x] by simp
    then show ?thesis using PutNew d(8,9)
      by (cases "MAX_BLOCK_SIZE \<le> largestBlockSize q") (auto simp: Q_def deref_def Let_def grown_size_def)
  next
    case (NewLink n)
    then show ?thesis using d(8,9) by (simp add: Q_def deref_def with_new_def)
  next
    case (NewAdvance n)
    then show ?thesis by simp
  qed
qed

subsection \<open>A step of the consumer\<close>

text \<open>What the producer can rely on when the consumer makes a step.\<close>

definition take_respects :: "'a rwq \<Rightarrow> 'a rwq \<Rightarrow> bool" where
  "take_respects q q' \<longleftrightarrow> tailBlock q' = tailBlock q \<and> length (heap q') = length (heap q) \<and>
     largestBlockSize q' = largestBlockSize q \<and>
     (\<forall>a < length (heap q). let b = heap q ! a; b' = heap q' ! a in
       tail b' = tail b \<and> localFront b' = localFront b \<and> sizeMask b' = sizeMask b \<and> next_blk b' = next_blk b \<and>
       (\<forall>v. block_ok (b\<lparr>localFront := v\<rparr>) \<longrightarrow> block_ok (b'\<lparr>localFront := v\<rparr>))) \<and>
     (\<forall>n. next_blk (heap q ! tailBlock q) = Some n \<and> n \<noteq> frontBlock q \<longrightarrow> n \<noteq> frontBlock q')"

lemma take_respects_refl [simp]: "take_respects q q"
  by (simp add: take_respects_def Let_def)

lemma take_respects_upd:
  "a < length (heap q) \<Longrightarrow> tail (f (heap q ! a)) = tail (heap q ! a) \<Longrightarrow>
   localFront (f (heap q ! a)) = localFront (heap q ! a) \<Longrightarrow> sizeMask (f (heap q ! a)) = sizeMask (heap q ! a) \<Longrightarrow>
   next_blk (f (heap q ! a)) = next_blk (heap q ! a) \<Longrightarrow>
   (\<And>v. block_ok ((heap q ! a)\<lparr>localFront := v\<rparr>) \<Longrightarrow> block_ok ((f (heap q ! a))\<lparr>localFront := v\<rparr>)) \<Longrightarrow>
   take_respects q (upd a f q)"
  by (simp add: take_respects_def Let_def heap_upd)

lemma put_knows_kept:
  assumes knows: "put_knows pc q" and keeps: "take_respects q q'" and ring: "rwq_ring q us fs"
  shows "put_knows pc q'"
proof -
  note r = rwq_ringD [OF ring]
  have n: "n < length (heap q)" if "next_blk (heap q ! tailBlock q) = Some n" "n \<noteq> frontBlock q" for n
    using ring_free [OF ring that] by blast
  show ?thesis
    using knows keeps r(9) n by (cases pc) (auto simp: take_respects_def Let_def)
qed

lemma with_new_simps [simp]:
  "frontBlock (with_new x q) = frontBlock q" "tailBlock (with_new x q) = tailBlock q"
  "with_new x (q\<lparr>frontBlock := n\<rparr>) = (with_new x q)\<lparr>frontBlock := n\<rparr>"
  by (simp_all add: with_new_def grown_def)

lemma put_pending_simps [simp]:
  "frontBlock (put_pending x p q) = frontBlock q" "tailBlock (put_pending x p q) = tailBlock q"
  by (cases p; simp)+

lemma put_pending_frontBlock [simp]:
  "put_pending x p (q\<lparr>frontBlock := n\<rparr>) = (put_pending x p q)\<lparr>frontBlock := n\<rparr>"
  by (cases p) simp_all

text \<open>The consumer sees the blocks in use as they were, but for the cell at \<open>tail\<close> and the last link.\<close>

lemma put_pending_read:
  fixes q :: "'a rwq" and x :: 'a
  assumes ring: "rwq_ring q us fs" and knows: "put_knows p q" and a: "a \<in> set us"
  defines "b \<equiv> heap q ! a" and "b' \<equiv> heap (put_pending x p q) ! a"
  shows "deref (put_pending x p q) a = Inr b'"
    "front b' = front b" "tail b' = tail b" "localTail b' = localTail b" "sizeMask b' = sizeMask b"
    "length (cells b') = length (cells b)"
    "a \<noteq> tailBlock q \<Longrightarrow> next_blk b' = next_blk b"
    "front b \<noteq> tail b \<Longrightarrow> cells b' ! unat (front b) = cells b ! unat (front b)"
proof -
  note r = rwq_ringD [OF ring]
  have len: "a < length (heap q)" using ring_block(2) [OF ring] a by blast
  have len': "length (heap q) \<le> length (heap (put_pending x p q))" by (cases p) (simp_all add: with_new_def)
  have nf: "n < length (heap q) \<and> n \<noteq> a" if "next_blk (heap q ! tailBlock q) = Some n" "n \<noteq> frontBlock q" for n
    using ring_free [OF ring that] a by auto
  have "b' = b \<or> a = tailBlock q \<and> (b' = fill x b \<or> (\<exists>n. b' = b\<lparr>next_blk := n\<rparr>))"
    using knows nf len r(9)
    by (cases p) (auto simp: b_def b'_def heap_upd with_new_def nth_append)
  then show "front b' = front b" "tail b' = tail b" "localTail b' = localTail b" "sizeMask b' = sizeMask b"
    "length (cells b') = length (cells b)"
    "a \<noteq> tailBlock q \<Longrightarrow> next_blk b' = next_blk b"
    "front b \<noteq> tail b \<Longrightarrow> cells b' ! unat (front b) = cells b ! unat (front b)"
    by (auto simp: fill_def word_unat_eq_iff)
  show "deref (put_pending x p q) a = Inr b'" using len len' by (simp add: deref_def b'_def)
qed

lemma put_pending_upd:
  assumes ring: "rwq_ring q us fs" and knows: "put_knows p q" and a: "a \<in> set us"
    and f: "tail (f (heap q ! a)) = tail (heap q ! a)" "sizeMask (f (heap q ! a)) = sizeMask (heap q ! a)"
      "next_blk (f (heap q ! a)) = next_blk (heap q ! a)"
      "a = tailBlock q \<Longrightarrow> fill x (f (heap q ! a)) = f (fill x (heap q ! a))"
      "\<And>n. f ((heap q ! a)\<lparr>next_blk := Some n\<rparr>) = (f (heap q ! a))\<lparr>next_blk := Some n\<rparr>"
  shows "put_pending x p (upd a f q) = upd a f (put_pending x p q)"
proof -
  note r = rwq_ringD [OF ring]
  have len: "a < length (heap q)" using ring_block(2) [OF ring] a by blast
  have nf: "n < length (heap q) \<and> n \<noteq> a" if "next_blk (heap q ! tailBlock q) = Some n" "n \<noteq> frontBlock q" for n
    using ring_free [OF ring that] a by auto
  have grown: "grown x (upd a f q) = grown x q"
    using f(3) len by (simp add: grown_def heap_upd)
  have new: "with_new x (upd a f q) = upd a f (with_new x q)"
    unfolding with_new_def grown using len by (simp add: upd_append)
  have new': "upd (tailBlock q) (\<lambda>b. b\<lparr>next_blk := Some n\<rparr>) (with_new x (upd a f q)) =
      upd a f (upd (tailBlock q) (\<lambda>b. b\<lparr>next_blk := Some n\<rparr>) (with_new x q))" for n
    unfolding new using len r(9) f(5)
    by (intro upd_commute) (auto simp: with_new_def nth_append)
  show ?thesis
    using knows nf len r(9) f(4) new new'
    by (cases p) (auto intro!: upd_commute)
qed

lemma ring_ahead:
  assumes ring: "rwq_ring q us fs" and more: "frontBlock q \<noteq> tailBlock q"
  shows "\<exists>n vs. us = frontBlock q # n # vs \<and> next_blk (heap q ! frontBlock q) = Some n \<and>
    block_ok (heap q ! n) \<and> contents (heap q ! n) \<noteq> [] \<and> front (heap q ! n) \<noteq> tail (heap q ! n) \<and>
    n < length (heap q)"
proof -
  note r = rwq_ringD [OF ring]
  from r(2,3,5) more obtain n vs where us: "us = frontBlock q # n # vs"
    by (metis hd_Cons_tl last.simps list.exhaust)
  have "contents (heap q ! n) \<noteq> []" using r(1) us by (simp add: ring_ok_def)
  moreover have "block_ok (heap q ! n)" "n < length (heap q)" using ring_block [OF ring, of n] us by simp_all
  ultimately show ?thesis
    using us ring_next_front [of "heap q" "frontBlock q" n vs fs] r(1) contents_Nil [of "heap q ! n"] by auto
qed

lemma chain_front:
  assumes ring: "rwq_ring q us fs" and ne: "front (heap q ! frontBlock q) \<noteq> tail (heap q ! frontBlock q)"
  shows "\<exists>y ys. chain (heap q) us = y # ys \<and>
    cells (heap q ! frontBlock q) ! unat (front (heap q ! frontBlock q)) = Some y \<and>
    unat (front (heap q ! frontBlock q)) < length (cells (heap q ! frontBlock q))"
proof -
  note r = rwq_ringD [OF ring]
  define b where "b = heap q ! frontBlock q"
  obtain vs where us: "us = frontBlock q # vs" using r(2,5) by (cases us) auto
  have ok: "block_ok b" using ring_block [OF ring, of "frontBlock q"] r(6) by (simp add: b_def)
  have "block_ok (b\<lparr>localTail := tail b\<rparr>)" by (rule block_ok_localTail [OF ok])
  from block_dequeue [OF this] ne obtain y where
    "read_cell (b\<lparr>localTail := tail b\<rparr>) (front b) = Inr y" "\<exists>ys. contents b = y # ys"
    by (auto simp: b_def)
  then show ?thesis using us by (auto simp: read_cell_def b_def split: if_splits option.splits)
qed

text \<open>Taking an element.\<close>

definition dropped :: "'a block \<Rightarrow> 'a block" where
  "dropped b = (clear b)\<lparr>front := (front b + 1) AND sizeMask b\<rparr>"

lemma dropped_fields [simp]:
  "tail (dropped b) = tail b" "localFront (dropped b) = localFront b" "sizeMask (dropped b) = sizeMask b"
  "next_blk (dropped b) = next_blk b"
  by (simp_all add: dropped_def)

lemma drop_front:
  assumes ring: "rwq_ring q us fs" and ne: "front (heap q ! frontBlock q) \<noteq> localTail (heap q ! frontBlock q)"
  shows "rwq_ring (upd (frontBlock q) dropped q) us fs"
    "chain (heap q) us = the (cells (heap q ! frontBlock q) ! unat (front (heap q ! frontBlock q))) #
       chain (heap (upd (frontBlock q) dropped q)) us"
proof -
  note r = rwq_ringD [OF ring]
  define b where "b = heap q ! frontBlock q"
  have ok: "block_ok b" using ring_block [OF ring, of "frontBlock q"] r(6) by (simp add: b_def)
  from block_dequeue [OF ok] ne obtain y where y: "read_cell b (front b) = Inr y"
    "contents b = y # contents (dropped b)" "block_ok (dropped b)"
    by (auto simp: b_def dropped_def clear_def)
  obtain vs where us: "us = frontBlock q # vs" using r(2,5) by (cases us) auto
  moreover have "distinct (us @ fs)" using r(1) by (simp add: ring_ok_def)
  ultimately have notin: "frontBlock q \<notin> set vs" "frontBlock q \<notin> set fs" by auto
  have "ring_ok ((heap q)[frontBlock q := dropped b]) us fs"
    using r(1,6) y(3) notin us by (intro ring_ok_set) (auto simp: b_def)
  with r b_def show "rwq_ring (upd (frontBlock q) dropped q) us fs" by (simp add: rwq_ring_def upd_def)
  show "chain (heap q) us = the (cells (heap q ! frontBlock q) ! unat (front (heap q ! frontBlock q))) #
       chain (heap (upd (frontBlock q) dropped q)) us"
    using y(1,2) us notin r(8) by (auto simp: upd_def b_def read_cell_def split: if_splits option.splits)
qed

text \<open>
  The steps a consumer may take on the queue \<open>q\<close>. It may see an older \<open>tail\<close>, and find no element
  where one has come in since. \<open>e\<close> tells that the queue was empty when the operation began.
\<close>

fun take_legal :: "bool \<Rightarrow> take_call \<Rightarrow> 'a take_pc \<Rightarrow> 'a put_to list \<Rightarrow> ('a take_pc + 'a option) \<Rightarrow> 'a rwq \<Rightarrow> bool" where
  "take_legal e c TakeEnter w r q \<longleftrightarrow> (let b = heap q ! frontBlock q in
     w = [] \<and> r = Inl (if front b \<noteq> localTail b then TakeCell (front b) else TakeTail))"
| "take_legal e c TakeTail w r q \<longleftrightarrow> (let b = heap q ! frontBlock q in
     \<exists>v. w = [ToLocalTail (frontBlock q) v] \<and> block_ok (b\<lparr>localTail := v\<rparr>) \<and>
       (if front b \<noteq> v then r = Inl (TakeCell (front b))
        else r = Inl TakeBlock \<and> (frontBlock q = tailBlock q \<longrightarrow> e)))"
| "take_legal e c TakeBlock w r q \<longleftrightarrow> w = [] \<and>
     (r = Inl TakeAgain \<and> frontBlock q \<noteq> tailBlock q \<or> r = Inr None \<and> e)"
| "take_legal e c TakeAgain w r q \<longleftrightarrow> (let b = heap q ! frontBlock q in
     w = [ToLocalTail (frontBlock q) (tail b)] \<and>
     r = Inl (if front b \<noteq> tail b then TakeCell (front b) else AheadNext))"
| "take_legal e c AheadNext w r q \<longleftrightarrow> w = [] \<and>
     (\<exists>n. next_blk (heap q ! frontBlock q) = Some n \<and> r = Inl (AheadTail n))"
| "take_legal e c (AheadTail n) w r q \<longleftrightarrow>
     (if c = PeekCall then w = [] \<and> r = Inl (AheadPeek n)
      else \<exists>v. w = [ToLocalTail n v] \<and> block_ok ((heap q ! n)\<lparr>localTail := v\<rparr>) \<and> front (heap q ! n) \<noteq> v \<and>
        r = Inl (AheadBlock n))"
| "take_legal e c (AheadBlock n) w r q \<longleftrightarrow>
     w = [ToFrontBlock n] \<and> r = Inl (TakeCell (front (heap q ! n)))"
| "take_legal e c (AheadPeek n) w r q \<longleftrightarrow> c = PeekCall \<and> w = [] \<and>
     (\<exists>y. cells (heap q ! n) ! unat (front (heap q ! n)) = Some y \<and> r = Inr (Some y))"
| "take_legal e c (TakeCell f) w r q \<longleftrightarrow>
     (\<exists>y. cells (heap q ! frontBlock q) ! unat f = Some y \<and>
       (if c = PeekCall then w = [] \<and> r = Inr (Some y)
        else w = [ToCell (frontBlock q) f None] \<and> r = Inl (TakeFront f y)))"
| "take_legal e c (TakeFront f y) w r q \<longleftrightarrow>
     w = [ToFront (frontBlock q) ((f + 1) AND sizeMask (heap q ! frontBlock q))] \<and> r = Inr (Some y)"

fun take_shift :: "'a take_pc \<Rightarrow> 'a put_to list \<Rightarrow> 'a rwq \<Rightarrow> 'a rwq" where
  "take_shift (TakeCell f) w q = q"
| "take_shift (TakeFront f y) w q = upd (frontBlock q) dropped q"
| "take_shift k w q = do_writes w q"

definition take_result ::
  "bool \<Rightarrow> take_call \<Rightarrow> 'a take_pc \<Rightarrow> 'a put_to list \<Rightarrow> ('a take_pc + 'a option) \<Rightarrow> 'a \<Rightarrow> put_pc \<Rightarrow>
   'a rwq \<Rightarrow> nat list \<Rightarrow> bool" where
  "take_result e c k w r x p q us \<longleftrightarrow> (let q' = take_shift k w q in
     do_writes w (put_pending x p (take_pending k q)) =
       put_pending x p ((case r of Inl k' \<Rightarrow> take_pending k' | Inr _ \<Rightarrow> id) q') \<and>
     (\<exists>us' fs'. rwq_ring q' us' fs' \<and>
       chain (heap q) us = (case r of Inr (Some y) \<Rightarrow> if c = PeekCall then [] else [y] | _ \<Rightarrow> []) @ chain (heap q') us') \<and>
     (case r of Inl k' \<Rightarrow> take_knows e c k' q' | Inr None \<Rightarrow> e
      | Inr (Some y) \<Rightarrow> \<exists>ys. chain (heap q) us = y # ys) \<and>
     take_respects q q')"

lemma take_resultI:
  "do_writes w (put_pending x p (take_pending k q)) =
     put_pending x p ((case r of Inl k' \<Rightarrow> take_pending k' | Inr _ \<Rightarrow> id) (take_shift k w q)) \<Longrightarrow>
   rwq_ring (take_shift k w q) us' fs' \<Longrightarrow>
   chain (heap q) us = (case r of Inr (Some y) \<Rightarrow> if c = PeekCall then [] else [y] | _ \<Rightarrow> []) @
     chain (heap (take_shift k w q)) us' \<Longrightarrow>
   case r of Inl k' \<Rightarrow> take_knows e c k' (take_shift k w q) | Inr None \<Rightarrow> e
     | Inr (Some y) \<Rightarrow> \<exists>ys. chain (heap q) us = y # ys \<Longrightarrow>
   take_respects q (take_shift k w q) \<Longrightarrow> take_result e c k w r x p q us"
  unfolding take_result_def Let_def by blast

text \<open>Taking over a value of \<open>tail\<close>, in a block in use.\<close>

lemma set_localTail:
  assumes ring: "rwq_ring q us fs" and knows: "put_knows p q" and a: "a \<in> set us"
    and ok: "block_ok ((heap q ! a)\<lparr>localTail := v\<rparr>)"
  defines "f \<equiv> \<lambda>b :: 'a block. b\<lparr>localTail := v\<rparr>"
  shows "put_pending x p (upd a f q) = upd a f (put_pending x p q)"
    "rwq_ring (upd a f q) us fs" "chain (heap (upd a f q)) us = chain (heap q) us" "take_respects q (upd a f q)"
proof -
  have len: "a < length (heap q)" using ring_block(2) [OF ring, of a] a by blast
  show "put_pending x p (upd a f q) = upd a f (put_pending x p q)"
    by (rule put_pending_upd [OF ring knows a]) (simp_all add: f_def fill_def)
  show "rwq_ring (upd a f q) us fs" "chain (heap (upd a f q)) us = chain (heap q) us"
    using upd_ring [OF ring, of a f] a ok by (simp_all add: f_def)
  have "block_ok (b\<lparr>localFront := w\<rparr>) \<Longrightarrow> block_ok (b\<lparr>localTail := v\<rparr>) \<Longrightarrow> block_ok (b\<lparr>localTail := v, localFront := w\<rparr>)"
    for b :: "'a block" and w
    using block_ok_both [where b = b and v = w and w = v] by (cases b) simp
  then show "take_respects q (upd a f q)" using len ok by (intro take_respects_upd) (simp_all add: f_def)
qed

lemma dropped_respects:
  assumes "a < length (heap q)" "front (heap q ! a) \<noteq> localTail (heap q ! a)"
  shows "take_respects q (upd a dropped q)"
proof (rule take_respects_upd)
  fix v assume ok: "block_ok ((heap q ! a)\<lparr>localFront := v\<rparr>)"
  have "(dropped (heap q ! a))\<lparr>localFront := v\<rparr> = dropped ((heap q ! a)\<lparr>localFront := v\<rparr>)"
    by (simp add: dropped_def clear_def destroy_def)
  with block_dequeue [OF ok] assms(2) show "block_ok ((dropped (heap q ! a))\<lparr>localFront := v\<rparr>)"
    by (auto simp: dropped_def clear_def)
qed (use assms(1) in simp_all)

lemma take_tail:
  assumes ring: "rwq_ring q us fs" and knows: "put_knows p q" and legal: "take_legal e c TakeTail w r q"
  shows "take_result e c TakeTail w r x p q us"
proof -
  note d = rwq_ringD [OF ring]
  define b where "b = heap q ! frontBlock q"
  from legal obtain v where v: "w = [ToLocalTail (frontBlock q) v]" "block_ok (b\<lparr>localTail := v\<rparr>)"
    "if front b \<noteq> v then r = Inl (TakeCell (front b)) else r = Inl TakeBlock \<and> (frontBlock q = tailBlock q \<longrightarrow> e)"
    unfolding b_def take_legal.simps Let_def by blast
  note m = set_localTail [OF ring knows d(6), of v, folded b_def, OF v(2)]
  show ?thesis
    using d(8) m v by (intro take_resultI [where us' = us and fs' = fs]) (auto simp: heap_upd b_def Let_def split: if_splits)
qed

lemma take_again:
  assumes ring: "rwq_ring q us fs" and knows: "put_knows p q" and take: "take_knows e c TakeAgain q"
    and legal: "take_legal e c TakeAgain w r q"
  shows "take_result e c TakeAgain w r x p q us"
proof -
  note d = rwq_ringD [OF ring]
  have "block_ok (heap q ! frontBlock q)" using ring_block [OF ring, of "frontBlock q"] d(6) by simp
  note m = set_localTail [OF ring knows d(6) block_ok_localTail [OF this]]
  show ?thesis
    using d(8) m legal take
    by (intro take_resultI [where us' = us and fs' = fs]) (auto simp: heap_upd Let_def)
qed

lemma ahead_tail:
  assumes ring: "rwq_ring q us fs" and knows: "put_knows p q" and take: "take_knows e c (AheadTail n) q"
    and legal: "take_legal e c (AheadTail n) w r q"
  shows "take_result e c (AheadTail n) w r x p q us"
proof -
  note d = rwq_ringD [OF ring]
  from take have more: "frontBlock q \<noteq> tailBlock q" by simp
  from ring_ahead [OF ring this] take have n: "n \<in> set us" "n < length (heap q)" "n \<noteq> frontBlock q"
    using d(1) by (auto simp: Let_def ring_ok_def)
  show ?thesis
  proof (cases "c = PeekCall")
    case True
    with ring take legal show ?thesis
      by (intro take_resultI [where us' = us and fs' = fs]) (auto simp: Let_def)
  next
    case False
    with legal obtain v where v: "w = [ToLocalTail n v]" "block_ok ((heap q ! n)\<lparr>localTail := v\<rparr>)"
      "front (heap q ! n) \<noteq> v" "r = Inl (AheadBlock n)" by auto
    note m = set_localTail [OF ring knows n(1) v(2)]
    show ?thesis
      using n m v take False by (intro take_resultI [where us' = us and fs' = fs]) (auto simp: heap_upd Let_def)
  qed
qed

lemma ahead_block:
  assumes ring: "rwq_ring q us fs" and take: "take_knows e c (AheadBlock n) q"
    and legal: "take_legal e c (AheadBlock n) w r q"
  shows "take_result e c (AheadBlock n) w r x p q us"
proof -
  note d = rwq_ringD [OF ring]
  define q' where "q' = q\<lparr>frontBlock := n\<rparr>"
  from take have more: "frontBlock q \<noteq> tailBlock q"
    and empty: "front (heap q ! frontBlock q) = tail (heap q ! frontBlock q)" by (auto simp: Let_def)
  from ring_ahead [OF ring more] take obtain vs where us: "us = frontBlock q # n # vs"
    by (auto simp: Let_def)
  have "block_ok (heap q ! frontBlock q)" using ring_block [OF ring, of "frontBlock q"] d(6) by simp
  then have nil: "contents (heap q ! frontBlock q) = []" using empty by (simp add: contents_Nil)
  have ring': "rwq_ring q' (n # vs) (fs @ [frontBlock q])"
    using d ring_ok_release [of "heap q" "frontBlock q" n vs fs] nil us by (auto simp: rwq_ring_def q'_def)
  have "take_respects q q'"
  proof -
    have "m \<noteq> n" if m: "next_blk (heap q ! tailBlock q) = Some m" "m \<noteq> frontBlock q" for m
      using ring_free [OF ring m] us by auto
    then show ?thesis by (simp add: take_respects_def q'_def Let_def)
  qed
  with ring' take legal nil us show ?thesis
    by (intro take_resultI [where us' = "n # vs" and fs' = "fs @ [frontBlock q]"]) (auto simp: q'_def Let_def)
qed

lemma ahead_peek:
  assumes ring: "rwq_ring q us fs" and take: "take_knows e c (AheadPeek n) q"
    and legal: "take_legal e c (AheadPeek n) w r q"
  shows "take_result e c (AheadPeek n) w r x p q us"
proof -
  note d = rwq_ringD [OF ring]
  from take have more: "frontBlock q \<noteq> tailBlock q" and c: "c = PeekCall"
    and empty: "front (heap q ! frontBlock q) = tail (heap q ! frontBlock q)" by (auto simp: Let_def)
  from ring_ahead [OF ring more] take obtain vs where us: "us = frontBlock q # n # vs"
    and n: "block_ok (heap q ! n)" "front (heap q ! n) \<noteq> tail (heap q ! n)"
    by (auto simp: Let_def)
  have "block_ok (heap q ! frontBlock q)" using ring_block [OF ring, of "frontBlock q"] d(6) by simp
  then have nil: "contents (heap q ! frontBlock q) = []" using empty by (simp add: contents_Nil)
  have ring': "rwq_ring (q\<lparr>frontBlock := n\<rparr>) (n # vs) (fs @ [frontBlock q])"
    using d ring_ok_release [of "heap q" "frontBlock q" n vs fs] nil us by (auto simp: rwq_ring_def)
  from chain_front [OF ring'] n nil us obtain y ys where y: "chain (heap q) us = y # ys"
    "cells (heap q ! n) ! unat (front (heap q ! n)) = Some y" by auto
  with ring c legal show ?thesis by (intro take_resultI [where us' = us and fs' = fs]) auto
qed

lemma take_cell:
  assumes ring: "rwq_ring q us fs" and knows: "put_knows p q" and take: "take_knows e c (TakeCell g) q"
    and legal: "take_legal e c (TakeCell g) w r q"
  shows "take_result e c (TakeCell g) w r x p q us"
proof -
  note d = rwq_ringD [OF ring]
  note see = put_pending_read [OF ring knows d(6), of x]
  define b where "b = heap q ! frontBlock q"
  have ok: "block_ok b" using ring_block [OF ring, of "frontBlock q"] d(6) by (simp add: b_def)
  have g: "g = front b" "front b \<noteq> localTail b" using take by (auto simp: b_def Let_def)
  note ne = block_front_tail [OF ok g(2)]
  from chain_front [OF ring] ne obtain y ys where y: "chain (heap q) us = y # ys"
    "cells b ! unat (front b) = Some y" by (auto simp: b_def)
  show ?thesis
  proof (cases "c = PeekCall")
    case True
    with ring y g legal show ?thesis by (intro take_resultI [where us' = us and fs' = fs]) (auto simp: b_def)
  next
    case False
    have "put_pending x p (upd (frontBlock q) clear q) = upd (frontBlock q) clear (put_pending x p q)"
      by (rule put_pending_upd [OF ring knows d(6)])
        (use ne in \<open>auto simp: fill_clear b_def\<close>, auto simp: clear_def destroy_def)
    also have "\<dots> = do_writes [ToCell (frontBlock q) g None] (put_pending x p q)"
      using see(2) g by (simp add: upd_def clear_def destroy_def b_def)
    finally show ?thesis
      using ring y g legal take False
      by (intro take_resultI [where us' = us and fs' = fs]) (auto simp: b_def Let_def)
  qed
qed

lemma take_front:
  assumes ring: "rwq_ring q us fs" and knows: "put_knows p q" and take: "take_knows e c (TakeFront g y) q"
    and legal: "take_legal e c (TakeFront g y) w r q"
  shows "take_result e c (TakeFront g y) w r x p q us"
proof -
  note d = rwq_ringD [OF ring]
  note see = put_pending_read [OF ring knows d(6), of x]
  define b where "b = heap q ! frontBlock q"
  define P where "P = put_pending x p q"
  have ok: "block_ok b" using ring_block [OF ring, of "frontBlock q"] d(6) by (simp add: b_def)
  have g: "g = front b" "front b \<noteq> localTail b" "cells b ! unat (front b) = Some y" "c \<noteq> PeekCall"
    using take by (auto simp: b_def Let_def)
  note ne = block_front_tail [OF ok g(2)]
  have len: "frontBlock q < length (heap P)"
    using see(1) by (auto simp: deref_def P_def split: if_splits)
  have clear: "put_pending x p (upd (frontBlock q) clear q) = upd (frontBlock q) clear P"
    unfolding P_def by (rule put_pending_upd [OF ring knows d(6)])
      (use ne in \<open>auto simp: fill_clear b_def\<close>, auto simp: clear_def destroy_def)
  have dropped: "put_pending x p (upd (frontBlock q) dropped q) = upd (frontBlock q) dropped P"
    unfolding P_def by (rule put_pending_upd [OF ring knows d(6)])
      (use ne in \<open>auto simp: b_def dropped_def clear_def destroy_def fill_def list_update_swap word_unat_eq_iff\<close>)
  have "do_writes [ToFront (frontBlock q) ((g + 1) AND sizeMask b)]
      (put_pending x p (take_pending (TakeFront g y) q)) = put_pending x p (upd (frontBlock q) dropped q)"
    unfolding dropped take_pending.simps clear
    using len see(2,5) g by (simp add: upd_upd) (simp add: upd_def dropped_def P_def b_def)
  then show ?thesis
    using drop_front [OF ring] g dropped_respects [of "frontBlock q" q] d(8) legal
    by (intro take_resultI [where us' = us and fs' = fs]) (auto simp: b_def)
qed

lemma take_legal_result:
  assumes ring: "rwq_ring q us fs" and knows: "put_knows p q" and take: "take_knows e c k q"
    and legal: "take_legal e c k w r q"
  shows "take_result e c k w r x p q us"
proof (cases k)
  case TakeEnter
  with ring legal show ?thesis by (intro take_resultI [where us' = us and fs' = fs]) (auto simp: Let_def)
next
  case TakeTail
  with take_tail [OF ring knows] legal show ?thesis by blast
next
  case TakeBlock
  with ring legal show ?thesis by (intro take_resultI [where us' = us and fs' = fs]) auto
next
  case TakeAgain
  with take_again [OF ring knows] take legal show ?thesis by blast
next
  case AheadNext
  with ring take legal show ?thesis by (intro take_resultI [where us' = us and fs' = fs]) (auto simp: Let_def)
next
  case (AheadTail n)
  with ahead_tail [OF ring knows] take legal show ?thesis by blast
next
  case (AheadBlock n)
  with ahead_block [OF ring] take legal show ?thesis by blast
next
  case (AheadPeek n)
  with ahead_peek [OF ring] take legal show ?thesis by blast
next
  case (TakeCell g)
  with take_cell [OF ring knows] take legal show ?thesis by blast
next
  case (TakeFront g y)
  with take_front [OF ring knows] take legal show ?thesis by blast
qed

text \<open>What the consumer does is legal, when it sees the queue as it is.\<close>

lemma single_block:
  assumes ring: "rwq_ring q us fs" and last: "frontBlock q = tailBlock q"
    and empty: "front (heap q ! frontBlock q) = tail (heap q ! frontBlock q)"
  shows "chain (heap q) us = []"
proof -
  note d = rwq_ringD [OF ring]
  have "block_ok (heap q ! frontBlock q)" using ring_block [OF ring, of "frontBlock q"] d(6) by simp
  then have "contents (heap q ! frontBlock q) = []" using empty by (simp add: contents_Nil)
  moreover have "us = [frontBlock q]"
  proof -
    have "distinct us" using d(1) by (simp add: ring_ok_def)
    with d(2,3,5) last show ?thesis by (cases us) (auto split: if_splits, metis last_in_set)
  qed
  ultimately show ?thesis by simp
qed

lemma take_at_legal:
  fixes x :: 'a
  assumes ring: "rwq_ring q us fs" and knows: "put_knows p q" and take: "take_knows e c k q"
    and e: "chain (heap q) us = [] \<Longrightarrow> e"
  defines "Q \<equiv> put_pending x p (take_pending k q)"
  shows "\<exists>r Q'. take_at c k Q = Inr (r, Q') \<and> take_legal e c k (take_write c k Q) r q"
proof -
  note d = rwq_ringD [OF ring]
  define b where "b = heap q ! frontBlock q"
  have ok: "block_ok b" using ring_block [OF ring, of "frontBlock q"] d(6) by (simp add: b_def)
  note see = put_pending_read [OF ring knows d(6), of x, folded b_def]
  have fb: "frontBlock Q = frontBlock q" "tailBlock Q = tailBlock q" by (simp_all add: Q_def)
  show ?thesis
  proof (cases k)
    case TakeEnter
    then show ?thesis using see by (simp add: Q_def Let_def b_def)
  next
    case TakeTail
    have "front b = tail b \<Longrightarrow> frontBlock q = tailBlock q \<Longrightarrow> e"
      using e single_block [OF ring] by (simp add: b_def)
    with TakeTail see block_ok_localTail [OF ok] show ?thesis by (auto simp: Q_def Let_def b_def)
  next
    case TakeBlock
    then show ?thesis using take by (simp add: Q_def)
  next
    case TakeAgain
    then show ?thesis using see by (simp add: Q_def Let_def b_def)
  next
    case AheadNext
    with take have more: "frontBlock q \<noteq> tailBlock q" by simp
    from ring_ahead [OF ring this] obtain n where "next_blk b = Some n" by (auto simp: b_def)
    with AheadNext see more show ?thesis by (simp add: Q_def follow_def b_def)
  next
    case (AheadTail n)
    with take have more: "frontBlock q \<noteq> tailBlock q" by simp
    from ring_ahead [OF ring this] take AheadTail have n: "n \<in> set us" "front (heap q ! n) \<noteq> tail (heap q ! n)"
      "block_ok (heap q ! n)" by (auto simp: Let_def)
    with AheadTail put_pending_read [OF ring knows n(1), of x] block_ok_localTail [OF n(3)] show ?thesis
      by (auto simp: Q_def Let_def)
  next
    case (AheadBlock n)
    with take have more: "frontBlock q \<noteq> tailBlock q" by simp
    from ring_ahead [OF ring this] take AheadBlock have n: "n \<in> set us" by (auto simp: Let_def)
    with AheadBlock put_pending_read [OF ring knows n, of x] show ?thesis by (simp add: Q_def)
  next
    case (AheadPeek n)
    with take have more: "frontBlock q \<noteq> tailBlock q" "c = PeekCall"
      and empty: "front (heap q ! frontBlock q) = tail (heap q ! frontBlock q)" by (auto simp: Let_def)
    from ring_ahead [OF ring more(1)] take AheadPeek obtain vs where us: "us = frontBlock q # n # vs"
      and n: "front (heap q ! n) \<noteq> tail (heap q ! n)" by (auto simp: Let_def)
    have nil: "contents b = []" using empty ok by (simp add: contents_Nil b_def)
    have ring': "rwq_ring (q\<lparr>frontBlock := n\<rparr>) (n # vs) (fs @ [frontBlock q])"
      using d ring_ok_release [of "heap q" "frontBlock q" n vs fs] nil us by (auto simp: rwq_ring_def b_def)
    from chain_front [OF ring'] n obtain y where "cells (heap q ! n) ! unat (front (heap q ! n)) = Some y"
      "unat (front (heap q ! n)) < length (cells (heap q ! n))" by auto
    moreover have "n \<in> set us" using us by simp
    ultimately show ?thesis
      using AheadPeek n more(2) put_pending_read [OF ring knows, of n x] by (simp add: Q_def read_cell_def)
  next
    case (TakeCell g)
    with take have g: "g = front b" "front b \<noteq> localTail b" by (auto simp: b_def Let_def)
    note ne = block_front_tail [OF ok g(2)]
    from chain_front [OF ring] ne obtain y where "cells b ! unat (front b) = Some y"
      "unat (front b) < length (cells b)" by (auto simp: b_def)
    with TakeCell see g ne show ?thesis by (auto simp: Q_def read_cell_def b_def)
  next
    case (TakeFront g y)
    with take have g: "g = front b" "front b \<noteq> localTail b" by (auto simp: b_def Let_def)
    note ne = block_front_tail [OF ok g(2)]
    have "put_pending x p (upd (frontBlock q) clear q) = upd (frontBlock q) clear (put_pending x p q)"
      by (rule put_pending_upd [OF ring knows d(6)])
        (use ne in \<open>auto simp: fill_clear b_def\<close>, auto simp: clear_def destroy_def)
    with TakeFront see show ?thesis by (simp add: Q_def deref_def heap_upd b_def split: if_splits)
  qed
qed

subsection \<open>Legal steps stay legal\<close>

text \<open>A step of one thread does not get in the way of a step of the other.\<close>

lemma put_legal_kept:
  assumes legal: "put_legal (m, mem, x) pc w r q" and knows: "put_knows pc q" and ring: "rwq_ring q us fs"
    and keeps: "take_respects q q'"
  shows "put_legal (m, mem, x) pc w r q'"
proof -
  note d = rwq_ringD [OF ring]
  have n: "n < length (heap q)" if "next_blk (heap q ! tailBlock q) = Some n" "n \<noteq> frontBlock q" for n
    using ring_free [OF ring that] by blast
  show "put_legal (m, mem, x) pc w r q'"
    using legal keeps knows d(9) n
    by (cases pc) (auto simp: take_respects_def Let_def grown_size_def grown_def split: if_splits)
qed

lemma take_legal_kept:
  assumes legal: "take_legal e c k w r q" and knows: "take_knows e c k q" and ring: "rwq_ring q us fs"
    and keeps: "put_respects q q'"
  shows "take_legal e c k w r q'"
proof -
  note d = rwq_ringD [OF ring]
  have ok: "block_ok (heap q ! frontBlock q)" using ring_block [OF ring, of "frontBlock q"] d(6) by simp
  have n: "n < length (heap q)" "front (heap q ! n) \<noteq> tail (heap q ! n)"
    if "next_blk (heap q ! frontBlock q) = Some n" "frontBlock q \<noteq> tailBlock q" for n
    using ring_ahead [OF ring that(2)] that(1) by auto
  show ?thesis
    using legal keeps knows d(8) n block_front_tail [OF ok]
    by (cases k) (auto simp: put_respects_def Let_def split: if_splits)
qed

lemma put_shift_frontBlock:
  assumes "put_legal (m, mem, x) pc w r q"
  shows "put_shift x pc w (q\<lparr>frontBlock := n\<rparr>) = (put_shift x pc w q)\<lparr>frontBlock := n\<rparr>"
  using assms by (cases pc) (auto simp: grown_size_def with_new_def grown_def upd_def store_def)

lemma put_shift_upd:
  assumes ring: "rwq_ring q us fs" and knows: "put_knows pc q" and legal: "put_legal (m, mem, x) pc w r q"
    and a: "a \<in> set us"
    and g: "next_blk (g (heap q ! a)) = next_blk (heap q ! a)"
      "a = tailBlock q \<Longrightarrow> published x (g (heap q ! a)) = g (published x (heap q ! a))"
      "\<And>v. g ((heap q ! a)\<lparr>localFront := v\<rparr>) = (g (heap q ! a))\<lparr>localFront := v\<rparr>"
      "\<And>n. g ((heap q ! a)\<lparr>next_blk := Some n\<rparr>) = (g (heap q ! a))\<lparr>next_blk := Some n\<rparr>"
  shows "put_shift x pc w (upd a g q) = upd a g (put_shift x pc w q)"
proof -
  note d = rwq_ringD [OF ring]
  have len: "a < length (heap q)" using ring_block(2) [OF ring] a by blast
  have nf: "n < length (heap q) \<and> n \<noteq> a" if "next_blk (heap q ! tailBlock q) = Some n" "n \<noteq> frontBlock q" for n
    using ring_free [OF ring that] a by auto
  have grown: "grown x (upd a g q) = grown x q"
    using g(1) len by (simp add: grown_def heap_upd)
  have new: "with_new x (upd a g q) = upd a g (with_new x q)"
    unfolding with_new_def grown using len by (simp add: upd_append)
  have new': "upd (tailBlock q) (\<lambda>b. b\<lparr>next_blk := Some n\<rparr>) (with_new x (upd a g q)) =
      upd a g (upd (tailBlock q) (\<lambda>b. b\<lparr>next_blk := Some n\<rparr>) (with_new x q))" for n
    unfolding new using len d(9) g(4)
    by (intro upd_commute) (auto simp: with_new_def nth_append)
  show ?thesis
  proof (cases pc)
    case (NextAdvance n)
    with knows nf len have "upd n (published x) (upd a g q) = upd a g (upd n (published x) q)"
      by (intro upd_commute) auto
    with NextAdvance show ?thesis by simp
  qed (use knows legal nf len d(9) g(2,3) new' in
      \<open>auto intro!: upd_commute simp: grown_size_def split: if_splits\<close>)
qed

lemma published_dropped: "front b \<noteq> tail b \<Longrightarrow> published x (dropped b) = dropped (published x b)"
  by (simp add: published_def dropped_def fill_def clear_def destroy_def list_update_swap word_unat_eq_iff)

text \<open>The order of two legal steps, one of each thread, makes no difference to the queue.\<close>

lemma shifts_commute:
  assumes ring: "rwq_ring q us fs" and knows: "put_knows pc q" and take: "take_knows e c k q"
    and legal: "put_legal (m, mem, x) pc w r q" "take_legal e c k v r' q"
  shows "put_shift x pc w (take_shift k v q) = take_shift k v (put_shift x pc w q)"
proof -
  note d = rwq_ringD [OF ring]
  note shift = put_shift_upd [OF ring knows legal(1)]
  have fb: "frontBlock (put_shift x pc w q) = frontBlock q"
    using legal(1) by (cases pc) auto
  have lt: "put_shift x pc w (upd a (\<lambda>b. b\<lparr>localTail := i\<rparr>) q) = upd a (\<lambda>b. b\<lparr>localTail := i\<rparr>) (put_shift x pc w q)"
    if "a \<in> set us" for a i
    using that by (intro shift) (simp_all add: published_def fill_def)
  have dr: "put_shift x pc w (upd (frontBlock q) dropped q) = upd (frontBlock q) dropped (put_shift x pc w q)"
    if "k = TakeFront f y" for f y
  proof (rule shift [OF d(6)])
    have "front (heap q ! frontBlock q) \<noteq> tail (heap q ! frontBlock q)"
      using take take_front_busy [OF _ ring] that by blast
    then show "published x (dropped (heap q ! frontBlock q)) = dropped (published x (heap q ! frontBlock q))"
      by (rule published_dropped)
  qed (simp_all add: dropped_def clear_def destroy_def)
  have n: "n \<in> set us" if "next_blk (heap q ! frontBlock q) = Some n" "frontBlock q \<noteq> tailBlock q" for n
    using ring_ahead [OF ring that(2)] that(1) by auto
  show ?thesis
    using legal(2) take lt d(6) dr n fb put_shift_frontBlock [OF legal(1)]
    by (cases k) (auto simp: Let_def split: if_splits)
qed

end
