(* ===== verification/Rw_Threads_Correct.thy ===== *)
theory Rw_Threads_Correct
  imports Rw_Steps
begin

text \<open>
  The queue between its two threads, when every write is seen at once: the invariant of all
  interleavings, and what follows from it.
\<close>

subsection \<open>The invariant\<close>

text \<open>A thread outside of its operations is as one that is about to enter one.\<close>

definition put_elem :: "'a duo \<Rightarrow> 'a" where
  "put_elem s = (case putting s of Some ((m, mem, x), pc) \<Rightarrow> x | None \<Rightarrow> undefined)"

definition put_place :: "'a duo \<Rightarrow> put_pc" where
  "put_place s = (case putting s of Some (c, pc) \<Rightarrow> pc | None \<Rightarrow> PutEnter)"

definition take_kind :: "'a duo \<Rightarrow> take_call" where
  "take_kind s = (case taking s of Some (c, k) \<Rightarrow> c | None \<Rightarrow> PeekCall)"

definition take_place :: "'a duo \<Rightarrow> 'a take_pc" where
  "take_place s = (case taking s of Some (c, k) \<Rightarrow> k | None \<Rightarrow> TakeEnter)"

lemmas places = put_elem_def put_place_def take_kind_def take_place_def

definition duo_holds :: "'a duo \<Rightarrow> 'a rwq \<Rightarrow> nat list \<Rightarrow> bool" where
  "duo_holds s q us \<longleftrightarrow> (\<exists>fs. rwq_ring q us fs) \<and>
     queue s = put_pending (put_elem s) (put_place s) (take_pending (take_place s) q) \<and>
     put_knows (put_place s) q \<and>
     take_knows (entered_before s = departed s) (take_kind s) (take_place s) q \<and>
     entered s = departed s @ chain (heap q) us \<and>
     (taking s \<noteq> None \<longrightarrow> prefix (departed s) (entered_before s) \<and> prefix (entered_before s) (entered s))"

lemma duo_holdsD:
  assumes "duo_holds s q us"
  shows "\<exists>fs. rwq_ring q us fs"
    "queue s = put_pending (put_elem s) (put_place s) (take_pending (take_place s) q)"
    "put_knows (put_place s) q"
    "take_knows (entered_before s = departed s) (take_kind s) (take_place s) q"
    "entered s = departed s @ chain (heap q) us"
    "taking s \<noteq> None \<Longrightarrow> prefix (departed s) (entered_before s) \<and> prefix (entered_before s) (entered s)"
  using assms unfolding duo_holds_def by blast+

definition duo_inv :: "'a duo \<Rightarrow> bool" where
  "duo_inv s \<longleftrightarrow> (\<exists>q us. duo_holds s q us)"

lemma duo_put_inv:
  assumes "duo_inv s"
  shows "\<exists>s'. duo_put s = Inr s' \<and> duo_inv s'"
proof (cases "putting s")
  case None
  with assms show ?thesis by (simp add: duo_put_def)
next
  case (Some a)
  then obtain m mem x pc where p: "putting s = Some ((m, mem, x), pc)" by (metis prod_cases3 surj_pair)
  have place: "put_elem s = x" "put_place s = pc" by (simp_all add: places p)
  from assms obtain q us fs where q: "rwq_ring q us fs"
    "queue s = put_pending x pc (take_pending (take_place s) q)" "put_knows pc q"
    "take_knows (entered_before s = departed s) (take_kind s) (take_place s) q"
    "entered s = departed s @ chain (heap q) us"
    "taking s \<noteq> None \<longrightarrow> prefix (departed s) (entered_before s) \<and> prefix (entered_before s) (entered s)"
    unfolding duo_inv_def duo_holds_def place by blast
  from put_at_legal [OF q(1,3), of m mem x] obtain r Q w where
    step: "put_at (m, mem, x) pc (queue s) = Inr (r, Q)" and legal: "put_legal (m, mem, x) pc w r q"
    and w: "w = put_write (m, mem, x) pc (queue s)"
    unfolding q(2) by blast
  define q' where "q' = put_shift x pc w q"
  from put_legal_result [OF q(1,3,4) legal] put_at_write [OF step] step w obtain us' fs' where
    at: "put_at (m, mem, x) pc (queue s) =
      Inr (r, (case r of Inl pc \<Rightarrow> put_pending x pc | Inr _ \<Rightarrow> id) (take_pending (take_place s) q'))"
    and q': "rwq_ring q' us' fs'" "chain (heap q') us' = chain (heap q) us @ (if r = Inr True then [x] else [])"
      "case r of Inl pc \<Rightarrow> put_knows pc q' | Inr _ \<Rightarrow> True" "put_respects q q'"
    unfolding put_result_def q(2) Let_def q'_def by auto
  have take: "take_knows (entered_before s = departed s) (take_kind s) (take_place s) q'"
    by (rule take_knows_kept [OF q(4) q'(4) q(1)])
  define s' where "s' = (let q = (case r of Inl pc \<Rightarrow> put_pending x pc | Inr _ \<Rightarrow> id) (take_pending (take_place s) q')
    in case r of Inl pc \<Rightarrow> s\<lparr>queue := q, putting := Some ((m, mem, x), pc)\<rparr>
     | Inr ok \<Rightarrow> s\<lparr>queue := q, putting := None, entered := entered s @ (if ok then [x] else [])\<rparr>)"
  have "duo_put s = Inr s'" by (cases r) (simp_all add: duo_put_def p at s'_def Let_def)
  moreover have "duo_holds s' q' us'"
  proof (cases r)
    case (Inl pc')
    with q(5,6) q' take show ?thesis by (auto simp: duo_holds_def s'_def places Let_def)
  next
    case (Inr ok)
    with q(5,6) q' take prefix_prefix [of "entered_before s" "entered s" "[x]"] show ?thesis
      by (cases ok) (auto simp: duo_holds_def s'_def places Let_def)
  qed
  ultimately show ?thesis by (auto simp: duo_inv_def)
qed

lemma duo_take_inv:
  assumes inv: "duo_inv s"
  shows "\<exists>s'. duo_take s = Inr s' \<and> duo_inv s'"
    "taking s = Some (c, k) \<Longrightarrow> take_at c k (queue s) = Inr (Inr y, q'') \<Longrightarrow>
     case y of None \<Rightarrow> entered_before s = departed s | Some x \<Rightarrow> \<exists>xs. entered s = departed s @ x # xs"
proof -
  have *: "\<exists>s'. duo_take s = Inr s' \<and> duo_inv s' \<and>
      (\<forall>y q''. take_at c k (queue s) = Inr (Inr y, q'') \<longrightarrow>
        (case y of None \<Rightarrow> entered_before s = departed s | Some x \<Rightarrow> \<exists>xs. entered s = departed s @ x # xs))"
    if t: "taking s = Some (c, k)" for c k
  proof -
    have place: "take_kind s = c" "take_place s = k" by (simp_all add: places t)
    from inv obtain q us where h: "duo_holds s q us" unfolding duo_inv_def by blast
    then obtain fs where ring: "rwq_ring q us fs" by (blast dest: duo_holdsD(1))
    note q = ring duo_holdsD(2-5) [OF h, unfolded place]
    have before: "prefix (departed s) (entered_before s)" "prefix (entered_before s) (entered s)"
      using duo_holdsD(6) [OF h] t by simp_all
    have e: "entered_before s = departed s" if "chain (heap q) us = []"
    proof (rule prefix_order.antisym [OF _ before(1)])
      show "prefix (entered_before s) (departed s)" using before(2) q(5) that by simp
    qed
    from take_at_legal [OF q(1,3,4) e, of "put_elem s"] obtain r Q w where
      step: "take_at c k (queue s) = Inr (r, Q)"
      and legal: "take_legal (entered_before s = departed s) c k w r q" and w: "w = take_write c k (queue s)"
      unfolding q(2) by blast
    define q' where "q' = take_shift k w q"
    from take_legal_result [OF q(1,3,4) legal, of "put_elem s"] take_at_write [OF step] step w obtain us' fs' where
      at: "take_at c k (queue s) =
        Inr (r, put_pending (put_elem s) (put_place s) ((case r of Inl k \<Rightarrow> take_pending k | Inr _ \<Rightarrow> id) q'))"
      and q': "rwq_ring q' us' fs'"
        "chain (heap q) us = (case r of Inr (Some y) \<Rightarrow> if c = PeekCall then [] else [y] | _ \<Rightarrow> []) @ chain (heap q') us'"
        "case r of Inl k \<Rightarrow> take_knows (entered_before s = departed s) c k q'
          | Inr None \<Rightarrow> entered_before s = departed s | Inr (Some y) \<Rightarrow> \<exists>ys. chain (heap q) us = y # ys"
        "take_respects q q'"
      unfolding take_result_def q(2) Let_def q'_def by auto
    have put: "put_knows (put_place s) q'" by (rule put_knows_kept [OF q(3) q'(4) q(1)])
    define s' where "s' = (let q = put_pending (put_elem s) (put_place s)
        ((case r of Inl k \<Rightarrow> take_pending k | Inr _ \<Rightarrow> id) q')
      in case r of Inl k \<Rightarrow> s\<lparr>queue := q, taking := Some (c, k)\<rparr>
       | Inr x \<Rightarrow> s\<lparr>queue := q, taking := None,
           departed := departed s @ (if c = PeekCall then [] else case_option [] (\<lambda>x. [x]) x)\<rparr>)"
    have "duo_take s = Inr s'" by (cases r) (simp_all add: duo_take_def t at s'_def Let_def)
    moreover have "duo_holds s' q' us'"
    proof (cases r)
      case (Inl k')
      with q(5) before q' put show ?thesis by (auto simp: duo_holds_def s'_def places Let_def)
    next
      case (Inr y)
      with q(5) q' put show ?thesis
        by (cases y) (auto simp: duo_holds_def s'_def places Let_def)
    qed
    moreover have "case y of None \<Rightarrow> entered_before s = departed s | Some x \<Rightarrow> \<exists>xs. entered s = departed s @ x # xs"
      if "take_at c k (queue s) = Inr (Inr y, q'')" for y q''
      using that at q'(3) q(5) by (cases y) auto
    ultimately show ?thesis by (auto simp: duo_inv_def)
  qed
  show "\<exists>s'. duo_take s = Inr s' \<and> duo_inv s'"
  proof (cases "taking s")
    case None
    with inv show ?thesis by (simp add: duo_take_def)
  next
    case (Some a)
    then show ?thesis using * by (cases a) blast
  qed
  show "case y of None \<Rightarrow> entered_before s = departed s | Some x \<Rightarrow> \<exists>xs. entered s = departed s @ x # xs"
    if "taking s = Some (c, k)" "take_at c k (queue s) = Inr (Inr y, q'')"
    using * [OF that(1)] that(2) by blast
qed

subsection \<open>Every interleaving\<close>

fun put_left :: "put_pc \<Rightarrow> nat" where
  "put_left PutEnter = 7"
| "put_left (PutFront t t') = 6"
| "put_left (PutCell t t') = 2"
| "put_left (PutTail t') = 1"
| "put_left PutNext = 5"
| "put_left (NextFront n) = 4"
| "put_left (NextCell n t) = 3"
| "put_left (NextTail n t) = 2"
| "put_left (NextAdvance n) = 1"
| "put_left PutNew = 3"
| "put_left (NewLink n) = 2"
| "put_left (NewAdvance n) = 1"

fun take_left :: "'a take_pc \<Rightarrow> nat" where
  "take_left TakeEnter = 9"
| "take_left TakeTail = 8"
| "take_left TakeBlock = 7"
| "take_left TakeAgain = 6"
| "take_left AheadNext = 5"
| "take_left (AheadTail n) = 4"
| "take_left (AheadBlock n) = 3"
| "take_left (AheadPeek n) = 1"
| "take_left (TakeCell f) = 2"
| "take_left (TakeFront f x) = 1"

lemma put_at_left: "put_at c pc q = Inr (Inl pc', q') \<Longrightarrow> put_left pc' < put_left pc"
  by (cases "(c, pc, q)" rule: put_at.cases)
    (auto simp: bindE_eq_Inr Let_def split: if_splits alloc_mode.splits)

lemma take_at_left: "take_at c k q = Inr (Inl k', q') \<Longrightarrow> take_left k' < take_left k"
  by (cases k) (auto simp: bindE_eq_Inr Let_def split: if_splits)

lemma put_at_returns_True: "put_at (CanAlloc, True, x) pc q \<noteq> Inr (Inr False, q')"
  by (cases "((CanAlloc, True, x), pc, q)" rule: put_at.cases)
    (auto simp: bindE_eq_Inr Let_def split: if_splits)

definition puts_left :: "'a duo \<Rightarrow> nat" where
  "puts_left s = (case putting s of None \<Rightarrow> 0 | Some (c, pc) \<Rightarrow> put_left pc)"

definition takes_left :: "'a duo \<Rightarrow> nat" where
  "takes_left s = (case taking s of None \<Rightarrow> 0 | Some (c, k) \<Rightarrow> take_left k)"

lemma put_left_pos: "0 < put_left pc" "put_left pc \<le> 7"
  by (cases pc; simp)+

lemma take_left_pos: "0 < take_left k" "take_left k \<le> 9"
  by (cases k; simp)+

lemma puts_left_0: "puts_left s = 0 \<longleftrightarrow> putting s = None" "puts_left s \<le> 7"
  using put_left_pos by (auto simp: puts_left_def split: option.splits)

lemma takes_left_0: "takes_left s = 0 \<longleftrightarrow> taking s = None" "takes_left s \<le> 9"
  using take_left_pos by (auto simp: takes_left_def split: option.splits)

lemma duo_putE:
  assumes "duo_put s = Inr s'"
  obtains (idle) "putting s = None" "s' = s"
    | (inside) c pc pc' q where "putting s = Some (c, pc)" "put_at c pc (queue s) = Inr (Inl pc', q)"
        "s' = s\<lparr>queue := q, putting := Some (c, pc')\<rparr>"
    | (returns) c pc ok q where "putting s = Some (c, pc)" "put_at c pc (queue s) = Inr (Inr ok, q)"
        "s' = s\<lparr>queue := q, putting := None, entered := entered s @ (if ok then [snd (snd c)] else [])\<rparr>"
proof (cases "putting s")
  case None
  with assms show thesis by (intro idle) (simp_all add: duo_put_def)
next
  case (Some a)
  obtain c pc where "a = (c, pc)" by (cases a)
  with Some have busy: "putting s = Some (c, pc)" by simp
  obtain r q where step: "put_at c pc (queue s) = Inr (r, q)"
    using assms busy by (cases "put_at c pc (queue s)") (auto simp: duo_put_def)
  have s': "s' = (case r of Inl pc \<Rightarrow> s\<lparr>queue := q, putting := Some (c, pc)\<rparr>
      | Inr ok \<Rightarrow> s\<lparr>queue := q, putting := None, entered := entered s @ (if ok then [snd (snd c)] else [])\<rparr>)"
    using assms busy step by (simp add: duo_put_def)
  note at = busy step
  show thesis
  proof (cases r)
    case (Inl pc')
    with at s' show thesis by (intro inside) simp_all
  next
    case (Inr ok)
    with at s' show thesis by (intro returns) simp_all
  qed
qed

lemma duo_takeE:
  assumes "duo_take s = Inr s'"
  obtains (idle) "taking s = None" "s' = s"
    | (inside) c k k' q where "taking s = Some (c, k)" "take_at c k (queue s) = Inr (Inl k', q)"
        "s' = s\<lparr>queue := q, taking := Some (c, k')\<rparr>"
    | (returns) c k x q where "taking s = Some (c, k)" "take_at c k (queue s) = Inr (Inr x, q)"
        "s' = s\<lparr>queue := q, taking := None,
           departed := departed s @ (if c = PeekCall then [] else case_option [] (\<lambda>x. [x]) x)\<rparr>"
proof (cases "taking s")
  case None
  with assms show thesis by (intro idle) (simp_all add: duo_take_def)
next
  case (Some a)
  obtain c k where "a = (c, k)" by (cases a)
  with Some have busy: "taking s = Some (c, k)" by simp
  obtain r q where step: "take_at c k (queue s) = Inr (r, q)"
    using assms busy by (cases "take_at c k (queue s)") (auto simp: duo_take_def)
  have s': "s' = (case r of Inl k \<Rightarrow> s\<lparr>queue := q, taking := Some (c, k)\<rparr>
      | Inr x \<Rightarrow> s\<lparr>queue := q, taking := None,
          departed := departed s @ (if c = PeekCall then [] else case_option [] (\<lambda>x. [x]) x)\<rparr>)"
    using assms busy step by (simp add: duo_take_def)
  note at = busy step
  show thesis
  proof (cases r)
    case (Inl k')
    with at s' show thesis by (intro inside) simp_all
  next
    case (Inr x)
    with at s' show thesis by (intro returns) simp_all
  qed
qed

lemma duo_put_left:
  assumes "duo_put s = Inr s'"
  shows "puts_left s' \<le> puts_left s - 1" "takes_left s' = takes_left s"
  using assms by (cases rule: duo_putE; auto simp: puts_left_def takes_left_def dest: put_at_left)+

lemma duo_take_left:
  assumes "duo_take s = Inr s'"
  shows "takes_left s' \<le> takes_left s - 1" "puts_left s' = puts_left s"
  using assms by (cases rule: duo_takeE; auto simp: puts_left_def takes_left_def dest: take_at_left)+

interpretation putter: wait_free duo_put duo_take duo_inv puts_left
  by unfold_locales (auto dest: duo_put_inv duo_take_inv(1) duo_put_left duo_take_left)

interpretation taker: wait_free duo_take duo_put duo_inv takes_left
  by unfold_locales (auto dest: duo_put_inv duo_take_inv(1) duo_put_left duo_take_left)

lemma duo_inv_begin:
  assumes "duo_inv s"
  shows "putting s = None \<Longrightarrow> duo_inv (s\<lparr>putting := Some (c, PutEnter)\<rparr>)"
    "taking s = None \<Longrightarrow> duo_inv (s\<lparr>taking := Some (d, TakeEnter), entered_before := entered s\<rparr>)"
proof -
  from assms obtain q us where "duo_holds s q us" unfolding duo_inv_def by blast
  note h = duo_holdsD [OF this]
  show "duo_inv (s\<lparr>putting := Some (c, PutEnter)\<rparr>)" if "putting s = None"
    unfolding duo_inv_def duo_holds_def
    by (rule exI [of _ q], rule exI [of _ us]) (use h that in \<open>auto simp: places split: prod.split\<close>)
  show "duo_inv (s\<lparr>taking := Some (d, TakeEnter), entered_before := entered s\<rparr>)" if "taking s = None"
    unfolding duo_inv_def duo_holds_def
    by (rule exI [of _ q], rule exI [of _ us]) (use h that in \<open>auto simp: places\<close>)
qed

lemma duo_reachable:
  assumes "rwq_holds q []" "duo_step\<^sup>*\<^sup>* (idle_duo q) s"
  shows "duo_inv s"
  using assms(2)
proof induction
  case base
  from assms(1) obtain us fs where "rwq_ring q us fs" "chain (heap q) us = []"
    unfolding rwq_holds_def represents_def by force
  then show ?case by (auto simp: duo_inv_def duo_holds_def places idle_duo_def)
next
  case (step s s')
  from step.hyps(2) show ?case
  proof cases
    case (PutBegin c)
    with step.IH show ?thesis by (simp add: duo_inv_begin)
  next
    case PutStep
    with duo_put_inv [OF step.IH] show ?thesis by simp
  next
    case (TakeBegin d)
    with step.IH show ?thesis by (simp add: duo_inv_begin)
  next
    case TakeStep
    with duo_take_inv(1) [OF step.IH] show ?thesis by simp
  qed
qed

lemma idle_duo_rwq:
  assumes "duo_inv s" "putting s = None" "taking s = None"
  shows "\<exists>xs. rwq_holds (queue s) xs \<and> entered s = departed s @ xs"
proof -
  from assms(1) obtain q us where h: "duo_holds s q us" unfolding duo_inv_def by blast
  then obtain fs where "rwq_ring q us fs" by (blast dest: duo_holdsD(1))
  moreover have "queue s = q" using duo_holdsD(2) [OF h] assms(2,3) by (simp add: places)
  ultimately show ?thesis using duo_holdsD(5) [OF h] unfolding rwq_holds_def represents_def by blast
qed

lemma new_queue_holds:
  fixes q :: "'a rwq"
  assumes "0 < capacity" "unat capacity < 2 ^ 32" "new_queue (\<lambda>_. True) capacity = Inr q"
  shows "rwq_holds q []"
proof -
  from new_queue_correct [OF assms(1,2), of "\<lambda>_. True"] obtain q' :: "'a rwq" and r where
    "new_queue (\<lambda>_. True) capacity = Inr q'" "represents q' [] r" by auto
  with assms(3) show ?thesis by (auto simp: rwq_holds_def)
qed

subsection \<open>Properties\<close>

text \<open>
  C2. The two threads share the queue. However their steps interleave, from the construction on,
  neither fails an assertion, follows a wild pointer or reads a cell without an object, and what was
  taken out is what was put in, in order. An operation of the consumer that returns an element
  returns the first one that is in the queue, and one that finds nothing found the queue empty when
  it began; an enqueue that can allocate succeeds. When no operation runs the queue holds the rest.
\<close>

theorem threads_share_queue:
  assumes "0 < capacity" "unat capacity < 2 ^ 32" "new_queue (\<lambda>_. True) capacity = Inr q"
    "duo_step\<^sup>*\<^sup>* (idle_duo q) s"
  shows "(\<exists>xs. entered s = departed s @ xs \<and>
      (putting s = None \<and> taking s = None \<longrightarrow> rwq_holds (queue s) xs)) \<and>
    (\<exists>s'. duo_put s = Inr s') \<and> (\<exists>s'. duo_take s = Inr s') \<and>
    (\<forall>c k y q'. taking s = Some (c, k) \<and> take_at c k (queue s) = Inr (Inr y, q') \<longrightarrow>
      (case y of None \<Rightarrow> entered_before s = departed s | Some x \<Rightarrow> \<exists>xs. entered s = departed s @ x # xs)) \<and>
    (\<forall>x pc q'. putting s = Some ((CanAlloc, True, x), pc) \<longrightarrow>
      put_at (CanAlloc, True, x) pc (queue s) \<noteq> Inr (Inr False, q'))"
proof (intro conjI)
  have inv: "duo_inv s" by (rule duo_reachable [OF new_queue_holds [OF assms(1-3)] assms(4)])
  then obtain r us where h: "duo_holds s r us" unfolding duo_inv_def by blast
  show "\<exists>xs. entered s = departed s @ xs \<and> (putting s = None \<and> taking s = None \<longrightarrow> rwq_holds (queue s) xs)"
  proof (cases "putting s = None \<and> taking s = None")
    case True
    then show ?thesis using idle_duo_rwq [OF inv] by auto
  next
    case False
    then show ?thesis using duo_holdsD(5) [OF h] by auto
  qed
  show "\<exists>s'. duo_put s = Inr s'" using putter.this_keeps [OF inv] by blast
  show "\<exists>s'. duo_take s = Inr s'" using taker.this_keeps [OF inv] by blast
  show "\<forall>c k y q'. taking s = Some (c, k) \<and> take_at c k (queue s) = Inr (Inr y, q') \<longrightarrow>
      (case y of None \<Rightarrow> entered_before s = departed s | Some x \<Rightarrow> \<exists>xs. entered s = departed s @ x # xs)"
    by (intro allI impI, elim conjE) (rule duo_take_inv(2) [OF inv])
  show "\<forall>x pc q'. putting s = Some ((CanAlloc, True, x), pc) \<longrightarrow>
      put_at (CanAlloc, True, x) pc (queue s) \<noteq> Inr (Inr False, q')"
    by (simp add: put_at_returns_True)
qed

lemma example_start:
  "duo_step\<^sup>*\<^sup>* (idle_duo default_queue) ((idle_duo default_queue)
     \<lparr>putting := Some ((CanAlloc, True, 7 :: u8), PutEnter), taking := Some (DequeueCall, TakeEnter)\<rparr>)"
proof -
  let ?s = "(idle_duo default_queue)\<lparr>putting := Some ((CanAlloc, True, 7 :: u8), PutEnter)\<rparr>"
  have "duo_step (idle_duo default_queue) ?s" by (rule PutBegin) (simp add: idle_duo_def)
  moreover have "duo_step ?s (?s\<lparr>taking := Some (DequeueCall, TakeEnter), entered_before := entered ?s\<rparr>)"
    by (rule TakeBegin) (simp add: idle_duo_def)
  moreover have "?s\<lparr>taking := Some (DequeueCall, TakeEnter), entered_before := entered ?s\<rparr> =
      ?s\<lparr>taking := Some (DequeueCall, TakeEnter)\<rparr>"
    by (simp add: idle_duo_def)
  ultimately show ?thesis by simp
qed

theorem threads_share_queue_witness:
  "\<exists>s. duo_step\<^sup>*\<^sup>* (idle_duo (default_queue :: u8 rwq)) s \<and> putting s = Some ((CanAlloc, True, 7), PutEnter) \<and>
     taking s = Some (DequeueCall, TakeEnter) \<and> (\<exists>s'. duo_put s = Inr s') \<and> (\<exists>s'. duo_take s = Inr s')"
proof -
  have h: "0 < (15 :: size_t)" "unat (15 :: size_t) < 2 ^ 32" by simp_all
  from threads_share_queue [OF h new_queue_default example_start] example_start show ?thesis by auto
qed

text \<open>
  C6. Both operations are wait-free: an enqueue returns after at most seven of its own steps, a
  dequeue, \<open>peek\<close> or \<open>pop\<close> after at most nine, whatever the other thread does in between.
\<close>

theorem queue_wait_free:
  assumes "0 < capacity" "unat capacity < 2 ^ 32" "new_queue (\<lambda>_. True) capacity = Inr q"
    "duo_step\<^sup>*\<^sup>* (idle_duo q) s"
  shows "(7 \<le> count_list w This \<longrightarrow> (\<exists>s'. run_threads duo_put duo_take w s = Inr s' \<and> putting s' = None)) \<and>
    (9 \<le> count_list w That \<longrightarrow> (\<exists>s'. run_threads duo_put duo_take w s = Inr s' \<and> taking s' = None))"
proof -
  have inv: "duo_inv s" by (rule duo_reachable [OF new_queue_holds [OF assms(1-3)] assms(4)])
  have "\<exists>s'. run_threads duo_put duo_take w s = Inr s' \<and> putting s' = None" if "7 \<le> count_list w This"
    using putter.run_returns [OF inv, of w] that puts_left_0(2) [of s] by (auto simp: puts_left_0(1))
  moreover have "\<exists>s'. run_threads duo_put duo_take w s = Inr s' \<and> taking s' = None" if "9 \<le> count_list w That"
    using taker.run_returns [OF inv, of "map swap_thread w"] that takes_left_0(2) [of s]
    by (auto simp: takes_left_0(1) count_swap run_threads_swap)
  ultimately show ?thesis by blast
qed

theorem queue_wait_free_witness:
  "\<exists>s s'. duo_step\<^sup>*\<^sup>* (idle_duo (default_queue :: u8 rwq)) s \<and> putting s = Some ((CanAlloc, True, 7), PutEnter) \<and>
     run_threads duo_put duo_take (concat (replicate 7 [This, That])) s = Inr s' \<and> putting s' = None"
proof -
  have h: "0 < (15 :: size_t)" "unat (15 :: size_t) < 2 ^ 32" by simp_all
  have n: "7 \<le> count_list (concat (replicate 7 [This, That])) This" by code_simp
  from queue_wait_free [OF h(1,2) new_queue_default example_start, of "concat (replicate 7 [This, That])"]
    n obtain s' where "run_threads duo_put duo_take (concat (replicate 7 [This, That]))
      ((idle_duo default_queue)\<lparr>putting := Some ((CanAlloc, True, 7 :: u8), PutEnter),
        taking := Some (DequeueCall, TakeEnter)\<rparr>) = Inr s'" "putting s' = None" by blast
  with example_start show ?thesis by (intro exI conjI) simp_all
qed

end
