(* ===== verification/Blocking_Queue.thy ===== *)
theory Blocking_Queue
  imports Semaphore Rw_Threads_Correct
begin

text \<open>
  \<open>BlockingReaderWriterQueue\<close> (\<open>readerwriterqueue.h\<close>): a queue with a semaphore that counts its
  elements, used by a producer and a consumer thread. The threads interleave at every step of the
  semaphore and of the queue inside.
\<close>

subsection \<open>The object\<close>

record 'a bq =
  inner :: "'a rwq"
  sema :: sema

definition new_blocking :: "(nat \<Rightarrow> bool) \<Rightarrow> size_t \<Rightarrow> 'a bq res" where
  "new_blocking mem maxSize =
     bindE (new_queue mem maxSize) (\<lambda>q. bindE (new_sema 0) (\<lambda>s. Inr \<lparr>inner = q, sema = s\<rparr>))"

text \<open>
  The constructor from another object leaves that one with a usable queue and no semaphore.
\<close>

definition move_blocking :: "bool \<Rightarrow> 'a bq \<Rightarrow> ('a bq \<times> 'a rwq \<times> sema option) res" where
  "move_blocking mem other =
     bindE (move_queue mem (inner other)) (\<lambda>(q, rest). Inr (\<lparr>inner = q, sema = sema other\<rparr>, rest, None))"

text \<open>
  The assignment swaps the semaphores and then the queues. \<open>std::swap\<close> of the queues is a move into
  a temporary, which needs memory for the block the moved-from queue gets, and two assignments; when
  that memory cannot be had, the exception leaves the semaphores swapped. The temporary is destroyed
  with the block.
\<close>

definition move_assign_blocking :: "bool \<Rightarrow> 'a bq \<Rightarrow> 'a bq \<Rightarrow> fault option \<times> 'a bq \<times> 'a bq" where
  "move_assign_blocking mem q other =
     (let s = sema q; q = q\<lparr>sema := sema other\<rparr>; other = other\<lparr>sema := s\<rparr>
      in case move_queue mem (inner q) of
           Inl e \<Rightarrow> (Some e, q, other)
         | Inr (tmp, a) \<Rightarrow>
             (let (a, b) = move_assign a (inner other); (b, tmp) = move_assign b tmp
              in (None, q\<lparr>inner := a\<rparr>, other\<lparr>inner := b\<rparr>)))"

lemma move_assign_blocking_swaps:
  "move_assign_blocking True q other = (None, q\<lparr>inner := inner other, sema := sema other\<rparr>,
     other\<lparr>inner := inner q, sema := sema q\<rparr>)"
  by (simp add: move_assign_blocking_def move_queue_def move_assign_def make_block_def)

lemma move_assign_blocking_throws:
  "move_assign_blocking False q other =
     (Some BadAlloc, q\<lparr>sema := sema other\<rparr>, other\<lparr>sema := sema q\<rparr>)"
  by (simp add: move_assign_blocking_def move_queue_def make_block_def)

definition blocking_size_approx :: "'a bq \<Rightarrow> size_t" where
  "blocking_size_approx q = availableApprox (sema q)"

definition blocking_max_capacity :: "'a bq \<Rightarrow> size_t res" where
  "blocking_max_capacity q = max_capacity (inner q)"

definition blocking_peek :: "'a bq \<Rightarrow> ('a option \<times> 'a bq) res" where
  "blocking_peek q = bindE (peek (inner q)) (\<lambda>(r, i). Inr (r, q\<lparr>inner := i\<rparr>))"

subsection \<open>The threads\<close>

datatype consumer_op = TryDequeue | WaitDequeue | WaitDequeueTimed i64 | Pop | Peek

definition call_of :: "consumer_op \<Rightarrow> wait_call" where
  "call_of op = (case op of
     WaitDequeue \<Rightarrow> WaitFor (-1)
   | WaitDequeueTimed timeout_usecs \<Rightarrow> WaitFor timeout_usecs
   | _ \<Rightarrow> TryWait)"

definition inner_call :: "consumer_op \<Rightarrow> take_call" where
  "inner_call op = (case op of Pop \<Rightarrow> PopCall | Peek \<Rightarrow> PeekCall | _ \<Rightarrow> DequeueCall)"

text \<open>
  The consumer: outside of an operation, in the wait of one, or at its operation of the queue
  inside; \<open>peek\<close> does not wait. The producer: outside, at its operation of the queue inside, or in
  \<open>signal\<close>.
\<close>

datatype consumer = Idle | Waiting consumer_op wait_pc | Taking consumer_op

datatype producer = Ready | Putting | Signalling signal_pc

text \<open>The queue inside comes with the places of the two threads in its operations, and its record.\<close>

record 'a bsys =
  pair :: "'a duo"
  sem :: sema
  cons :: consumer
  prod :: producer

definition blocking_system :: "'a bq \<Rightarrow> 'a bsys" where
  "blocking_system q = \<lparr>pair = idle_duo (inner q), sem = sema q, cons = Idle, prod = Ready\<rparr>"

text \<open>What an operation of the queue inside returns, if the next step is its last.\<close>

definition take_returns :: "'a duo \<Rightarrow> 'a option option res" where
  "take_returns d = (case taking d of
     None \<Rightarrow> Inr None
   | Some (c, k) \<Rightarrow> bindE (take_at c k (queue d)) (\<lambda>(r, q).
       Inr (case r of Inl _ \<Rightarrow> None | Inr x \<Rightarrow> Some x)))"

definition put_returns :: "'a duo \<Rightarrow> bool option res" where
  "put_returns d = (case putting d of
     None \<Rightarrow> Inr None
   | Some (c, pc) \<Rightarrow> bindE (put_at c pc (queue d)) (\<lambda>(r, q).
       Inr (case r of Inl _ \<Rightarrow> None | Inr ok \<Rightarrow> Some ok)))"

definition begin_take :: "consumer_op \<Rightarrow> 'a duo \<Rightarrow> 'a duo" where
  "begin_take op d = d\<lparr>taking := Some (inner_call op, TakeEnter), entered_before := entered d\<rparr>"

definition begin_op :: "consumer_op \<Rightarrow> 'a bsys \<Rightarrow> 'a bsys" where
  "begin_op op s =
     (if op = Peek then s\<lparr>cons := Taking op, pair := begin_take op (pair s)\<rparr>
      else s\<lparr>cons := Waiting op TryLoad\<rparr>)"

text \<open>
  \<open>wait_dequeue\<close> repeats a wait that returns false; the other operations return false then. After a
  wait that returns true the operation of the queue inside must succeed.
\<close>

definition consumer_step :: "kernel_answer \<Rightarrow> 'a bsys \<Rightarrow> 'a bsys res" where
  "consumer_step ans s = (case cons s of
     Idle \<Rightarrow> Inr s
   | Waiting op pc \<Rightarrow>
       (let (r, m) = wait_at (call_of op) ans pc (sem s); s = s\<lparr>sem := m\<rparr>
        in Inr (case r of
             Inl pc \<Rightarrow> s\<lparr>cons := Waiting op pc\<rparr>
           | Inr True \<Rightarrow> s\<lparr>cons := Taking op, pair := begin_take op (pair s)\<rparr>
           | Inr False \<Rightarrow> s\<lparr>cons := (if op = WaitDequeue then Waiting op TryLoad else Idle)\<rparr>))
   | Taking op \<Rightarrow>
       bindE (take_returns (pair s)) (\<lambda>r.
       bindE (assertE (op = Peek \<or> r \<noteq> Some None)) (\<lambda>_.
       bindE (duo_take (pair s)) (\<lambda>d.
         Inr (s\<lparr>pair := d, cons := (if r = None then Taking op else Idle)\<rparr>)))))"

text \<open>\<open>enqueue\<close> and \<open>try_enqueue\<close>: when the queue inside takes the element, the semaphore is signalled.\<close>

definition begin_put :: "'a put_call \<Rightarrow> 'a bsys \<Rightarrow> 'a bsys" where
  "begin_put c s = s\<lparr>prod := Putting, pair := (pair s)\<lparr>putting := Some (c, PutEnter)\<rparr>\<rparr>"

definition producer_step :: "bool \<Rightarrow> 'a bsys \<Rightarrow> 'a bsys res" where
  "producer_step posted s = (case prod s of
     Ready \<Rightarrow> Inr s
   | Putting \<Rightarrow>
       bindE (put_returns (pair s)) (\<lambda>r.
       bindE (duo_put (pair s)) (\<lambda>d.
         Inr (s\<lparr>pair := d, prod := (case r of
           None \<Rightarrow> Putting | Some ok \<Rightarrow> if ok then Signalling (Adding 1) else Ready)\<rparr>)))
   | Signalling pc \<Rightarrow>
       bindE (signal_at posted pc (sem s)) (\<lambda>(r, m).
         Inr (s\<lparr>sem := m, prod := (case r of None \<Rightarrow> Ready | Some pc \<Rightarrow> Signalling pc)\<rparr>)))"

definition consumer_can :: "kernel_answer \<Rightarrow> 'a bsys \<Rightarrow> bool" where
  "consumer_can ans s = (case cons s of Waiting op pc \<Rightarrow> kernel_can ans pc (sem s) | _ \<Rightarrow> True)"

text \<open>
  The interleavings. Fewer than 2 to the 62 elements are ever put in, so that the count does not
  wrap around.
\<close>

inductive bstep :: "'a bsys \<Rightarrow> 'a bsys \<Rightarrow> bool" where
  BeginTake: "cons s = Idle \<Longrightarrow> bstep s (begin_op op s)"
| Consume: "consumer_can ans s \<Longrightarrow> consumer_step ans s = Inr s' \<Longrightarrow> bstep s s'"
| BeginPut: "prod s = Ready \<Longrightarrow> length (entered (pair s)) < 2 ^ 62 - 1 \<Longrightarrow> bstep s (begin_put c s)"
| Produce: "producer_step posted s = Inr s' \<Longrightarrow> bstep s s'"

subsection \<open>The invariant\<close>

text \<open>
  The tokens of the semaphore are the elements in the queue, less the one that is not yet
  signalled, and less the one whose token the consumer has taken.
\<close>

definition unsignalled :: "producer \<Rightarrow> nat" where
  "unsignalled p = (case p of Signalling (Adding _) \<Rightarrow> 1 | _ \<Rightarrow> 0)"

definition posting :: "producer \<Rightarrow> nat" where
  "posting p = (case p of Signalling Posting \<Rightarrow> 1 | _ \<Rightarrow> 0)"

definition taken :: "consumer \<Rightarrow> nat" where
  "taken c = (case c of Taking op \<Rightarrow> if op = Peek then 0 else 1 | _ \<Rightarrow> 0)"

definition wait_pc_of :: "consumer \<Rightarrow> wait_pc" where
  "wait_pc_of c = (case c of Waiting _ pc \<Rightarrow> pc | _ \<Rightarrow> TryLoad)"

lemmas shares = unsignalled_def posting_def taken_def wait_pc_of_def

definition remaining :: "'a duo \<Rightarrow> nat" where
  "remaining d = length (entered d) - length (departed d)"

definition places_ok :: "'a bsys \<Rightarrow> bool" where
  "places_ok s \<longleftrightarrow>
     (case cons s of
        Taking op \<Rightarrow> (\<exists>k. taking (pair s) = Some (inner_call op, k)) \<and>
          (op \<noteq> Peek \<longrightarrow> entered_before (pair s) \<noteq> departed (pair s))
      | Waiting op pc \<Rightarrow> taking (pair s) = None \<and> op \<noteq> Peek
      | Idle \<Rightarrow> taking (pair s) = None) \<and>
     (putting (pair s) = None \<longleftrightarrow> prod s \<noteq> Putting) \<and>
     prod s \<in> {Ready, Putting, Signalling (Adding 1), Signalling Posting} \<and>
     length (entered (pair s)) < 2 ^ 62 - (if prod s = Putting then 1 else 0)"

definition binv :: "'a bsys \<Rightarrow> bool" where
  "binv s \<longleftrightarrow> duo_inv (pair s) \<and> places_ok s \<and>
     (\<exists>n. remaining (pair s) = n + unsignalled (prod s) + taken (cons s) \<and>
       account (wait_pc_of (cons s)) (sint (m_count (sem s))) (m_sema (sem s) + posting (prod s)) n)"

lemma binvI:
  "duo_inv (pair s) \<Longrightarrow> places_ok s \<Longrightarrow> remaining (pair s) = n + unsignalled (prod s) + taken (cons s) \<Longrightarrow>
   account (wait_pc_of (cons s)) (sint (m_count (sem s))) (m_sema (sem s) + posting (prod s)) n \<Longrightarrow> binv s"
  unfolding binv_def by blast

lemma binvE:
  assumes "binv s"
  obtains n where "duo_inv (pair s)" "places_ok s"
    "remaining (pair s) = n + unsignalled (prod s) + taken (cons s)"
    "account (wait_pc_of (cons s)) (sint (m_count (sem s))) (m_sema (sem s) + posting (prod s)) n"
    "n < 2 ^ 62"
proof -
  from assms obtain n where n: "duo_inv (pair s)" "places_ok s"
    "remaining (pair s) = n + unsignalled (prod s) + taken (cons s)"
    "account (wait_pc_of (cons s)) (sint (m_count (sem s))) (m_sema (sem s) + posting (prod s)) n"
    unfolding binv_def by blast
  have "n \<le> length (entered (pair s))" using n(3) by (simp add: remaining_def)
  moreover have "length (entered (pair s)) < 2 ^ 62"
    using n(2) by (auto simp: places_ok_def split: if_splits)
  ultimately show thesis using that n by simp
qed

subsubsection \<open>The steps of the queue inside\<close>

lemma duo_take_effect:
  assumes inv: "duo_inv d" and t: "taking d = Some (c, k)"
  obtains (inside) d' k' where "take_returns d = Inr None" "duo_take d = Inr d'" "duo_inv d'"
      "taking d' = Some (c, k')" "take_left k' < take_left k" "departed d' = departed d"
      "entered d' = entered d" "entered_before d' = entered_before d" "putting d' = putting d"
    | (returns) d' y where "take_returns d = Inr (Some y)" "duo_take d = Inr d'" "duo_inv d'"
      "taking d' = None"
      "departed d' = departed d @ (if c = PeekCall then [] else case_option [] (\<lambda>x. [x]) y)"
      "entered d' = entered d" "putting d' = putting d"
      "case y of None \<Rightarrow> entered_before d = departed d | Some x \<Rightarrow> \<exists>xs. entered d = departed d @ x # xs"
proof -
  from duo_take_inv(1) [OF inv] obtain d' where d': "duo_take d = Inr d'" "duo_inv d'" by blast
  from d'(1) show thesis
  proof (cases rule: duo_takeE)
    case idle
    with t show thesis by simp
  next
    case (inside c' k1 k' q)
    with t take_at_left [of c k "queue d" k' q] d' show thesis
      by (intro that(1) [of d' k']) (auto simp: take_returns_def)
  next
    case (returns c' k1 y q)
    with t have at: "take_at c k (queue d) = Inr (Inr y, q)" by simp
    from duo_take_inv(2) [OF inv t at] returns t at d' show thesis
      by (intro that(2) [of y d']) (auto simp: take_returns_def)
  qed
qed

lemma duo_put_effect:
  assumes inv: "duo_inv d" and p: "putting d = Some ((m, mem, x), pc)"
  obtains (inside) d' pc' where "put_returns d = Inr None" "duo_put d = Inr d'" "duo_inv d'"
      "putting d' = Some ((m, mem, x), pc')" "put_left pc' < put_left pc" "entered d' = entered d"
      "departed d' = departed d" "entered_before d' = entered_before d" "taking d' = taking d"
    | (returns) d' ok where "put_returns d = Inr (Some ok)" "duo_put d = Inr d'" "duo_inv d'"
      "putting d' = None" "entered d' = entered d @ (if ok then [x] else [])"
      "departed d' = departed d" "entered_before d' = entered_before d" "taking d' = taking d"
proof -
  from duo_put_inv [OF inv] obtain d' where d': "duo_put d = Inr d'" "duo_inv d'" by blast
  from d'(1) show thesis
  proof (cases rule: duo_putE)
    case idle
    with p show thesis by simp
  next
    case (inside c pc1 pc' q)
    with p put_at_left [of "(m, mem, x)" pc "queue d" pc' q] d' show thesis
      by (intro that(1) [of d' pc']) (auto simp: put_returns_def)
  next
    case (returns c pc1 ok q)
    with p d' show thesis by (intro that(2) [of ok d']) (auto simp: put_returns_def)
  qed
qed

lemma entered_departed: "duo_inv d \<Longrightarrow> \<exists>xs. entered d = departed d @ xs"
  by (auto simp: duo_inv_def duo_holds_def)

lemma remaining_pos: "duo_inv d \<Longrightarrow> 0 < remaining d \<Longrightarrow> entered d \<noteq> departed d"
  by (auto simp: remaining_def)

subsubsection \<open>The steps of the system\<close>

lemma begin_op_keeps:
  assumes inv: "binv s" and c: "cons s = Idle"
  shows "binv (begin_op op s)"
proof -
  from inv obtain n where n: "duo_inv (pair s)" "places_ok s" "remaining (pair s) = n + unsignalled (prod s) + taken (cons s)"
    "account (wait_pc_of (cons s)) (sint (m_count (sem s))) (m_sema (sem s) + posting (prod s)) n" "n < 2 ^ 62"
    by (rule binvE)
  have t: "taking (pair s) = None" using n(2) c by (simp add: places_ok_def)
  from duo_inv_begin(2) [OF n(1) t] n c show ?thesis
    by (cases "op = Peek")
      (auto simp: begin_op_def begin_take_def places_ok_def shares remaining_def intro!: binvI [of _ n])
qed

lemma begin_put_keeps:
  assumes inv: "binv s" and c: "prod s = Ready" "length (entered (pair s)) < 2 ^ 62 - 1"
  shows "binv (begin_put c s)"
proof -
  from inv obtain n where n: "duo_inv (pair s)" "places_ok s" "remaining (pair s) = n + unsignalled (prod s) + taken (cons s)"
    "account (wait_pc_of (cons s)) (sint (m_count (sem s))) (m_sema (sem s) + posting (prod s)) n" "n < 2 ^ 62"
    by (rule binvE)
  have t: "putting (pair s) = None" using n(2) c by (simp add: places_ok_def)
  from duo_inv_begin(1) [OF n(1) t, of c] n c show ?thesis
    by (auto simp: begin_put_def places_ok_def shares remaining_def split: consumer.splits intro!: binvI [of _ n])
qed

lemma consumer_waits:
  assumes inv: "binv s" and c: "cons s = Waiting op pc" and can: "kernel_can ans pc (sem s)"
  shows "\<exists>s'. consumer_step ans s = Inr s' \<and> binv s'"
proof -
  from inv obtain n where n: "duo_inv (pair s)" "places_ok s" "remaining (pair s) = n + unsignalled (prod s) + taken (cons s)"
    "account (wait_pc_of (cons s)) (sint (m_count (sem s))) (m_sema (sem s) + posting (prod s)) n" "n < 2 ^ 62"
    by (rule binvE)
  obtain r m where rm: "wait_at (call_of op) ans pc (sem s) = (r, m)" by fastforce
  have t: "taking (pair s) = None" using n(2) c by (simp add: places_ok_def)
  from wait_step [OF _ n(5) can rm, of "posting (prod s)"] n(4) c
  have w: "case r of
      Inl pc' \<Rightarrow> account pc' (sint (m_count m)) (m_sema m + posting (prod s)) n
    | Inr True \<Rightarrow> 0 < n \<and> m_sema m + posting (prod s) = 0 \<and> sint (m_count m) = int n - 1
    | Inr False \<Rightarrow> m_sema m + posting (prod s) = 0 \<and> sint (m_count m) = int n"
    by (simp add: wait_pc_of_def)
  show ?thesis
  proof (cases r)
    case (Inl pc')
    with w n rm c show ?thesis
      by (auto simp: consumer_step_def places_ok_def shares intro!: binvI [of _ n])
  next
    case (Inr b)
    show ?thesis
    proof (cases b)
      case True
      with w Inr have pos: "0 < n" by simp
      have ne: "entered (pair s) \<noteq> departed (pair s)" using remaining_pos [OF n(1)] n(3) pos by simp
      from duo_inv_begin(2) [OF n(1) t, of "inner_call op"] w Inr True n rm c ne pos show ?thesis
        by (auto simp: consumer_step_def begin_take_def places_ok_def shares remaining_def intro!: binvI [of _ "n - 1"])
    next
      case False
      with w Inr n rm c show ?thesis
        by (auto simp: consumer_step_def places_ok_def shares intro!: binvI [of _ n])
    qed
  qed
qed

lemma inner_call_Peek [simp]: "inner_call op = PeekCall \<longleftrightarrow> op = Peek"
  by (cases op) (simp_all add: inner_call_def)

lemma consumer_takes:
  assumes inv: "binv s" and c: "cons s = Taking op"
  obtains (inside) s' k k' where "consumer_step ans s = Inr s'" "binv s'" "cons s' = Taking op" "sem s' = sem s"
      "prod s' = prod s" "taking (pair s) = Some (inner_call op, k)" "taking (pair s') = Some (inner_call op, k')"
      "take_left k' < take_left k" "entered (pair s') = entered (pair s)" "departed (pair s') = departed (pair s)"
    | (returns) s' y where "consumer_step ans s = Inr s'" "binv s'" "cons s' = Idle" "sem s' = sem s"
      "prod s' = prod s" "entered (pair s') = entered (pair s)"
      "departed (pair s') = departed (pair s) @ (if op = Peek then [] else case_option [] (\<lambda>x. [x]) y)"
      "op \<noteq> Peek \<Longrightarrow> y \<noteq> None"
proof -
  from inv obtain n where n: "duo_inv (pair s)" "places_ok s" "remaining (pair s) = n + unsignalled (prod s) + taken (cons s)"
    "account (wait_pc_of (cons s)) (sint (m_count (sem s))) (m_sema (sem s) + posting (prod s)) n" "n < 2 ^ 62"
    by (rule binvE)
  from n(2) c obtain k where k: "taking (pair s) = Some (inner_call op, k)"
    and before: "op \<noteq> Peek \<Longrightarrow> entered_before (pair s) \<noteq> departed (pair s)" by (auto simp: places_ok_def)
  from n(1) k show thesis
  proof (cases rule: duo_take_effect)
    case (inside d' k')
    define s' where "s' = s\<lparr>pair := d'\<rparr>"
    note e = inside(4,6-9)
    have "consumer_step ans s = Inr s'" using inside c by (simp add: consumer_step_def s'_def)
    moreover have "binv s'"
      by (rule binvI [of _ n]) (use n c e inside(3) in \<open>auto simp: s'_def places_ok_def shares remaining_def\<close>)
    ultimately show thesis using that(1) [of s' k k'] c e k inside(5) by (simp add: s'_def)
  next
    case (returns d' y)
    define s' where "s' = s\<lparr>pair := d', cons := Idle\<rparr>"
    note e = returns(4-7)
    have y: "op \<noteq> Peek \<Longrightarrow> y \<noteq> None" using returns(8) before by (auto split: option.splits)
    have ok: "(op = Peek \<or> Some y \<noteq> Some None) = True" using y by auto
    have "consumer_step ans s = Inr s'"
      unfolding consumer_step_def c consumer.case returns(1) bindE_simps ok using returns(2) by (simp add: s'_def)
    moreover have "binv s'"
      by (rule binvI [of _ n])
        (use n c e y returns(3) in \<open>auto simp: s'_def places_ok_def shares remaining_def split: if_splits\<close>)
    ultimately show thesis using that(2) [of s' y] c e y by (simp add: s'_def)
  qed
qed

lemma consumer_keeps:
  assumes inv: "binv s" and can: "consumer_can ans s"
  shows "\<exists>s'. consumer_step ans s = Inr s' \<and> binv s'"
proof (cases "cons s")
  case Idle
  with inv show ?thesis by (simp add: consumer_step_def)
next
  case (Waiting op pc)
  with can consumer_waits [OF inv] show ?thesis by (simp add: consumer_can_def)
next
  case (Taking op)
  from consumer_takes [OF inv this, of ans] show ?thesis by (cases; blast)
qed

lemma producer_keeps:
  assumes inv: "binv s"
  shows "\<exists>s'. producer_step posted s = Inr s' \<and> binv s'"
proof -
  from inv obtain n where n: "duo_inv (pair s)" "places_ok s" "remaining (pair s) = n + unsignalled (prod s) + taken (cons s)"
    "account (wait_pc_of (cons s)) (sint (m_count (sem s))) (m_sema (sem s) + posting (prod s)) n" "n < 2 ^ 62"
    by (rule binvE)
  from n(2) consider "prod s = Ready" | "prod s = Putting" | "prod s = Signalling (Adding 1)"
    | "prod s = Signalling Posting" by (auto simp: places_ok_def)
  then show ?thesis
  proof cases
    case 1
    with inv show ?thesis by (simp add: producer_step_def)
  next
    case 2
    with n(2) obtain m mem x pc where p: "putting (pair s) = Some ((m, mem, x), pc)" by (auto simp: places_ok_def)
    from n(1) p show ?thesis
    proof (cases rule: duo_put_effect)
      case (inside d' pc')
      define s' where "s' = s\<lparr>pair := d'\<rparr>"
      have "producer_step posted s = Inr s'" using inside 2 by (simp add: producer_step_def s'_def)
      moreover have "binv s'"
        by (rule binvI [of _ n]) (use n 2 inside in \<open>auto simp: s'_def places_ok_def shares remaining_def split: consumer.splits\<close>)
      ultimately show ?thesis by blast
    next
      case (returns d' ok)
      define s' where "s' = s\<lparr>pair := d', prod := (if ok then Signalling (Adding 1) else Ready)\<rparr>"
      have "producer_step posted s = Inr s'" using returns 2 by (simp add: producer_step_def s'_def)
      moreover have "length (departed (pair s)) \<le> length (entered (pair s))"
        using entered_departed [OF n(1)] by auto
      then have "binv s'"
        by (intro binvI [of _ n])
          (use n 2 returns in \<open>auto simp: s'_def places_ok_def shares remaining_def Suc_diff_le split: consumer.splits if_splits\<close>)
      ultimately show ?thesis by blast
    qed
  next
    case 3
    from signal_add [OF _ n(5), of "wait_pc_of (cons s)" "sem s" posted] n(4) 3 obtain r m where
      sig: "signal_at posted (Adding 1) (sem s) = Inr (r, m)" "r \<in> {None, Some Posting}"
      "account (wait_pc_of (cons s)) (sint (m_count m)) (m_sema m + of_bool (r = Some Posting)) (Suc n)"
      by (auto simp del: signal_at.simps simp: posting_def)
    define s' where "s' = s\<lparr>sem := m, prod := (case r of None \<Rightarrow> Ready | Some pc \<Rightarrow> Signalling pc)\<rparr>"
    have "producer_step posted s = Inr s'" using sig(1) 3 by (simp add: producer_step_def s'_def)
    moreover have "binv s'"
      by (rule binvI [of _ "Suc n"])
        (use n 3 sig(2,3) in \<open>auto simp: s'_def places_ok_def unsignalled_def posting_def split: consumer.splits\<close>)
    ultimately show ?thesis by blast
  next
    case 4
    define s' where "s' = (if posted then s\<lparr>sem := (sem s)\<lparr>m_sema := m_sema (sem s) + 1\<rparr>, prod := Ready\<rparr> else s)"
    have "producer_step posted s = Inr s'" using 4 by (simp add: producer_step_def s'_def)
    moreover have "binv s'"
    proof (cases posted)
      case True
      then show ?thesis
        by (intro binvI [of _ n])
          (use n 4 in \<open>auto simp: s'_def places_ok_def unsignalled_def posting_def split: consumer.splits\<close>)
    next
      case False
      with inv show ?thesis by (simp add: s'_def)
    qed
    ultimately show ?thesis by blast
  qed
qed

lemma binv_step:
  assumes inv: "binv s" and step: "bstep s s'"
  shows "binv s'"
  using step
proof cases
  case (BeginTake op)
  with begin_op_keeps [OF inv] show ?thesis by simp
next
  case (Consume ans)
  with consumer_keeps [OF inv, of ans] show ?thesis by auto
next
  case (BeginPut c)
  with begin_put_keeps [OF inv] show ?thesis by simp
next
  case (Produce posted)
  with producer_keeps [OF inv, of posted] show ?thesis by auto
qed

lemma new_blocking_holds:
  fixes q :: "'a bq"
  assumes "0 < maxSize" "unat maxSize < 2 ^ 32" "new_blocking (\<lambda>_. True) maxSize = Inr q"
  shows "rwq_holds (inner q) [] \<and> sema q = \<lparr>m_count = 0, m_sema = 0\<rparr>"
proof -
  from assms(3) have "new_queue (\<lambda>_. True) maxSize = Inr (inner q)" "sema q = \<lparr>m_count = 0, m_sema = 0\<rparr>"
    by (auto simp: new_blocking_def new_sema_def bindE_eq_Inr)
  with new_queue_holds [OF assms(1,2)] show ?thesis by blast
qed

lemma binv_reachable:
  assumes "0 < maxSize" "unat maxSize < 2 ^ 32" "new_blocking (\<lambda>_. True) maxSize = Inr q"
    "bstep\<^sup>*\<^sup>* (blocking_system q) s"
  shows "binv s"
  using assms(4)
proof induction
  case base
  from new_blocking_holds [OF assms(1-3)] have q: "rwq_holds (inner q) []" "sema q = \<lparr>m_count = 0, m_sema = 0\<rparr>"
    by blast+
  from q(1) have "duo_inv (idle_duo (inner q))" by (rule duo_reachable) simp
  with q(2) show ?case
    by (intro binvI [of _ 0]) (auto simp: blocking_system_def places_ok_def shares remaining_def idle_duo_def)
next
  case (step s s')
  then show ?case by (blast intro: binv_step)
qed

subsection \<open>The consumer alone\<close>

text \<open>The consumer runs while the producer does nothing, and the operating system serves it.\<close>

fun alone :: "nat \<Rightarrow> 'a bsys \<Rightarrow> 'a bsys option" where
  "alone 0 s = Some s"
| "alone (Suc k) s =
     (if consumer_can Acquired s
      then case consumer_step Acquired s of Inl _ \<Rightarrow> None | Inr s \<Rightarrow> alone k s
      else None)"

text \<open>How many steps a wait that finds a token still takes.\<close>

fun steps_left :: "wait_pc \<Rightarrow> nat" where
  "steps_left Restore = 3"
| "steps_left TryLoad = 2"
| "steps_left (SpinLoad _) = 2"
| "steps_left Retake = 2"
| "steps_left _ = 1"

lemma wait_progress:
  assumes "account pc (sint (m_count s)) (m_sema s) n" "0 < n" "n < 2 ^ 62"
  shows "kernel_can Acquired pc s"
    "case wait_at call Acquired pc s of
       (Inl pc', _) \<Rightarrow> steps_left pc' < steps_left pc
     | (Inr b, _) \<Rightarrow> b"
  using assms by (cases pc; cases call; auto simp: kernel_can_def fetch_add_def Let_def split: nat.splits)+

lemma alone_takes:
  assumes "binv s" "cons s = Taking op" "op \<noteq> Peek" "entered (pair s) = departed (pair s) @ x # xs"
    "taking (pair s) = Some (c, k)"
  shows "\<exists>j s'. j \<le> take_left k \<and> alone j s = Some s' \<and> cons s' = Idle \<and>
    entered (pair s') = entered (pair s) \<and> departed (pair s') = departed (pair s) @ [x]"
  using assms
proof (induction "take_left k" arbitrary: s c k rule: less_induct)
  case less
  have can: "consumer_can Acquired s" using less.prems(2) by (simp add: consumer_can_def)
  from less.prems(1,2) show ?case
  proof (cases rule: consumer_takes [where ans = Acquired])
    case (inside s' k1 k')
    with less.prems(5) have k1: "k1 = k" by simp
    have "\<exists>j s''. j \<le> take_left k' \<and> alone j s' = Some s'' \<and> cons s'' = Idle \<and>
        entered (pair s'') = entered (pair s') \<and> departed (pair s'') = departed (pair s') @ [x]"
      using inside k1 less.prems(3,4) by (intro less.hyps [of k' s' "inner_call op"]) simp_all
    then obtain j s'' where j: "j \<le> take_left k'" "alone j s' = Some s''" "cons s'' = Idle"
      "entered (pair s'') = entered (pair s')" "departed (pair s'') = departed (pair s') @ [x]" by blast
    then show ?thesis using inside k1 can by (intro exI [of _ "Suc j"] exI [of _ s'']) simp
  next
    case (returns s' y)
    from returns(8) [OF less.prems(3)] obtain z where z: "y = Some z" by blast
    from returns(2) have "duo_inv (pair s')" by (auto elim: binvE)
    from entered_departed [OF this] returns(6,7) z less.prems(3,4) have "z = x" by auto
    moreover have "1 \<le> take_left k" using take_left_pos(1) [of k] by simp
    ultimately show ?thesis using returns z can less.prems(3) by (intro exI [of _ 1] exI [of _ s']) simp
  qed
qed

lemma alone_gets:
  assumes "binv s" "prod s = Ready" "cons s = Waiting op pc" "entered (pair s) = departed (pair s) @ x # xs"
  shows "\<exists>j s'. j \<le> steps_left pc + 9 \<and> alone j s = Some s' \<and> cons s' = Idle \<and>
    entered (pair s') = entered (pair s) \<and> departed (pair s') = departed (pair s) @ [x]"
  using assms
proof (induction "steps_left pc" arbitrary: s pc rule: less_induct)
  case less
  from less.prems(1) obtain n where n: "places_ok s"
    "remaining (pair s) = n + unsignalled (prod s) + taken (cons s)"
    "account (wait_pc_of (cons s)) (sint (m_count (sem s))) (m_sema (sem s) + posting (prod s)) n" "n < 2 ^ 62"
    by (rule binvE)
  have acc: "account pc (sint (m_count (sem s))) (m_sema (sem s)) n" and pos: "0 < n"
    using n(2,3) less.prems(2-4) by (simp_all add: shares remaining_def)
  note can = wait_progress(1) [OF acc pos n(4)]
    and next_pc = wait_progress(2) [OF acc pos n(4), of "call_of op"]
  from can less.prems(3) have can': "consumer_can Acquired s" by (simp add: consumer_can_def)
  from consumer_waits [OF less.prems(1,3) can] obtain t where t: "consumer_step Acquired s = Inr t" "binv t" by blast
  obtain r m where rm: "wait_at (call_of op) Acquired pc (sem s) = (r, m)" by fastforce
  have peek: "op \<noteq> Peek" using n(1) less.prems(3) by (simp add: places_ok_def)
  show ?case
  proof (cases r)
    case (Inl pc')
    with t(1) rm less.prems(3) have s': "t = s\<lparr>sem := m, cons := Waiting op pc'\<rparr>" by (simp add: consumer_step_def)
    from Inl next_pc rm have left: "steps_left pc' < steps_left pc" by simp
    have "\<exists>j s'. j \<le> steps_left pc' + 9 \<and> alone j t = Some s' \<and> cons s' = Idle \<and>
        entered (pair s') = entered (pair t) \<and> departed (pair s') = departed (pair t) @ [x]"
      using left t(2) s' less.prems(2,4) by (intro less.hyps) simp_all
    then obtain j s' where "j \<le> steps_left pc' + 9" "alone j t = Some s'" "cons s' = Idle"
      "entered (pair s') = entered (pair t)" "departed (pair s') = departed (pair t) @ [x]" by blast
    with left t(1) can' s' show ?thesis by (intro exI [of _ "Suc j"] exI [of _ s']) simp
  next
    case (Inr b)
    with next_pc rm have b: b by simp
    with Inr t(1) rm less.prems(3) have s': "t = s\<lparr>sem := m, cons := Taking op, pair := begin_take op (pair s)\<rparr>"
      by (simp add: consumer_step_def)
    have "\<exists>j s'. j \<le> take_left (TakeEnter :: 'a take_pc) \<and> alone j t = Some s' \<and> cons s' = Idle \<and>
        entered (pair s') = entered (pair t) \<and> departed (pair s') = departed (pair t) @ [x]"
      using t(2) s' peek less.prems(4)
      by (intro alone_takes [of t op x xs "inner_call op"]) (simp_all add: begin_take_def)
    then obtain j s' where "j \<le> 9" "alone j t = Some s'" "cons s' = Idle"
      "entered (pair s') = entered (pair t)" "departed (pair s') = departed (pair t) @ [x]" by auto
    moreover have "0 < steps_left pc" by (cases pc) simp_all
    ultimately show ?thesis using t(1) can' s'
      by (intro exI [of _ "Suc j"] exI [of _ s']) (simp add: begin_take_def)
  qed
qed

lemma steps_left_bound: "steps_left pc \<le> 3"
  by (cases pc) simp_all

lemma unat_sint: "0 \<le> sint (w :: i64) \<Longrightarrow> unat w = nat (sint w)"
proof -
  assume "0 \<le> sint w"
  then have t: "take_bit 64 (sint w) = sint w" using sint_lt [of w] by (simp add: take_bit_int_eq_self)
  have "unat (word_of_int k :: i64) = nat (take_bit 64 k)" for k
    unfolding unat_eq_nat_uint by (simp add: uint_word_of_int take_bit_eq_mod)
  from this [of "sint w"] have "unat w = nat (take_bit 64 (sint w))" by simp
  with t show ?thesis by simp
qed

lemma size_approx_of_account:
  assumes "binv s"
  shows "unat (availableApprox (sem s)) \<le> remaining (pair s)"
    "cons s = Idle \<Longrightarrow> prod s = Ready \<Longrightarrow> unat (availableApprox (sem s)) = remaining (pair s)"
proof -
  from assms obtain n where n: "remaining (pair s) = n + unsignalled (prod s) + taken (cons s)"
    and acc: "account (wait_pc_of (cons s)) (sint (m_count (sem s))) (m_sema (sem s) + posting (prod s)) n"
    by (rule binvE)
  have le: "sint (m_count (sem s)) \<le> int n" using acc by (cases "wait_pc_of (cons s)") auto
  have pos: "0 < sint (m_count (sem s)) \<Longrightarrow> unat (m_count (sem s)) = nat (sint (m_count (sem s)))"
    by (rule unat_sint) simp
  show "unat (availableApprox (sem s)) \<le> remaining (pair s)"
    using le pos n by (auto simp: availableApprox_def Let_def)
  assume "cons s = Idle" "prod s = Ready"
  with acc n pos show "unat (availableApprox (sem s)) = remaining (pair s)"
    by (auto simp: availableApprox_def Let_def wait_pc_of_def unsignalled_def taken_def)
qed

subsection \<open>The properties\<close>

text \<open>
  C16. However the steps of a producer and a consumer of a blocking queue interleave, no step of a
  thread faults: what a thread that has taken a token from the semaphore asks of the queue inside
  is there, the assertion that it is holds, and the semaphore never loses a count. What came out
  of the queue is at every moment a prefix of what was put in, the approximate size is never more
  than the elements that remain, and it is their number when neither thread is in an operation.
\<close>

theorem blocking_queue_safe:
  assumes "0 < maxSize" "unat maxSize < 2 ^ 32" "new_blocking (\<lambda>_. True) maxSize = Inr q"
    "bstep\<^sup>*\<^sup>* (blocking_system q) s"
  shows "(\<exists>xs. entered (pair s) = departed (pair s) @ xs \<and>
      unat (availableApprox (sem s)) \<le> length xs \<and>
      (cons s = Idle \<longrightarrow> prod s = Ready \<longrightarrow>
        unat (blocking_size_approx \<lparr>inner = queue (pair s), sema = sem s\<rparr>) = length xs \<and>
        rwq_holds (queue (pair s)) xs)) \<and>
    (\<forall>ans. consumer_can ans s \<longrightarrow> (\<exists>t. consumer_step ans s = Inr t)) \<and>
    (\<forall>posted. \<exists>t. producer_step posted s = Inr t)"
proof -
  from binv_reachable [OF assms] have inv: "binv s" .
  then have d: "duo_inv (pair s)" and p: "places_ok s" by (auto elim: binvE)
  from entered_departed [OF d] obtain xs where xs: "entered (pair s) = departed (pair s) @ xs" ..
  then have rest: "remaining (pair s) = length xs" by (simp add: remaining_def)
  have "rwq_holds (queue (pair s)) xs" if "cons s = Idle" "prod s = Ready"
    using idle_duo_rwq [OF d] p that xs by (auto simp: places_ok_def)
  then have "\<exists>xs. entered (pair s) = departed (pair s) @ xs \<and>
      unat (availableApprox (sem s)) \<le> length xs \<and>
      (cons s = Idle \<longrightarrow> prod s = Ready \<longrightarrow>
        unat (blocking_size_approx \<lparr>inner = queue (pair s), sema = sem s\<rparr>) = length xs \<and>
        rwq_holds (queue (pair s)) xs)"
    using xs size_approx_of_account [OF inv]
    by (intro exI [of _ xs]) (simp add: blocking_size_approx_def rest)
  then show ?thesis using consumer_keeps [OF inv] producer_keeps [OF inv] by blast
qed

text \<open>
  C17. No wakeup is lost: when an element is in the queue and the producer is outside its
  operations, a consumer that waits, wherever it is in the wait and even asleep in the kernel,
  returns with the oldest element after at most 12 steps of its own.
\<close>

theorem no_lost_wakeup:
  assumes "0 < maxSize" "unat maxSize < 2 ^ 32" "new_blocking (\<lambda>_. True) maxSize = Inr q"
    "bstep\<^sup>*\<^sup>* (blocking_system q) s" "prod s = Ready" "cons s = Waiting op pc"
    "entered (pair s) = departed (pair s) @ x # xs"
  shows "\<exists>k s'. k \<le> 12 \<and> alone k s = Some s' \<and> cons s' = Idle \<and>
    entered (pair s') = entered (pair s) \<and> departed (pair s') = departed (pair s) @ [x]"
proof -
  from alone_gets [OF binv_reachable [OF assms(1-4)] assms(5-7)] obtain k s' where
    "k \<le> steps_left pc + 9" "alone k s = Some s'" "cons s' = Idle"
    "entered (pair s') = entered (pair s)" "departed (pair s') = departed (pair s) @ [x]" by blast
  with steps_left_bound [of pc] show ?thesis by (intro exI [of _ k] exI [of _ s']) simp
qed

subsection \<open>A consumer that sleeps\<close>

text \<open>
  On an empty queue the consumer spins until it sleeps; then an element is put in and signalled.
\<close>

definition empty_bq :: "u8 bq" where
  "empty_bq = \<lparr>inner = default_queue, sema = \<lparr>m_count = 0, m_sema = 0\<rparr>\<rparr>"

lemma new_blocking_default: "new_blocking (\<lambda>_. True) 15 = Inr empty_bq"
  by (simp add: new_blocking_def new_sema_def new_queue_default empty_bq_def)

abbreviation waiting_at :: "wait_pc \<Rightarrow> i64 \<Rightarrow> nat \<Rightarrow> producer \<Rightarrow> 'a duo \<Rightarrow> 'a bsys" where
  "waiting_at pc count k p d \<equiv>
     \<lparr>pair = d, sem = \<lparr>m_count = count, m_sema = k\<rparr>, cons = Waiting WaitDequeue pc, prod = p\<rparr>"

lemma bstep_trans: "bstep s t \<Longrightarrow> bstep\<^sup>*\<^sup>* t u \<Longrightarrow> bstep\<^sup>*\<^sup>* s u"
  by (rule converse_rtranclp_into_rtranclp)

lemma waits_to:
  "wait_at (WaitFor (-1)) Interrupted pc \<lparr>m_count = c, m_sema = k\<rparr> = (Inl pc', \<lparr>m_count = c', m_sema = k\<rparr>) \<Longrightarrow>
   bstep (waiting_at pc c k p d) (waiting_at pc' c' k p d)"
  by (rule bstep.Consume [of Interrupted]) (auto simp: consumer_can_def kernel_can_def consumer_step_def call_of_def)

lemma spins_to: "bstep\<^sup>*\<^sup>* (waiting_at (SpinLoad n) 0 k p d) (waiting_at (SpinLoad 0) 0 k p d)"
proof (induction n)
  case (Suc n)
  have "bstep (waiting_at (SpinLoad (Suc n)) 0 k p d) (waiting_at (SpinLoad n) 0 k p d)"
    by (rule waits_to) simp
  with Suc show ?case by (rule converse_rtranclp_into_rtranclp [rotated])
qed simp

lemma sleeps: "bstep\<^sup>*\<^sup>* (blocking_system empty_bq) (waiting_at KernelWait (-1) 0 Ready (idle_duo default_queue))"
proof -
  note step = bstep_trans
  let ?d = "idle_duo (default_queue :: u8 rwq)"
  have f1: "bstep (blocking_system empty_bq) (waiting_at TryLoad 0 0 Ready ?d)"
    using bstep.BeginTake [of "blocking_system empty_bq" WaitDequeue]
    by (simp add: blocking_system_def empty_bq_def begin_op_def)
  have f2: "bstep (waiting_at TryLoad 0 0 Ready ?d) (waiting_at (SpinLoad 10000) 0 0 Ready ?d)"
    by (rule waits_to) simp
  have f3: "bstep\<^sup>*\<^sup>* (waiting_at (SpinLoad 10000) 0 0 Ready ?d) (waiting_at (SpinLoad 0) 0 0 Ready ?d)"
    by (rule spins_to)
  have f4: "bstep (waiting_at (SpinLoad 0) 0 0 Ready ?d) (waiting_at LastTake 0 0 Ready ?d)"
    by (rule waits_to) simp
  have f5: "bstep (waiting_at LastTake 0 0 Ready ?d) (waiting_at KernelWait (-1) 0 Ready ?d)"
    by (rule waits_to) (simp add: fetch_add_def)
  show ?thesis
    by (rule step [OF f1], rule step [OF f2], rule rtranclp_trans [OF f3], rule step [OF f4], rule step [OF f5]) simp
qed

lemma example_puts:
  fixes q0 :: "u8 rwq" and c :: "u8 put_call"
  defines "q0 \<equiv> default_queue" and "c \<equiv> (CanAlloc, True, 7)"
  shows "\<exists>q1 q2. put_at c PutEnter q0 = Inr (Inl (PutCell 0 1), q0) \<and>
    put_at c (PutCell 0 1) q0 = Inr (Inl (PutTail 1), q1) \<and> put_at c (PutTail 1) q1 = Inr (Inr True, q2)"
  by (simp add: q0_def c_def default_queue_def new_block_def deref_def construct_def store_def Let_def)

lemma puts_to: "put_at c pc q = Inr (Inl pc', q') \<Longrightarrow> d = (idle_duo q0)\<lparr>queue := q, putting := Some (c, pc)\<rparr> \<Longrightarrow>
   bstep (waiting_at w n k Putting d) (waiting_at w n k Putting (d\<lparr>queue := q', putting := Some (c, pc')\<rparr>))"
  by (rule bstep.Produce [of False]) (simp add: producer_step_def put_returns_def duo_put_def)

lemma wakes:
  "\<exists>d. bstep\<^sup>*\<^sup>* (waiting_at KernelWait (-1) 0 Ready (idle_duo default_queue)) (waiting_at KernelWait 0 1 Ready d) \<and>
     entered d = [7 :: u8] \<and> departed d = []"
proof -
  note step = bstep_trans
  let ?c = "(CanAlloc, True, 7 :: u8)"
  from example_puts obtain q1 q2 where q: "put_at ?c PutEnter default_queue = Inr (Inl (PutCell 0 1), default_queue)"
    "put_at ?c (PutCell 0 1) default_queue = Inr (Inl (PutTail 1), q1)" "put_at ?c (PutTail 1) q1 = Inr (Inr True, q2)"
    by blast
  define d where "d = (\<lambda>q pc. (idle_duo (default_queue :: u8 rwq))\<lparr>queue := q, putting := Some (?c, pc)\<rparr>)"
  define d' where "d' = (idle_duo (default_queue :: u8 rwq))\<lparr>queue := q2, putting := None, entered := [7]\<rparr>"
  have f1: "bstep (waiting_at KernelWait (-1) 0 Ready (idle_duo default_queue))
      (waiting_at KernelWait (-1) 0 Putting (d default_queue PutEnter))"
    using bstep.BeginPut [of "waiting_at KernelWait (-1) 0 Ready (idle_duo default_queue)" ?c]
    by (simp add: begin_put_def d_def idle_duo_def)
  have f2: "bstep (waiting_at KernelWait (-1) 0 Putting (d default_queue PutEnter))
      (waiting_at KernelWait (-1) 0 Putting (d default_queue (PutCell 0 1)))"
    using puts_to [OF q(1)] by (simp add: d_def)
  have f3: "bstep (waiting_at KernelWait (-1) 0 Putting (d default_queue (PutCell 0 1)))
      (waiting_at KernelWait (-1) 0 Putting (d q1 (PutTail 1)))"
    using puts_to [OF q(2)] by (simp add: d_def)
  have f4: "bstep (waiting_at KernelWait (-1) 0 Putting (d q1 (PutTail 1)))
      (waiting_at KernelWait (-1) 0 (Signalling (Adding 1)) d')"
    by (rule bstep.Produce [of False])
      (simp add: producer_step_def put_returns_def duo_put_def d_def d'_def q(3) idle_duo_def del: put_at.simps)
  have f5: "bstep (waiting_at KernelWait (-1) 0 (Signalling (Adding 1)) d') (waiting_at KernelWait 0 0 (Signalling Posting) d')"
    by (rule bstep.Produce [of False]) (simp add: producer_step_def fetch_add_def)
  have f6: "bstep (waiting_at KernelWait 0 0 (Signalling Posting) d') (waiting_at KernelWait 0 1 Ready d')"
    by (rule bstep.Produce [of True]) (simp add: producer_step_def)
  have "bstep\<^sup>*\<^sup>* (waiting_at KernelWait (-1) 0 Ready (idle_duo default_queue)) (waiting_at KernelWait 0 1 Ready d')"
    by (rule step [OF f1], rule step [OF f2], rule step [OF f3], rule step [OF f4], rule step [OF f5],
        rule step [OF f6]) simp
  then show ?thesis by (intro exI [of _ d']) (simp add: d'_def idle_duo_def)
qed

lemma example_wakes:
  "\<exists>s. bstep\<^sup>*\<^sup>* (blocking_system empty_bq) s \<and> prod s = Ready \<and> cons s = Waiting WaitDequeue KernelWait \<and>
     entered (pair s) = [7] \<and> departed (pair s) = []"
proof -
  from wakes obtain d where "bstep\<^sup>*\<^sup>* (waiting_at KernelWait (-1) 0 Ready (idle_duo default_queue))
      (waiting_at KernelWait 0 1 Ready d)" "entered d = [7 :: u8]" "departed d = []" by blast
  with rtranclp_trans [OF sleeps] show ?thesis by fastforce
qed

theorem blocking_queue_safe_witness:
  "\<exists>s. bstep\<^sup>*\<^sup>* (blocking_system empty_bq) s \<and> cons s = Waiting WaitDequeue KernelWait \<and>
     unat (availableApprox (sem s)) \<le> 1 \<and> (\<exists>t. producer_step True s = Inr t)"
proof -
  from example_wakes obtain s where s: "bstep\<^sup>*\<^sup>* (blocking_system empty_bq) s"
    "cons s = Waiting WaitDequeue KernelWait" "entered (pair s) = [7]" "departed (pair s) = []" by blast
  from blocking_queue_safe [OF _ _ new_blocking_default s(1)] s(3,4)
  have "unat (availableApprox (sem s)) \<le> 1" "\<exists>t. producer_step True s = Inr t" by simp_all
  with s show ?thesis by blast
qed

theorem no_lost_wakeup_witness:
  "\<exists>s k s'. bstep\<^sup>*\<^sup>* (blocking_system empty_bq) s \<and> cons s = Waiting WaitDequeue KernelWait \<and>
     k \<le> 12 \<and> alone k s = Some s' \<and> cons s' = Idle \<and> departed (pair s') = [7]"
proof -
  from example_wakes obtain s where s: "bstep\<^sup>*\<^sup>* (blocking_system empty_bq) s" "prod s = Ready"
    "cons s = Waiting WaitDequeue KernelWait" "entered (pair s) = [7]" "departed (pair s) = []" by blast
  have "entered (pair s) = departed (pair s) @ 7 # []" using s(4,5) by simp
  from no_lost_wakeup [OF _ _ new_blocking_default s(1-3) this] obtain k s' where
    "k \<le> 12" "alone k s = Some s'" "cons s' = Idle" "departed (pair s') = departed (pair s) @ [7]" by auto
  with s(1,3,5) show ?thesis by (intro exI [of _ s] exI [of _ k] exI [of _ s']) simp
qed

end
