(* ===== verification/Os_Semaphore.thy ===== *)
theory Os_Semaphore
  imports Blocking_Queue "HOL-Library.Signed_Division"
begin

text \<open>
  The class \<open>Semaphore\<close> of \<open>atomicops.h\<close>, the wrapper of the semaphore of the operating system, of
  which there is one for POSIX, one for Windows and one for macOS. What the operating system answers
  to the calls is an argument. The machine of \<open>Semaphore\<close> takes the calls of the POSIX wrapper one
  at a time; here are its functions as a whole, those of the other two, and where they differ.
\<close>

subsection \<open>Construction and signals\<close>

type_synonym i32 = "32 word" \<comment> \<open>read as two's complement with \<open>sint\<close>\<close>

text \<open>\<open>made\<close> tells whether the operating system has made the semaphore.\<close>

definition new_semaphore :: "i32 \<Rightarrow> bool \<Rightarrow> nat res" where
  "new_semaphore initialCount made =
     bindE (assertE (0 \<le> sint initialCount)) (\<lambda>_.
     bindE (assertE made) (\<lambda>_. Inr (nat (sint initialCount))))"

text \<open>
  A signal repeats its call until it succeeds. The list has the answers to come; the result the
  value of the semaphore and the answers left, or \<open>None\<close> while the loop goes on.
\<close>

fun until_posted :: "nat \<Rightarrow> bool list \<Rightarrow> nat \<Rightarrow> (nat \<times> bool list) option" where
  "until_posted n [] k = None"
| "until_posted n (posted # answers) k =
     (if posted then Some (k + n, answers) else until_posted n answers k)"

definition posix_signal :: "bool list \<Rightarrow> nat \<Rightarrow> (nat \<times> bool list) option" where
  "posix_signal answers k = until_posted 1 answers k"

definition mach_signal :: "bool list \<Rightarrow> nat \<Rightarrow> (nat \<times> bool list) option" where
  "mach_signal answers k = until_posted 1 answers k"

text \<open>\<open>signal (count)\<close>; Windows adds the count at once.\<close>

function posix_signals :: "i32 \<Rightarrow> bool list \<Rightarrow> nat \<Rightarrow> (nat \<times> bool list) option" where
  "posix_signals count answers k =
     (if 0 < sint count then
        case until_posted 1 answers k of
          None \<Rightarrow> None
        | Some (k, answers) \<Rightarrow> posix_signals (count - 1) answers k
      else Some (k, answers))"
  by pat_completeness auto

lemma sint_pred:
  assumes "0 < sint (w :: i32)"
  shows "sint (w - 1) = sint w - 1"
proof -
  have "sint w < 2 ^ 31" using sint_lt [of w] by simp
  with assms show ?thesis by (simp add: sint_word_ariths signed_take_bit_int_eq_self)
qed

termination posix_signals
  by (relation "measure (\<lambda>(count, _). nat (sint count))") (auto simp: sint_pred)

declare posix_signals.simps [simp del]

definition mach_signals :: "i32 \<Rightarrow> bool list \<Rightarrow> nat \<Rightarrow> (nat \<times> bool list) option" where
  "mach_signals count answers k = posix_signals count answers k"

definition win_signal :: "i32 \<Rightarrow> bool list \<Rightarrow> nat \<Rightarrow> (nat \<times> bool list) option" where
  "win_signal count answers k = until_posted (nat (sint count)) answers k"

lemma until_posted_exact: "until_posted n answers k = Some (k', rest) \<Longrightarrow> k' = k + n"
  by (induction n answers k rule: until_posted.induct) (auto split: if_splits)

lemma until_posted_returns: "True \<in> set answers \<Longrightarrow> until_posted n answers k \<noteq> None"
  by (induction n answers k rule: until_posted.induct) auto

text \<open>However it is signalled, the semaphore goes up by the count.\<close>

lemma signals_exact:
  "posix_signals count answers k = Some (k', rest) \<Longrightarrow> k' = k + nat (sint count)"
proof (induction count answers k rule: posix_signals.induct)
  case (1 count answers k)
  show ?case
  proof (cases "0 < sint count")
    case True
    with 1(2) obtain k1 rest1 where 2: "until_posted 1 answers k = Some (k1, rest1)"
      "posix_signals (count - 1) rest1 k1 = Some (k', rest)"
      by (subst (asm) posix_signals.simps) (auto split: option.splits)
    from 1(1) [OF True 2(1) refl 2(2)] until_posted_exact [OF 2(1)] True show ?thesis
      by (simp add: sint_pred)
  next
    case False
    with 1(2) show ?thesis by (subst (asm) posix_signals.simps) simp
  qed
qed

subsection \<open>Waits\<close>

text \<open>
  The POSIX wrapper repeats a call that was interrupted: \<open>wait\<close> with \<open>sem_wait\<close>, \<open>try_wait\<close> with
  \<open>sem_trywait\<close>, \<open>timed_wait\<close> with \<open>sem_timedwait\<close> and the deadline.
\<close>

fun posix_wait :: "kernel_answer list \<Rightarrow> (bool \<times> kernel_answer list) option" where
  "posix_wait [] = None"
| "posix_wait (Interrupted # answers) = posix_wait answers"
| "posix_wait (Acquired # answers) = Some (True, answers)"
| "posix_wait (Failed # answers) = Some (False, answers)"

definition posix_timed_wait ::
  "int \<times> int \<Rightarrow> (int \<times> int \<Rightarrow> kernel_answer list) \<Rightarrow> u64 \<Rightarrow> (bool \<times> kernel_answer list) option" where
  "posix_timed_wait ts sem_timedwait usecs = posix_wait (sem_timedwait (deadline ts usecs))"

text \<open>
  On Windows the call takes a number of milliseconds, of which the greatest stands for no limit, and
  returns 0 on success.
\<close>

definition win_infinite :: u32 where
  "win_infinite = 0xffffffff"

definition win_millis :: "u64 \<Rightarrow> u32" where
  "win_millis usecs = ucast (usecs div 1000)"

definition win_wait :: "(u32 \<Rightarrow> u32) \<Rightarrow> bool" where
  "win_wait WaitForSingleObject \<longleftrightarrow> WaitForSingleObject win_infinite = 0"

definition win_try_wait :: "(u32 \<Rightarrow> u32) \<Rightarrow> bool" where
  "win_try_wait WaitForSingleObject \<longleftrightarrow> WaitForSingleObject 0 = 0"

definition win_timed_wait :: "(u32 \<Rightarrow> u32) \<Rightarrow> u64 \<Rightarrow> bool" where
  "win_timed_wait WaitForSingleObject usecs \<longleftrightarrow> WaitForSingleObject (win_millis usecs) = 0"

text \<open>On macOS the call takes a number of seconds and one of nanoseconds.\<close>

definition mach_timespec :: "i64 \<Rightarrow> u32 \<times> i32" where
  "mach_timespec timeout_usecs =
     (word_of_int (sint timeout_usecs sdiv 1000000), word_of_int (sint timeout_usecs smod 1000000 * 1000))"

definition mach_wait :: "i32 \<Rightarrow> bool" where
  "mach_wait rc \<longleftrightarrow> rc = 0"

definition mach_timed_wait :: "(u32 \<times> i32 \<Rightarrow> i32) \<Rightarrow> i64 \<Rightarrow> bool" where
  "mach_timed_wait semaphore_timedwait timeout_usecs \<longleftrightarrow> semaphore_timedwait (mach_timespec timeout_usecs) = 0"

definition mach_try_wait :: "(u32 \<times> i32 \<Rightarrow> i32) \<Rightarrow> bool" where
  "mach_try_wait semaphore_timedwait \<longleftrightarrow> mach_timed_wait semaphore_timedwait 0"

text \<open>What a wait sees of a wrapper: whether it returned true.\<close>

definition returned :: "bool \<Rightarrow> kernel_answer" where
  "returned ok = (if ok then Acquired else Failed)"

text \<open>The steps of a wait that stays at its call of the operating system.\<close>

fun kernel_calls ::
  "wait_call \<Rightarrow> wait_pc \<Rightarrow> kernel_answer list \<Rightarrow> sema \<Rightarrow> ((wait_pc + bool) \<times> sema \<times> kernel_answer list) option" where
  "kernel_calls call pc [] s = None"
| "kernel_calls call pc (ans # answers) s =
     (case wait_at call ans pc s of
        (Inl pc', s') \<Rightarrow> if pc' = pc then kernel_calls call pc answers s' else Some (Inl pc', s', answers)
      | (Inr ok, s') \<Rightarrow> Some (Inr ok, s', answers))"

text \<open>They are the loop of the POSIX wrapper.\<close>

lemma posix_wrapper:
  assumes "pc \<in> {KernelWait, KernelTimed, TryKernel}"
  shows "kernel_calls call pc answers s =
     (case posix_wait answers of
        None \<Rightarrow> None
      | Some (ok, rest) \<Rightarrow> (case wait_at call (returned ok) pc s of (r, s') \<Rightarrow> Some (r, s', rest)))"
  using assms by (induction answers rule: posix_wait.induct) (auto simp: returned_def)

subsection \<open>Timeouts\<close>

lemma win_millis_mod: "unat (win_millis usecs) = unat usecs div 1000 mod 2 ^ 32"
proof -
  have "unat (ucast w :: u32) = unat w mod 2 ^ 32" for w :: u64
    by transfer (simp add: take_bit_take_bit take_bit_eq_mod nat_mod_distrib)
  then show ?thesis by (simp add: win_millis_def unat_div_distrib)
qed

lemma mach_timespec_exact:
  assumes "0 \<le> sint t" "sint t < 4294967296000000"
  shows "uint (fst (mach_timespec t)) = sint t div 1000000"
    "sint (snd (mach_timespec t)) = sint t mod 1000000 * 1000"
proof -
  have d: "sint t sdiv 1000000 = sint t div 1000000" "sint t smod 1000000 = sint t mod 1000000"
    using assms(1) by (cases "sint t = 0"; simp add: signed_divide_int_def signed_modulo_int_def)+
  have "sint t div 1000000 < 2 ^ 32" "0 \<le> sint t div 1000000" using assms by simp_all
  then show "uint (fst (mach_timespec t)) = sint t div 1000000"
    by (simp add: mach_timespec_def d uint_word_of_int)
  have "sint t mod 1000000 < 1000000" "0 \<le> sint t mod 1000000" by simp_all
  then have r: "sint t mod 1000000 * 1000 < 2147483648" "- 2147483648 \<le> sint t mod 1000000 * 1000" by simp_all
  have "sint (word_of_int x :: i32) = x" if "x < 2147483648" "- 2147483648 \<le> x" for x
    using that by (simp add: signed_of_int signed_take_bit_int_eq_self)
  from this [OF r] show "sint (snd (mach_timespec t)) = sint t mod 1000000 * 1000"
    unfolding mach_timespec_def d by simp
qed

text \<open>
  C19. How long a timed wait lasts at most. On POSIX the deadline is the time of the clock and the
  timeout, exactly, and well-formed. On macOS the timeout is exact up to 2 to the 32 seconds, in
  whole seconds and less than a second of nanoseconds. On Windows it is rounded down to
  milliseconds, modulo 2 to the 32: up to 4294967294999 microseconds, less than 50 days, the wait
  is short by less than a millisecond; the millisecond after that has no limit at all; and the
  microsecond after that one does not wait.
\<close>

theorem timed_waits:
  assumes "0 \<le> snd ts" "snd ts < 1000000000"
  shows "0 \<le> snd (deadline ts usecs) \<and> snd (deadline ts usecs) < 1000000000 \<and>
    fst (deadline ts usecs) * 1000000000 + snd (deadline ts usecs) =
      fst ts * 1000000000 + snd ts + uint usecs * 1000 \<and>
    (0 \<le> sint t \<longrightarrow> sint t < 4294967296000000 \<longrightarrow>
      uint (fst (mach_timespec t)) * 1000000000 + sint (snd (mach_timespec t)) = sint t * 1000 \<and>
      0 \<le> sint (snd (mach_timespec t)) \<and> sint (snd (mach_timespec t)) < 1000000000) \<and>
    (uint usecs < 4294967295000 \<longrightarrow>
      uint (win_millis usecs) * 1000 \<le> uint usecs \<and> uint usecs < uint (win_millis usecs) * 1000 + 1000 \<and>
      win_millis usecs \<noteq> win_infinite) \<and>
    (4294967295000 \<le> uint usecs \<longrightarrow> uint usecs < 4294967296000 \<longrightarrow> win_millis usecs = win_infinite) \<and>
    win_millis 4294967296000 = 0"
proof -
  have win: "uint (win_millis u) = uint u div 1000 mod 4294967296" for u
  proof -
    have "uint (win_millis u) = int (unat u div 1000 mod 2 ^ 32)" by (simp only: uint_nat win_millis_mod)
    also have "\<dots> = int (unat u) div 1000 mod 4294967296" by (simp only: zdiv_int zmod_int) simp
    finally show ?thesis by (simp only: uint_nat)
  qed
  have "win_millis 4294967296000 = 0" by (simp add: win_millis_def)
  moreover have "uint usecs < 4294967295000 \<longrightarrow>
      uint (win_millis usecs) * 1000 \<le> uint usecs \<and> uint usecs < uint (win_millis usecs) * 1000 + 1000 \<and>
      win_millis usecs \<noteq> win_infinite"
  proof
    assume "uint usecs < 4294967295000"
    then have d: "uint usecs div 1000 < 4294967295" "0 \<le> uint usecs div 1000"
      using uint_ge_0 [of usecs] by (simp_all add: pos_imp_zdiv_nonneg_iff)
    then have w: "uint (win_millis usecs) = uint usecs div 1000" using win by simp
    have "uint win_infinite = 4294967295" by (simp add: win_infinite_def)
    with w d(1) have "win_millis usecs \<noteq> win_infinite" by auto
    moreover have "uint usecs div 1000 * 1000 \<le> uint usecs" "uint usecs < uint usecs div 1000 * 1000 + 1000"
      by linarith+
    ultimately show "uint (win_millis usecs) * 1000 \<le> uint usecs \<and>
      uint usecs < uint (win_millis usecs) * 1000 + 1000 \<and> win_millis usecs \<noteq> win_infinite" using w by simp
  qed
  moreover have "win_millis usecs = win_infinite" if "4294967295000 \<le> uint usecs" "uint usecs < 4294967296000"
  proof -
    from that have "uint usecs div 1000 = 4294967295" by linarith
    with win have "uint (win_millis usecs) = 4294967295" by simp
    moreover have "uint win_infinite = 4294967295" by (simp add: win_infinite_def)
    ultimately show ?thesis by (simp add: word_uint_eqI)
  qed
  moreover have "uint (fst (mach_timespec t)) * 1000000000 + sint (snd (mach_timespec t)) = sint t * 1000 \<and>
      0 \<le> sint (snd (mach_timespec t)) \<and> sint (snd (mach_timespec t)) < 1000000000"
    if "0 \<le> sint t" "sint t < 4294967296000000"
  proof -
    have "sint t mod 1000000 < 1000000" "0 \<le> sint t mod 1000000" by simp_all
    moreover have "sint t div 1000000 * 1000000 + sint t mod 1000000 = sint t" by simp
    ultimately show ?thesis unfolding mach_timespec_exact [OF that] by linarith
  qed
  ultimately show ?thesis using deadline_exact [OF assms, of usecs] by blast
qed

theorem timed_waits_witness:
  "win_millis 1500 = 1 \<and> deadline (10, 999999999) 1500 = (11, 1499999) \<and>
   fst (deadline (10, 999999999) 1500) * 1000000000 + snd (deadline (10, 999999999) 1500) = 11001499999"
  using timed_waits [of "(10, 999999999)" 1500 0] by (simp add: win_millis_def deadline_def)

subsection \<open>A wait that is interrupted\<close>

text \<open>The consumer takes some steps, with the same answer of the operating system to all calls.\<close>

primrec consumer_steps :: "nat \<Rightarrow> kernel_answer \<Rightarrow> 'a bsys \<Rightarrow> 'a bsys res" where
  "consumer_steps 0 ans s = Inr s"
| "consumer_steps (Suc n) ans s = bindE (consumer_step ans s) (consumer_steps n ans)"

lemma consumer_steps_add:
  "consumer_steps (m + n) ans s = bindE (consumer_steps m ans s) (consumer_steps n ans)"
proof (induction m arbitrary: s)
  case (Suc m)
  then show ?case by (cases "consumer_step ans s") simp_all
qed simp

lemma spins:
  assumes "sint (m_count (sem s)) \<le> 0" "cons s = Waiting WaitDequeue (SpinLoad n)"
  shows "consumer_steps n ans s = Inr (s\<lparr>cons := Waiting WaitDequeue (SpinLoad 0)\<rparr>)"
  using assms
proof (induction n arbitrary: s)
  case 0
  then show ?case by (simp add: bsys.defs)
next
  case (Suc n)
  then show ?case by (simp add: consumer_step_def call_of_def Suc.IH)
qed

text \<open>
  C18. An interrupted sleep. A consumer asleep in \<open>wait_dequeue\<close> has the count at -1. When the
  call of the operating system is interrupted, POSIX repeats it, and nothing has changed. On macOS
  the wrapper returns false (14 is \<open>KERN_ABORTED\<close>), and so does the wait, which has decremented the
  count and does not restore it; \<open>wait_dequeue\<close> waits again and decrements it once more, and the
  next \<open>signal\<close> of the producer fails its assertion.
\<close>

theorem interrupted_wait:
  assumes "cons s = Waiting WaitDequeue KernelWait" "m_count (sem s) = -1"
  shows "consumer_step Interrupted s = Inr s \<and>
    (\<exists>s'. consumer_steps 10004 (returned (mach_wait 14)) s = Inr s' \<and>
       cons s' = Waiting WaitDequeue KernelWait \<and> m_count (sem s') = -2 \<and> pair s' = pair s \<and>
       (prod s = Signalling (Adding 1) \<longrightarrow> producer_step posted s' = Inl AssertFailed))"
proof -
  let ?s = "\<lambda>c pc. s\<lparr>sem := (sem s)\<lparr>m_count := c\<rparr>, cons := Waiting WaitDequeue pc\<rparr>"
  have same: "?s (-1) pc = s\<lparr>cons := Waiting WaitDequeue pc\<rparr>" for pc
    using assms(2) by simp
  have 1: "consumer_step (returned (mach_wait 14)) s = Inr (?s (-1) TryLoad)"
    using assms by (simp add: consumer_step_def returned_def mach_wait_def)
  have 2: "consumer_step (returned (mach_wait 14)) (?s (-1) TryLoad) = Inr (?s (-1) (SpinLoad 10000))"
    using assms by (simp add: consumer_step_def call_of_def)
  have 3: "consumer_steps 10000 (returned (mach_wait 14)) (?s (-1) (SpinLoad 10000)) = Inr (?s (-1) (SpinLoad 0))"
    using spins [of "?s (-1) (SpinLoad 10000)" 10000] by simp
  have 4: "consumer_step (returned (mach_wait 14)) (?s (-1) (SpinLoad 0)) = Inr (?s (-1) LastTake)"
    by (simp add: consumer_step_def call_of_def)
  have 5: "consumer_step (returned (mach_wait 14)) (?s (-1) LastTake) = Inr (?s (-2) KernelWait)"
    by (simp add: consumer_step_def call_of_def fetch_add_def)
  have "consumer_steps (Suc (Suc (10000 + Suc (Suc 0)))) (returned (mach_wait 14)) s = Inr (?s (-2) KernelWait)"
    by (simp only: consumer_steps.simps consumer_steps_add bindE_simps 1 2 3 4 5)
  moreover have "Suc (Suc (10000 + Suc (Suc 0))) = 10004" by simp
  moreover have "prod s = Signalling (Adding 1) \<Longrightarrow> producer_step posted (?s (-2) KernelWait) = Inl AssertFailed"
    by (simp add: producer_step_def fetch_add_def assertE_def)
  moreover have "consumer_step Interrupted s = Inr s"
    using assms by (simp add: consumer_step_def)
  ultimately show ?thesis by (intro conjI exI [of _ "?s (-2) KernelWait"]) simp_all
qed

theorem interrupted_wait_witness:
  "\<exists>s s'. bstep\<^sup>*\<^sup>* (blocking_system empty_bq) s \<and> consumer_step Interrupted s = Inr s \<and>
     consumer_steps 10004 (returned (mach_wait 14)) s = Inr s' \<and> m_count (sem s') = -2"
proof -
  let ?s = "\<lparr>pair = idle_duo default_queue, sem = \<lparr>m_count = -1, m_sema = 0\<rparr>, cons = Waiting WaitDequeue KernelWait,
    prod = Ready\<rparr> :: u8 bsys"
  from interrupted_wait [of ?s False] obtain s' where "consumer_step Interrupted ?s = Inr ?s"
    "consumer_steps 10004 (returned (mach_wait 14)) ?s = Inr s'" "m_count (sem s') = -2" by auto
  with sleeps show ?thesis by blast
qed

end
