(* ===== verification/Store_Buffers.thy ===== *)
theory Store_Buffers
  imports Prelude
begin

text \<open>
  Two threads whose writes wait in store buffers. The memory is behind each of the threads, by the
  moves whose writes are in its buffer; a thread sees its own moves, and the other as it was. The
  locale has what a component shows of the moves of its two threads, one at a time, and draws the
  conclusion that a thread always sees a good state.
\<close>

text \<open>
  A move leads a thread from one of its own states to another, writes, and changes the state that
  the two share. A sequence of moves has the writes of all of them.
\<close>

inductive moves ::
  "('s \<Rightarrow> 'q \<Rightarrow> 'w list \<Rightarrow> 's \<Rightarrow> 'q \<Rightarrow> bool) \<Rightarrow> 's \<Rightarrow> 'q \<Rightarrow> 'w list \<Rightarrow> 's \<Rightarrow> 'q \<Rightarrow> bool"
  for move where
  Stay: "moves move a q [] a q"
| Go: "move a q w a' q' \<Longrightarrow> moves move a' q' ws a'' q'' \<Longrightarrow> moves move a q (w @ ws) a'' q''"

lemma moves_snoc:
  assumes "moves move a q ws a' q'" "move a' q' w a'' q''"
  shows "moves move a q (ws @ w) a'' q''"
  using assms
proof induction
  case (Stay a q)
  have "moves move a'' q'' [] a'' q''" by (rule moves.Stay)
  from moves.Go [of move, OF Stay this] show ?case by simp
next
  case (Go a q v a1 q1 ws a' q')
  from moves.Go [OF Go.hyps(1) Go.IH [OF Go.prems]] show ?case by simp
qed

text \<open>
  In the locale, \<open>this\<close> and \<open>that\<close> are the moves, \<open>good\<close> the states of the threads and the shared
  state that fit together, and \<open>view\<close> the memory as it is then. The last law: a move of one thread
  can still be made after a move of the other, and the order makes no difference.
\<close>

locale lagging =
  fixes this :: "'a \<Rightarrow> 'q \<Rightarrow> 'w list \<Rightarrow> 'a \<Rightarrow> 'q \<Rightarrow> bool"
    and that :: "'b \<Rightarrow> 'q \<Rightarrow> 'w list \<Rightarrow> 'b \<Rightarrow> 'q \<Rightarrow> bool"
    and good :: "'a \<Rightarrow> 'b \<Rightarrow> 'q \<Rightarrow> bool"
    and view :: "'a \<Rightarrow> 'b \<Rightarrow> 'q \<Rightarrow> 'm"
    and perform :: "'w \<Rightarrow> 'm \<Rightarrow> 'm"
  assumes this_keeps: "good a b q \<Longrightarrow> this a q w a' q' \<Longrightarrow>
      good a' b q' \<and> view a' b q' = fold perform w (view a b q) \<and> length w \<le> 1"
    and that_keeps: "good a b q \<Longrightarrow> that b q w b' q' \<Longrightarrow>
      good a b' q' \<and> view a b' q' = fold perform w (view a b q) \<and> length w \<le> 1"
    and commute: "good a b q \<Longrightarrow> this a q w a' q1 \<Longrightarrow> that b q v b' q2 \<Longrightarrow>
      \<exists>q3. this a q2 w a' q3 \<and> that b q1 v b' q3"
begin

lemma moves_keep:
  "moves this a q ws a' q' \<Longrightarrow> good a b q \<Longrightarrow> good a' b q' \<and> view a' b q' = fold perform ws (view a b q)"
  by (induction rule: moves.induct) (auto dest: this_keeps)

lemma moves_after:
  assumes "moves that b q vs b' q2" "good a b q" "this a q w a' q1"
  shows "\<exists>q3. moves that b q1 vs b' q3"
  using assms
proof (induction arbitrary: q1)
  case (Stay b q)
  show ?case by (rule exI, rule moves.Stay)
next
  case (Go b q v b1 q2 vs b' q4)
  from commute [OF Go.prems(1,2) Go.hyps(1)] obtain q3 where q3: "this a q2 w a' q3" "that b q1 v b1 q3" by blast
  from that_keeps [OF Go.prems(1) Go.hyps(1)] have "good a b1 q2" by blast
  from Go.IH [OF this q3(1)] obtain q5 where "moves that b1 q3 vs b' q5" by blast
  with moves.Go [of that, OF q3(2)] show ?case by blast
qed

text \<open>
  The first write of a buffer gets into the memory: the moves up to the one that made it are done
  for good.
\<close>

lemma drain:
  assumes "moves this a q ws a' qa" "ws = w # ws'" "good a b q" "moves that b q vs b' qb"
  shows "\<exists>a1 q1 qa' qb'. good a1 b q1 \<and> view a1 b q1 = perform w (view a b q) \<and>
    moves this a1 q1 ws' a' qa' \<and> moves that b q1 vs b' qb'"
  using assms
proof (induction arbitrary: qb)
  case (Go a q v a1 q1 ws a' qa)
  note k = this_keeps [OF Go.prems(2) Go.hyps(1)]
  from moves_after [OF Go.prems(3,2) Go.hyps(1)] obtain q3 where q3: "moves that b q1 vs b' q3" by blast
  show ?case
  proof (cases v)
    case Nil
    with Go.IH [OF _ _ q3] Go.prems(1) k show ?thesis by simp
  next
    case (Cons x xs)
    with k Go.prems(1) have "v = [w]" "ws = ws'" by auto
    with k q3 Go.hyps(2) show ?thesis by fastforce
  qed
qed simp

end

end
