(* ===== verification/Write_Reordering.thy ===== *)
theory Write_Reordering
  imports Store_Buffers
begin

text \<open>
  Store buffers that do not keep the order of the writes, but for what a release fence and writes to
  the same place ask for. The locale extends that of buffers that do: a write that has left its
  buffer early is taken back, in thought, until its turn comes.
\<close>

subsection \<open>Buffers\<close>

text \<open>
  A write may leave the buffer before those in front of it, if none of them goes to the same place,
  and if no release fence came after any of them: not before the write itself, and not before one
  that it passes and that is not the first. \<open>released w\<close> tells that a release fence came right
  before the write \<open>w\<close>.
\<close>

definition may_pass :: "('w \<Rightarrow> 'p) \<Rightarrow> ('w \<Rightarrow> bool) \<Rightarrow> 'w list \<Rightarrow> 'w \<Rightarrow> bool" where
  "may_pass place released us w \<longleftrightarrow> (us \<noteq> [] \<longrightarrow> \<not> released w) \<and>
     (\<forall>v\<in>set us. place v \<noteq> place w) \<and> (\<forall>v\<in>set (tl us). \<not> released v)"

text \<open>
  The writes of a thread from the first one that is still in the buffer, with those that have left it
  early marked.
\<close>

type_synonym 'w track = "(bool \<times> 'w) list"

definition early :: "'w track \<Rightarrow> 'w list" where
  "early ts = map snd (filter fst ts)"

definition waiting :: "'w track \<Rightarrow> 'w list" where
  "waiting ts = map snd (filter (\<lambda>(d, w). \<not> d) ts)"

lemma track_simps [simp]:
  "early [] = []" "waiting [] = []"
  "early ((True, w) # ts) = w # early ts" "early ((False, w) # ts) = early ts"
  "waiting ((True, w) # ts) = waiting ts" "waiting ((False, w) # ts) = w # waiting ts"
  "early (ts @ us) = early ts @ early us" "waiting (ts @ us) = waiting ts @ waiting us"
  "early (map (Pair False) ws) = []" "waiting (map (Pair False) ws) = ws"
  by (simp_all add: early_def waiting_def filter_map comp_def)

lemma set_early: "set (early ts) = {w. (True, w) \<in> set ts}"
  by (force simp: early_def)

lemma set_waiting: "set (waiting ts) = {w. (False, w) \<in> set ts}"
  by (force simp: waiting_def)

text \<open>A write that has left early was right to do so.\<close>

primrec passed :: "('w \<Rightarrow> 'p) \<Rightarrow> 'w track \<Rightarrow> bool" where
  "passed place [] = True"
| "passed place (t # ts) =
     ((\<not> fst t \<longrightarrow> (\<forall>v\<in>set (early ts). place (snd t) \<noteq> place v)) \<and> passed place ts)"

primrec unreleased :: "('w \<Rightarrow> bool) \<Rightarrow> 'w track \<Rightarrow> bool" where
  "unreleased released [] = True"
| "unreleased released (t # ts) =
     ((fst t \<or> early ts \<noteq> [] \<longrightarrow> \<not> released (snd t)) \<and> unreleased released ts)"

definition track_ok :: "('w \<Rightarrow> 'p) \<Rightarrow> ('w \<Rightarrow> bool) \<Rightarrow> 'w track \<Rightarrow> bool" where
  "track_ok place released ts \<longleftrightarrow> passed place ts \<and>
     (case ts of [] \<Rightarrow> True | t # ts' \<Rightarrow> \<not> fst t \<and> unreleased released ts')"

lemma passed_snoc: "passed place ts \<Longrightarrow> passed place (ts @ map (Pair False) ws)"
  by (induction ts) (simp_all, induction ws, simp_all)

lemma unreleased_snoc: "unreleased released ts \<Longrightarrow> unreleased released (ts @ map (Pair False) ws)"
  by (induction ts) (simp_all, induction ws, simp_all)

lemma track_ok_snoc: "track_ok place released ts \<Longrightarrow> track_ok place released (ts @ map (Pair False) ws)"
proof (cases ts)
  case Nil
  then show ?thesis
    using passed_snoc [of place "[]" ws] unreleased_snoc [of released "[]" "tl ws"]
    by (cases ws) (simp_all add: track_ok_def)
next
  case (Cons t ts')
  then show "track_ok place released ts \<Longrightarrow> ?thesis"
    using passed_snoc [of place ts ws] unreleased_snoc [of released ts' ws]
    by (simp add: track_ok_def)
qed

text \<open>Where an early write stands, and where one that it has passed.\<close>

lemma early_split: "v \<in> set (early ts) \<Longrightarrow> \<exists>t1 t2. ts = t1 @ (True, v) # t2"
  by (simp add: set_early split_list)

lemma unreleased_before:
  "unreleased released (t1 @ (True, v) # t2) \<Longrightarrow> \<forall>u\<in>set (map snd t1). \<not> released u"
  by (induction t1) auto

lemma track_ok_before:
  assumes "track_ok place released (t1 @ (True, v) # t2)"
  shows "t1 \<noteq> []" "\<forall>u\<in>set (tl (map snd t1)). \<not> released u" "\<not> released v"
proof -
  show "t1 \<noteq> []" using assms by (auto simp: track_ok_def)
  then obtain t ts where t1: "t1 = t # ts" by (cases t1) auto
  with assms have u: "unreleased released (ts @ (True, v) # t2)" by (simp add: track_ok_def)
  with unreleased_before [OF u] t1 show "\<forall>u\<in>set (tl (map snd t1)). \<not> released u" by simp
  from u show "\<not> released v" by (induction ts) auto
qed

lemma early_unreleased: "track_ok place released ts \<Longrightarrow> v \<in> set (early ts) \<Longrightarrow> \<not> released v"
  using early_split [of v ts] track_ok_before(3) [of place released _ v] by blast

lemma track_parts: "set (early ts) \<subseteq> set (map snd ts)" "set (waiting ts) \<subseteq> set (map snd ts)"
  by (force simp: set_early set_waiting)+

text \<open>A write leaves early.\<close>

lemma waiting_split:
  "waiting ts = us @ w # vs \<Longrightarrow> \<exists>t1 t2. ts = t1 @ (False, w) # t2 \<and> waiting t1 = us \<and> waiting t2 = vs"
proof (induction ts arbitrary: us)
  case (Cons t ts)
  obtain d x where t: "t = (d, x)" by (cases t)
  show ?case
  proof (cases "\<not> d \<and> us = []")
    case True
    with Cons.prems t show ?thesis by (intro exI [of _ "[]"] exI [of _ ts]) simp
  next
    case False
    define us' where "us' = (if d then us else tl us)"
    have "waiting ts = us' @ w # vs" "d \<or> us = x # us'" using Cons.prems t False by (cases d; cases us; simp add: us'_def)+
    moreover from Cons.IH [OF this(1)] obtain t1 t2 where "ts = t1 @ (False, w) # t2" "waiting t1 = us'" "waiting t2 = vs"
      by blast
    ultimately show ?thesis using t
      by (intro exI [of _ "t # t1"] exI [of _ t2]) (cases d; simp add: us'_def)
  qed
qed simp

lemma passed_append:
  "passed place (ts @ us) \<longleftrightarrow> passed place ts \<and> passed place us \<and>
     (\<forall>w\<in>set (waiting ts). \<forall>v\<in>set (early us). place w \<noteq> place v)"
proof (induction ts)
  case (Cons t ts)
  then show ?case by (cases t; cases "fst t") auto
qed simp

lemma unreleased_append:
  "unreleased released (ts @ us) \<longleftrightarrow> unreleased released ts \<and> unreleased released us \<and>
     (early us \<noteq> [] \<longrightarrow> (\<forall>(d, w)\<in>set ts. \<not> released w))"
  by (induction ts) auto

lemma unreleased_done: "unreleased released ts \<Longrightarrow> (True, w) \<in> set ts \<Longrightarrow> \<not> released w"
  by (induction ts) auto

lemma track_ok_pass:
  assumes "track_ok place released (t1 @ (False, w) # t2)" "may_pass place released (waiting t1) w" "t1 \<noteq> []"
  shows "track_ok place released (t1 @ (True, w) # t2)"
proof -
  obtain t ts where t1: "t1 = t # ts" using assms(3) by (cases t1) auto
  with assms(1) have t: "\<not> fst t" by (simp add: track_ok_def)
  then obtain x where x: "t = (False, x)" by (cases t) auto
  with t1 assms(2) have p: "\<not> released w" "\<forall>v\<in>set (waiting t1). place v \<noteq> place w" "\<forall>v\<in>set (waiting ts). \<not> released v"
    by (simp_all add: may_pass_def)
  have u: "unreleased released (ts @ (False, w) # t2)" "passed place (t1 @ (False, w) # t2)"
    using assms(1) t1 by (simp_all add: track_ok_def)
  have "\<not> released v" if "(d, v) \<in> set ts" for d v
    using that u(1) p(3) unreleased_done [of released ts v] by (cases d) (auto simp: unreleased_append set_waiting)
  with u p have "unreleased released (ts @ (True, w) # t2)" by (auto simp: unreleased_append)
  moreover have "passed place (t1 @ (True, w) # t2)"
    using u(2) p(2) by (auto simp: passed_append)
  ultimately show ?thesis using t1 t by (simp add: track_ok_def)
qed

subsection \<open>The locale\<close>

lemma moves_trans:
  "moves move a q ws a' q' \<Longrightarrow> moves move a' q' us a'' q'' \<Longrightarrow> moves move a q (ws @ us) a'' q''"
proof (induction rule: moves.induct)
  case (Go a q w a1 q1 ws a' q')
  from moves.Go [of move, OF Go.hyps(1) Go.IH [OF Go.prems]] show ?case by simp
qed simp

context lagging
begin

lemma moves_all:
  assumes "moves this a q ws a' q'" "moves that b q vs b' q2" "good a b q"
  shows "\<exists>q3. moves that b q' vs b' q3"
  using assms
proof (induction arbitrary: q2)
  case (Go a q w a1 q1 ws a' q')
  from moves_after [OF Go.prems(1,2) Go.hyps(1)] obtain q3 where "moves that b q1 vs b' q3" by blast
  from Go.IH [OF this] this_keeps [OF Go.prems(2) Go.hyps(1)] show ?case by blast
qed blast

text \<open>\<open>moves_after\<close> and \<open>drain\<close>, with what becomes of the state that the other thread is ahead to.\<close>

lemma moves_after_move:
  assumes "moves that b q vs b' q2" "good a b q" "this a q w a' q1"
  shows "\<exists>q3. moves that b q1 vs b' q3 \<and> this a q2 w a' q3"
  using assms
proof (induction arbitrary: q1)
  case (Stay b q)
  then show ?case by (auto intro: moves.Stay)
next
  case (Go b q v b1 q2 vs b' q4)
  from commute [OF Go.prems(1,2) Go.hyps(1)] obtain q3 where q3: "this a q2 w a' q3" "that b q1 v b1 q3" by blast
  from that_keeps [OF Go.prems(1) Go.hyps(1)] have "good a b1 q2" by blast
  from Go.IH [OF this q3(1)] obtain q5 where "moves that b1 q3 vs b' q5" "this a q4 w a' q5" by blast
  with moves.Go [of that, OF q3(2)] show ?case by blast
qed

lemma drain_on:
  assumes "moves this a q ws a' qa" "ws = w # ws'" "good a b q" "moves that b q vs b' qb"
  shows "\<exists>a1 q1 qa' qb' xs. good a1 b q1 \<and> view a1 b q1 = perform w (view a b q) \<and>
    moves this a1 q1 ws' a' qa' \<and> moves that b q1 vs b' qb' \<and> moves this a qb xs a1 qb'"
  using assms
proof (induction arbitrary: qb)
  case (Go a q v a1 q1 ws a' qa)
  note k = this_keeps [OF Go.prems(2) Go.hyps(1)]
  from moves_after_move [OF Go.prems(3,2) Go.hyps(1)] obtain q3 where
    q3: "moves that b q1 vs b' q3" "this a qb v a1 q3" by blast
  show ?case
  proof (cases v)
    case Nil
    with Go.prems(1) k have "ws = w # ws'" "good a1 b q1" "view a1 b q1 = view a b q" by auto
    with Go.IH [OF _ _ q3(1)] moves.Go [of this, OF q3(2)] show ?thesis by metis
  next
    case (Cons x xs)
    with k Go.prems(1) have "v = [w]" "ws = ws'" by auto
    with k q3 Go.hyps(2) moves.Go [of this, OF q3(2) moves.Stay] show ?thesis by fastforce
  qed
qed simp

end

text \<open>
  To the laws of lagging threads, the locale adds when two writes can be made in either order, now or
  later: \<open>free v w m\<close>. A write is free of those of its own thread that it may pass, and of all those
  of the other thread.
\<close>

locale reordering = lagging this that good view perform
  for this :: "'a \<Rightarrow> 'q \<Rightarrow> 'w list \<Rightarrow> 'a \<Rightarrow> 'q \<Rightarrow> bool"
    and that :: "'b \<Rightarrow> 'q \<Rightarrow> 'w list \<Rightarrow> 'b \<Rightarrow> 'q \<Rightarrow> bool"
    and good :: "'a \<Rightarrow> 'b \<Rightarrow> 'q \<Rightarrow> bool"
    and view :: "'a \<Rightarrow> 'b \<Rightarrow> 'q \<Rightarrow> 'm"
    and perform :: "'w \<Rightarrow> 'm \<Rightarrow> 'm" +
  fixes place :: "'w \<Rightarrow> 'p" and released :: "'w \<Rightarrow> bool" and free :: "'w \<Rightarrow> 'w \<Rightarrow> 'm \<Rightarrow> bool"
  assumes free_kept: "free v w m \<Longrightarrow> free v w (perform u m)"
    and free_swap: "free v w m \<Longrightarrow> perform w (perform v m) = perform v (perform w m)"
    and own_free: "good a b q \<Longrightarrow> moves this a q (us @ w # vs @ v # xs) a' q' \<Longrightarrow>
      \<forall>u\<in>set (tl (us @ w # vs)). \<not> released u \<Longrightarrow> place w \<noteq> place v \<Longrightarrow> free v w (view a b q)"
    and other_free: "good a b q \<Longrightarrow> moves this a q ws a' q1 \<Longrightarrow> moves that b q (us @ v # xs) b' q2 \<Longrightarrow>
      \<forall>u\<in>set (tl us). \<not> released u \<Longrightarrow> \<not> released v \<Longrightarrow> us \<noteq> [] \<Longrightarrow> w \<in> set ws \<Longrightarrow> free v w (view a b q)"
begin

lemma fold_free: "free v w m \<Longrightarrow> free v w (fold perform us m)"
  by (induction us arbitrary: m) (simp_all add: free_kept)

lemma fold_pass:
  "\<forall>v\<in>set vs. free v w m \<Longrightarrow> perform w (fold perform vs m) = fold perform vs (perform w m)"
proof (induction vs arbitrary: m)
  case (Cons v vs)
  from Cons.prems have "\<forall>u\<in>set vs. free u w (perform v m)" by (auto intro: free_kept)
  from Cons.IH [OF this] Cons.prems free_swap [of v w m] show ?case by simp
qed simp

lemma fold_swap:
  "\<forall>v\<in>set vs. \<forall>w\<in>set ws. free v w m \<Longrightarrow>
   fold perform ws (fold perform vs m) = fold perform vs (fold perform ws m)"
proof (induction ws arbitrary: m)
  case (Cons w ws)
  then have "\<forall>v\<in>set vs. \<forall>u\<in>set ws. free v u (perform w m)" by (auto intro: free_kept)
  from Cons.IH [OF this] fold_pass [of vs w m] Cons.prems show ?case by simp
qed simp

text \<open>The order in which the writes have left makes no difference in the end.\<close>

lemma fold_track:
  "(\<And>t1 w t2 v. ts = t1 @ (False, w) # t2 \<Longrightarrow> v \<in> set (early t2) \<Longrightarrow> free v w m) \<Longrightarrow>
   fold perform (waiting ts) (fold perform (early ts) m) = fold perform (map snd ts) m"
proof (induction ts arbitrary: m)
  case (Cons t ts)
  obtain d w where t: "t = (d, w)" by (cases t)
  have rest: "free v x (perform w m)" if "ts = t1 @ (False, x) # t2" "v \<in> set (early t2)" for t1 x t2 v
    using Cons.prems [of "t # t1" x t2 v] that by (auto intro: free_kept)
  show ?case
  proof (cases d)
    case True
    with Cons.IH [OF rest] t show ?thesis by simp
  next
    case False
    with t Cons.prems [of "[]" w ts] have "\<forall>v\<in>set (early ts). free v w m" by simp
    from fold_pass [OF this] Cons.IH [OF rest] t False show ?thesis by simp
  qed
qed simp

text \<open>What is free in a track.\<close>

lemma track_free:
  assumes "good a b q" "moves this a q (map snd ts) a' q'" "track_ok place released ts"
    and "ts = t1 @ (False, w) # t2" "v \<in> set (early t2)"
  shows "free v w (view a b q)"
proof -
  from early_split [OF assms(5)] obtain t3 t4 where t2: "t2 = t3 @ (True, v) # t4" by blast
  with assms(3,4) have "track_ok place released ((t1 @ (False, w) # t3) @ (True, v) # t4)" by simp
  from track_ok_before(2) [OF this] have u: "\<forall>u\<in>set (tl (map snd t1 @ w # map snd t3)). \<not> released u" by simp
  have "place w \<noteq> place v" using assms(3,4,5) by (simp add: track_ok_def passed_append)
  moreover have "map snd ts = map snd t1 @ w # map snd t3 @ v # map snd t4" using assms(4) t2 by simp
  ultimately show ?thesis using own_free [of a b q "map snd t1" w "map snd t3" v "map snd t4"] assms(1,2) u by metis
qed

lemma track_other:
  assumes "good a b q" "moves this a q ws a' q1" "moves that b q (map snd us) b' q2" "track_ok place released us"
    and "w \<in> set ws" "v \<in> set (early us)"
  shows "free v w (view a b q)"
proof -
  from early_split [OF assms(6)] obtain t1 t2 where us: "us = t1 @ (True, v) # t2" by blast
  note t = track_ok_before [OF assms(4) [unfolded us]]
  from us have "map snd us = map snd t1 @ v # map snd t2" by simp
  with other_free [OF assms(1,2) _ t(2,3) _ assms(5)] assms(3) t(1) show ?thesis by simp
qed

text \<open>
  The memory \<open>m\<close>, when the threads have made the moves up to \<open>a\<close>, \<open>b\<close> and \<open>q\<close> for good, and some writes
  of later moves have left early.
\<close>

definition reached ::
  "'a \<Rightarrow> 'b \<Rightarrow> 'q \<Rightarrow> 'w track \<Rightarrow> 'w track \<Rightarrow> 'a \<Rightarrow> 'b \<Rightarrow> 'q \<Rightarrow> 'q \<Rightarrow> 'm \<Rightarrow> bool" where
  "reached a b q ts us a' b' qa qb m \<longleftrightarrow> good a b q \<and> track_ok place released ts \<and> track_ok place released us \<and>
     moves this a q (map snd ts) a' qa \<and> moves that b q (map snd us) b' qb \<and>
     m = fold perform (early us) (fold perform (early ts) (view a b q))"

text \<open>What a thread sees: its own moves all made, and the other as it was but for its early writes.\<close>

lemma reached_view:
  assumes "reached a b q ts us a' b' qa qb m"
  shows "fold perform (waiting ts) m = fold perform (early us) (view a' b qa)" "good a' b qa"
proof -
  from assms have h: "good a b q" "track_ok place released ts" "track_ok place released us"
    "moves this a q (map snd ts) a' qa" "moves that b q (map snd us) b' qb"
    "m = fold perform (early us) (fold perform (early ts) (view a b q))" by (simp_all add: reached_def)
  note k = moves_keep [OF h(4,1)]
  then show "good a' b qa" by simp
  have "\<forall>v\<in>set (early us). \<forall>w\<in>set (waiting ts). free v w (fold perform (early ts) (view a b q))"
    using track_other [OF h(1,4,5,3)] track_parts(2) [of ts] by (blast intro: fold_free)
  from fold_swap [OF this] have "fold perform (waiting ts) m =
      fold perform (early us) (fold perform (waiting ts) (fold perform (early ts) (view a b q)))" using h(6) by simp
  also have "\<dots> = fold perform (early us) (view a' b qa)"
    using fold_track [of ts "view a b q"] track_free [OF h(1,4,2)] k by simp
  finally show "fold perform (waiting ts) m = fold perform (early us) (view a' b qa)" .
qed

text \<open>A move of the thread.\<close>

lemma reached_move:
  assumes "reached a b q ts us a' b' qa qb m" "this a' qa ws a'' qa'"
  shows "reached a b q (ts @ map (Pair False) ws) us a'' b' qa' qb m"
  using assms moves_snoc [of this a q "map snd ts" a' qa ws a'' qa']
  by (auto simp: reached_def comp_def intro: track_ok_snoc)

text \<open>The writes that have become the first ones are made for good.\<close>

lemma settle:
  assumes "good a b q" "passed place ts" "unreleased released ts" "moves this a q (map snd ts) a' qa"
    "moves that b q vs b' qb"
  shows "\<exists>a1 q1 ts1 qa' qb'. good a1 b q1 \<and> track_ok place released ts1 \<and> waiting ts1 = waiting ts \<and>
    fold perform (early ts1) (view a1 b q1) = fold perform (early ts) (view a b q) \<and>
    moves this a1 q1 (map snd ts1) a' qa' \<and> moves that b q1 vs b' qb' \<and> (\<exists>xs. moves this a qb xs a1 qb')"
  using assms
proof (induction ts arbitrary: a q qa qb)
  case Nil
  then have "track_ok place released []" by (simp add: track_ok_def)
  moreover have "\<exists>xs. moves this a qb xs a qb" by (rule exI, rule moves.Stay)
  ultimately show ?case using Nil by blast
next
  case (Cons t ts)
  obtain d w where t: "t = (d, w)" by (cases t)
  show ?case
  proof (cases d)
    case False
    with Cons.prems t have "track_ok place released (t # ts)" by (simp add: track_ok_def)
    moreover have "\<exists>xs. moves this a qb xs a qb" by (rule exI, rule moves.Stay)
    ultimately show ?thesis using Cons.prems by blast
  next
    case True
    from drain_on [OF Cons.prems(4) _ Cons.prems(1,5), of w "map snd ts"] t obtain a1 q1 qa' qb' xs where
      d: "good a1 b q1" "view a1 b q1 = perform w (view a b q)" "moves this a1 q1 (map snd ts) a' qa'"
        "moves that b q1 vs b' qb'" "moves this a qb xs a1 qb'" by auto
    from Cons.IH [OF d(1) _ _ d(3,4)] Cons.prems(2,3) t True d(2) moves_trans [OF d(5)] show ?thesis
      by simp metis
  qed
qed

text \<open>A write leaves the buffer.\<close>

lemma reached_drain_on:
  assumes "reached a b q ts us a' b' qa qb m" "waiting ts = ws @ w # vs" "may_pass place released ws w"
  shows "\<exists>a1 q1 ts1 qa' qb'. reached a1 b q1 ts1 us a' b' qa' qb' (perform w m) \<and> waiting ts1 = ws @ vs \<and>
    fold perform (ws @ vs) (perform w m) = fold perform (ws @ w # vs) m \<and> (\<exists>xs. moves this a qb xs a1 qb')"
proof -
  from assms(1) have h: "good a b q" "track_ok place released ts" "track_ok place released us"
    "moves this a q (map snd ts) a' qa" "moves that b q (map snd us) b' qb"
    "m = fold perform (early us) (fold perform (early ts) (view a b q))" by (simp_all add: reached_def)
  from waiting_split [OF assms(2)] obtain t1 t2 where t: "ts = t1 @ (False, w) # t2" "waiting t1 = ws" "waiting t2 = vs"
    by blast
  have "\<forall>v\<in>set (early us). free v w (fold perform (early ts) (view a b q))"
    using track_other [OF h(1,4,5,3), of w] t(1) by (auto intro: fold_free)
  from fold_pass [OF this] h(6) have m: "perform w m =
      fold perform (early us) (perform w (fold perform (early ts) (view a b q)))" by simp
  show ?thesis
  proof (cases t1)
    case Nil
    with t h(2) have p: "passed place t2" "unreleased released t2" by (simp_all add: track_ok_def)
    from Nil t drain_on [OF h(4) _ h(1,5), of w "map snd t2"] obtain a1 q1 qa' qb' xs where
      d: "good a1 b q1" "view a1 b q1 = perform w (view a b q)" "moves this a1 q1 (map snd t2) a' qa'"
        "moves that b q1 (map snd us) b' qb'" "moves this a qb xs a1 qb'" by auto
    have e: "perform w (fold perform (early ts) (view a b q)) = fold perform (early t2) (view a1 b q1)"
      using fold_pass [of "early t2" w "view a b q"] track_free [OF h(1,4,2) t(1)] t Nil d(2) by simp
    from settle [OF d(1) p(1,2) d(3,4)] obtain a2 q2 ts2 qa2 qb2 ys where
      s: "good a2 b q2" "track_ok place released ts2" "waiting ts2 = waiting t2"
      "fold perform (early ts2) (view a2 b q2) = fold perform (early t2) (view a1 b q1)"
      "moves this a2 q2 (map snd ts2) a' qa2" "moves that b q2 (map snd us) b' qb2" "moves this a1 qb' ys a2 qb2" by blast
    have "reached a2 b q2 ts2 us a' b' qa2 qb2 (perform w m)" using m e s h(3) by (simp add: reached_def)
    moreover have "waiting ts2 = ws @ vs" "ws = []" using s(3) t Nil by simp_all
    ultimately show ?thesis using moves_trans [OF d(5) s(7)]
      by (intro exI [of _ a2] exI [of _ q2] exI [of _ ts2] exI [of _ qa2] exI [of _ qb2]) auto
  next
    case (Cons x xs)
    let ?ts = "t1 @ (True, w) # t2"
    have "track_ok place released ?ts" using track_ok_pass [of place released t1 w t2] h(2) t assms(3) Cons by simp
    moreover have "perform w (fold perform (early ts) (view a b q)) = fold perform (early ?ts) (view a b q)"
      using fold_pass [of "early t2" w "fold perform (early t1) (view a b q)"] track_free [OF h(1,4,2) t(1)] t
      by (simp add: fold_free)
    moreover have "map snd ?ts = map snd ts" using t by simp
    ultimately have r: "reached a b q ?ts us a' b' qa qb (perform w m)" using m h by (simp add: reached_def)
    moreover have wait: "waiting ?ts = ws @ vs" using t by simp
    moreover have "fold perform (ws @ vs) (perform w m) = fold perform (ws @ w # vs) m"
      using reached_view(1) [OF r, unfolded wait] reached_view(1) [OF assms(1), unfolded assms(2)] by (rule trans [OF _ sym])
    moreover have "moves this a qb [] a qb" by (rule moves.Stay)
    ultimately show ?thesis
      by (intro exI [of _ a] exI [of _ q] exI [of _ ?ts] exI [of _ qa] exI [of _ qb]) blast
  qed
qed

lemma reached_drain:
  assumes "reached a b q ts us a' b' qa qb m" "waiting ts = ws @ w # vs" "may_pass place released ws w"
  shows "\<exists>a1 q1 ts1 qa' qb'. reached a1 b q1 ts1 us a' b' qa' qb' (perform w m) \<and> waiting ts1 = ws @ vs"
  using reached_drain_on [OF assms] by blast

end

end
