(* ===== verification/Rw_Pso.thy ===== *)
theory Rw_Pso
  imports Rw_Tso Write_Reordering
begin

text \<open>
  The two threads of \<open>ReaderWriterQueue\<close> on a processor whose store buffers do not keep the order of
  the writes: writes to different places may reach the memory in any order, unless a release fence
  stands between them. Here the release fences of the code matter. The loads of a thread are made in
  order, as on SPARC with partial store order.
\<close>

subsection \<open>Release fences\<close>

text \<open>Whether \<open>fence order\<close> keeps the writes before it from being passed by those after it.\<close>

definition orders_writes :: "memory_order \<Rightarrow> bool" where
  "orders_writes order \<longleftrightarrow> (case order of
     memory_order_relaxed \<Rightarrow> False
   | memory_order_acquire \<Rightarrow> False
   | memory_order_release \<Rightarrow> True
   | memory_order_acq_rel \<Rightarrow> True
   | memory_order_seq_cst \<Rightarrow> True)"

text \<open>The fences that a thread passes right before the access of a step.\<close>

fun put_fences :: "put_pc \<Rightarrow> memory_order list" where
  "put_fences (PutCell t t') = [memory_order_acquire]"
| "put_fences (PutTail t') = [memory_order_release]"
| "put_fences PutNext = [memory_order_acquire]"
| "put_fences (NextFront n) = [memory_order_acquire]"
| "put_fences (NextCell n t) = [memory_order_acquire]"
| "put_fences (NextAdvance n) = [memory_order_release]"
| "put_fences (NewAdvance n) = [memory_order_release]"
| "put_fences _ = []"

text \<open>
  To \<open>TakeCell\<close> there are three ways. On the one over \<open>AheadBlock\<close> the acquire fence stands before that
  step already, which loads nothing that the producer writes. The acquire fence of \<open>peek\<close> between the two
  loads of \<open>AheadTail\<close> is left out, as the first is of a variable that only the consumer writes.
\<close>

fun take_fences :: "'a take_pc \<Rightarrow> memory_order list" where
  "take_fences TakeAgain = [memory_order_acquire]"
| "take_fences AheadNext = [memory_order_acquire]"
| "take_fences (AheadBlock n) = [memory_order_acquire, memory_order_release]"
| "take_fences (TakeCell f) = [memory_order_acquire]"
| "take_fences (TakeFront f x) = [memory_order_release]"
| "take_fences _ = []"

definition put_releases :: "put_pc \<Rightarrow> bool" where
  "put_releases pc \<longleftrightarrow> list_ex orders_writes (put_fences pc)"

definition take_releases :: "'a take_pc \<Rightarrow> bool" where
  "take_releases k \<longleftrightarrow> list_ex orders_writes (take_fences k)"

lemma releases:
  "put_releases pc \<longleftrightarrow> (\<exists>t. pc = PutTail t) \<or> (\<exists>n. pc = NextAdvance n) \<or> (\<exists>n. pc = NewAdvance n)"
  "take_releases k \<longleftrightarrow> (\<exists>f x. k = TakeFront f x) \<or> (\<exists>n. k = AheadBlock n)"
  by (cases pc; simp add: put_releases_def orders_writes_def)
    (cases k; simp add: take_releases_def orders_writes_def)

subsection \<open>Places\<close>

text \<open>
  Where a write goes to. A new block is written as a whole; its address is that of no other write
  while it may still be on its way.
\<close>

datatype place =
    CellAt nat nat | FrontAt nat | TailAt nat | LocalFrontAt nat | LocalTailAt nat | NextAt nat
  | FrontBlockAt | TailBlockAt | NewBlockAt

fun place_of :: "'a put_to \<Rightarrow> place" where
  "place_of (ToCell a i x) = CellAt a (unat i)"
| "place_of (ToFront a i) = FrontAt a"
| "place_of (ToTail a i) = TailAt a"
| "place_of (ToLocalFront a i) = LocalFrontAt a"
| "place_of (ToLocalTail a i) = LocalTailAt a"
| "place_of (ToNext a n) = NextAt a"
| "place_of (ToFrontBlock n) = FrontBlockAt"
| "place_of (ToTailBlock n) = TailBlockAt"
| "place_of (ToNewBlock b s) = NewBlockAt"

subsection \<open>The two threads\<close>

text \<open>A buffer has the writes, each with whether a release fence came right before it.\<close>

type_synonym 'a store = "bool \<times> 'a put_to"

definition perform_store :: "'a store \<Rightarrow> 'a rwq \<Rightarrow> 'a rwq" where
  "perform_store w = do_write (snd w)"

definition may_drain :: "'a store list \<Rightarrow> 'a store \<Rightarrow> bool" where
  "may_drain = may_pass (place_of \<circ> snd) fst"

record 'a pso = "'a duo" +
  put_stores :: "'a store list"
  take_stores :: "'a store list"

definition idle_pso :: "'a rwq \<Rightarrow> 'a pso" where
  "idle_pso q = \<lparr>queue = q, putting = None, taking = None, entered = [], departed = [],
     entered_before = [], put_stores = [], take_stores = []\<rparr>"

definition put_sees :: "'a pso \<Rightarrow> 'a rwq" where
  "put_sees s = fold perform_store (put_stores s) (queue s)"

definition take_sees :: "'a pso \<Rightarrow> 'a rwq" where
  "take_sees s = fold perform_store (take_stores s) (queue s)"

definition pso_put :: "'a pso \<Rightarrow> 'a pso res" where
  "pso_put s = (case putting s of
     None \<Rightarrow> Inr s
   | Some (c, pc) \<Rightarrow>
       bindE (put_at c pc (put_sees s)) (\<lambda>(r, _).
         let s = s\<lparr>put_stores := put_stores s @ map (Pair (put_releases pc)) (put_write c pc (put_sees s))\<rparr>
         in Inr (case r of
              Inl pc \<Rightarrow> s\<lparr>putting := Some (c, pc)\<rparr>
            | Inr ok \<Rightarrow> s\<lparr>putting := None, entered := entered s @ (if ok then [snd (snd c)] else [])\<rparr>)))"

definition pso_take :: "'a pso \<Rightarrow> 'a pso res" where
  "pso_take s = (case taking s of
     None \<Rightarrow> Inr s
   | Some (c, pc) \<Rightarrow>
       bindE (take_at c pc (take_sees s)) (\<lambda>(r, _).
         let s = s\<lparr>take_stores := take_stores s @ map (Pair (take_releases pc)) (take_write c pc (take_sees s))\<rparr>
         in Inr (case r of
              Inl pc \<Rightarrow> s\<lparr>taking := Some (c, pc)\<rparr>
            | Inr x \<Rightarrow> s\<lparr>taking := None,
                departed := departed s @ (if c = PeekCall then [] else case_option [] (\<lambda>x. [x]) x)\<rparr>)))"

inductive pso_step :: "'a pso \<Rightarrow> 'a pso \<Rightarrow> bool" where
  PutCalled: "putting s = None \<Longrightarrow> pso_step s (s\<lparr>putting := Some (c, PutEnter)\<rparr>)"
| PutRuns: "pso_put s = Inr s' \<Longrightarrow> pso_step s s'"
| PutDrains: "put_stores s = us @ w # vs \<Longrightarrow> may_drain us w \<Longrightarrow>
    pso_step s (s\<lparr>queue := perform_store w (queue s), put_stores := us @ vs\<rparr>)"
| TakeCalled: "taking s = None \<Longrightarrow>
    pso_step s (s\<lparr>taking := Some (c, TakeEnter),
      entered_before := (if put_stores s = [] then entered s else departed s)\<rparr>)"
| TakeRuns: "pso_take s = Inr s' \<Longrightarrow> pso_step s s'"
| TakeDrains: "take_stores s = us @ w # vs \<Longrightarrow> may_drain us w \<Longrightarrow>
    pso_step s (s\<lparr>queue := perform_store w (queue s), take_stores := us @ vs\<rparr>)"

end
