(* ===== verification/Atomics.thy ===== *)
theory Atomics
  imports Os_Semaphore Rw_Pso
begin

text \<open>
  The parts of \<open>atomicops.h\<close> that depend on the compiler and on the processor: \<open>fence\<close> and
  \<open>compiler_fence\<close>, \<open>weak_atomic\<close>, and the construction of the semaphores. There is one text for old
  compilers, which have no atomics in their library, and one for the others; what is shown is that
  the machines of the queue and of the semaphore, whose steps use them, fit both.
\<close>

subsection \<open>Barriers\<close>

text \<open>The processors that the macros distinguish, and what a fence is made of: barriers of the old
  compilers, instructions, and the fences of the library.\<close>

datatype arch = ARCH_IA64 | ARCH_X64 | ARCH_X86 | ARCH_PPC | ARCH_UNKNOWN

datatype barrier =
    ReadBarrier | WriteBarrier | ReadWriteBarrier          \<comment> \<open>for the compiler only\<close>
  | mm_mfence | mf | sync | lwsync                         \<comment> \<open>instructions\<close>
  | atomic_signal_fence memory_order | atomic_thread_fence memory_order

text \<open>The macros are not defined for an unknown processor, so that the functions do not compile.\<close>

fun AeFullSync :: "arch \<Rightarrow> barrier option" where
  "AeFullSync ARCH_X64 = Some mm_mfence"
| "AeFullSync ARCH_X86 = Some mm_mfence"
| "AeFullSync ARCH_IA64 = Some mf"
| "AeFullSync ARCH_PPC = Some sync"
| "AeFullSync ARCH_UNKNOWN = None"

fun AeLiteSync :: "arch \<Rightarrow> barrier option" where
  "AeLiteSync ARCH_X64 = Some mm_mfence"
| "AeLiteSync ARCH_X86 = Some mm_mfence"
| "AeLiteSync ARCH_IA64 = Some mf"
| "AeLiteSync ARCH_PPC = Some lwsync"
| "AeLiteSync ARCH_UNKNOWN = None"

subsection \<open>Fences\<close>

text \<open>The fences of an old compiler.\<close>

fun vc_compiler_fence :: "memory_order \<Rightarrow> barrier list" where
  "vc_compiler_fence memory_order_relaxed = []"
| "vc_compiler_fence memory_order_acquire = [ReadBarrier]"
| "vc_compiler_fence memory_order_release = [WriteBarrier]"
| "vc_compiler_fence memory_order_acq_rel = [ReadWriteBarrier]"
| "vc_compiler_fence memory_order_seq_cst = [ReadWriteBarrier]"

fun vc_x86_fence :: "arch \<Rightarrow> memory_order \<Rightarrow> barrier list option" where
  "vc_x86_fence p memory_order_relaxed = Some []"
| "vc_x86_fence p memory_order_acquire = Some [ReadBarrier]"
| "vc_x86_fence p memory_order_release = Some [WriteBarrier]"
| "vc_x86_fence p memory_order_acq_rel = Some [ReadWriteBarrier]"
| "vc_x86_fence p memory_order_seq_cst = map_option (\<lambda>s. [ReadWriteBarrier, s, ReadWriteBarrier]) (AeFullSync p)"

fun vc_other_fence :: "arch \<Rightarrow> memory_order \<Rightarrow> barrier list option" where
  "vc_other_fence p memory_order_relaxed = Some []"
| "vc_other_fence p memory_order_acquire = map_option (\<lambda>s. [ReadBarrier, s, ReadBarrier]) (AeLiteSync p)"
| "vc_other_fence p memory_order_release = map_option (\<lambda>s. [WriteBarrier, s, WriteBarrier]) (AeLiteSync p)"
| "vc_other_fence p memory_order_acq_rel = map_option (\<lambda>s. [ReadWriteBarrier, s, ReadWriteBarrier]) (AeLiteSync p)"
| "vc_other_fence p memory_order_seq_cst = map_option (\<lambda>s. [ReadWriteBarrier, s, ReadWriteBarrier]) (AeFullSync p)"

definition vc_fence :: "arch \<Rightarrow> memory_order \<Rightarrow> barrier list option" where
  "vc_fence p order = (if p = ARCH_X86 \<or> p = ARCH_X64 then vc_x86_fence p order else vc_other_fence p order)"

text \<open>With the library.\<close>

fun std_compiler_fence :: "memory_order \<Rightarrow> barrier list" where
  "std_compiler_fence memory_order_relaxed = []"
| "std_compiler_fence memory_order_acquire = [atomic_signal_fence memory_order_acquire]"
| "std_compiler_fence memory_order_release = [atomic_signal_fence memory_order_release]"
| "std_compiler_fence memory_order_acq_rel = [atomic_signal_fence memory_order_acq_rel]"
| "std_compiler_fence memory_order_seq_cst = [atomic_signal_fence memory_order_seq_cst]"

fun std_fence :: "memory_order \<Rightarrow> barrier list" where
  "std_fence memory_order_relaxed = []"
| "std_fence memory_order_acquire = [atomic_thread_fence memory_order_acquire]"
| "std_fence memory_order_release = [atomic_thread_fence memory_order_release]"
| "std_fence memory_order_acq_rel = [atomic_thread_fence memory_order_acq_rel]"
| "std_fence memory_order_seq_cst = [atomic_thread_fence memory_order_seq_cst]"

text \<open>
  What a barrier does to the buffered writes of its thread: the instructions \<open>mfence\<close>, \<open>mf\<close> and \<open>sync\<close>
  wait for them, and so does a sequentially consistent fence; \<open>lwsync\<close> and a release fence only keep
  their order. Barriers for the compiler do nothing at run time.
\<close>

definition waits :: "barrier \<Rightarrow> bool" where
  "waits b \<longleftrightarrow> b \<in> {mm_mfence, mf, sync, atomic_thread_fence memory_order_seq_cst}"

definition keeps_writes :: "barrier \<Rightarrow> bool" where
  "keeps_writes b \<longleftrightarrow> waits b \<or> b \<in> {lwsync, atomic_thread_fence memory_order_release, atomic_thread_fence memory_order_acq_rel}"

lemmas barrier_defs = vc_fence_def waits_def keeps_writes_def fence_def orders_writes_def

text \<open>On x86 either text lets a thread pass exactly when the machine of the store buffers does.\<close>

lemma fences_on_x86:
  "p \<in> {ARCH_X86, ARCH_X64} \<Longrightarrow>
   \<exists>bs. vc_fence p order = Some bs \<and> (list_ex waits bs \<longrightarrow> buffer = []) = fence order buffer"
  "(list_ex waits (std_fence order) \<longrightarrow> buffer = []) = fence order buffer"
  by (cases order; auto simp: barrier_defs)+

text \<open>On the other processors either text orders the writes where the machine asks for it.\<close>

lemma fences_order_writes:
  "p \<in> {ARCH_IA64, ARCH_PPC} \<Longrightarrow> orders_writes order \<Longrightarrow>
   \<exists>bs. vc_fence p order = Some bs \<and> list_ex keeps_writes bs"
  "list_ex keeps_writes (std_fence order) = orders_writes order"
  by (cases order; auto simp: barrier_defs)+

lemma compiler_fences_free:
  "\<not> list_ex waits (vc_compiler_fence order)" "\<not> list_ex waits (std_compiler_fence order)"
  by (cases order; simp add: waits_def)+

subsection \<open>Atomic variables\<close>

record 'v weak_atomic =
  atomic_value :: 'v

definition new_weak_atomic :: "'v \<Rightarrow> 'v weak_atomic" where
  "new_weak_atomic x = \<lparr>atomic_value = x\<rparr>"

text \<open>A load and a store, of a \<open>volatile\<close> variable and of a \<open>std::atomic\<close>.\<close>

definition vc_load :: "'v weak_atomic \<Rightarrow> 'v" where
  "vc_load a = atomic_value a"

definition std_load :: "'v weak_atomic \<Rightarrow> 'v" where
  "std_load a = atomic_value a"

definition vc_assign :: "'v \<Rightarrow> 'v weak_atomic \<Rightarrow> 'v weak_atomic" where
  "vc_assign x a = a\<lparr>atomic_value := x\<rparr>"

definition std_assign :: "'v \<Rightarrow> 'v weak_atomic \<Rightarrow> 'v weak_atomic" where
  "std_assign x a = a\<lparr>atomic_value := x\<rparr>"

definition copy_weak_atomic :: "'v weak_atomic \<Rightarrow> 'v weak_atomic" where
  "copy_weak_atomic other = new_weak_atomic (std_load other)"

text \<open>
  \<open>fetch_add_acquire\<close> and \<open>fetch_add_release\<close> for integers. An old compiler has functions for 32 bits
  and, on x64 only, for 64 bits; for other types there is an assertion, and without assertions
  nothing is added.
\<close>

definition interlocked_add :: "'l::len word \<Rightarrow> 'l word \<Rightarrow> 'l word \<times> 'l word" where
  "interlocked_add v x = (v, v + x)"

definition vc_fetch_add ::
  "bool \<Rightarrow> bool \<Rightarrow> 'w::len word \<Rightarrow> 'w word weak_atomic \<Rightarrow> ('w word \<times> 'w word weak_atomic) res" where
  "vc_fetch_add amd64 asserts increment a =
     (if LENGTH('w) = 32 then
        (let (old, v) = interlocked_add (ucast (atomic_value a) :: 32 word) (ucast increment)
         in Inr (ucast old, a\<lparr>atomic_value := ucast v\<rparr>))
      else if amd64 \<and> LENGTH('w) = 64 then
        (let (old, v) = interlocked_add (ucast (atomic_value a) :: 64 word) (ucast increment)
         in Inr (ucast old, a\<lparr>atomic_value := ucast v\<rparr>))
      else bindE (if asserts then Inl AssertFailed else Inr ()) (\<lambda>_. Inr (atomic_value a, a)))"

definition std_fetch_add :: "'w::len word \<Rightarrow> 'w word weak_atomic \<Rightarrow> 'w word \<times> 'w word weak_atomic" where
  "std_fetch_add increment a = (atomic_value a, a\<lparr>atomic_value := atomic_value a + increment\<rparr>)"

lemma ucast_add_back:
  fixes v x :: "'w::len word"
  assumes "LENGTH('w) = LENGTH('l::len)"
  shows "ucast (ucast v + ucast x :: 'l word) = v + x" "ucast (ucast v :: 'l word) = v"
proof -
  show "ucast (ucast v :: 'l word) = v" for v :: "'w word"
    using assms by (simp add: ucast_up_ucast_id is_up)
  show "ucast (ucast v + ucast x :: 'l word) = v + x"
    using assms by transfer (simp add: take_bit_add)
qed

text \<open>
  The two texts add the same, to an integer of 32 bits, and to one of 64 bits on x64. On x86 with 32
  bits the old text adds nothing to one of 64 bits when there are no assertions.
\<close>

lemma fetch_adds_agree:
  fixes a :: "'w::len word weak_atomic"
  shows "LENGTH('w) = 32 \<or> LENGTH('w) = 64 \<and> amd64 \<Longrightarrow>
      vc_fetch_add amd64 asserts increment a = Inr (std_fetch_add increment a)"
    "LENGTH('w) = 64 \<Longrightarrow> vc_fetch_add False False increment a = Inr (atomic_value a, a)"
  by (auto simp: vc_fetch_add_def std_fetch_add_def interlocked_add_def ucast_add_back)

text \<open>It is what the semaphore does to its count.\<close>

lemma semaphore_adds:
  "fetch_add increment s = (let (old, a) = std_fetch_add increment (new_weak_atomic (m_count s))
     in (old, s\<lparr>m_count := std_load a\<rparr>))"
  by (simp add: fetch_add_def std_fetch_add_def new_weak_atomic_def std_load_def)

lemma atomics_same: "vc_load = std_load" "vc_assign = std_assign" "copy_weak_atomic a = a"
  by (simp_all add: fun_eq_iff vc_load_def std_load_def vc_assign_def std_assign_def copy_weak_atomic_def
      new_weak_atomic_def)

subsection \<open>The semaphores of the operating systems\<close>

text \<open>
  Their constructors, on what the call that makes one answers: Windows gives a handle or a null
  pointer, for an initial and a greatest count, macOS a code, 0 for success.
\<close>

definition win_new_semaphore :: "(i32 \<Rightarrow> i32 \<Rightarrow> u64) \<Rightarrow> i32 \<Rightarrow> (nat \<times> u64) res" where
  "win_new_semaphore CreateSemaphoreW initialCount =
     bindE (assertE (0 \<le> sint initialCount)) (\<lambda>_.
       let maxLong = 0x7fffffff;
           m_hSema = CreateSemaphoreW initialCount maxLong
       in bindE (assertE (m_hSema \<noteq> 0)) (\<lambda>_. Inr (nat (sint initialCount), m_hSema)))"

definition mach_new_semaphore :: "(i32 \<Rightarrow> i32 \<times> u32) \<Rightarrow> i32 \<Rightarrow> (nat \<times> u32) res" where
  "mach_new_semaphore semaphore_create initialCount =
     bindE (assertE (0 \<le> sint initialCount)) (\<lambda>_.
       let (rc, m_sema) = semaphore_create initialCount
       in bindE (assertE (rc = 0)) (\<lambda>_. Inr (nat (sint initialCount), m_sema)))"

text \<open>All three make a semaphore of the given count, or fail.\<close>

lemma new_semaphores_agree:
  "map_sum (\<lambda>e. e) fst (win_new_semaphore CreateSemaphoreW initialCount) =
   new_semaphore initialCount (CreateSemaphoreW initialCount 0x7fffffff \<noteq> 0)"
  "map_sum (\<lambda>e. e) fst (mach_new_semaphore semaphore_create initialCount) =
   new_semaphore initialCount (fst (semaphore_create initialCount) = 0)"
  by (simp_all add: win_new_semaphore_def mach_new_semaphore_def new_semaphore_def bindE_def assertE_def Let_def
      split: prod.split)

end
