(* ===== verification/Reentrancy.thy ===== *)
theory Reentrancy
  imports Rw_Queue
begin

text \<open>
  The guards of \<open>ReaderWriterQueue\<close> in debug mode. Every \<open>enqueue\<close> holds a \<open>ReentrantGuard\<close> on the
  flag \<open>enqueuing\<close>, every \<open>try_dequeue\<close>, \<open>peek\<close> and \<open>pop\<close> one on \<open>dequeuing\<close>. The constructor of the
  guard asserts that the flag is clear and then sets it, the destructor clears it. The flags are
  ordinary variables, so that other threads may run between the test and the store: here are any
  number of threads, and what the guards notice of threads that are in the same role at once.
\<close>

subsection \<open>The guard\<close>

datatype role = Producing | Consuming

record guard_flags =
  enqueuing :: bool
  dequeuing :: bool

definition inSection :: "role \<Rightarrow> guard_flags \<Rightarrow> bool" where
  "inSection r f = (case r of Producing \<Rightarrow> enqueuing f | Consuming \<Rightarrow> dequeuing f)"

definition set_inSection :: "role \<Rightarrow> bool \<Rightarrow> guard_flags \<Rightarrow> guard_flags" where
  "set_inSection r b f = (case r of Producing \<Rightarrow> f\<lparr>enqueuing := b\<rparr> | Consuming \<Rightarrow> f\<lparr>dequeuing := b\<rparr>)"

lemma inSection_set [simp]: "inSection r (set_inSection r' b f) = (if r = r' then b else inSection r f)"
  by (cases r; cases r') (simp_all add: inSection_def set_inSection_def)

text \<open>
  A thread: the role whose flag it has tested and is about to set, if there is one, and the roles of
  the guards it holds, the last one first. More than one is held when the constructor of an element
  calls the queue again.
\<close>

record guarding =
  tested :: "role option"
  holds :: "role list"

datatype guard_act = Enter role | Leave

text \<open>
  A step of a thread: between the two halves of the constructor it does the second; otherwise it
  enters an operation or leaves the one it is in.
\<close>

definition guard_at :: "guard_act \<Rightarrow> guard_flags \<times> guarding \<Rightarrow> (guard_flags \<times> guarding) res" where
  "guard_at a = (\<lambda>(f, t). case tested t of
     Some r \<Rightarrow> Inr (set_inSection r True f, \<lparr>tested = None, holds = r # holds t\<rparr>)
   | None \<Rightarrow> (case a of
       Enter r \<Rightarrow> bindE (assertE (\<not> inSection r f)) (\<lambda>_. Inr (f, t\<lparr>tested := Some r\<rparr>))
     | Leave \<Rightarrow> (case holds t of
         [] \<Rightarrow> Inr (f, t)
       | r # rs \<Rightarrow> Inr (set_inSection r False f, t\<lparr>holds := rs\<rparr>))))"

text \<open>Any number of threads; a schedule tells which thread makes the next step, and which one.\<close>

type_synonym guarded = "guard_flags \<times> guarding list"

definition guard_step :: "nat \<times> guard_act \<Rightarrow> guarded \<Rightarrow> guarded res" where
  "guard_step ia = (\<lambda>(f, ts). if fst ia < length ts then
     bindE (guard_at (snd ia) (f, ts ! fst ia)) (\<lambda>(f, t). Inr (f, ts[fst ia := t]))
   else Inr (f, ts))"

fun guard_run :: "(nat \<times> guard_act) list \<Rightarrow> guarded \<Rightarrow> guarded res" where
  "guard_run [] s = Inr s"
| "guard_run (ia # w) s = bindE (guard_step ia s) (guard_run w)"

definition all_outside :: "nat \<Rightarrow> guarding list" where
  "all_outside n = replicate n \<lparr>tested = None, holds = []\<rparr>"

definition no_flags :: guard_flags where
  "no_flags = \<lparr>enqueuing = False, dequeuing = False\<rparr>"

subsection \<open>What the threads do\<close>

text \<open>The same without the flags: where the threads are.\<close>

definition whereabouts :: "guard_act \<Rightarrow> guarding \<Rightarrow> guarding" where
  "whereabouts a t = (case tested t of
     Some r \<Rightarrow> \<lparr>tested = None, holds = r # holds t\<rparr>
   | None \<Rightarrow> (case a of Enter r \<Rightarrow> t\<lparr>tested := Some r\<rparr> | Leave \<Rightarrow> t\<lparr>holds := tl (holds t)\<rparr>))"

definition move_on :: "nat \<times> guard_act \<Rightarrow> guarding list \<Rightarrow> guarding list" where
  "move_on ia ts = (if fst ia < length ts then ts[fst ia := whereabouts (snd ia) (ts ! fst ia)] else ts)"

text \<open>The role that a step enters.\<close>

definition entered :: "nat \<times> guard_act \<Rightarrow> guarding list \<Rightarrow> role option" where
  "entered ia ts = (if fst ia < length ts \<and> tested (ts ! fst ia) = None
     then (case snd ia of Enter r \<Rightarrow> Some r | Leave \<Rightarrow> None) else None)"

text \<open>A role is entered while some thread is in it; while some thread is about to be in it.\<close>

fun overlaps :: "(nat \<times> guard_act) list \<Rightarrow> guarding list \<Rightarrow> bool" where
  "overlaps [] ts = False"
| "overlaps (ia # w) ts =
     ((case entered ia ts of Some r \<Rightarrow> list_ex (\<lambda>t. r \<in> set (holds t)) ts | None \<Rightarrow> False) \<or> overlaps w (move_on ia ts))"

fun races :: "(nat \<times> guard_act) list \<Rightarrow> guarding list \<Rightarrow> bool" where
  "races [] ts = False"
| "races (ia # w) ts =
     ((case entered ia ts of Some r \<Rightarrow> list_ex (\<lambda>t. tested t = Some r) ts | None \<Rightarrow> False) \<or> races w (move_on ia ts))"

text \<open>Each role belongs to one thread, and no operation is begun inside another.\<close>

fun proper :: "(role \<Rightarrow> nat) \<Rightarrow> (nat \<times> guard_act) list \<Rightarrow> guarding list \<Rightarrow> bool" where
  "proper owner [] ts = True"
| "proper owner (ia # w) ts =
     ((case entered ia ts of Some r \<Rightarrow> fst ia = owner r \<and> holds (ts ! fst ia) = [] | None \<Rightarrow> True) \<and>
      proper owner w (move_on ia ts))"

subsection \<open>What the guards notice\<close>

text \<open>A step by what it does: it enters a role, finishes entering it, leaves it, or nothing.\<close>

lemma guard_step_cases:
  obtains (enters) r where "entered ia ts = Some r" "fst ia < length ts"
      "guard_step ia (f, ts) = bindE (assertE (\<not> inSection r f)) (\<lambda>_. Inr (f, move_on ia ts))"
      "move_on ia ts = ts[fst ia := (ts ! fst ia)\<lparr>tested := Some r\<rparr>]" "tested (ts ! fst ia) = None"
  | (holds) r where "entered ia ts = None" "fst ia < length ts" "tested (ts ! fst ia) = Some r"
      "guard_step ia (f, ts) = Inr (set_inSection r True f, move_on ia ts)"
      "move_on ia ts = ts[fst ia := \<lparr>tested = None, holds = r # holds (ts ! fst ia)\<rparr>]"
  | (leaves) r rs where "entered ia ts = None" "fst ia < length ts" "tested (ts ! fst ia) = None"
      "holds (ts ! fst ia) = r # rs" "guard_step ia (f, ts) = Inr (set_inSection r False f, move_on ia ts)"
      "move_on ia ts = ts[fst ia := (ts ! fst ia)\<lparr>holds := rs\<rparr>]"
  | (idles) "entered ia ts = None" "guard_step ia (f, ts) = Inr (f, ts)" "move_on ia ts = ts"
proof (cases "fst ia < length ts")
  case False
  then show thesis by (intro idles) (simp_all add: entered_def guard_step_def move_on_def)
next
  case True
  note defs = entered_def guard_step_def guard_at_def move_on_def whereabouts_def True
  show thesis
  proof (cases "tested (ts ! fst ia)")
    case (Some r)
    then show thesis by (intro holds [of r]) (simp_all add: defs)
  next
    case None
    note none = None
    show thesis
    proof (cases "snd ia")
      case (Enter r)
      with none show thesis by (intro enters [of r]) (simp_all add: defs bindE_def assertE_def)
    next
      case Leave
      show thesis
      proof (cases "holds (ts ! fst ia)")
        case Nil
        then have "(ts ! fst ia)\<lparr>holds := []\<rparr> = ts ! fst ia" by (cases "ts ! fst ia") simp
        then have "ts[fst ia := (ts ! fst ia)\<lparr>holds := []\<rparr>] = ts" by simp
        with none Leave Nil show thesis by (intro idles) (simp_all add: defs)
      next
        case (Cons r rs)
        with none Leave show thesis by (intro leaves [of r rs]) (simp_all add: defs)
      qed
    qed
  qed
qed

definition in_role :: "role \<Rightarrow> guarding list \<Rightarrow> bool" where
  "in_role r ts \<longleftrightarrow> (\<exists>t\<in>set ts. r \<in> set (holds t))"

lemma in_role_update:
  "i < length ts \<Longrightarrow> r \<in> set (holds t) \<Longrightarrow> in_role r (ts[i := t])"
  "i < length ts \<Longrightarrow> in_role r ts \<Longrightarrow> (r \<in> set (holds (ts ! i)) \<Longrightarrow> r \<in> set (holds t)) \<Longrightarrow> in_role r (ts[i := t])"
proof -
  show "in_role r (ts[i := t])" if "i < length ts" "r \<in> set (holds t)"
    using that set_update_memI by (fastforce simp: in_role_def)
  show "in_role r (ts[i := t])" if "i < length ts" "in_role r ts" "r \<in> set (holds (ts ! i)) \<Longrightarrow> r \<in> set (holds t)"
  proof -
    from that(2) obtain u where "u \<in> set ts" "r \<in> set (holds u)" by (auto simp: in_role_def)
    then obtain j where "j < length ts" "r \<in> set (holds (ts ! j))" by (metis in_set_conv_nth)
    with that(1,3) have "ts[i := t] ! j \<in> set (ts[i := t])" "r \<in> set (holds (ts[i := t] ! j))"
      by (simp, cases "j = i", auto)
    then show ?thesis by (auto simp: in_role_def)
  qed
qed

lemma in_role_back: "in_role r (ts[i := t]) \<Longrightarrow> r \<in> set (holds t) \<or> in_role r ts"
  by (auto simp: in_role_def dest!: subsetD [OF set_update_subset_insert])

lemma in_role_nth: "i < length ts \<Longrightarrow> r \<in> set (holds (ts ! i)) \<Longrightarrow> in_role r ts"
  by (auto simp: in_role_def)

text \<open>No false alarms: a flag is set only while some thread is in the role.\<close>

lemma flags_sound:
  "\<forall>r. inSection r f \<longrightarrow> in_role r ts \<Longrightarrow> guard_run w (f, ts) = Inl e \<Longrightarrow> overlaps w ts"
proof (induction w arbitrary: f ts)
  case (Cons ia w)
  show ?case
  proof (cases rule: guard_step_cases [of ia ts f])
    case (enters r)
    show ?thesis
    proof (cases "inSection r f")
      case True
      with Cons.prems(1) enters(1) show ?thesis by (auto simp: in_role_def list_ex_iff)
    next
      case False
      have "\<forall>r. inSection r f \<longrightarrow> in_role r (move_on ia ts)"
        using Cons.prems(1) enters by (auto intro: in_role_update(2))
      from Cons.IH [OF this] Cons.prems(2) enters(3) False show ?thesis by simp
    qed
  next
    case (holds r)
    have "\<forall>r'. inSection r' (set_inSection r True f) \<longrightarrow> in_role r' (move_on ia ts)"
      using Cons.prems(1) holds by (auto intro: in_role_update)
    from Cons.IH [OF this] Cons.prems(2) holds(4) show ?thesis by simp
  next
    case (leaves r rs)
    have "\<forall>r'. inSection r' (set_inSection r False f) \<longrightarrow> in_role r' (move_on ia ts)"
      using Cons.prems(1) leaves by (auto intro: in_role_update)
    from Cons.IH [OF this] Cons.prems(2) leaves(5) show ?thesis by simp
  next
    case idles
    with Cons show ?thesis by simp
  qed
qed simp

text \<open>How many times a role is held or about to be.\<close>

definition load :: "role \<Rightarrow> guarding \<Rightarrow> nat" where
  "load r t = count_list (holds t) r + (if tested t = Some r then 1 else 0)"

definition busy :: "role \<Rightarrow> guarding list \<Rightarrow> nat" where
  "busy r ts = sum_list (map (load r) ts)"

lemma busy_update: "i < length ts \<Longrightarrow> busy r (ts[i := t]) = busy r ts + load r t - load r (ts ! i)"
  by (simp add: busy_def map_update sum_list_update)

lemma load_le_busy: "t \<in> set ts \<Longrightarrow> load r t \<le> busy r ts"
  by (auto simp: busy_def intro: member_le_sum_list)

lemma busy_zero: "busy r ts = 0 \<longleftrightarrow> \<not> in_role r ts \<and> (\<forall>t\<in>set ts. tested t \<noteq> Some r)"
  by (auto simp: busy_def load_def in_role_def count_list_0_iff)

lemma flags_complete:
  "\<forall>r. busy r ts \<le> 1 \<and> (in_role r ts \<longrightarrow> inSection r f) \<Longrightarrow> \<not> races w ts \<Longrightarrow> overlaps w ts \<Longrightarrow>
   guard_run w (f, ts) = Inl AssertFailed"
proof (induction w arbitrary: f ts)
  case (Cons ia w)
  let ?i = "fst ia"
  have load: "?i < length ts \<Longrightarrow> load r (ts ! ?i) \<le> busy r ts" for r by (simp add: load_le_busy)
  show ?case
  proof (cases rule: guard_step_cases [of ia ts f])
    case (enters r)
    show ?thesis
    proof (cases "in_role r ts")
      case True
      with Cons.prems(1) enters(3) show ?thesis by simp
    next
      case False
      with Cons.prems(2) enters(1) have 0: "busy r ts = 0" by (auto simp: busy_zero list_ex_iff)
      have "\<forall>r'. busy r' (move_on ia ts) \<le> 1 \<and> (in_role r' (move_on ia ts) \<longrightarrow> inSection r' f)"
      proof
        fix r'
        have "busy r' (move_on ia ts) = busy r' ts + (if r' = r then 1 else 0)"
          using enters load [of r'] by (simp add: busy_update load_def)
        moreover have "in_role r' (move_on ia ts) \<Longrightarrow> in_role r' ts"
          using enters(2,4) by (auto dest!: in_role_back intro: in_role_nth)
        ultimately show "busy r' (move_on ia ts) \<le> 1 \<and> (in_role r' (move_on ia ts) \<longrightarrow> inSection r' f)"
          using Cons.prems(1) 0 by auto
      qed
      from Cons.IH [OF this] Cons.prems False enters(1,3) show ?thesis
        by (auto simp: bindE_def assertE_def list_ex_iff in_role_def)
    qed
  next
    case (holds r)
    have "\<forall>r'. busy r' (move_on ia ts) \<le> 1 \<and> (in_role r' (move_on ia ts) \<longrightarrow> inSection r' (set_inSection r True f))"
    proof
      fix r'
      have "busy r' (move_on ia ts) = busy r' ts"
        using holds load [of r'] by (simp add: busy_update load_def)
      moreover have "in_role r' (move_on ia ts) \<Longrightarrow> r' = r \<or> in_role r' ts"
        using holds(2,5) by (auto dest!: in_role_back intro: in_role_nth)
      ultimately show "busy r' (move_on ia ts) \<le> 1 \<and> (in_role r' (move_on ia ts) \<longrightarrow> inSection r' (set_inSection r True f))"
        using Cons.prems(1) by auto
    qed
    from Cons.IH [OF this] Cons.prems holds(1,4) show ?thesis by simp
  next
    case (leaves r rs)
    have "\<forall>r'. busy r' (move_on ia ts) \<le> 1 \<and> (in_role r' (move_on ia ts) \<longrightarrow> inSection r' (set_inSection r False f))"
    proof
      fix r'
      have busy: "busy r' (move_on ia ts) = busy r' ts - (if r' = r then 1 else 0)"
        using leaves load [of r'] by (simp add: busy_update load_def)
      moreover have "in_role r' (move_on ia ts) \<Longrightarrow> in_role r' ts"
        using leaves(2,4,6) by (auto dest!: in_role_back intro: in_role_nth)
      moreover have "\<not> in_role r (move_on ia ts)" if "r' = r"
        using busy that Cons.prems(1) busy_zero [of r "move_on ia ts"] by simp
      ultimately show "busy r' (move_on ia ts) \<le> 1 \<and> (in_role r' (move_on ia ts) \<longrightarrow> inSection r' (set_inSection r False f))"
        using Cons.prems(1) by auto
    qed
    from Cons.IH [OF this] Cons.prems leaves(1,5) show ?thesis by simp
  next
    case idles
    with Cons show ?thesis by simp
  qed
qed simp

text \<open>Threads that use the queue as they should do not overlap.\<close>

definition owned :: "(role \<Rightarrow> nat) \<Rightarrow> guarding list \<Rightarrow> bool" where
  "owned owner ts \<longleftrightarrow> (\<forall>i<length ts. \<forall>r. r \<in> set (holds (ts ! i)) \<or> tested (ts ! i) = Some r \<longrightarrow> i = owner r)"

lemma owned_update:
  "owned owner ts \<Longrightarrow> (\<And>r. r \<in> set (holds t) \<or> tested t = Some r \<Longrightarrow> i = owner r) \<Longrightarrow> owned owner (ts[i := t])"
proof (unfold owned_def, intro allI impI)
  fix j r
  assume ts: "\<forall>i<length ts. \<forall>r. r \<in> set (holds (ts ! i)) \<or> tested (ts ! i) = Some r \<longrightarrow> i = owner r"
    and t: "\<And>r. r \<in> set (holds t) \<or> tested t = Some r \<Longrightarrow> i = owner r"
    and j: "j < length (ts[i := t])" and r: "r \<in> set (holds (ts[i := t] ! j)) \<or> tested (ts[i := t] ! j) = Some r"
  show "j = owner r"
  proof (cases "j = i")
    case True
    from r j have "r \<in> set (holds t) \<or> tested t = Some r" unfolding True by simp
    then show ?thesis unfolding True by (rule t)
  next
    case False
    then have "ts[i := t] ! j = ts ! j" by simp
    with ts j r show ?thesis by (metis length_list_update)
  qed
qed

lemma owned_nth:
  "owned owner ts \<Longrightarrow> i < length ts \<Longrightarrow> r \<in> set (holds (ts ! i)) \<or> tested (ts ! i) = Some r \<Longrightarrow> i = owner r"
  by (auto simp: owned_def)

lemma proper_enters:
  assumes "proper owner (ia # w) ts" "entered ia ts = Some r"
  shows "fst ia = owner r \<and> holds (ts ! fst ia) = []"
  using assms(1) unfolding proper.simps assms(2) option.case by (rule conjunct1)

lemma proper_apart:
  "owned owner ts \<Longrightarrow> proper owner w ts \<Longrightarrow> \<not> overlaps w ts"
proof (induction w arbitrary: ts)
  case (Cons ia w)
  have "owned owner (move_on ia ts)"
  proof (cases rule: guard_step_cases [of ia ts no_flags])
    case (enters r)
    from proper_enters [OF Cons.prems(2) enters(1)] have own: "fst ia = owner r \<and> holds (ts ! fst ia) = []" .
    show ?thesis unfolding enters(4)
    proof (rule owned_update [OF Cons.prems(1)])
      fix r'
      assume "r' \<in> set (holds ((ts ! fst ia)\<lparr>tested := Some r\<rparr>)) \<or> tested ((ts ! fst ia)\<lparr>tested := Some r\<rparr>) = Some r'"
      then have "r' = r" by (simp add: conjunct2 [OF own])
      with own show "fst ia = owner r'" by blast
    qed
  next
    case (holds r)
    show ?thesis unfolding holds(5)
      using owned_nth [OF Cons.prems(1) holds(2)] holds(3) by (intro owned_update [OF Cons.prems(1)]) auto
  next
    case (leaves r rs)
    show ?thesis unfolding leaves(6)
      using owned_nth [OF Cons.prems(1) leaves(2)] leaves(3,4) by (intro owned_update [OF Cons.prems(1)]) auto
  next
    case idles
    with Cons.prems(1) show ?thesis by simp
  qed
  moreover have "\<not> in_role r ts" if "entered ia ts = Some r" for r
  proof
    assume "in_role r ts"
    then obtain t where "t \<in> set ts" "r \<in> set (holds t)" by (auto simp: in_role_def)
    then obtain i where i: "i < length ts" "r \<in> set (holds (ts ! i))" by (metis in_set_conv_nth)
    note proper_enters [OF Cons.prems(2) that]
    with owned_nth [OF Cons.prems(1) i(1), of r] i(2) show False by auto
  qed
  ultimately show ?case using Cons.IH [of "move_on ia ts"] Cons.prems(2)
    by (auto simp: in_role_def list_ex_iff split: option.splits)
qed simp

lemma all_outside_simps:
  "\<not> in_role r (all_outside n)" "busy r (all_outside n) = 0"
  "i < n \<Longrightarrow> all_outside n ! i = \<lparr>tested = None, holds = []\<rparr>" "length (all_outside n) = n"
  by (auto simp: all_outside_def in_role_def busy_def load_def)

text \<open>
  C15. What the guards of debug mode notice. An assertion fails only if a thread enters a role while
  some thread is in it, and it does fail then, unless two threads had tested the flag before either
  of them set it. As long as each role belongs to one thread and no operation is begun inside
  another, no assertion fails, however the threads interleave.
\<close>

theorem guards_notice:
  shows "(guard_run w (no_flags, all_outside n) = Inl e \<longrightarrow> overlaps w (all_outside n)) \<and>
    (overlaps w (all_outside n) \<and> \<not> races w (all_outside n) \<longrightarrow>
       guard_run w (no_flags, all_outside n) = Inl AssertFailed) \<and>
    (proper owner w (all_outside n) \<longrightarrow> guard_run w (no_flags, all_outside n) \<noteq> Inl e)"
proof (intro conjI impI)
  have no: "\<forall>r. inSection r no_flags \<longrightarrow> in_role r (all_outside n)"
    by (auto simp: inSection_def no_flags_def split: role.split)
  show 1: "overlaps w (all_outside n)" if "guard_run w (no_flags, all_outside n) = Inl e"
    using flags_sound [OF no that] .
  show "guard_run w (no_flags, all_outside n) = Inl AssertFailed"
    if "overlaps w (all_outside n) \<and> \<not> races w (all_outside n)"
    using that by (intro flags_complete) (simp_all add: all_outside_simps)
  show "guard_run w (no_flags, all_outside n) \<noteq> Inl e" if "proper owner w (all_outside n)"
    using proper_apart [OF _ that] 1 by (auto simp: all_outside_simps owned_def)
qed

text \<open>Two enqueues at once: noticed when the second begins after the first has set the flag, missed
  when it begins right before that.\<close>

lemma guards_miss:
  "guard_run [(0, Enter Producing), (1, Enter Producing), (0, Leave), (1, Leave)] (no_flags, all_outside 2) =
   Inr (no_flags\<lparr>enqueuing := True\<rparr>, replicate 2 \<lparr>tested = None, holds = [Producing]\<rparr>)"
  by code_simp

theorem guards_notice_witness:
  "guard_run [(0, Enter Producing), (0, Leave), (1, Enter Consuming), (1, Leave), (1, Enter Producing)]
     (no_flags, all_outside 2) = Inl AssertFailed"
proof -
  let ?w = "[(0, Enter Producing), (0, Leave), (1, Enter Consuming), (1, Leave), (1, Enter Producing)]"
  have "overlaps ?w (all_outside 2) \<and> \<not> races ?w (all_outside 2)" by code_simp
  with guards_notice [of ?w 2] show ?thesis by blast
qed

end
