(* ===== verification/Rw_Tso_Correct.thy ===== *)
theory Rw_Tso_Correct
  imports Rw_Threads_Correct Store_Buffers
begin

text \<open>
  The queue between two threads with store buffers. The memory is a state of the queue in which
  each thread has made only the moves that have been drained; ahead of it is what a thread sees, by
  the moves in its own buffer. Every move is legal in the sense of \<open>Rw_Steps\<close>, legal moves of the two
  threads commute, and so \<open>Store_Buffers\<close> applies.
\<close>

subsection \<open>Moves of one thread\<close>

text \<open>
  The own state of the producer: the operation that runs and what was put in. The own state of the
  consumer: whether nothing was in the queue when its operation began, where it is, and what was
  taken out.
\<close>

type_synonym 'a putter = "('a put_call \<times> put_pc) option \<times> 'a list"
type_synonym 'a taker = "(bool \<times> take_call \<times> 'a take_pc) option \<times> 'a list"

fun elem_of :: "'a putter \<Rightarrow> 'a" where
  "elem_of (Some ((m, mem, x), pc), xs) = x"
| "elem_of (None, xs) = undefined"

fun put_pc_of :: "'a putter \<Rightarrow> put_pc" where
  "put_pc_of (Some (c, pc), xs) = pc"
| "put_pc_of (None, xs) = PutEnter"

fun take_pc_of :: "'a taker \<Rightarrow> 'a take_pc" where
  "take_pc_of (Some (e, c, k), xs) = k"
| "take_pc_of (None, xs) = TakeEnter"

definition rwq_empty :: "'a rwq \<Rightarrow> bool" where
  "rwq_empty q \<longleftrightarrow> frontBlock q = tailBlock q \<and> front (heap q ! frontBlock q) = tail (heap q ! frontBlock q)"

fun taker_knows :: "'a taker \<Rightarrow> 'a rwq \<Rightarrow> bool" where
  "taker_knows (Some (e, c, k), xs) q \<longleftrightarrow> take_knows e c k q \<and> (rwq_empty q \<longrightarrow> e)"
| "taker_knows (None, xs) q \<longleftrightarrow> True"

definition together :: "'a putter \<Rightarrow> 'a taker \<Rightarrow> 'a rwq \<Rightarrow> bool" where
  "together A B q \<longleftrightarrow> (\<exists>us fs. rwq_ring q us fs \<and> snd A = snd B @ chain (heap q) us) \<and>
     put_knows (put_pc_of A) q \<and> taker_knows B q"

definition seen :: "'a putter \<Rightarrow> 'a taker \<Rightarrow> 'a rwq \<Rightarrow> 'a rwq" where
  "seen A B q = put_pending (elem_of A) (put_pc_of A) (take_pending (take_pc_of B) q)"

inductive put_move :: "'a putter \<Rightarrow> 'a rwq \<Rightarrow> 'a put_to list \<Rightarrow> 'a putter \<Rightarrow> 'a rwq \<Rightarrow> bool" where
  PutCall: "put_move (None, xs) q [] (Some (c, PutEnter), xs) q"
| PutMove: "put_legal (m, mem, x) pc w r q \<Longrightarrow>
    put_move (Some ((m, mem, x), pc), xs) q w
      (case r of Inl pc \<Rightarrow> (Some ((m, mem, x), pc), xs) | Inr ok \<Rightarrow> (None, xs @ (if ok then [x] else [])))
      (put_shift x pc w q)"

inductive take_move :: "'a taker \<Rightarrow> 'a rwq \<Rightarrow> 'a put_to list \<Rightarrow> 'a taker \<Rightarrow> 'a rwq \<Rightarrow> bool" where
  TakeCall: "rwq_empty q \<longrightarrow> e \<Longrightarrow> take_move (None, xs) q [] (Some (e, c, TakeEnter), xs) q"
| TakeMove: "take_legal e c k w r q \<Longrightarrow>
    take_move (Some (e, c, k), xs) q w
      (case r of Inl k \<Rightarrow> (Some (e, c, k), xs)
       | Inr y \<Rightarrow> (None, xs @ (if c = PeekCall then [] else case_option [] (\<lambda>y. [y]) y)))
      (take_shift k w q)"

lemma rwq_empty:
  assumes ring: "rwq_ring q us fs"
  shows "rwq_empty q \<longleftrightarrow> chain (heap q) us = []"
proof
  show "rwq_empty q \<Longrightarrow> chain (heap q) us = []"
    using single_block [OF ring] unfolding rwq_empty_def by blast
next
  assume nil: "chain (heap q) us = []"
  note d = rwq_ringD [OF ring]
  have c: "contents (heap q ! a) = []" if "a \<in> set us" for a
    using nil that by (simp add: chain_def)
  have e: "front (heap q ! a) = tail (heap q ! a)" if "a \<in> set us" for a
    using c [OF that] ring_block(1) [OF ring, of a] that by (simp add: contents_Nil)
  have "frontBlock q = tailBlock q"
  proof (rule ccontr)
    assume "frontBlock q \<noteq> tailBlock q"
    from ring_ahead [OF ring this] have "\<exists>n \<in> set us. front (heap q ! n) \<noteq> tail (heap q ! n)" by auto
    with e show False by blast
  qed
  with e [OF d(6)] show "rwq_empty q" by (simp add: rwq_empty_def)
qed

lemma put_legal_one: "put_legal (m, mem, x) pc w r q \<Longrightarrow> length w \<le> 1"
  by (cases pc) (auto simp: Let_def split: if_splits)

lemma take_legal_one: "take_legal e c k w r q \<Longrightarrow> length w \<le> 1"
  by (cases k) (auto simp: Let_def split: if_splits)

lemma put_legal_silent: "put_legal (m, mem, x) pc [] r q \<Longrightarrow> r \<noteq> Inr True"
  by (cases pc) (auto simp: Let_def split: if_splits)

lemma taker_knows_take:
  "taker_knows B q \<Longrightarrow> \<exists>e c. take_knows e c (take_pc_of B) q"
  by (cases "(B, q)" rule: taker_knows.cases) auto

lemma put_move_keeps:
  assumes "together A B q" "put_move A q w A' q'"
  shows "together A' B q' \<and> seen A' B q' = fold do_write w (seen A B q) \<and> length w \<le> 1"
  using assms(2)
proof cases
  case (PutCall xs c)
  with assms(1) show ?thesis by (cases c) (auto simp: together_def seen_def)
next
  case (PutMove m mem x pc r xs)
  from assms(1) PutMove(1) obtain us fs where g: "rwq_ring q us fs" "xs = snd B @ chain (heap q) us"
    "put_knows pc q" "taker_knows B q" by (auto simp: together_def)
  from taker_knows_take [OF g(4)] obtain e c where t: "take_knows e c (take_pc_of B) q" by blast
  note res = put_legal_result [OF g(1,3) t PutMove(4), unfolded put_result_def Let_def, folded PutMove(3)]
  from res obtain us' fs' where r: "rwq_ring q' us' fs'"
    "chain (heap q') us' = chain (heap q) us @ (if r = Inr True then [x] else [])"
    "case r of Inl pc' \<Rightarrow> put_knows pc' q' | Inr _ \<Rightarrow> True" "put_respects q q'"
    "do_writes w (put_pending x pc (take_pending (take_pc_of B) q)) =
       (case r of Inl pc' \<Rightarrow> put_pending x pc' | Inr _ \<Rightarrow> id) (take_pending (take_pc_of B) q')" by blast
  have "taker_knows B q'"
    using g(4) take_knows_kept [OF _ r(4) g(1)] rwq_empty [OF g(1)] rwq_empty [OF r(1)] r(2)
    by (cases "(B, q)" rule: taker_knows.cases) auto
  moreover have "put_knows (put_pc_of A') q'" using r(3) PutMove(2) by (cases r) auto
  moreover have "snd A' = snd B @ chain (heap q') us'" using r(2) PutMove(2) g(2) by (cases r) auto
  ultimately have "together A' B q'" using r(1) unfolding together_def by blast
  moreover have "seen A' B q' = fold do_write w (seen A B q)"
    using r(5) PutMove(1,2) by (cases r) (simp_all add: seen_def do_writes_def)
  ultimately show ?thesis using put_legal_one [OF PutMove(4)] by blast
qed

lemma take_move_keeps:
  assumes "together A B q" "take_move B q w B' q'"
  shows "together A B' q' \<and> seen A B' q' = fold do_write w (seen A B q) \<and> length w \<le> 1"
  using assms(2)
proof cases
  case (TakeCall e xs c)
  with assms(1) show ?thesis by (auto simp: together_def seen_def)
next
  case (TakeMove e c k r xs)
  from assms(1) TakeMove(1) obtain us fs where g: "rwq_ring q us fs" "snd A = xs @ chain (heap q) us"
    "put_knows (put_pc_of A) q" "take_knows e c k q" "rwq_empty q \<longrightarrow> e" by (auto simp: together_def)
  note res = take_legal_result [OF g(1,3,4) TakeMove(4), of "elem_of A", unfolded take_result_def Let_def,
      folded TakeMove(3)]
  from res obtain us' fs' where r: "rwq_ring q' us' fs'"
    "chain (heap q) us = (case r of Inr (Some y) \<Rightarrow> if c = PeekCall then [] else [y] | _ \<Rightarrow> []) @ chain (heap q') us'"
    "case r of Inl k' \<Rightarrow> take_knows e c k' q' | Inr None \<Rightarrow> e | Inr (Some y) \<Rightarrow> \<exists>ys. chain (heap q) us = y # ys"
    "take_respects q q'"
    "do_writes w (put_pending (elem_of A) (put_pc_of A) (take_pending k q)) =
       put_pending (elem_of A) (put_pc_of A) ((case r of Inl k' \<Rightarrow> take_pending k' | Inr _ \<Rightarrow> id) q')" by blast
  have "taker_knows B' q'"
    using g(5) rwq_empty [OF g(1)] rwq_empty [OF r(1)] r(2,3) TakeMove(2) by (cases r) auto
  moreover have "put_knows (put_pc_of A) q'" by (rule put_knows_kept [OF g(3) r(4) g(1)])
  moreover have "snd A = snd B' @ chain (heap q') us'" using r(2) TakeMove(2) g(2) by (cases r) (auto split: option.splits)
  ultimately have "together A B' q'" using r(1) unfolding together_def by blast
  moreover have "seen A B' q' = fold do_write w (seen A B q)"
    using r(5) TakeMove(1,2) by (cases r) (simp_all add: seen_def do_writes_def)
  ultimately show ?thesis using take_legal_one [OF TakeMove(4)] by blast
qed

lemma put_move_enters:
  "put_move A q w A' q' \<Longrightarrow> \<exists>xs. snd A' = snd A @ xs \<and> (w = [] \<longrightarrow> xs = [])"
proof (induction rule: put_move.induct)
  case (PutMove m mem x pc w r q xs)
  then show ?case using put_legal_silent [of m mem x pc r q] by (cases r) auto
qed simp

lemma moves_commute:
  assumes "together A B q" "put_move A q w A' q1" "take_move B q v B' q2"
  shows "\<exists>q3. put_move A q2 w A' q3 \<and> take_move B q1 v B' q3"
  using assms(2)
proof cases
  case put: (PutCall xs c)
  then show ?thesis using assms(3) put_move.PutCall by blast
next
  case put: (PutMove m mem x pc r xs)
  from assms(3) show ?thesis
  proof cases
    case take: (TakeCall e ys c)
    from assms(1) put_move_keeps [OF assms(1,2)] put_move_enters [OF assms(2)] obtain us us' fs fs' xs where
      "rwq_ring q us fs" "rwq_ring q1 us' fs'" "chain (heap q1) us' = chain (heap q) us @ xs"
      unfolding together_def by auto
    then have "rwq_empty q1 \<longrightarrow> rwq_empty q" by (simp add: rwq_empty)
    then show ?thesis using take assms(2) take_move.TakeCall by blast
  next
    case take: (TakeMove e c k r' ys)
    from assms(1) put(1) take(1) obtain us fs where g: "rwq_ring q us fs"
      "put_knows pc q" "take_knows e c k q" by (auto simp: together_def)
    note res = take_legal_result [OF g take(4), of undefined, unfolded take_result_def Let_def]
    from put_legal_kept [OF put(4) g(2,1)] res take(3) have "put_legal (m, mem, x) pc w r q2" by blast
    moreover from put_legal_result [OF g put(4)] put(3) have "put_respects q q1"
      by (simp add: put_result_def Let_def)
    from take_legal_kept [OF take(4) g(3,1) this] have "take_legal e c k v r' q1" .
    moreover have "put_shift x pc w q2 = take_shift k v q1"
      using shifts_commute [OF g put(4) take(4)] put(3) take(3) by simp
    ultimately show ?thesis
      using put_move.PutMove [of m mem x pc w r q2 xs] take_move.TakeMove [of e c k v r' q1 ys] put(1,2) take(1,2)
      by metis
  qed
qed

text \<open>Both ways: the producer ahead of the memory, and the consumer.\<close>

lemma swapped_laws:
  "together A B q \<Longrightarrow> take_move B q w B' q1 \<Longrightarrow> put_move A q v A' q2 \<Longrightarrow>
   \<exists>q3. take_move B q2 w B' q3 \<and> put_move A q1 v A' q3"
  using moves_commute by blast

interpretation ahead: lagging put_move take_move together seen do_write
  by unfold_locales (fact put_move_keeps, fact take_move_keeps, fact moves_commute)

interpretation behind: lagging take_move put_move "\<lambda>B A. together A B" "\<lambda>B A. seen A B" do_write
  by unfold_locales (fact take_move_keeps, fact put_move_keeps, fact swapped_laws)

subsection \<open>The invariant\<close>

definition putter_of :: "('a, 'b) tso_scheme \<Rightarrow> 'a putter" where
  "putter_of s = (putting s, entered s)"

definition taker_of :: "('a, 'b) tso_scheme \<Rightarrow> 'a taker" where
  "taker_of s = (map_option (\<lambda>(c, k). (entered_before s = departed s, c, k)) (taking s), departed s)"

definition tso_inv :: "'a tso \<Rightarrow> bool" where
  "tso_inv s \<longleftrightarrow> (\<exists>A B q qa qb. together A B q \<and> queue s = seen A B q \<and>
     moves put_move A q (put_buffer s) (putter_of s) qa \<and>
     moves take_move B q (take_buffer s) (taker_of s) qb)"

lemma put_moves_enter:
  "moves put_move A q ws A' q' \<Longrightarrow> \<exists>xs. snd A' = snd A @ xs \<and> (ws = [] \<longrightarrow> xs = [])"
proof (induction rule: moves.induct)
  case (Go A q w A' q' ws A'' q'')
  from put_move_enters [OF Go.hyps(1)] Go.IH show ?case by fastforce
qed simp

lemma take_moves_depart:
  "moves take_move B q ws B' q' \<Longrightarrow> \<exists>xs. snd B' = snd B @ xs"
proof (induction rule: moves.induct)
  case (Go B q w B' q' ws B'' q'')
  from Go.hyps(1) have "\<exists>xs. snd B' = snd B @ xs"
    by cases (auto split: sum.split option.split)
  with Go.IH show ?case by fastforce
qed simp

subsection \<open>The steps\<close>

lemma tso_invI:
  "together A B q \<Longrightarrow> queue s = seen A B q \<Longrightarrow> moves put_move A q (put_buffer s) (putter_of s) qa \<Longrightarrow>
   moves take_move B q (take_buffer s) (taker_of s) qb \<Longrightarrow> tso_inv s"
  unfolding tso_inv_def by blast

lemma tso_invD:
  assumes "tso_inv s"
  obtains A B q qa qb where "together A B q" "queue s = seen A B q"
    "moves put_move A q (put_buffer s) (putter_of s) qa" "moves take_move B q (take_buffer s) (taker_of s) qb"
    "together (putter_of s) B qa" "put_view s = seen (putter_of s) B qa"
    "together A (taker_of s) qb" "take_view s = seen A (taker_of s) qb"
proof -
  from assms obtain A B q qa qb where h: "together A B q" "queue s = seen A B q"
    "moves put_move A q (put_buffer s) (putter_of s) qa" "moves take_move B q (take_buffer s) (taker_of s) qb"
    unfolding tso_inv_def by blast
  show thesis
    using that [OF h] ahead.moves_keep [OF h(3,1)] behind.moves_keep [OF h(4,1)] h(2)
    by (simp add: put_view_def take_view_def do_writes_def)
qed

lemma tso_put_inv:
  assumes inv: "tso_inv s"
  shows "\<exists>s'. tso_put s = Inr s' \<and> tso_inv s'"
proof (cases "putting s")
  case None
  with inv show ?thesis by (simp add: tso_put_def)
next
  case (Some a)
  then obtain m mem x pc where p: "putting s = Some ((m, mem, x), pc)" by (metis prod_cases3 surj_pair)
  have P: "putter_of s = (Some ((m, mem, x), pc), entered s)" by (simp add: putter_of_def p)
  from inv obtain A B q qa qb where h: "together A B q" "queue s = seen A B q"
    "moves put_move A q (put_buffer s) (putter_of s) qa" "moves take_move B q (take_buffer s) (taker_of s) qb"
    "together (putter_of s) B qa" "put_view s = seen (putter_of s) B qa"
    by (rule tso_invD) blast
  from h(5) obtain us fs where g: "rwq_ring qa us fs" "put_knows pc qa"
    by (auto simp: together_def P)
  define w where "w = put_write (m, mem, x) pc (put_view s)"
  from put_at_legal [OF g, of m mem x "take_pc_of B"] h(6) obtain r Q where
    step: "put_at (m, mem, x) pc (put_view s) = Inr (r, Q)" and legal: "put_legal (m, mem, x) pc w r qa"
    by (auto simp: seen_def P w_def)
  note move = put_move.PutMove [OF legal, of "entered s", folded P]
  define s' where "s' = (let s = s\<lparr>put_buffer := put_buffer s @ w\<rparr>
    in case r of Inl pc \<Rightarrow> s\<lparr>putting := Some ((m, mem, x), pc)\<rparr>
     | Inr ok \<Rightarrow> s\<lparr>putting := None, entered := entered s @ (if ok then [x] else [])\<rparr>)"
  have "tso_put s = Inr s'" by (cases r) (simp_all add: tso_put_def p step s'_def Let_def w_def)
  moreover have "tso_inv s'"
  proof -
    have "putter_of s' = (case r of Inl pc \<Rightarrow> (Some ((m, mem, x), pc), entered s)
        | Inr ok \<Rightarrow> (None, entered s @ (if ok then [x] else [])))"
      "queue s' = queue s" "put_buffer s' = put_buffer s @ w" "take_buffer s' = take_buffer s"
      "taker_of s' = taker_of s"
      by (cases r; simp add: s'_def putter_of_def taker_of_def Let_def)+
    with h(2,4) moves_snoc [OF h(3) move] show ?thesis
      by (intro tso_invI [OF h(1), where qb = qb]) simp_all
  qed
  ultimately show ?thesis by blast
qed

lemma tso_take_inv:
  assumes inv: "tso_inv s" and t: "taking s = Some (c, k)"
  shows "\<exists>s'. tso_take s = Inr s' \<and> tso_inv s'"
    "take_at c k (take_view s) = Inr (Inr y, q') \<Longrightarrow>
     (case y of None \<Rightarrow> entered_before s = departed s | Some x \<Rightarrow> \<exists>xs. entered s = departed s @ x # xs)"
proof -
  let ?e = "entered_before s = departed s"
  have T: "taker_of s = (Some (?e, c, k), departed s)" by (simp add: taker_of_def t)
  from inv obtain A B q qa qb where h: "together A B q" "queue s = seen A B q"
    "moves put_move A q (put_buffer s) (putter_of s) qa" "moves take_move B q (take_buffer s) (taker_of s) qb"
    "together A (taker_of s) qb" "take_view s = seen A (taker_of s) qb"
    by (rule tso_invD) blast
  from h(5) obtain us fs where g: "rwq_ring qb us fs" "put_knows (put_pc_of A) qb" "take_knows ?e c k qb"
    and chain: "snd A = departed s @ chain (heap qb) us" and e: "rwq_empty qb \<longrightarrow> ?e"
    by (auto simp: together_def T)
  have e': "chain (heap qb) us = [] \<Longrightarrow> ?e" using e rwq_empty [OF g(1)] by blast
  define w where "w = take_write c k (take_view s)"
  from take_at_legal [OF g e', of "elem_of A"] h(6) obtain r Q where
    step: "take_at c k (take_view s) = Inr (r, Q)" and legal: "take_legal ?e c k w r qb"
    by (auto simp: seen_def T w_def)
  define B' where "B' = (case r of Inl k \<Rightarrow> (Some (?e, c, k), departed s)
    | Inr y \<Rightarrow> (None, departed s @ (if c = PeekCall then [] else case_option [] (\<lambda>y. [y]) y)))"
  have move: "take_move (taker_of s) qb w B' (take_shift k w qb)"
    unfolding T B'_def by (rule take_move.TakeMove [OF legal])
  define s' where "s' = (let s = s\<lparr>take_buffer := take_buffer s @ w\<rparr>
    in case r of Inl k \<Rightarrow> s\<lparr>taking := Some (c, k)\<rparr>
     | Inr x \<Rightarrow> s\<lparr>taking := None,
         departed := departed s @ (if c = PeekCall then [] else case_option [] (\<lambda>x. [x]) x)\<rparr>)"
  have "tso_take s = Inr s'" by (cases r) (simp_all add: tso_take_def t step s'_def Let_def w_def)
  moreover have "tso_inv s'"
  proof -
    have at: "taker_of s' = B'"
      "queue s' = queue s" "take_buffer s' = take_buffer s @ w" "put_buffer s' = put_buffer s"
      "putter_of s' = putter_of s"
      by (cases r; simp add: s'_def B'_def putter_of_def taker_of_def Let_def)+
    show ?thesis
    proof (rule tso_invI [OF h(1)])
      show "queue s' = seen A B q" unfolding at(2) by (rule h(2))
      show "moves put_move A q (put_buffer s') (putter_of s') qa" unfolding at(4,5) by (rule h(3))
      show "moves take_move B q (take_buffer s') (taker_of s') (take_shift k w qb)"
        using moves_snoc [OF h(4) move] unfolding at(1,3) .
    qed
  qed
  ultimately show "\<exists>s'. tso_take s = Inr s' \<and> tso_inv s'" by blast
  show "case y of None \<Rightarrow> ?e | Some x \<Rightarrow> \<exists>xs. entered s = departed s @ x # xs"
    if "take_at c k (take_view s) = Inr (Inr y, q')"
  proof -
    from take_legal_result [OF g legal, of undefined] that step
    have "case y of None \<Rightarrow> ?e | Some x \<Rightarrow> \<exists>ys. chain (heap qb) us = x # ys"
      by (auto simp: take_result_def Let_def split: option.splits)
    with chain put_moves_enter [OF h(3)] show ?thesis
      by (auto simp: putter_of_def split: option.splits)
  qed
qed

lemma tso_called:
  assumes inv: "tso_inv s"
  shows "putting s = None \<Longrightarrow> tso_inv (s\<lparr>putting := Some (c, PutEnter)\<rparr>)"
    "taking s = None \<Longrightarrow> tso_inv (s\<lparr>taking := Some (d, TakeEnter),
      entered_before := (if put_buffer s = [] then entered s else departed s)\<rparr>)"
proof -
  from inv obtain A B q qa qb where h: "together A B q" "queue s = seen A B q"
    "moves put_move A q (put_buffer s) (putter_of s) qa" "moves take_move B q (take_buffer s) (taker_of s) qb"
    "together A (taker_of s) qb"
    by (rule tso_invD) blast
  show "tso_inv (s\<lparr>putting := Some (c, PutEnter)\<rparr>)" if "putting s = None"
  proof -
    have "put_move (putter_of s) qa [] (putter_of (s\<lparr>putting := Some (c, PutEnter)\<rparr>)) qa"
      using put_move.PutCall [of "entered s" qa c] that by (simp add: putter_of_def)
    from moves_snoc [OF h(3) this] h(2,4) show ?thesis
      by (intro tso_invI [OF h(1), where qb = qb]) (simp_all add: taker_of_def)
  qed
  show "tso_inv (s\<lparr>taking := Some (d, TakeEnter),
      entered_before := (if put_buffer s = [] then entered s else departed s)\<rparr>)" if "taking s = None"
  proof -
    let ?s = "s\<lparr>taking := Some (d, TakeEnter),
      entered_before := (if put_buffer s = [] then entered s else departed s)\<rparr>"
    let ?e = "entered_before ?s = departed ?s"
    from h(5) obtain us fs where g: "rwq_ring qb us fs" "snd A = departed s @ chain (heap qb) us"
      by (auto simp: together_def taker_of_def that)
    have "rwq_empty qb \<longrightarrow> ?e"
      using rwq_empty [OF g(1)] g(2) put_moves_enter [OF h(3)] by (auto simp: putter_of_def)
    then have "take_move (taker_of s) qb [] (taker_of ?s) qb"
      using take_move.TakeCall [of qb ?e "departed s" d] that by (simp add: taker_of_def)
    from moves_snoc [OF h(4) this] h(2,3) show ?thesis
      by (intro tso_invI [OF h(1), where qa = qa]) (simp_all add: putter_of_def)
  qed
qed

lemma tso_drained:
  assumes inv: "tso_inv s"
  shows "put_buffer s = w # ws \<Longrightarrow> tso_inv (s\<lparr>queue := do_write w (queue s), put_buffer := ws\<rparr>)"
    "take_buffer s = w # ws \<Longrightarrow> tso_inv (s\<lparr>queue := do_write w (queue s), take_buffer := ws\<rparr>)"
proof -
  from inv obtain A B q qa qb where h: "together A B q" "queue s = seen A B q"
    "moves put_move A q (put_buffer s) (putter_of s) qa" "moves take_move B q (take_buffer s) (taker_of s) qb"
    by (rule tso_invD) blast
  show "tso_inv (s\<lparr>queue := do_write w (queue s), put_buffer := ws\<rparr>)" if "put_buffer s = w # ws"
  proof -
    from ahead.drain [OF h(3) that h(1,4)] obtain A1 q1 qa' qb' where d: "together A1 B q1"
      "seen A1 B q1 = do_write w (seen A B q)" "moves put_move A1 q1 ws (putter_of s) qa'"
      "moves take_move B q1 (take_buffer s) (taker_of s) qb'" by blast
    with h(2) show ?thesis
      by (intro tso_invI [OF d(1), where qa = qa' and qb = qb']) (simp_all add: putter_of_def taker_of_def)
  qed
  show "tso_inv (s\<lparr>queue := do_write w (queue s), take_buffer := ws\<rparr>)" if "take_buffer s = w # ws"
  proof -
    from behind.drain [OF h(4) that h(1,3)] obtain B1 q1 qa' qb' where d: "together A B1 q1"
      "seen A B1 q1 = do_write w (seen A B q)" "moves take_move B1 q1 ws (taker_of s) qb'"
      "moves put_move A q1 (put_buffer s) (putter_of s) qa'" by blast
    with h(2) show ?thesis
      by (intro tso_invI [OF d(1), where qa = qa' and qb = qb']) (simp_all add: putter_of_def taker_of_def)
  qed
qed

lemma tso_reachable:
  assumes "rwq_holds q []" "tso_step\<^sup>*\<^sup>* (idle_tso q) s"
  shows "tso_inv s"
  using assms(2)
proof induction
  case base
  from assms(1) obtain us fs where q: "rwq_ring q us fs" "chain (heap q) us = []"
    unfolding rwq_holds_def represents_def by force
  then have "together (None, []) (None, []) q" by (auto simp: together_def)
  then show ?case
    by (rule tso_invI) (auto simp: seen_def idle_tso_def putter_of_def taker_of_def intro: moves.Stay)
next
  case (step s s')
  from step.hyps(2) show ?case
  proof cases
    case (PutCalled c)
    with tso_called(1) [OF step.IH] show ?thesis by simp
  next
    case PutRuns
    with tso_put_inv [OF step.IH] show ?thesis by simp
  next
    case (PutDrains w ws)
    with tso_drained(1) [OF step.IH] show ?thesis by simp
  next
    case (TakeCalled d)
    with tso_called(2) [OF step.IH] show ?thesis by simp
  next
    case TakeRuns
    with tso_take_inv(1) [OF step.IH] step.IH show ?thesis
      by (cases "taking s") (auto simp: tso_take_def [of s])
  next
    case (TakeDrains w ws)
    with tso_drained(2) [OF step.IH] show ?thesis by simp
  qed
qed

text \<open>With empty buffers and no operation under way, the memory is the queue.\<close>

lemma put_moves_silent:
  assumes "moves put_move A q ws A' q'" "ws = []" "fst A' = None"
  shows "q' = q \<and> put_pending (elem_of A) (put_pc_of A) p = p"
  using assms
proof (induction rule: moves.induct)
  case (Stay A q)
  then show ?case by (cases A) simp
next
  case (Go A q w A' q' ws A'' q'')
  from Go.prems(1) Go.hyps(1) have "put_move A q [] A' q'" by simp
  then have "q' = q \<and> put_pending (elem_of A) (put_pc_of A) p = p"
  proof cases
    case (PutMove m mem x pc r xs)
    then show ?thesis by (cases pc) (auto simp: Let_def split: if_splits)
  qed simp
  with Go show ?case by simp
qed

lemma take_moves_silent:
  assumes "moves take_move B q ws B' q'" "ws = []" "fst B' = None"
  shows "q' = q \<and> take_pending (take_pc_of B) p = p \<and> snd B' = snd B"
  using assms
proof (induction rule: moves.induct)
  case (Stay B q)
  then show ?case by (cases B) simp
next
  case (Go B q w B' q' ws B'' q'')
  from Go.prems(1) Go.hyps(1) have "take_move B q [] B' q'" by simp
  then have "q' = q \<and> take_pending (take_pc_of B) p = p \<and> snd B' = snd B"
  proof cases
    case (TakeMove e c k r xs)
    then show ?thesis by (cases k) (auto simp: Let_def split: if_splits)
  qed simp
  with Go show ?case by simp
qed

lemma tso_entered:
  assumes inv: "tso_inv s"
  shows "\<exists>xs. entered s = departed s @ xs"
    "putting s = None \<Longrightarrow> taking s = None \<Longrightarrow> put_buffer s = [] \<Longrightarrow> take_buffer s = [] \<Longrightarrow>
     \<exists>xs. entered s = departed s @ xs \<and> rwq_holds (queue s) xs"
proof -
  from inv obtain A B q qa qb where h: "together A B q" "queue s = seen A B q"
    "moves put_move A q (put_buffer s) (putter_of s) qa" "moves take_move B q (take_buffer s) (taker_of s) qb"
    "together A (taker_of s) qb" "take_view s = seen A (taker_of s) qb"
    by (rule tso_invD) blast
  note more = put_moves_enter [OF h(3)]
  show "\<exists>xs. entered s = departed s @ xs"
    using more h(5) by (auto simp: together_def putter_of_def taker_of_def)
  show "\<exists>xs. entered s = departed s @ xs \<and> rwq_holds (queue s) xs"
    if "putting s = None" "taking s = None" "put_buffer s = []" "take_buffer s = []"
  proof -
    have "queue s = q" "snd (taker_of s) = snd B"
      using h(2) put_moves_silent [OF h(3)] take_moves_silent [OF h(4)] that
      by (simp_all add: seen_def putter_of_def taker_of_def)
    moreover have "entered s = snd A" using more that by (simp add: putter_of_def)
    ultimately show ?thesis
      using h(1) unfolding together_def rwq_holds_def represents_def by (auto simp: taker_of_def)
  qed
qed

subsection \<open>Properties\<close>

text \<open>
  C3. The two threads share the queue on a processor that delays their writes in store buffers, as
  x86 does. However the steps of the threads and of the buffers interleave, neither thread fails an
  assertion, follows a wild pointer or reads a cell without an object, and what was taken out is
  what was put in, in order. An operation of the consumer that returns an element returns the next
  one, and one that finds nothing, when it began with no write of the producer under way, found the
  queue empty. When nothing is under way the memory holds the rest.
\<close>

theorem store_buffers_share_queue:
  assumes "0 < capacity" "unat capacity < 2 ^ 32" "new_queue (\<lambda>_. True) capacity = Inr q"
    "tso_step\<^sup>*\<^sup>* (idle_tso q) s"
  shows "(\<exists>xs. entered s = departed s @ xs \<and>
      (putting s = None \<and> taking s = None \<and> put_buffer s = [] \<and> take_buffer s = [] \<longrightarrow>
        rwq_holds (queue s) xs)) \<and>
    (\<exists>s'. tso_put s = Inr s') \<and> (\<exists>s'. tso_take s = Inr s') \<and>
    (\<forall>c k y q'. taking s = Some (c, k) \<and> take_at c k (take_view s) = Inr (Inr y, q') \<longrightarrow>
      (case y of None \<Rightarrow> entered_before s = departed s | Some x \<Rightarrow> \<exists>xs. entered s = departed s @ x # xs))"
proof (intro conjI)
  have inv: "tso_inv s" by (rule tso_reachable [OF new_queue_holds [OF assms(1-3)] assms(4)])
  show "\<exists>xs. entered s = departed s @ xs \<and>
      (putting s = None \<and> taking s = None \<and> put_buffer s = [] \<and> take_buffer s = [] \<longrightarrow> rwq_holds (queue s) xs)"
  proof (cases "putting s = None \<and> taking s = None \<and> put_buffer s = [] \<and> take_buffer s = []")
    case True
    then show ?thesis using tso_entered(2) [OF inv] by metis
  next
    case False
    then show ?thesis using tso_entered(1) [OF inv] by metis
  qed
  show "\<exists>s'. tso_put s = Inr s'" using tso_put_inv [OF inv] by blast
  show "\<exists>s'. tso_take s = Inr s'"
    using tso_take_inv(1) [OF inv] by (cases "taking s") (auto simp: tso_take_def [of s])
  show "\<forall>c k y q'. taking s = Some (c, k) \<and> take_at c k (take_view s) = Inr (Inr y, q') \<longrightarrow>
      (case y of None \<Rightarrow> entered_before s = departed s | Some x \<Rightarrow> \<exists>xs. entered s = departed s @ x # xs)"
    by (intro allI impI, elim conjE) (rule tso_take_inv(2) [OF inv])
qed

definition example_tso :: "u8 tso" where
  "example_tso = (idle_tso default_queue)\<lparr>putting := Some ((CanAlloc, True, 7), PutTail 1),
     taking := Some (DequeueCall, TakeEnter), put_buffer := [ToCell 0 0 (Some 7)]\<rparr>"

lemma example_tso: "tso_step\<^sup>*\<^sup>* (idle_tso default_queue) example_tso"
proof -
  let ?s = "(idle_tso default_queue) :: u8 tso"
  let ?c = "(CanAlloc, True, 7 :: u8)"
  let ?s1 = "?s\<lparr>putting := Some (?c, PutEnter)\<rparr>"
  let ?s2 = "?s1\<lparr>taking := Some (DequeueCall, TakeEnter),
      entered_before := (if put_buffer ?s1 = [] then entered ?s1 else departed ?s1)\<rparr>"
  let ?s3 = "?s2\<lparr>putting := Some (?c, PutCell 0 1)\<rparr>"
  note eval = tso_put_def put_view_def idle_tso_def default_queue_def new_block_def deref_def construct_def Let_def
  have "tso_step ?s ?s1" by (rule PutCalled) (simp add: idle_tso_def)
  moreover have "tso_step ?s1 ?s2" by (rule TakeCalled) (simp add: idle_tso_def)
  moreover have "tso_put ?s2 = Inr ?s3" by (simp add: eval)
  then have "tso_step ?s2 ?s3" by (rule PutRuns)
  moreover have "tso_put ?s3 = Inr example_tso" by (simp add: eval example_tso_def)
  then have "tso_step ?s3 example_tso" by (rule PutRuns)
  ultimately show ?thesis by (meson rtranclp.rtrancl_into_rtrancl rtranclp.rtrancl_refl)
qed

theorem store_buffers_share_queue_witness:
  "tso_step\<^sup>*\<^sup>* (idle_tso default_queue) example_tso \<and> put_buffer example_tso \<noteq> [] \<and>
   (\<exists>s'. tso_put example_tso = Inr s') \<and> (\<exists>s'. tso_take example_tso = Inr s')"
proof -
  have h: "0 < (15 :: size_t)" "unat (15 :: size_t) < 2 ^ 32" by simp_all
  from store_buffers_share_queue [OF h new_queue_default example_tso] example_tso
  show ?thesis by (simp add: example_tso_def)
qed

end
