(* ===== verification/Rw_Pso_Correct.thy ===== *)
theory Rw_Pso_Correct
  imports Rw_Pso Rw_Tso_Correct
begin

text \<open>
  The queue between two threads whose writes may pass each other. Between two release fences a thread
  only makes writes that the other does not look at yet: such a write can reach the memory early, and
  the other thread does as if it had not. With that, the two threads are an instance of
  \<open>Write_Reordering\<close>.
\<close>

subsection \<open>Writes that can be made in either order\<close>

fun block_of :: "'a put_to \<Rightarrow> nat option" where
  "block_of (ToCell a i x) = Some a"
| "block_of (ToFront a i) = Some a"
| "block_of (ToTail a i) = Some a"
| "block_of (ToLocalFront a i) = Some a"
| "block_of (ToLocalTail a i) = Some a"
| "block_of (ToNext a n) = Some a"
| "block_of _ = None"

definition within :: "'a store \<Rightarrow> 'a rwq \<Rightarrow> bool" where
  "within w q \<longleftrightarrow> (\<forall>a. block_of (snd w) = Some a \<longrightarrow> a < length (heap q))"

definition free :: "'a store \<Rightarrow> 'a store \<Rightarrow> 'a rwq \<Rightarrow> bool" where
  "free v w q \<longleftrightarrow> place_of (snd w) \<noteq> place_of (snd v) \<and> within v q \<and>
     (place_of (snd v) = NewBlockAt \<longrightarrow> within w q)"

lemma length_do_write: "length (heap q) \<le> length (heap (do_write w q))"
  by (cases w) simp_all

lemma within_more: "within w q \<Longrightarrow> length (heap q) \<le> length (heap q') \<Longrightarrow> within w q'"
  by (auto simp: within_def)

lemma free_kept: "free v w q \<Longrightarrow> free v w (perform_store u q)"
  using length_do_write [of q "snd u"] by (auto simp: free_def perform_store_def intro: within_more)

lemma upd_beyond: "length (heap q) \<le> a \<Longrightarrow> upd a f q = q"
  by (simp add: upd_def store_def list_update_beyond)

lemma upd_swap:
  assumes "a = b \<Longrightarrow> f (g (heap q ! a)) = g (f (heap q ! a))"
  shows "upd a f (upd b g q) = upd b g (upd a f q)"
proof (cases "a < length (heap q) \<and> b < length (heap q)")
  case True
  with assms show ?thesis by (intro upd_commute) auto
next
  case False
  then show ?thesis by (auto simp: upd_beyond not_less)
qed

lemma upd_new:
  "a < length (heap q) \<Longrightarrow> upd a f (q\<lparr>largestBlockSize := s, heap := heap q @ bs\<rparr>) =
   (upd a f q)\<lparr>largestBlockSize := s, heap := heap (upd a f q) @ bs\<rparr>"
  by (simp add: upd_def store_def nth_append list_update_append)

lemma free_swap: "free v w q \<Longrightarrow> perform_store w (perform_store v q) = perform_store v (perform_store w q)"
  unfolding free_def within_def perform_store_def
  by (cases "snd v"; cases "snd w") (auto simp: upd_new list_update_swap intro!: upd_swap)

lemma fold_stores [simp]: "fold perform_store (map (Pair f) ws) q = fold do_write ws q"
  by (induction ws arbitrary: q) (simp_all add: perform_store_def)

subsection \<open>The moves, with the fences\<close>

definition put_go :: "'a putter \<Rightarrow> 'a rwq \<Rightarrow> 'a store list \<Rightarrow> 'a putter \<Rightarrow> 'a rwq \<Rightarrow> bool" where
  "put_go A q ws A' q' \<longleftrightarrow> (\<exists>w. put_move A q w A' q' \<and> ws = map (Pair (put_releases (put_pc_of A))) w)"

definition take_go :: "'a taker \<Rightarrow> 'a rwq \<Rightarrow> 'a store list \<Rightarrow> 'a taker \<Rightarrow> 'a rwq \<Rightarrow> bool" where
  "take_go B q ws B' q' \<longleftrightarrow> (\<exists>w. take_move B q w B' q' \<and> ws = map (Pair (take_releases (take_pc_of B))) w)"

lemma put_go_keeps:
  "together A B q \<Longrightarrow> put_go A q ws A' q' \<Longrightarrow>
   together A' B q' \<and> seen A' B q' = fold perform_store ws (seen A B q) \<and> length ws \<le> 1"
  using put_move_keeps [of A B q _ A' q'] by (auto simp: put_go_def)

lemma take_go_keeps:
  "together A B q \<Longrightarrow> take_go B q ws B' q' \<Longrightarrow>
   together A B' q' \<and> seen A B' q' = fold perform_store ws (seen A B q) \<and> length ws \<le> 1"
  using take_move_keeps [of A B q _ B' q'] by (auto simp: take_go_def)

lemma go_commute:
  "together A B q \<Longrightarrow> put_go A q ws A' q1 \<Longrightarrow> take_go B q vs B' q2 \<Longrightarrow>
   \<exists>q3. put_go A q2 ws A' q3 \<and> take_go B q1 vs B' q3"
  using moves_commute [of A B q _ A' q1 _ B' q2] unfolding put_go_def take_go_def by blast

interpretation go_ahead: lagging put_go take_go together seen perform_store
  by unfold_locales (fact put_go_keeps, fact take_go_keeps, fact go_commute)

interpretation go_behind: lagging take_go put_go "\<lambda>B A. together A B" "\<lambda>B A. seen A B" perform_store
  by unfold_locales (fact take_go_keeps, fact put_go_keeps, use go_commute in blast)

subsection \<open>What the producer writes\<close>

text \<open>
  The writes of the producer from a state \<open>q\<close> on, whose blocks in use are \<open>us\<close>: the cells that it
  fills are empty in \<open>q\<close>; and a write that no release fence comes before changes no \<open>tail\<close> of a block
  in use, nor the link of one that is not the last.
\<close>

fun filling :: "'a put_to \<Rightarrow> 'a rwq \<Rightarrow> bool" where
  "filling (ToCell a i x) q \<longleftrightarrow> (a < length (heap q) \<longrightarrow> cells (heap q ! a) ! unat i = None)"
| "filling (ToFront a i) q \<longleftrightarrow> False"
| "filling (ToLocalTail a i) q \<longleftrightarrow> False"
| "filling (ToFrontBlock n) q \<longleftrightarrow> False"
| "filling _ q \<longleftrightarrow> True"

fun unread :: "nat list \<Rightarrow> 'a put_to \<Rightarrow> bool" where
  "unread us (ToTail a i) \<longleftrightarrow> a \<notin> set us"
| "unread us (ToNext a n) \<longleftrightarrow> a \<notin> set (butlast us)"
| "unread us (ToTailBlock n) \<longleftrightarrow> False"
| "unread us _ \<longleftrightarrow> True"

lemma tail_cell:
  assumes "block_ok b"
  shows "cells b ! unat (tail b) = None"
proof -
  from assms obtain n where n: "block_bits n b" by (auto simp: block_ok_def)
  note d = block_bitsD [OF n]
  have "window b < 2 ^ n" using d by (simp add: window_def rdist_less)
  from block_bits_cells [OF n this] slot_window [OF d(3,5,4,6,7)] show ?thesis by simp
qed

text \<open>A step of the producer: its own write, and what becomes of the queue.\<close>

lemma put_legal_writes:
  assumes ring: "rwq_ring q us fs" and knows: "put_knows pc q" and legal: "put_legal (m, mem, x) pc w r q"
    and v: "v \<in> set w"
  shows "filling v q" "\<not> put_releases pc \<Longrightarrow> unread us v" "within (f, v) q"
proof -
  note d = rwq_ringD [OF ring]
  note tb = ring_block [OF ring, of "tailBlock q"]
  note free = ring_free [OF ring]
  have last: "tailBlock q \<notin> set (butlast us)"
  proof -
    have "us = butlast us @ [tailBlock q]" using d(3,5) by (metis append_butlast_last_id)
    moreover have "distinct us" using d(1) by (simp add: ring_ok_def)
    ultimately show ?thesis by (metis distinct_append disjoint_iff list.set_intros(1))
  qed
  show "filling v q"
    using legal knows v free tb tail_cell d(7) by (cases pc) (auto simp: Let_def split: if_splits)
  show "unread us v" if "\<not> put_releases pc"
    using legal knows v that free last by (cases pc) (auto simp: releases Let_def split: if_splits)
  show "within (f, v) q"
    using legal knows v free d(9) by (cases pc) (auto simp: Let_def within_def split: if_splits)
qed

lemma put_shift_queue:
  assumes ring: "rwq_ring q us fs" and knows: "put_knows pc q" and legal: "put_legal (m, mem, x) pc w r q"
  shows "\<exists>us' fs'. rwq_ring (put_shift x pc w q) us' fs' \<and> (us' = us \<or> (\<exists>n. us' = us @ [n]))"
    and "length (heap (put_shift x pc w q)) = length (heap q) + (if \<exists>n. pc = NewAdvance n then 1 else 0)"
    and "a < length (heap q) \<Longrightarrow> cells (heap (put_shift x pc w q) ! a) ! i = None \<Longrightarrow> cells (heap q ! a) ! i = None"
proof -
  note d = rwq_ringD [OF ring]
  note free = ring_free [OF ring]
  have set: "rwq_ring (upd b (\<lambda>b. b\<lparr>localFront := v\<rparr>) q) us fs"
    if "b \<in> set us \<union> set fs" "block_ok ((heap q ! b)\<lparr>localFront := v\<rparr>)" for b v
    using upd_ring(1) [OF ring that(1)] that(2) by simp
  show "\<exists>us' fs'. rwq_ring (put_shift x pc w q) us' fs' \<and> (us' = us \<or> (\<exists>n. us' = us @ [n]))"
  proof (cases pc)
    case (PutFront t t')
    with legal obtain v where v: "w = [ToLocalFront (tailBlock q) v]" "block_ok ((heap q ! tailBlock q)\<lparr>localFront := v\<rparr>)"
      by auto
    from set [OF _ v(2)] d(7) v(1) PutFront show ?thesis by auto
  next
    case (PutTail t)
    with publish_tail(1) [OF ring refl] knows show ?thesis by (auto simp: Let_def)
  next
    case (NextFront n)
    with knows obtain gs where n: "fs = n # gs" "block_ok (heap q ! n)" "contents (heap q ! n) = []"
      using free [of n] by auto
    then have "front (heap q ! n) = tail (heap q ! n)" using contents_Nil by blast
    with n(2) have "block_ok ((heap q ! n)\<lparr>localFront := tail (heap q ! n)\<rparr>)" using block_ok_localFront by metis
    with NextFront legal set [of n] n(1) show ?thesis by (auto intro: exI [of _ us])
  next
    case (NextAdvance n)
    with knows publish_next(1) [OF ring, of n x] obtain gs where
      "rwq_ring ((upd n (published x) q)\<lparr>tailBlock := n\<rparr>) (us @ [n]) gs" by auto
    with NextAdvance show ?thesis by auto
  next
    case PutNew
    have "size_ok (grown_size q)" using next_size_ok [OF d(4)] by (simp only: grown_size_def)
    with ring have "rwq_ring (q\<lparr>largestBlockSize := grown_size q\<rparr>) us fs" by (simp add: rwq_ring_def)
    with PutNew ring show ?thesis by auto
  next
    case (NewAdvance n)
    with publish_new(1) [OF ring, of n] knows show ?thesis by auto
  qed (use ring in auto)
  show "length (heap (put_shift x pc w q)) = length (heap q) + (if \<exists>n. pc = NewAdvance n then 1 else 0)"
    using legal by (cases pc) (auto simp: with_new_def)
  show "cells (heap q ! a) ! i = None"
    if a: "a < length (heap q)" and "cells (heap (put_shift x pc w q) ! a) ! i = None"
  proof -
    have p: "cells b ! i = None" if "cells (published x b) ! i = None" for b
      using that by (cases "i = unat (tail b) \<and> i < length (cells b)")
        (auto simp: published_def fill_def nth_list_update list_update_beyond)
    show ?thesis
      using that legal knows free d(9) a p
      by (cases pc) (auto simp: heap_upd with_new_def nth_append split: if_splits)
  qed
qed

text \<open>The same for moves.\<close>

lemma put_go_writes:
  assumes good: "together A B q" and go: "put_go A q ws A' q'" and v: "(f, v) \<in> set ws"
  shows "filling v q" "\<not> f \<Longrightarrow> rwq_ring q us fs \<Longrightarrow> unread us v" "within (f, v) q"
proof -
  from go v obtain w where w: "put_move A q w A' q'" "v \<in> set w" "f = put_releases (put_pc_of A)"
    by (auto simp: put_go_def)
  from w(1,2) have "filling v q \<and> within (f, v) q \<and> (\<not> f \<longrightarrow> rwq_ring q us fs \<longrightarrow> unread us v)"
  proof cases
    case (PutMove m mem x pc r xs)
    from good PutMove(1) obtain us' fs' where g: "rwq_ring q us' fs'" "put_knows pc q" by (auto simp: together_def)
    note l = put_legal_writes [OF _ g(2) PutMove(4) w(2)]
    from l(1,3) [OF g(1)] l(2) [of us fs] w(3) PutMove(1) show ?thesis by auto
  qed simp
  then show "filling v q" "\<not> f \<Longrightarrow> rwq_ring q us fs \<Longrightarrow> unread us v" "within (f, v) q" by blast+
qed

lemma put_go_queue:
  assumes good: "together A B q" and go: "put_go A q ws A' q'"
  shows "rwq_ring q us fs \<Longrightarrow> \<exists>us' fs'. rwq_ring q' us' fs' \<and> (us' = us \<or> (\<exists>n. us' = us @ [n]))"
    and "length (heap q') = length (heap q) \<or>
      (length (heap q') = length (heap (seen A B q)) \<and> (\<forall>w\<in>set ws. fst w) \<and> ws \<noteq> [])"
    and "length (heap q) \<le> length (heap q')"
    and "a < length (heap q) \<Longrightarrow> cells (heap q' ! a) ! i = None \<Longrightarrow> cells (heap q ! a) ! i = None"
proof -
  from go obtain w where w: "put_move A q w A' q'" "ws = map (Pair (put_releases (put_pc_of A))) w"
    by (auto simp: put_go_def)
  from w(1) have "(rwq_ring q us fs \<longrightarrow> (\<exists>us' fs'. rwq_ring q' us' fs' \<and> (us' = us \<or> (\<exists>n. us' = us @ [n])))) \<and>
     (length (heap q') = length (heap q) \<or>
       length (heap q') = length (heap (seen A B q)) \<and> (\<forall>w\<in>set ws. fst w) \<and> ws \<noteq> []) \<and>
     length (heap q) \<le> length (heap q') \<and>
     (a < length (heap q) \<longrightarrow> cells (heap q' ! a) ! i = None \<longrightarrow> cells (heap q ! a) ! i = None)"
  proof cases
    case (PutCall xs c)
    then show ?thesis by auto
  next
    case (PutMove m mem x pc r xs)
    from good PutMove(1) obtain us' fs' where g: "rwq_ring q us' fs'" "put_knows pc q" by (auto simp: together_def)
    note l = put_shift_queue [OF _ g(2) PutMove(4), folded PutMove(3)]
    have "length (heap q') = length (heap (seen A B q)) \<and> (\<forall>w\<in>set ws. fst w) \<and> ws \<noteq> []"
      if "pc = NewAdvance n" for n
      using PutMove(1,4) l(2) [OF g(1)] that w(2) by (auto simp: seen_def with_new_def releases)
    with l(2,3) [OF g(1)] l(1) [of us fs] show ?thesis by (auto split: if_splits)
  qed
  then show "rwq_ring q us fs \<Longrightarrow> \<exists>us' fs'. rwq_ring q' us' fs' \<and> (us' = us \<or> (\<exists>n. us' = us @ [n]))"
    and "length (heap q') = length (heap q) \<or>
      (length (heap q') = length (heap (seen A B q)) \<and> (\<forall>w\<in>set ws. fst w) \<and> ws \<noteq> [])"
    and "length (heap q) \<le> length (heap q')"
    and "a < length (heap q) \<Longrightarrow> cells (heap q' ! a) ! i = None \<Longrightarrow> cells (heap q ! a) ! i = None"
    by blast+
qed

lemma filling_before:
  assumes "filling v q'" "\<And>a i. a < length (heap q) \<Longrightarrow> cells (heap q' ! a) ! i = None \<Longrightarrow> cells (heap q ! a) ! i = None"
    "length (heap q) \<le> length (heap q')"
  shows "filling v q"
  using assms by (cases v) auto

lemma unread_before: "unread us' v \<Longrightarrow> us' = us \<or> us' = us @ [n] \<Longrightarrow> unread us v"
  by (cases v) (auto dest: in_set_butlastD)

lemma put_moves_writes:
  assumes "moves put_go A q ws A' q'" "together A B q" "(f, v) \<in> set ws"
  shows "filling v q \<and> (\<not> f \<longrightarrow> rwq_ring q us fs \<longrightarrow> unread us v)"
  using assms
proof (induction arbitrary: us fs)
  case (Go A q w A' q' ws A'' q'')
  note k = put_go_keeps [OF Go.prems(1) Go.hyps(1)] and queue = put_go_queue [OF Go.prems(1) Go.hyps(1)]
  show ?case
  proof (cases "(f, v) \<in> set w")
    case True
    with put_go_writes [OF Go.prems(1) Go.hyps(1) True] show ?thesis by blast
  next
    case False
    with Go.IH [OF conjunct1 [OF k]] Go.prems(2)
    have later: "filling v q'" "\<And>us fs. \<not> f \<Longrightarrow> rwq_ring q' us fs \<Longrightarrow> unread us v" by auto
    have "unread us v" if "\<not> f" "rwq_ring q us fs"
      using queue(1) [OF that(2)] later(2) [OF that(1)] unread_before by blast
    with filling_before [OF later(1)] queue(3,4) show ?thesis by blast
  qed
qed simp

text \<open>
  A write before which no release fence stands, but for one before the first, goes to a block that
  the memory already has.
\<close>

lemma put_moves_within:
  assumes "moves put_go A q ws A' q'" "together A B q" "ws = us @ v # vs" "\<forall>u\<in>set us. \<not> fst u"
  shows "within v q"
  using assms
proof (induction arbitrary: us)
  case (Go A q w A' q' ws A'' q'')
  note k = put_go_keeps [OF Go.prems(1) Go.hyps(1)] and queue = put_go_queue [OF Go.prems(1) Go.hyps(1)]
  consider (now) "w = [v]" | (later) us' where "us = w @ us'" "ws = us' @ v # vs"
    using k Go.prems(2) by (cases w; cases us) auto
  then show ?case
  proof cases
    case now
    with put_go_writes(3) [OF Go.prems(1) Go.hyps(1)] show ?thesis by (cases v) auto
  next
    case later
    have "length (heap q') = length (heap q)" using queue(2) later(1) Go.prems(3) by (cases w) auto
    with Go.IH [OF conjunct1 [OF k] later(2)] later(1) Go.prems(3) show ?thesis by (auto simp: within_def)
  qed
qed simp

lemma seen_longer: "length (heap q) \<le> length (heap (seen A B q))"
  unfolding seen_def by (cases "put_pc_of A") (simp_all add: with_new_def)

lemma put_moves_fit:
  assumes "moves put_go A q ws A' q'" "together A B q" "ws = us @ v # vs" "\<forall>u\<in>set (tl us). \<not> fst u"
  shows "within v (seen A B q)"
  using assms
proof (induction arbitrary: us)
  case (Go A q w A' q' ws A'' q'')
  note k = put_go_keeps [OF Go.prems(1) Go.hyps(1)] and queue = put_go_queue [OF Go.prems(1) Go.hyps(1)]
  consider (silent) "w = []" | (now) "us = []" "w = [v]" | (later) u us' where "us = u # us'" "w = [u]" "ws = us' @ v # vs"
    using k Go.prems(2) by (cases w; cases us) auto
  then show ?case
  proof cases
    case silent
    with Go.IH [OF conjunct1 [OF k], of us] Go.prems k show ?thesis by simp
  next
    case now
    with put_go_writes(3) [OF Go.prems(1) Go.hyps(1)] seen_longer [of q A B] show ?thesis
      by (cases v) (auto intro: within_more)
  next
    case later
    from put_moves_within [OF Go.hyps(2) conjunct1 [OF k] later(3)] later(1) Go.prems(3)
    have "within v q'" by simp
    then show ?thesis using queue(2) seen_longer [of q A B] by (auto intro: within_more)
  qed
qed simp

subsection \<open>What the consumer writes\<close>

text \<open>It empties cells that are full; and before a release fence only these and its own \<open>localTail\<close>.\<close>

fun emptying :: "'a put_to \<Rightarrow> 'a rwq \<Rightarrow> bool" where
  "emptying (ToCell a i x) q \<longleftrightarrow> x = None \<and> a < length (heap q) \<and> cells (heap q ! a) ! unat i \<noteq> None"
| "emptying (ToFront a i) q \<longleftrightarrow> a < length (heap q)"
| "emptying (ToLocalTail a i) q \<longleftrightarrow> a < length (heap q)"
| "emptying (ToFrontBlock n) q \<longleftrightarrow> True"
| "emptying _ q \<longleftrightarrow> False"

definition own :: "'a put_to \<Rightarrow> bool" where
  "own v \<longleftrightarrow> (\<exists>a i. v = ToLocalTail a i) \<or> (\<exists>a i. v = ToCell a i None)"

lemma take_go_writes:
  assumes good: "together A B q" and go: "take_go B q ws B' q'" and v: "(f, v) \<in> set ws"
  shows "emptying v q \<and> (\<not> f \<longrightarrow> own v)"
proof -
  from go v obtain w where w: "take_move B q w B' q'" "v \<in> set w" "f = take_releases (take_pc_of B)"
    by (auto simp: take_go_def)
  from w(1,2) show ?thesis
  proof cases
    case (TakeMove e c k r xs)
    from good TakeMove(1) obtain us fs where g: "rwq_ring q us fs" "take_knows e c k q" by (auto simp: together_def)
    note d = rwq_ringD [OF g(1)] and ahead = ring_ahead [OF g(1)]
    have "emptying v q"
      using TakeMove(4) g(2) w(2) d(8) ahead by (cases k) (auto simp: Let_def split: if_splits)
    moreover have "own v" if "\<not> f"
      using TakeMove(1,4) w(2,3) that by (cases k) (auto simp: releases own_def Let_def split: if_splits)
    ultimately show ?thesis by blast
  qed simp
qed

lemma take_go_queue:
  assumes good: "together A B q" and go: "take_go B q ws B' q'"
  shows "length (heap q') = length (heap q)"
    and "a < length (heap q) \<Longrightarrow> cells (heap q' ! a) ! i \<noteq> None \<Longrightarrow> cells (heap q ! a) ! i \<noteq> None"
proof -
  from go obtain w where w: "take_move B q w B' q'" by (auto simp: take_go_def)
  from w have "length (heap q') = length (heap q) \<and>
     (a < length (heap q) \<longrightarrow> cells (heap q' ! a) ! i \<noteq> None \<longrightarrow> cells (heap q ! a) ! i \<noteq> None)"
  proof cases
    case (TakeMove e c k r xs)
    from good TakeMove(1) obtain us fs where g: "rwq_ring q us fs" "take_knows e c k q" by (auto simp: together_def)
    note d = rwq_ringD [OF g(1)] and ahead = ring_ahead [OF g(1)]
    have "cells (dropped b) ! i \<noteq> None \<Longrightarrow> cells b ! i \<noteq> None" for b :: "'a block"
      by (cases "i = unat (front b) \<and> i < length (cells b)")
        (auto simp: dropped_def clear_def destroy_def nth_list_update list_update_beyond)
    then show ?thesis
      using TakeMove(3,4) g(2) d(8) ahead by (cases k) (auto simp: Let_def heap_upd split: if_splits)
  qed simp
  then show "length (heap q') = length (heap q)"
    and "a < length (heap q) \<Longrightarrow> cells (heap q' ! a) ! i \<noteq> None \<Longrightarrow> cells (heap q ! a) ! i \<noteq> None" by blast+
qed

lemma take_moves_writes:
  assumes "moves take_go B q ws B' q'" "together A B q" "(f, v) \<in> set ws"
  shows "emptying v q \<and> (\<not> f \<longrightarrow> own v)"
  using assms
proof induction
  case (Go B q w B' q' ws B'' q'')
  note k = take_go_keeps [OF Go.prems(1) Go.hyps(1)] and queue = take_go_queue [OF Go.prems(1) Go.hyps(1)]
  show ?case
  proof (cases "(f, v) \<in> set w")
    case True
    with take_go_writes [OF Go.prems(1) Go.hyps(1) True] show ?thesis by blast
  next
    case False
    with Go.IH [OF conjunct1 [OF k]] Go.prems(2) have "emptying v q'" "\<not> f \<longrightarrow> own v" by auto
    with queue show ?thesis by (cases v) auto
  qed
qed simp

lemma emptying_within: "emptying v q \<Longrightarrow> within (f, v) (seen A B q)"
  using seen_longer [of q A B] by (cases v) (auto simp: within_def)

lemma writes_apart: "filling v q \<Longrightarrow> emptying w q \<Longrightarrow> place_of v \<noteq> place_of w"
  by (cases v; cases w) auto

subsection \<open>The interpretation\<close>

lemma put_own_free:
  assumes "together A B q" "moves put_go A q (us @ w # vs @ v # xs) A' q'"
    "\<forall>u\<in>set (tl (us @ w # vs)). \<not> fst u" "(place_of \<circ> snd) w \<noteq> (place_of \<circ> snd) v"
  shows "free v w (seen A B q)"
proof -
  have "within v (seen A B q)"
    using put_moves_fit [OF assms(2,1), of "us @ w # vs" v xs] assms(3) by simp
  moreover have "\<forall>u\<in>set (tl us). \<not> fst u" using assms(3) by (cases us) auto
  with put_moves_fit [OF assms(2,1), of us w "vs @ v # xs"] have "within w (seen A B q)" by simp
  ultimately show ?thesis using assms(4) by (simp add: free_def)
qed

lemma take_own_free:
  assumes "together A B q" "moves take_go B q (us @ w # vs @ v # xs) B' q'"
    "(place_of \<circ> snd) w \<noteq> (place_of \<circ> snd) v"
  shows "free v w (seen A B q)"
  using take_moves_writes [OF assms(2,1), of "fst v" "snd v"] take_moves_writes [OF assms(2,1), of "fst w" "snd w"]
    emptying_within [of "snd v" q "fst v" A B] emptying_within [of "snd w" q "fst w" A B] assms(3)
  by (simp add: free_def)

lemma put_take_free:
  assumes "together A B q" "moves put_go A q ws A' q1" "moves take_go B q vs B' q2" "w \<in> set ws" "v \<in> set vs"
  shows "free v w (seen A B q)" "within w (seen A B q) \<Longrightarrow> free w v (seen A B q)"
proof -
  have "filling (snd w) q" "emptying (snd v) q"
    using put_moves_writes [OF assms(2,1), of "fst w" "snd w"] take_moves_writes [OF assms(3,1), of "fst v" "snd v"] assms(4,5)
    by simp_all
  then have "place_of (snd w) \<noteq> place_of (snd v)" "within v (seen A B q)" "place_of (snd v) \<noteq> NewBlockAt"
    using writes_apart emptying_within [of "snd v" q "fst v" A B] by (auto, cases "snd v", auto)
  then show "free v w (seen A B q)" "within w (seen A B q) \<Longrightarrow> free w v (seen A B q)"
    by (auto simp: free_def)
qed

interpretation ahead_pso: reordering put_go take_go together seen perform_store "place_of \<circ> snd" fst free
proof
  show "free v w q \<Longrightarrow> free v w (perform_store u q)" for v w u and q :: "'a rwq" by (rule free_kept)
  show "free v w q \<Longrightarrow> perform_store w (perform_store v q) = perform_store v (perform_store w q)" for v w and q :: "'a rwq"
    by (rule free_swap)
qed (rule put_own_free, assumption+, rule put_take_free(1), assumption+, simp)

interpretation behind_pso: reordering take_go put_go "\<lambda>B A. together A B" "\<lambda>B A. seen A B" perform_store
  "place_of \<circ> snd" fst free
proof
  show "free v w q \<Longrightarrow> free v w (perform_store u q)" for v w u and q :: "'a rwq" by (rule free_kept)
  show "free v w q \<Longrightarrow> perform_store w (perform_store v q) = perform_store v (perform_store w q)" for v w and q :: "'a rwq"
    by (rule free_swap)
  show "free v w (seen A B q)"
    if "together A B q" "moves take_go B q ws B' q1" "moves put_go A q (us @ v # xs) A' q2"
      "\<forall>u\<in>set (tl us). \<not> fst u" "w \<in> set ws"
    for A B q ws B' q1 us v xs A' q2 and w :: "'a store"
  proof -
    have "within v (seen A B q)" by (rule put_moves_fit [OF that(3,1) refl that(4)])
    moreover have "v \<in> set (us @ v # xs)" by simp
    ultimately show ?thesis using put_take_free(2) [OF that(1,3,2) _ that(5)] by blast
  qed
qed (rule take_own_free, assumption+)

subsection \<open>A thread does not notice early writes\<close>

text \<open>What the producer looks at, and what of it the consumer writes early.\<close>

definition same_put :: "'a rwq \<Rightarrow> 'a rwq \<Rightarrow> bool" where
  "same_put q q' \<longleftrightarrow> frontBlock q' = frontBlock q \<and> tailBlock q' = tailBlock q \<and>
     largestBlockSize q' = largestBlockSize q \<and> length (heap q') = length (heap q) \<and>
     (\<forall>a < length (heap q). let b = heap q ! a; b' = heap q' ! a in
       front b' = front b \<and> tail b' = tail b \<and> localFront b' = localFront b \<and> sizeMask b' = sizeMask b \<and>
       next_blk b' = next_blk b \<and> length (cells b') = length (cells b))"

lemma same_put_own:
  assumes "same_put q q'" "own v"
  shows "same_put q (do_write v q')"
proof -
  have "same_put q (upd a f q')"
    if "\<And>b. front (f b) = front b \<and> tail (f b) = tail b \<and> localFront (f b) = localFront b \<and>
      sizeMask (f b) = sizeMask b \<and> next_blk (f b) = next_blk b \<and> length (cells (f b)) = length (cells b)" for a f
    using assms(1) that by (cases "a < length (heap q')") (auto simp: same_put_def heap_upd upd_beyond Let_def)
  then show ?thesis using assms(2) by (auto simp: own_def)
qed

lemma same_put_early:
  "same_put q q' \<Longrightarrow> \<forall>v\<in>set vs. own (snd v) \<Longrightarrow> same_put q (fold perform_store vs q')"
  by (induction vs arbitrary: q') (auto simp: perform_store_def intro: same_put_own)

lemma put_at_same:
  assumes "same_put q q'" "put_at (m, mem, x) pc q = Inr (r, p)"
  shows "(\<exists>p'. put_at (m, mem, x) pc q' = Inr (r, p')) \<and> put_write (m, mem, x) pc q' = put_write (m, mem, x) pc q"
  using assms
  by (cases pc)
    (auto simp: same_put_def deref_def bindE_eq_Inr Let_def construct_def follow_def assertE_def
      split: if_splits alloc_mode.splits option.splits)

text \<open>
  What the consumer looks at, when the queue is \<open>q\<close> and its blocks in use are \<open>us\<close>, and what of it the
  producer writes early.
\<close>

definition same_take :: "nat list \<Rightarrow> 'a rwq \<Rightarrow> 'a rwq \<Rightarrow> 'a rwq \<Rightarrow> bool" where
  "same_take us q p p' \<longleftrightarrow> frontBlock p' = frontBlock p \<and> tailBlock p' = tailBlock p \<and>
     length (heap p) \<le> length (heap p') \<and>
     (\<forall>a < length (heap p). let b = heap p ! a; b' = heap p' ! a in
       front b' = front b \<and> localTail b' = localTail b \<and> sizeMask b' = sizeMask b \<and>
       length (cells b') = length (cells b) \<and> (a \<in> set us \<longrightarrow> tail b' = tail b) \<and>
       (a \<in> set (butlast us) \<longrightarrow> next_blk b' = next_blk b) \<and>
       (\<forall>i. a < length (heap q) \<longrightarrow> cells (heap q ! a) ! i \<noteq> None \<longrightarrow> cells b' ! i = cells b ! i))"

lemma same_take_unread:
  assumes "same_take us q p p'" "filling v q" "unread us v"
  shows "same_take us q p (do_write v p')"
proof -
  have upd: "same_take us q p (upd a f p')"
    if "\<And>b. front (f b) = front b \<and> localTail (f b) = localTail b \<and> sizeMask (f b) = sizeMask b \<and>
        length (cells (f b)) = length (cells b)"
      "\<And>b i. a < length (heap q) \<Longrightarrow> cells (heap q ! a) ! i \<noteq> None \<Longrightarrow> cells (f b) ! i = cells b ! i"
      "\<And>b. a \<in> set us \<Longrightarrow> tail (f b) = tail b" "\<And>b. a \<in> set (butlast us) \<Longrightarrow> next_blk (f b) = next_blk b" for a f
    using assms(1) that by (cases "a < length (heap p')") (auto simp: same_take_def heap_upd upd_beyond Let_def)
  have cell: "xs[j := y] ! i = xs ! i" if "z \<noteq> None" "zs ! j = None" "zs ! i = z" for xs zs :: "'a option list" and i j y z
    using that by (metis nth_list_update_neq)
  show ?thesis
  proof (cases v)
    case (ToNewBlock b s)
    with assms(1) show ?thesis by (auto simp: same_take_def nth_append Let_def)
  next
    case (ToCell a i x)
    then show ?thesis using assms(2) by (auto intro!: upd cell)
  qed (use assms(2,3) in \<open>auto intro!: upd\<close>)
qed

lemma same_take_early:
  "same_take us q p p' \<Longrightarrow> \<forall>v\<in>set vs. filling (snd v) q \<and> unread us (snd v) \<Longrightarrow>
   same_take us q p (fold perform_store vs p')"
  by (induction vs arbitrary: p') (auto simp: perform_store_def intro: same_take_unread)

lemma same_refl: "same_put q q" "same_take us q p p"
  by (simp_all add: same_put_def same_take_def Let_def)

text \<open>The cells that the consumer reads are full.\<close>

lemma take_reads:
  assumes ring: "rwq_ring q us fs" and knows: "take_knows e c k q"
  shows "k = TakeCell f \<Longrightarrow> cells (heap q ! frontBlock q) ! unat f \<noteq> None"
    "k = AheadPeek n \<Longrightarrow> cells (heap q ! n) ! unat (front (heap q ! n)) \<noteq> None \<and> n < length (heap q)"
proof -
  note d = rwq_ringD [OF ring]
  have ok: "block_ok (heap q ! frontBlock q)" using ring_block [OF ring, of "frontBlock q"] d(6) by simp
  have full: "cells b ! unat (front b) \<noteq> None" if "block_ok b" "front b \<noteq> tail b" for b :: "'a block"
  proof -
    from that(1) obtain n where n: "block_bits n b" by (auto simp: block_ok_def)
    note b = block_bitsD [OF n]
    have "0 < window b" using contents_Nil [OF that(1)] that(2) length_contents [of b] by (metis length_greater_0_conv)
    with block_bits_cells [OF n, of 0] b show ?thesis by (simp add: slot_def)
  qed
  show "cells (heap q ! frontBlock q) ! unat f \<noteq> None" if "k = TakeCell f"
    using knows that full [OF ok] block_front_tail [OF ok] by (auto simp: Let_def)
  show "cells (heap q ! n) ! unat (front (heap q ! n)) \<noteq> None \<and> n < length (heap q)" if "k = AheadPeek n"
    using knows that ring_ahead [OF ring] full by (auto simp: Let_def)
qed

lemma take_at_same:
  assumes ring: "rwq_ring q us fs" and knows: "take_knows e c k q"
    and p: "frontBlock p = frontBlock q" "tailBlock p = tailBlock q" "length (heap q) \<le> length (heap p)"
      "\<And>a. a < length (heap q) \<Longrightarrow> front (heap p ! a) = front (heap q ! a)"
    and same: "same_take us q p p'" and run: "take_at c k p = Inr (r, p1)"
  shows "(\<exists>p2. take_at c k p' = Inr (r, p2)) \<and> take_write c k p' = take_write c k p"
proof -
  note d = rwq_ringD [OF ring]
  have f: "frontBlock p' = frontBlock q" "tailBlock p' = tailBlock q" using same p by (simp_all add: same_take_def)
  have len: "frontBlock q < length (heap p)" "frontBlock q < length (heap p')"
    using d(8) p(3) same by (auto simp: same_take_def)
  have at: "front (heap p' ! b) = front (heap p ! b) \<and> localTail (heap p' ! b) = localTail (heap p ! b) \<and>
      sizeMask (heap p' ! b) = sizeMask (heap p ! b) \<and> length (cells (heap p' ! b)) = length (cells (heap p ! b)) \<and>
      (b \<in> set us \<longrightarrow> tail (heap p' ! b) = tail (heap p ! b)) \<and>
      (b \<in> set (butlast us) \<longrightarrow> next_blk (heap p' ! b) = next_blk (heap p ! b)) \<and> b < length (heap p')"
    if "b < length (heap p)" for b
    using same that by (auto simp: same_take_def Let_def)
  have cell: "cells (heap p' ! b) ! i = cells (heap p ! b) ! i"
    if "b < length (heap q)" "cells (heap q ! b) ! i \<noteq> None" for b i
    using same that p(3) by (auto simp: same_take_def Let_def)
  note here = at [OF len(1)]
  have ahead: "frontBlock q \<in> set (butlast us) \<and> (\<forall>n. next_blk (heap q ! frontBlock q) = Some n \<longrightarrow> n \<in> set us \<and> n < length (heap p))"
    if "frontBlock q \<noteq> tailBlock q"
    using ring_ahead [OF ring that] p(3) by auto
  show ?thesis
  proof (cases k)
    case (TakeCell g)
    have "cells (heap p' ! frontBlock q) ! unat g = cells (heap p ! frontBlock q) ! unat g"
      using take_reads(1) [OF ring knows TakeCell] cell d(8) by blast
    with TakeCell run here len f p(1) show ?thesis
      by (auto simp: deref_def bindE_eq_Inr read_cell_def split: if_splits option.splits)
  next
    case (AheadPeek n)
    note r = take_reads(2) [OF ring knows AheadPeek]
    have n: "n < length (heap p)" using r p(3) by simp
    have "cells (heap p' ! n) ! unat (front (heap p ! n)) = cells (heap p ! n) ! unat (front (heap p ! n))"
      using r cell p(4) [of n] by simp
    with AheadPeek run at [OF n] n show ?thesis
      by (auto simp: deref_def bindE_eq_Inr read_cell_def split: if_splits option.splits)
  next
    case (AheadTail n)
    with knows ahead have n: "n \<in> set us" "n < length (heap p)" by (auto simp: Let_def)
    with AheadTail run at [OF n(2)] show ?thesis
      by (auto simp: deref_def bindE_eq_Inr assertE_def Let_def split: if_splits)
  next
    case (AheadBlock n)
    with knows ahead have n: "n < length (heap p)" by (auto simp: Let_def)
    with AheadBlock run at [OF n] show ?thesis by (auto simp: deref_def bindE_eq_Inr)
  next
    case AheadNext
    with knows ahead have "frontBlock q \<in> set (butlast us)" by simp
    with AheadNext run here len f p(1) show ?thesis
      by (auto simp: deref_def bindE_eq_Inr follow_def split: option.splits)
  qed (use run here len f p(1,2) d(6) in \<open>auto simp: deref_def bindE_eq_Inr Let_def split: if_splits\<close>)
qed

lemma seen_reads:
  assumes "together A B q"
  shows "frontBlock (seen A B q) = frontBlock q" "tailBlock (seen A B q) = tailBlock q"
    "a < length (heap q) \<Longrightarrow> front (heap (seen A B q) ! a) = front (heap q ! a)"
proof -
  from assms obtain us fs where g: "rwq_ring q us fs" "put_knows (put_pc_of A) q" by (auto simp: together_def)
  note d = rwq_ringD [OF g(1)]
  have u: "front (heap (upd b f p) ! a) = front (heap p ! a)" if "\<And>c. front (f c) = front c" for b f and p :: "'a rwq"
    using that by (cases "b < length (heap p)") (auto simp: heap_upd upd_beyond)
  show "frontBlock (seen A B q) = frontBlock q" "tailBlock (seen A B q) = tailBlock q" by (simp_all add: seen_def)
  show "front (heap (seen A B q) ! a) = front (heap q ! a)" if "a < length (heap q)"
    unfolding seen_def using d(8) that
    by (cases "put_pc_of A") (simp_all add: u with_new_def nth_append)
qed

subsection \<open>The invariant\<close>

lemma put_go_enters:
  "moves put_go A q ws A' q' \<Longrightarrow> \<exists>xs. snd A' = snd A @ xs \<and> (ws = [] \<longrightarrow> xs = [])"
proof (induction rule: moves.induct)
  case (Go A q w A' q' ws A'' q'')
  then obtain v where "put_move A q v A' q'" "w = [] \<longleftrightarrow> v = []" by (auto simp: put_go_def)
  from put_move_enters [OF this(1)] this(2) Go.IH show ?case by fastforce
qed simp

definition pso_putter :: "'a pso \<Rightarrow> 'a putter" where
  "pso_putter s = (putting s, entered s)"

definition pso_taker :: "'a pso \<Rightarrow> 'a taker" where
  "pso_taker s = (map_option (\<lambda>(c, k). (entered_before s = departed s, c, k)) (taking s), departed s)"

definition pso_inv :: "'a pso \<Rightarrow> bool" where
  "pso_inv s \<longleftrightarrow> (\<exists>A B q ts us qa qb. ahead_pso.reached A B q ts us (pso_putter s) (pso_taker s) qa qb (queue s) \<and>
     waiting ts = put_stores s \<and> waiting us = take_stores s)"

lemma pso_invI:
  "ahead_pso.reached A B q ts us (pso_putter s) (pso_taker s) qa qb (queue s) \<Longrightarrow>
   waiting ts = put_stores s \<Longrightarrow> waiting us = take_stores s \<Longrightarrow> pso_inv s"
  unfolding pso_inv_def by blast

text \<open>The invariant from the side of the consumer.\<close>

lemma reached_swap:
  "ahead_pso.reached A B q ts us A' B' qa qb p \<longleftrightarrow> behind_pso.reached B A q us ts B' A' qb qa p"
proof -
  have "fold perform_store (early us) (fold perform_store (early ts) (seen A B q)) =
      fold perform_store (early ts) (fold perform_store (early us) (seen A B q))"
    if h: "together A B q" "moves put_go A q (map snd ts) A' qa" "moves take_go B q (map snd us) B' qb"
      "track_ok (place_of \<circ> snd) fst us"
  proof (rule ahead_pso.fold_swap [symmetric], intro ballI)
    fix v w assume "v \<in> set (early us)" "w \<in> set (early ts)"
    with ahead_pso.track_other [OF h] track_parts(1) [of ts] show "free v w (seen A B q)" by blast
  qed
  then show ?thesis unfolding ahead_pso.reached_def behind_pso.reached_def by auto
qed

text \<open>What holds when the invariant does with given moves.\<close>

lemma reached_facts:
  assumes r: "ahead_pso.reached A B q ts us (pso_putter s) (pso_taker s) qa qb (queue s)"
    "waiting ts = put_stores s" "waiting us = take_stores s"
  shows "together (pso_putter s) B qa" "same_put (seen (pso_putter s) B qa) (put_sees s)"
    "together A (pso_taker s) qb"
    "\<And>vs fs. rwq_ring qb vs fs \<Longrightarrow> same_take vs qb (seen A (pso_taker s) qb) (take_sees s)"
    "\<exists>xs. entered s = snd A @ xs \<and> (ts = [] \<longrightarrow> xs = [])"
proof -
  note r' = r(1) [unfolded reached_swap]
  from r(1) have h: "together A B q" "track_ok (place_of \<circ> snd) fst ts" "track_ok (place_of \<circ> snd) fst us"
    "moves put_go A q (map snd ts) (pso_putter s) qa" "moves take_go B q (map snd us) (pso_taker s) qb"
    by (simp_all add: ahead_pso.reached_def)
  note v = ahead_pso.reached_view [OF r(1)] and v' = behind_pso.reached_view [OF r']
  show "together (pso_putter s) B qa" by (rule v(2))
  show "together A (pso_taker s) qb" by (rule v'(2))
  have own: "\<forall>v\<in>set (early us). own (snd v)"
  proof
    fix v assume v: "v \<in> set (early us)"
    with track_parts(1) [of us] have "v \<in> set (map snd us)" by blast
    with take_moves_writes [OF h(5,1), of "fst v" "snd v"] early_unreleased [OF h(3) v]
    show "own (snd v)" by (metis prod.collapse)
  qed
  show "same_put (seen (pso_putter s) B qa) (put_sees s)"
    using same_put_early [OF same_refl(1) own] v(1) r(2) by (simp add: put_sees_def)
  show "same_take vs qb (seen A (pso_taker s) qb) (take_sees s)" if ring: "rwq_ring qb vs fs" for vs fs
  proof -
    from go_behind.moves_all [OF h(5,4,1)] obtain q3 where
      m: "moves put_go A qb (map snd ts) (pso_putter s) q3" by blast
    have "\<forall>v\<in>set (early ts). filling (snd v) qb \<and> unread vs (snd v)"
    proof
      fix v assume v: "v \<in> set (early ts)"
      with track_parts(1) [of ts] have "v \<in> set (map snd ts)" by blast
      with put_moves_writes [OF m v'(2), of "fst v" "snd v" vs fs] early_unreleased [OF h(2) v] ring
      show "filling (snd v) qb \<and> unread vs (snd v)" by (metis prod.collapse)
    qed
    from same_take_early [OF same_refl(2) this] v'(1) r(3) show ?thesis by (simp add: take_sees_def)
  qed
  show "\<exists>xs. entered s = snd A @ xs \<and> (ts = [] \<longrightarrow> xs = [])"
    using put_go_enters [OF h(4)] by (auto simp: pso_putter_def)
qed

lemma pso_invD:
  assumes "pso_inv s"
  obtains A B q ts us qa qb where
    "ahead_pso.reached A B q ts us (pso_putter s) (pso_taker s) qa qb (queue s)"
    "behind_pso.reached B A q us ts (pso_taker s) (pso_putter s) qb qa (queue s)"
    "waiting ts = put_stores s" "waiting us = take_stores s"
    "together (pso_putter s) B qa" "same_put (seen (pso_putter s) B qa) (put_sees s)"
    "together A (pso_taker s) qb"
    "\<And>vs fs. rwq_ring qb vs fs \<Longrightarrow> same_take vs qb (seen A (pso_taker s) qb) (take_sees s)"
    "\<exists>xs. entered s = snd A @ xs \<and> (ts = [] \<longrightarrow> xs = [])"
proof -
  from assms obtain A B q ts us qa qb where
    r: "ahead_pso.reached A B q ts us (pso_putter s) (pso_taker s) qa qb (queue s)"
      "waiting ts = put_stores s" "waiting us = take_stores s"
    by (auto simp: pso_inv_def)
  note f = reached_facts [OF r]
  from that [OF r(1) r(1) [unfolded reached_swap] r(2,3) f(1-3) _ f(5)] f(4) show thesis by blast
qed

subsection \<open>The steps\<close>

lemma pso_put_inv:
  assumes inv: "pso_inv s"
  shows "\<exists>s'. pso_put s = Inr s' \<and> pso_inv s'"
proof (cases "putting s")
  case None
  with inv show ?thesis by (simp add: pso_put_def)
next
  case (Some a)
  then obtain m mem x pc where p: "putting s = Some ((m, mem, x), pc)" by (metis prod_cases3 surj_pair)
  have P: "pso_putter s = (Some ((m, mem, x), pc), entered s)" by (simp add: pso_putter_def p)
  from inv obtain A B q ts us qa qb where h: "ahead_pso.reached A B q ts us (pso_putter s) (pso_taker s) qa qb (queue s)"
    "waiting ts = put_stores s" "waiting us = take_stores s" "together (pso_putter s) B qa"
    "same_put (seen (pso_putter s) B qa) (put_sees s)"
    by (rule pso_invD) blast
  from h(4) obtain vs fs where g: "rwq_ring qa vs fs" "put_knows pc qa" by (auto simp: together_def P)
  define w where "w = put_write (m, mem, x) pc (put_sees s)"
  from put_at_legal [OF g, of m mem x "take_pc_of B"] obtain r Q where
    step0: "put_at (m, mem, x) pc (seen (pso_putter s) B qa) = Inr (r, Q)"
    and legal0: "put_legal (m, mem, x) pc (put_write (m, mem, x) pc (seen (pso_putter s) B qa)) r qa"
    by (auto simp: seen_def P)
  from put_at_same [OF h(5) step0] legal0 obtain Q' where step: "put_at (m, mem, x) pc (put_sees s) = Inr (r, Q')"
    and legal: "put_legal (m, mem, x) pc w r qa" by (auto simp: w_def)
  define A' where "A' = (case r of Inl pc \<Rightarrow> (Some ((m, mem, x), pc), entered s)
    | Inr ok \<Rightarrow> (None, entered s @ (if ok then [x] else [])))"
  have go: "put_go (pso_putter s) qa (map (Pair (put_releases pc)) w) A' (put_shift x pc w qa)"
    unfolding put_go_def P A'_def using put_move.PutMove [OF legal, of "entered s"] by auto
  define s' where "s' = (let s = s\<lparr>put_stores := put_stores s @ map (Pair (put_releases pc)) w\<rparr>
    in case r of Inl pc \<Rightarrow> s\<lparr>putting := Some ((m, mem, x), pc)\<rparr>
     | Inr ok \<Rightarrow> s\<lparr>putting := None, entered := entered s @ (if ok then [x] else [])\<rparr>)"
  have "pso_put s = Inr s'" by (cases r) (simp_all add: pso_put_def p step s'_def Let_def w_def)
  moreover have "pso_inv s'"
  proof (rule pso_invI)
    have at: "pso_putter s' = A'" "pso_taker s' = pso_taker s" "queue s' = queue s"
      "put_stores s' = put_stores s @ map (Pair (put_releases pc)) w" "take_stores s' = take_stores s"
      by (cases r; simp add: s'_def A'_def pso_putter_def pso_taker_def Let_def)+
    show "ahead_pso.reached A B q (ts @ map (Pair False) (map (Pair (put_releases pc)) w)) us
        (pso_putter s') (pso_taker s') (put_shift x pc w qa) qb (queue s')"
      unfolding at by (rule ahead_pso.reached_move [OF h(1) go])
    show "waiting (ts @ map (Pair False) (map (Pair (put_releases pc)) w)) = put_stores s'"
      "waiting us = take_stores s'" unfolding at by (simp_all only: track_simps h(2,3))
  qed
  ultimately show ?thesis by blast
qed

lemma pso_take_inv:
  assumes inv: "pso_inv s" and t: "taking s = Some (c, k)"
  shows "\<exists>s'. pso_take s = Inr s' \<and> pso_inv s'"
    "take_at c k (take_sees s) = Inr (Inr y, q') \<Longrightarrow>
     (case y of None \<Rightarrow> entered_before s = departed s | Some x \<Rightarrow> \<exists>xs. entered s = departed s @ x # xs)"
proof -
  let ?e = "entered_before s = departed s"
  have T: "pso_taker s = (Some (?e, c, k), departed s)" by (simp add: pso_taker_def t)
  from inv obtain A B q ts us qa qb where
    h: "behind_pso.reached B A q us ts (pso_taker s) (pso_putter s) qb qa (queue s)"
      "waiting ts = put_stores s" "waiting us = take_stores s" "together A (pso_taker s) qb"
    and same: "\<And>vs fs. rwq_ring qb vs fs \<Longrightarrow> same_take vs qb (seen A (pso_taker s) qb) (take_sees s)"
    and more: "\<exists>xs. entered s = snd A @ xs" by (rule pso_invD) blast
  from h(4) obtain vs fs where g: "rwq_ring qb vs fs" "put_knows (put_pc_of A) qb" "take_knows ?e c k qb"
    and chain: "snd A = departed s @ chain (heap qb) vs" and e: "rwq_empty qb \<longrightarrow> ?e"
    by (auto simp: together_def T)
  have e': "chain (heap qb) vs = [] \<Longrightarrow> ?e" using e rwq_empty [OF g(1)] by blast
  define w where "w = take_write c k (take_sees s)"
  from take_at_legal [OF g e', of "elem_of A"] obtain r Q where
    step0: "take_at c k (seen A (pso_taker s) qb) = Inr (r, Q)"
    and legal0: "take_legal ?e c k (take_write c k (seen A (pso_taker s) qb)) r qb"
    by (auto simp: seen_def T)
  from take_at_same [OF g(1,3) seen_reads(1,2) [OF h(4)] seen_longer seen_reads(3) [OF h(4)] same [OF g(1)] step0] legal0
  obtain Q' where step: "take_at c k (take_sees s) = Inr (r, Q')" and legal: "take_legal ?e c k w r qb"
    by (auto simp: w_def)
  define B' where "B' = (case r of Inl k \<Rightarrow> (Some (?e, c, k), departed s)
    | Inr y \<Rightarrow> (None, departed s @ (if c = PeekCall then [] else case_option [] (\<lambda>y. [y]) y)))"
  have go: "take_go (pso_taker s) qb (map (Pair (take_releases k)) w) B' (take_shift k w qb)"
    unfolding take_go_def T B'_def using take_move.TakeMove [OF legal, of "departed s"] by auto
  define s' where "s' = (let s = s\<lparr>take_stores := take_stores s @ map (Pair (take_releases k)) w\<rparr>
    in case r of Inl k \<Rightarrow> s\<lparr>taking := Some (c, k)\<rparr>
     | Inr x \<Rightarrow> s\<lparr>taking := None,
         departed := departed s @ (if c = PeekCall then [] else case_option [] (\<lambda>x. [x]) x)\<rparr>)"
  have "pso_take s = Inr s'" by (cases r) (simp_all add: pso_take_def t step s'_def Let_def w_def)
  moreover have "pso_inv s'"
  proof (rule pso_invI)
    have at: "pso_taker s' = B'" "pso_putter s' = pso_putter s" "queue s' = queue s"
      "take_stores s' = take_stores s @ map (Pair (take_releases k)) w" "put_stores s' = put_stores s"
      by (cases r; simp add: s'_def B'_def pso_putter_def pso_taker_def Let_def)+
    show "ahead_pso.reached A B q ts (us @ map (Pair False) (map (Pair (take_releases k)) w))
        (pso_putter s') (pso_taker s') qa (take_shift k w qb) (queue s')"
      unfolding at reached_swap by (rule behind_pso.reached_move [OF h(1) go])
    show "waiting (us @ map (Pair False) (map (Pair (take_releases k)) w)) = take_stores s'"
      "waiting ts = put_stores s'" unfolding at by (simp_all only: track_simps h(2,3))
  qed
  ultimately show "\<exists>s'. pso_take s = Inr s' \<and> pso_inv s'" by blast
  show "case y of None \<Rightarrow> ?e | Some x \<Rightarrow> \<exists>xs. entered s = departed s @ x # xs"
    if "take_at c k (take_sees s) = Inr (Inr y, q')"
  proof -
    from take_legal_result [OF g legal, of undefined] that step
    have "case y of None \<Rightarrow> ?e | Some x \<Rightarrow> \<exists>ys. chain (heap qb) vs = x # ys"
      by (auto simp: take_result_def Let_def split: option.splits)
    with chain more show ?thesis by (auto split: option.splits)
  qed
qed

lemma pso_called:
  assumes inv: "pso_inv s"
  shows "putting s = None \<Longrightarrow> pso_inv (s\<lparr>putting := Some (c, PutEnter)\<rparr>)"
    "taking s = None \<Longrightarrow> pso_inv (s\<lparr>taking := Some (d, TakeEnter),
      entered_before := (if put_stores s = [] then entered s else departed s)\<rparr>)"
proof -
  from inv obtain A B q ts us qa qb where
    h: "ahead_pso.reached A B q ts us (pso_putter s) (pso_taker s) qa qb (queue s)"
      "waiting ts = put_stores s" "waiting us = take_stores s" "together A (pso_taker s) qb"
    and more: "\<exists>xs. entered s = snd A @ xs \<and> (ts = [] \<longrightarrow> xs = [])" by (rule pso_invD) blast
  show "pso_inv (s\<lparr>putting := Some (c, PutEnter)\<rparr>)" if "putting s = None"
  proof -
    have "put_go (pso_putter s) qa [] (pso_putter (s\<lparr>putting := Some (c, PutEnter)\<rparr>)) qa"
      unfolding put_go_def using put_move.PutCall [of "entered s" qa c] that by (auto simp: pso_putter_def)
    from ahead_pso.reached_move [OF h(1) this] h(2,3) show ?thesis
      by (intro pso_invI [where ts = ts and us = us]) (simp_all add: pso_taker_def)
  qed
  show "pso_inv (s\<lparr>taking := Some (d, TakeEnter),
      entered_before := (if put_stores s = [] then entered s else departed s)\<rparr>)" if "taking s = None"
  proof -
    let ?s = "s\<lparr>taking := Some (d, TakeEnter),
      entered_before := (if put_stores s = [] then entered s else departed s)\<rparr>"
    let ?e = "entered_before ?s = departed ?s"
    from h(4) obtain vs fs where g: "rwq_ring qb vs fs" "snd A = departed s @ chain (heap qb) vs"
      by (auto simp: together_def pso_taker_def that)
    have "ts = [] \<longleftrightarrow> put_stores s = []"
      using h(1,2) by (cases ts) (auto simp: ahead_pso.reached_def track_ok_def)
    then have "rwq_empty qb \<longrightarrow> ?e" using rwq_empty [OF g(1)] g(2) more by auto
    then have "take_go (pso_taker s) qb [] (pso_taker ?s) qb"
      unfolding take_go_def using take_move.TakeCall [of qb ?e "departed s" d] that by (auto simp: pso_taker_def)
    from behind_pso.reached_move [OF h(1) [unfolded reached_swap] this, folded reached_swap] h(2,3) show ?thesis
      by (intro pso_invI [where ts = ts and us = us]) (simp_all add: pso_putter_def)
  qed
qed

lemma pso_drained:
  assumes inv: "pso_inv s" and may: "may_drain ws w"
  shows "put_stores s = ws @ w # vs \<Longrightarrow> pso_inv (s\<lparr>queue := perform_store w (queue s), put_stores := ws @ vs\<rparr>)"
    "take_stores s = ws @ w # vs \<Longrightarrow> pso_inv (s\<lparr>queue := perform_store w (queue s), take_stores := ws @ vs\<rparr>)"
proof -
  from inv obtain A B q ts us qa qb where
    h: "ahead_pso.reached A B q ts us (pso_putter s) (pso_taker s) qa qb (queue s)"
      "waiting ts = put_stores s" "waiting us = take_stores s" by (rule pso_invD) blast
  show "pso_inv (s\<lparr>queue := perform_store w (queue s), put_stores := ws @ vs\<rparr>)" if "put_stores s = ws @ w # vs"
  proof -
    from ahead_pso.reached_drain [OF h(1) _ may [unfolded may_drain_def]] h(2) that obtain a1 q1 ts1 qa' qb' where
      "ahead_pso.reached a1 B q1 ts1 us (pso_putter s) (pso_taker s) qa' qb' (perform_store w (queue s))"
      "waiting ts1 = ws @ vs" by metis
    with h(3) show ?thesis
      by (intro pso_invI [where ts = ts1 and us = us]) (simp_all add: pso_putter_def pso_taker_def)
  qed
  show "pso_inv (s\<lparr>queue := perform_store w (queue s), take_stores := ws @ vs\<rparr>)" if "take_stores s = ws @ w # vs"
  proof -
    from behind_pso.reached_drain [OF h(1) [unfolded reached_swap] _ may [unfolded may_drain_def]] h(3) that
    obtain b1 q1 us1 qb' qa' where
      "behind_pso.reached b1 A q1 us1 ts (pso_taker s) (pso_putter s) qb' qa' (perform_store w (queue s))"
      "waiting us1 = ws @ vs" by metis
    with h(2) show ?thesis unfolding reached_swap [symmetric]
      by (intro pso_invI [where ts = ts and us = us1]) (simp_all add: pso_putter_def pso_taker_def)
  qed
qed

lemma pso_reachable:
  assumes "rwq_holds q []" "pso_step\<^sup>*\<^sup>* (idle_pso q) s"
  shows "pso_inv s"
  using assms(2)
proof induction
  case base
  from assms(1) obtain us fs where q: "rwq_ring q us fs" "chain (heap q) us = []"
    unfolding rwq_holds_def represents_def by force
  then have "together (None, []) (None, []) q" by (auto simp: together_def)
  then have "ahead_pso.reached (None, []) (None, []) q [] [] (None, []) (None, []) q q q"
    by (auto simp: ahead_pso.reached_def track_ok_def seen_def intro: moves.Stay)
  then show ?case
    by (intro pso_invI [where ts = "[]" and us = "[]"]) (simp_all add: idle_pso_def pso_putter_def pso_taker_def)
next
  case (step s s')
  from step.hyps(2) show ?case
  proof cases
    case (PutCalled c)
    with pso_called(1) [OF step.IH] show ?thesis by simp
  next
    case PutRuns
    with pso_put_inv [OF step.IH] show ?thesis by simp
  next
    case (PutDrains us w vs)
    with pso_drained(1) [OF step.IH] show ?thesis by simp
  next
    case (TakeCalled d)
    with pso_called(2) [OF step.IH] show ?thesis by simp
  next
    case TakeRuns
    with pso_take_inv(1) [OF step.IH] step.IH show ?thesis
      by (cases "taking s") (auto simp: pso_take_def [of s])
  next
    case (TakeDrains us w vs)
    with pso_drained(2) [OF step.IH] show ?thesis by simp
  qed
qed

text \<open>With empty buffers and no operation under way, the memory is the queue.\<close>

lemma put_go_silent:
  assumes "moves put_go A q [] A' q'"
  shows "moves put_move A q [] A' q'"
  using assms
proof (induction A q "[] :: 'a store list" A' q' rule: moves.induct)
  case (Go A q w A' q' ws A'' q'')
  then have "put_move A q [] A' q'" by (auto simp: put_go_def)
  from moves.Go [of put_move, OF this] Go show ?case by simp
qed (rule moves.Stay)

lemma take_go_silent:
  assumes "moves take_go B q [] B' q'"
  shows "moves take_move B q [] B' q'"
  using assms
proof (induction B q "[] :: 'a store list" B' q' rule: moves.induct)
  case (Go B q w B' q' ws B'' q'')
  then have "take_move B q [] B' q'" by (auto simp: take_go_def)
  from moves.Go [of take_move, OF this] Go show ?case by simp
qed (rule moves.Stay)

lemma pso_entered:
  assumes inv: "pso_inv s"
  shows "\<exists>xs. entered s = departed s @ xs"
    "putting s = None \<Longrightarrow> taking s = None \<Longrightarrow> put_stores s = [] \<Longrightarrow> take_stores s = [] \<Longrightarrow>
     \<exists>xs. entered s = departed s @ xs \<and> rwq_holds (queue s) xs"
proof -
  from inv obtain A B q ts us qa qb where
    h: "ahead_pso.reached A B q ts us (pso_putter s) (pso_taker s) qa qb (queue s)"
      "waiting ts = put_stores s" "waiting us = take_stores s" "together A (pso_taker s) qb"
    and more: "\<exists>xs. entered s = snd A @ xs \<and> (ts = [] \<longrightarrow> xs = [])" by (rule pso_invD) blast
  show "\<exists>xs. entered s = departed s @ xs"
    using more h(4) by (auto simp: together_def pso_taker_def)
  show "\<exists>xs. entered s = departed s @ xs \<and> rwq_holds (queue s) xs"
    if idle: "putting s = None" "taking s = None" "put_stores s = []" "take_stores s = []"
  proof -
    from h(1) have r: "together A B q" "track_ok (place_of \<circ> snd) fst ts" "track_ok (place_of \<circ> snd) fst us"
      "moves put_go A q (map snd ts) (pso_putter s) qa" "moves take_go B q (map snd us) (pso_taker s) qb"
      "queue s = fold perform_store (early us) (fold perform_store (early ts) (seen A B q))"
      by (simp_all add: ahead_pso.reached_def)
    have e: "ts = []" "us = []"
      using r(2,3) h(2,3) idle(3,4) by (cases ts; cases us; auto simp: track_ok_def)+
    have "moves put_move A q [] (pso_putter s) qa" "moves take_move B q [] (pso_taker s) qb"
      using put_go_silent [of A q "pso_putter s" qa] take_go_silent [of B q "pso_taker s" qb] r(4,5) e idle(1)
      by (simp_all add: pso_putter_def)
    from put_moves_silent [OF this(1) refl] take_moves_silent [OF this(2) refl] r(6) e idle
    have "queue s = q" "departed s = snd B" by (simp_all add: seen_def pso_putter_def pso_taker_def)
    moreover have "entered s = snd A" using more e by simp
    ultimately show ?thesis
      using r(1) unfolding together_def rwq_holds_def represents_def by auto
  qed
qed

subsection \<open>Properties\<close>

text \<open>
  C4. The two threads share the queue also on a processor that lets the writes of a thread pass each
  other, but for the release fences of the code and for writes to the same place. However the steps
  of the threads and of the buffers interleave, neither thread fails an assertion, follows a wild
  pointer or reads a cell without an object, what was taken out is what was put in, in order, and an
  operation of the consumer that finds nothing, when it began with no write of the producer under
  way, found the queue empty. When nothing is under way the memory holds the rest.
\<close>

theorem reordered_writes_share_queue:
  assumes "0 < capacity" "unat capacity < 2 ^ 32" "new_queue (\<lambda>_. True) capacity = Inr q"
    "pso_step\<^sup>*\<^sup>* (idle_pso q) s"
  shows "(\<exists>xs. entered s = departed s @ xs \<and>
      (putting s = None \<and> taking s = None \<and> put_stores s = [] \<and> take_stores s = [] \<longrightarrow>
        rwq_holds (queue s) xs)) \<and>
    (\<exists>s'. pso_put s = Inr s') \<and> (\<exists>s'. pso_take s = Inr s') \<and>
    (\<forall>c k y q'. taking s = Some (c, k) \<and> take_at c k (take_sees s) = Inr (Inr y, q') \<longrightarrow>
      (case y of None \<Rightarrow> entered_before s = departed s | Some x \<Rightarrow> \<exists>xs. entered s = departed s @ x # xs))"
proof (intro conjI)
  have inv: "pso_inv s" by (rule pso_reachable [OF new_queue_holds [OF assms(1-3)] assms(4)])
  show "\<exists>xs. entered s = departed s @ xs \<and>
      (putting s = None \<and> taking s = None \<and> put_stores s = [] \<and> take_stores s = [] \<longrightarrow> rwq_holds (queue s) xs)"
  proof (cases "putting s = None \<and> taking s = None \<and> put_stores s = [] \<and> take_stores s = []")
    case True
    then show ?thesis using pso_entered(2) [OF inv] by metis
  next
    case False
    then show ?thesis using pso_entered(1) [OF inv] by metis
  qed
  show "\<exists>s'. pso_put s = Inr s'" using pso_put_inv [OF inv] by blast
  show "\<exists>s'. pso_take s = Inr s'"
    using pso_take_inv(1) [OF inv] by (cases "taking s") (auto simp: pso_take_def [of s])
  show "\<forall>c k y q'. taking s = Some (c, k) \<and> take_at c k (take_sees s) = Inr (Inr y, q') \<longrightarrow>
      (case y of None \<Rightarrow> entered_before s = departed s | Some x \<Rightarrow> \<exists>xs. entered s = departed s @ x # xs)"
    by (intro allI impI, elim conjE) (rule pso_take_inv(2) [OF inv])
qed

text \<open>A second element passes the publication of the first.\<close>

definition filled_queue :: "u8 rwq" where
  "filled_queue = upd 0 (\<lambda>b. b\<lparr>cells := (cells b)[0 := Some 7]\<rparr>) default_queue"

definition passed_queue :: "u8 rwq" where
  "passed_queue = upd 0 (\<lambda>b. b\<lparr>cells := (cells b)[1 := Some 8]\<rparr>) filled_queue"

definition example_pso :: "u8 pso" where
  "example_pso = (idle_pso passed_queue)\<lparr>putting := Some ((CanAlloc, True, 8), PutTail 2), entered := [7],
     put_stores := [(True, ToTail 0 1)]\<rparr>"

lemma example_pso: "pso_step\<^sup>*\<^sup>* (idle_pso default_queue) example_pso"
proof -
  let ?s = "(idle_pso default_queue) :: u8 pso" and ?t = "(idle_pso filled_queue)\<lparr>entered := [7 :: u8]\<rparr>"
  let ?c = "(CanAlloc, True, 7 :: u8)" and ?d = "(CanAlloc, True, 8 :: u8)"
  note eval = pso_put_def put_sees_def idle_pso_def default_queue_def new_block_def deref_def construct_def
    Let_def releases filled_queue_def perform_store_def upd_def
  let ?s1 = "?s\<lparr>putting := Some (?c, PutEnter)\<rparr>" and ?s2 = "?s\<lparr>putting := Some (?c, PutCell 0 1)\<rparr>"
  let ?s3 = "?s\<lparr>putting := Some (?c, PutTail 1), put_stores := [(False, ToCell 0 0 (Some 7))]\<rparr>"
  let ?s4 = "?s\<lparr>queue := filled_queue, putting := Some (?c, PutTail 1)\<rparr>"
  let ?t1 = "?t\<lparr>put_stores := [(True, ToTail 0 1)]\<rparr>"
  let ?t2 = "?t1\<lparr>putting := Some (?d, PutEnter)\<rparr>" and ?t3 = "?t1\<lparr>putting := Some (?d, PutCell 1 2)\<rparr>"
  let ?t4 = "?t\<lparr>putting := Some (?d, PutTail 2), put_stores := [(True, ToTail 0 1), (False, ToCell 0 1 (Some 8))]\<rparr>"
  have "pso_step ?s ?s1" by (rule PutCalled) (simp add: idle_pso_def)
  moreover have "pso_step ?s1 ?s2" by (rule PutRuns) (simp add: eval)
  moreover have "pso_step ?s2 ?s3" by (rule PutRuns) (simp add: eval)
  moreover have "pso_step ?s3 ?s4"
    using PutDrains [of ?s3 "[]" "(False, ToCell 0 0 (Some 7))" "[]"]
    by (simp add: may_drain_def may_pass_def idle_pso_def filled_queue_def perform_store_def)
  moreover have "pso_step ?s4 ?t1" by (rule PutRuns) (simp add: eval)
  moreover have "pso_step ?t1 ?t2" by (rule PutCalled) (simp add: idle_pso_def)
  moreover have "pso_step ?t2 ?t3" by (rule PutRuns) (simp add: eval)
  moreover have "pso_step ?t3 ?t4" by (rule PutRuns) (simp add: eval)
  moreover have "pso_step ?t4 example_pso"
    using PutDrains [of ?t4 "[(True, ToTail 0 1)]" "(False, ToCell 0 1 (Some 8))" "[]"]
    by (simp add: may_drain_def may_pass_def idle_pso_def example_pso_def passed_queue_def perform_store_def)
  ultimately show ?thesis by (meson rtranclp.rtrancl_into_rtrancl rtranclp.rtrancl_refl)
qed

theorem reordered_writes_share_queue_witness:
  "pso_step\<^sup>*\<^sup>* (idle_pso default_queue) example_pso \<and> put_stores example_pso = [(True, ToTail 0 1)] \<and>
   (\<exists>s'. pso_put example_pso = Inr s') \<and> (\<exists>s'. pso_take example_pso = Inr s')"
proof -
  have h: "0 < (15 :: size_t)" "unat (15 :: size_t) < 2 ^ 32" by simp_all
  from reordered_writes_share_queue [OF h new_queue_default example_pso] example_pso
  show ?thesis by (simp add: example_pso_def)
qed

end
