(* ===== verification/Rw_Size.thy ===== *)
theory Rw_Size
  imports Rw_Threads_Correct
begin

text \<open>
  \<open>size_approx\<close> between the two threads. The consumer calls it before it takes an element, in the
  server and in the simulation, while the producer may be anywhere in an enqueue: the walk over the
  blocks sees some of what the producer does meanwhile.
\<close>

subsection \<open>Between the threads\<close>

text \<open>The consumer is in \<open>size_approx\<close>, or has its result; the producer goes on.\<close>

inductive size_step :: "'a duo \<times> (size_pc + size_t) \<Rightarrow> 'a duo \<times> (size_pc + size_t) \<Rightarrow> bool" where
  Counts: "size_at pc (queue s) = Inr r \<Longrightarrow> size_step (s, Inl pc) (s, r)"
| PutsBegin: "putting s = None \<Longrightarrow> size_step (s, p) (s\<lparr>putting := Some (c, PutEnter)\<rparr>, p)"
| Puts: "duo_put s = Inr s' \<Longrightarrow> size_step (s, p) (s', p)"

subsection \<open>The ring as it is in the memory\<close>

text \<open>
  The walk sees the blocks in the order \<open>rs\<close>, and of each the number of its elements. In the middle
  of an enqueue that is one element more than there is in the queue.
\<close>

definition circle :: "'a rwq \<Rightarrow> nat list \<Rightarrow> bool" where
  "circle q rs \<longleftrightarrow> rs \<noteq> [] \<and> hd rs = frontBlock q \<and> distinct rs \<and> set rs \<subseteq> {..<length (heap q)} \<and>
     linked (map next_blk (heap q)) (rs @ [hd rs])"

definition count :: "'a rwq \<Rightarrow> nat list \<Rightarrow> nat" where
  "count q rs = sum_list (map (\<lambda>a. window (heap q ! a)) rs)"

lemma count_simps [simp]:
  "count q [] = 0" "count q (a # rs) = window (heap q ! a) + count q rs"
  "count q (rs @ ss) = count q rs + count q ss"
  by (simp_all add: count_def)

lemma linked_same:
  "linked ns (a # rs @ [z]) \<Longrightarrow> linked ns (a # ss @ [z]) \<Longrightarrow> z \<notin> set rs \<Longrightarrow> z \<notin> set ss \<Longrightarrow> rs = ss"
proof (induction rs arbitrary: a ss)
  case Nil
  then show ?case by (cases ss) auto
next
  case (Cons b rs)
  then show ?case by (cases ss) auto
qed

lemma circle_unique:
  assumes "circle q rs" "circle q ss"
  shows "rs = ss"
proof -
  from assms obtain as bs where "rs = frontBlock q # as" "ss = frontBlock q # bs"
    by (auto simp: circle_def neq_Nil_conv)
  with assms linked_same [of "map next_blk (heap q)" "frontBlock q" as "frontBlock q" bs]
  show ?thesis by (auto simp: circle_def)
qed

text \<open>The ring does not depend on anything but the links.\<close>

lemma circle_cong:
  assumes "circle q rs" "frontBlock q' = frontBlock q" "length (heap q) \<le> length (heap q')"
    "\<And>a. a \<in> set rs \<Longrightarrow> next_blk (heap q' ! a) = next_blk (heap q ! a)"
  shows "circle q' rs"
proof -
  have "linked (map next_blk (heap q')) (rs @ [hd rs])"
    by (rule linked_cong [where ns = "map next_blk (heap q)"])
      (use assms in \<open>auto simp: circle_def dest: subsetD\<close>)
  with assms show ?thesis by (auto simp: circle_def)
qed

subsection \<open>A step of the producer\<close>

text \<open>
  What the memory looks like between the steps of the producer, while the consumer takes nothing:
  the blocks of the queue, and a new block that is linked but not in use yet.
\<close>

definition blocks_of :: "put_pc \<Rightarrow> nat list \<Rightarrow> nat list \<Rightarrow> nat list" where
  "blocks_of pc us fs = us @ (case pc of NewAdvance n \<Rightarrow> n # fs | _ \<Rightarrow> fs)"

lemma ring_circle: "rwq_ring q us fs \<Longrightarrow> circle q (us @ fs)"
  by (auto simp: circle_def rwq_ring_def ring_ok_def)

lemma ring_count:
  assumes "rwq_ring q us fs"
  shows "count q us = length (chain (heap q) us)" "count q fs = 0"
proof -
  have *: "count q as = length (chain (heap q) as)" for as
    by (induction as) simp_all
  then show "count q us = length (chain (heap q) us)" .
  show "count q fs = 0" using chain_free [OF rwq_ringD(1) [OF assms]] * [of "us @ fs"] * [of us] by simp
qed

lemma window_fields: "front b' = front b \<Longrightarrow> tail b' = tail b \<Longrightarrow> sizeMask b' = sizeMask b \<Longrightarrow> window b' = window b"
  by (simp add: window_def)

lemma window_published:
  assumes "block_ok b" "(tail b + 1) AND sizeMask b \<noteq> localFront b"
  shows "window (published x b) = Suc (window b)"
  using arg_cong [OF block_publish(3) [OF assms, of x], of length] by simp

lemma window_pending [simp]:
  "window (fill x b) = window b" "window (b\<lparr>next_blk := p\<rparr>) = window b" "window (b\<lparr>localFront := i\<rparr>) = window b"
  by (rule window_fields; simp)+

lemma count_cong: "(\<And>a. a \<in> set rs \<Longrightarrow> window (heap q' ! a) = window (heap q ! a)) \<Longrightarrow> count q' rs = count q rs"
  by (simp add: count_def cong: map_cong)

lemma memory_circle:
  fixes x :: 'a
  assumes ring: "rwq_ring q us fs" and knows: "put_knows pc q"
  defines "P \<equiv> put_pending x pc q" and "n \<equiv> length (chain (heap q) us)"
  shows "circle P (blocks_of pc us fs) \<and> n \<le> count P (blocks_of pc us fs) \<and>
    count P (blocks_of pc us fs) \<le> n + (if pc = PutEnter then 0 else 1)"
proof -
  note d = rwq_ringD [OF ring]
  have same: ?thesis if "blocks_of pc us fs = us @ fs" "frontBlock P = frontBlock q" "length (heap q) \<le> length (heap P)"
    "\<And>a. a \<in> set (us @ fs) \<Longrightarrow> next_blk (heap P ! a) = next_blk (heap q ! a) \<and> window (heap P ! a) = window (heap q ! a)"
  proof -
    have "circle P (us @ fs)" by (rule circle_cong [OF ring_circle [OF ring]]) (use that in auto)
    moreover have "count P (us @ fs) = n"
      using count_cong [of "us @ fs" P q] that(4) ring_count [OF ring] by (simp add: n_def)
    ultimately show ?thesis using that(1) by simp
  qed
  have len: "a < length (heap q)" if "a \<in> set (us @ fs)" for a using ring_block(2) [OF ring] that by auto
  have free: "n < length (heap q)" if "next_blk (heap q ! tailBlock q) = Some n" "n \<noteq> frontBlock q" for n
    using ring_free [OF ring that] by blast
  show ?thesis
  proof (cases pc)
    case (NextAdvance m)
    with knows ring_free [OF ring, of m] obtain gs where m: "fs = m # gs" "contents (heap q ! m) = []"
      "block_ok (heap q ! m)" "m < length (heap q)" "localFront (heap q ! m) = tail (heap q ! m)" by auto
    have "m \<notin> set (us @ gs)" using d(1) m(1) by (auto simp: ring_ok_def)
    have w: "window (heap P ! a) = window (heap q ! a) + (if a = m then 1 else 0)" for a
    proof (cases "a = m")
      case True
      have "(tail (heap q ! m) + 1) AND sizeMask (heap q ! m) \<noteq> localFront (heap q ! m)"
        using succ_neq [OF m(3)] m(5) by simp
      from window_published [OF m(3) this, of x] True m(4) NextAdvance show ?thesis
        by (simp add: P_def heap_upd)
    qed (use m(4) NextAdvance in \<open>simp add: P_def heap_upd\<close>)
    have "circle P (us @ fs)"
      by (rule circle_cong [OF ring_circle [OF ring]]) (use m(4) NextAdvance in \<open>auto simp: P_def heap_upd\<close>)
    moreover have "count P as = count q as" if "m \<notin> set as" for as
      by (rule count_cong) (use w that in auto)
    ultimately show ?thesis
      using ring_count [OF ring] w [of m] \<open>m \<notin> set (us @ gs)\<close> m(1) NextAdvance
      by (simp add: blocks_of_def n_def)
  next
    case (NewAdvance m)
    with knows have m: "m = length (heap q)" by simp
    note p = publish_new [OF ring m, of x]
    have P: "P\<lparr>tailBlock := m\<rparr> =
      (upd (tailBlock q) (\<lambda>b. b\<lparr>next_blk := Some m\<rparr>) (with_new x q))\<lparr>tailBlock := m\<rparr>"
      by (simp add: P_def NewAdvance)
    have "circle P ((us @ [m]) @ fs)"
      by (rule circle_cong [OF ring_circle [OF p(1)]]) (simp_all flip: P)
    moreover have "count P ((us @ [m]) @ fs) = Suc n"
    proof -
      have "count P ((us @ [m]) @ fs) = count (P\<lparr>tailBlock := m\<rparr>) (us @ [m]) + count (P\<lparr>tailBlock := m\<rparr>) fs"
        by (simp add: count_def)
      then show ?thesis unfolding P ring_count [OF p(1)] p(2) by (simp add: n_def)
    qed
    ultimately show ?thesis by (simp add: blocks_of_def NewAdvance)
  next
    case (NewLink m)
    show ?thesis
      by (rule same) (use len NewLink in \<open>auto simp: P_def blocks_of_def with_new_def nth_append\<close>)
  next
    case (NextTail m t)
    show ?thesis
      by (rule same) (use len knows free NextTail in \<open>auto simp: P_def blocks_of_def heap_upd\<close>)
  qed (rule same; use d(9) in \<open>auto simp: P_def blocks_of_def heap_upd\<close>)+
qed

text \<open>
  What the walk sees of a step of the producer: elements are added to blocks, or one block is put
  into the ring.
\<close>

definition grows :: "'a rwq \<Rightarrow> nat list \<Rightarrow> 'a rwq \<Rightarrow> nat list \<Rightarrow> bool" where
  "grows P rs P' rs' \<longleftrightarrow> circle P' rs' \<and> frontBlock P' = frontBlock P \<and>
     (\<forall>a \<in> set rs. front (heap P' ! a) = front (heap P ! a) \<and> window (heap P ! a) \<le> window (heap P' ! a)) \<and>
     (rs' = rs \<or> (\<exists>ys n zs. ys \<noteq> [] \<and> rs = ys @ zs \<and> rs' = ys @ n # zs))"

lemma growsI:
  assumes "circle P rs" "frontBlock P' = frontBlock P" "length (heap P) \<le> length (heap P')"
    "\<And>a. a \<in> set rs \<Longrightarrow> next_blk (heap P' ! a) = next_blk (heap P ! a) \<and> front (heap P' ! a) = front (heap P ! a) \<and>
      window (heap P ! a) \<le> window (heap P' ! a)"
  shows "grows P rs P' rs"
  using assms circle_cong [OF assms(1-3)] unfolding grows_def by blast

lemma put_grows:
  fixes x :: 'a
  assumes ring: "rwq_ring q us fs" and knows: "put_knows pc q" and legal: "put_legal (m, mem, x) pc w r q"
  defines "P \<equiv> put_pending x pc q"
  shows "\<exists>rs'. grows P (blocks_of pc us fs) (do_writes w P) rs'"
proof -
  note d = rwq_ringD [OF ring]
  let ?rs = "blocks_of pc us fs"
  have circle: "circle P ?rs" using memory_circle [OF ring knows, of x] by (simp add: P_def)
  then have len: "a < length (heap P)" if "a \<in> set ?rs" for a using that by (auto simp: circle_def)
  note intro = exI [of _ ?rs] growsI [OF circle]
  have tb: "block_ok (heap q ! tailBlock q)" using ring_block [OF ring, of "tailBlock q"] d(7) by simp
  note free = ring_free [OF ring]
  show ?thesis
  proof (cases pc)
    case (PutTail t)
    have "window (heap q ! tailBlock q) \<le> window (published x (heap q ! tailBlock q))"
      using window_published [OF tb, of x] knows PutTail by (auto simp: Let_def)
    moreover have "window ((fill x b)\<lparr>tail := t\<rparr>) = window (published x b)" if "b = heap q ! tailBlock q" for b
      using that knows PutTail by (auto simp: published_def Let_def)
    ultimately show ?thesis using legal d(9) PutTail
      by (intro intro) (auto simp: P_def heap_upd)
  next
    case (NextTail n t)
    with knows free [of n] have n: "block_ok (heap q ! n)" "n < length (heap q)" by auto
    have "window (heap q ! n) \<le> window (published x (heap q ! n))"
      using window_published [OF n(1), of x] knows NextTail succ_neq [OF n(1)] by simp
    moreover have "window ((fill x b)\<lparr>tail := (t + 1) AND sizeMask b\<rparr>) = window (published x b)" if "b = heap q ! n" for b
      using that knows NextTail by (simp add: published_def)
    ultimately show ?thesis using legal n NextTail
      by (intro intro) (auto simp: P_def heap_upd)
  next
    case (NewLink n)
    then have w: "do_writes w P = put_pending x (NewAdvance n) q" using legal
      by (simp add: P_def)
    have "put_knows (NewAdvance n) q" using knows NewLink by simp
    from memory_circle [OF ring this, of x] have "circle (do_writes w P) (us @ n # fs)"
      by (simp add: w blocks_of_def)
    moreover have "?rs = us @ fs" by (simp add: NewLink blocks_of_def)
    moreover have "heap (do_writes w P) ! a = heap P ! a \<or>
        heap (do_writes w P) ! a = (heap P ! a)\<lparr>next_blk := Some n\<rparr>" if "a \<in> set ?rs" for a
      using len [OF that] d(9) unfolding w by (auto simp: P_def NewLink heap_upd with_new_def nth_append)
    then have "front (heap (do_writes w P) ! a) = front (heap P ! a) \<and>
        window (heap P ! a) \<le> window (heap (do_writes w P) ! a)" if "a \<in> set ?rs" for a
      using that by force
    moreover have "frontBlock (do_writes w P) = frontBlock P" unfolding w by (simp add: P_def NewLink with_new_def)
    ultimately show ?thesis using d(5) unfolding grows_def by metis
  next
    case PutNew
    then show ?thesis using legal len
      by (intro intro) (auto simp: P_def nth_append split: if_splits)
  next
    case (NextFront n)
    with knows free [of n] have "n < length (heap q)" by auto
    then show ?thesis using legal NextFront by (intro intro) (auto simp: P_def heap_upd)
  next
    case (NextCell n t)
    with knows free [of n] have "n < length (heap q)" by auto
    then show ?thesis using legal NextCell by (intro intro) (auto simp: P_def heap_upd intro!: eq_refl window_fields)
  next
    case (PutCell t t')
    then show ?thesis using legal d(9)
      by (intro intro) (auto simp: P_def heap_upd intro!: eq_refl window_fields)
  qed (rule exI, rule growsI [OF circle]; use legal d(9) in \<open>auto simp: P_def heap_upd Let_def\<close>)+
qed

subsection \<open>The walk\<close>

text \<open>
  The invariant of the walk over the blocks \<open>rs\<close>: \<open>m\<close> has been counted in the blocks passed, of which
  no more than is there now; with what is there in the blocks ahead it is at least \<open>n\<close>, the number of
  elements at the beginning.
\<close>

fun walks :: "nat \<Rightarrow> 'a rwq \<Rightarrow> nat list \<Rightarrow> size_pc + size_t \<Rightarrow> bool" where
  "walks n P rs (Inl SizeEnter) \<longleftrightarrow> n \<le> count P rs"
| "walks n P rs (Inl (SizeFront f a r)) \<longleftrightarrow> f = frontBlock P \<and>
     (\<exists>ys zs m. rs = ys @ a # zs \<and> r = of_nat m \<and> m \<le> count P ys \<and> n \<le> m + count P (a # zs))"
| "walks n P rs (Inl (SizeTail f a r i)) \<longleftrightarrow> f = frontBlock P \<and> i = front (heap P ! a) \<and>
     (\<exists>ys zs m. rs = ys @ a # zs \<and> r = of_nat m \<and> m \<le> count P ys \<and> n \<le> m + count P (a # zs))"
| "walks n P rs (Inl (SizeNext f a r)) \<longleftrightarrow> f = frontBlock P \<and>
     (\<exists>ys zs m. rs = ys @ a # zs \<and> r = of_nat m \<and> m \<le> count P (ys @ [a]) \<and> n \<le> m + count P zs)"
| "walks n P rs (Inr r) \<longleftrightarrow> (\<exists>m. r = of_nat m \<and> m \<le> count P rs \<and> n \<le> m)"

lemma walksI:
  assumes "rs = ys @ a # zs" "f = frontBlock P" "r = of_nat m"
  shows "m \<le> count P ys \<Longrightarrow> n \<le> m + count P (a # zs) \<Longrightarrow> walks n P rs (Inl (SizeFront f a r))"
    "i = front (heap P ! a) \<Longrightarrow> m \<le> count P ys \<Longrightarrow> n \<le> m + count P (a # zs) \<Longrightarrow>
     walks n P rs (Inl (SizeTail f a r i))"
    "m \<le> count P (ys @ [a]) \<Longrightarrow> n \<le> m + count P zs \<Longrightarrow> walks n P rs (Inl (SizeNext f a r))"
  using assms unfolding walks.simps by blast+

lemma circle_next:
  assumes "circle P (ys @ a # zs)"
  shows "a < length (heap P)" "next_blk (heap P ! a) = Some (case zs of [] \<Rightarrow> frontBlock P | b # _ \<Rightarrow> b)"
proof -
  show less: "a < length (heap P)" using assms by (simp add: circle_def)
  have "linked (map next_blk (heap P)) (ys @ a # zs @ [frontBlock P])"
    using assms by (auto simp: circle_def)
  then have "linked (map next_blk (heap P)) (a # zs @ [frontBlock P])"
    using linked_append [of _ ys a "zs @ [frontBlock P]"] by blast
  then show "next_blk (heap P ! a) = Some (case zs of [] \<Rightarrow> frontBlock P | b # _ \<Rightarrow> b)"
    using less by (cases zs) auto
qed

lemma size_at_walks:
  assumes circle: "circle P rs" and walks: "walks n P rs (Inl pc)"
  shows "\<exists>r. size_at pc P = Inr r \<and> walks n P rs r"
proof (cases pc)
  case SizeEnter
  from circle obtain zs where rs: "rs = [] @ frontBlock P # zs" by (cases rs) (auto simp: circle_def)
  from walksI(1) [OF rs refl, where m = 0 and n = n and r = 0] rs walks SizeEnter show ?thesis by simp
next
  case (SizeFront f a r)
  with walks obtain ys zs m where w: "f = frontBlock P" "rs = ys @ a # zs" "r = of_nat m" "m \<le> count P ys"
    "n \<le> m + count P (a # zs)" by auto
  have "a < length (heap P)" using circle_next(1) circle w(2) by blast
  moreover have "walks n P rs (Inl (SizeTail f a r (front (heap P ! a))))"
    using walksI(2) [OF w(2,1,3) refl w(4,5)] .
  ultimately show ?thesis using SizeFront by (simp add: deref_def)
next
  case (SizeTail f a r i)
  with walks obtain ys zs m where w: "f = frontBlock P" "i = front (heap P ! a)" "rs = ys @ a # zs" "r = of_nat m"
    "m \<le> count P ys" "n \<le> m + count P (a # zs)" by auto
  have "r + ((tail (heap P ! a) - i) AND sizeMask (heap P ! a)) = of_nat (m + window (heap P ! a))"
    using w by (simp add: window_def rdist_def)
  moreover have "m + window (heap P ! a) \<le> count P (ys @ [a])" "n \<le> m + window (heap P ! a) + count P zs"
    using w by simp_all
  moreover have "a < length (heap P)" using circle_next(1) circle w(3) by blast
  moreover note walksI(3) [OF w(3,1) refl, where m = "m + window (heap P ! a)" and n = n]
  ultimately show ?thesis using SizeTail by (simp add: deref_def del: walks.simps)
next
  case (SizeNext f a r)
  with walks obtain ys zs m where w: "f = frontBlock P" "rs = ys @ a # zs" "r = of_nat m" "m \<le> count P (ys @ [a])"
    "n \<le> m + count P zs" by auto
  note links = circle_next [OF circle [unfolded w(2)]]
  show ?thesis
  proof (cases zs)
    case Nil
    with w links SizeNext show ?thesis by (auto simp: deref_def follow_def)
  next
    case (Cons b bs)
    have "b \<noteq> frontBlock P" using circle w(2) Cons by (cases ys) (auto simp: circle_def)
    moreover have "walks n P rs (Inl (SizeFront f b r))"
      by (rule walksI(1) [where ys = "ys @ [a]" and m = m]) (use w Cons in auto)
    ultimately show ?thesis using w(1) links Cons SizeNext
      by (simp add: deref_def follow_def del: walks.simps)
  qed
qed

lemma grows_count: "grows P rs P' rs' \<Longrightarrow> set as \<subseteq> set rs \<Longrightarrow> count P as \<le> count P' as"
  unfolding grows_def count_def by (intro sum_list_mono) auto

lemma grows_split:
  assumes grows: "grows P rs P' rs'" and rs: "rs = ys @ a # zs"
  shows "\<exists>ys' zs'. rs' = ys' @ a # zs' \<and> count P ys \<le> count P' ys' \<and> count P zs \<le> count P' zs'"
proof -
  note mono = grows_count [OF grows]
  have le: "count P ys \<le> count P' ys" "count P zs \<le> count P' zs" using rs by (auto intro: mono)
  from grows consider "rs' = rs" | as n bs where "rs = as @ bs" "rs' = as @ n # bs" unfolding grows_def by blast
  then show ?thesis
  proof cases
    case 1
    with le rs show ?thesis by blast
  next
    case (2 as n bs)
    then have "as @ bs = ys @ a # zs" using rs by simp
    then consider k where "as = ys @ a # k" "zs = k @ bs" | k where "ys = as @ k" "bs = k @ a # zs"
      by (auto simp: append_eq_append_conv2 append_eq_Cons_conv)
    then show ?thesis
    proof cases
      case (1 k)
      then show ?thesis using 2 le by (intro exI [of _ ys] exI [of _ "k @ n # bs"]) auto
    next
      case (2 k)
      then show ?thesis using \<open>rs' = as @ n # bs\<close> le by (intro exI [of _ "as @ n # k"] exI [of _ zs]) auto
    qed
  qed
qed

lemma grows_total: "grows P rs P' rs' \<Longrightarrow> count P rs \<le> count P' rs'"
proof -
  assume grows: "grows P rs P' rs'"
  then consider "rs' = rs" | as n bs where "rs = as @ bs" "rs' = as @ n # bs" unfolding grows_def by blast
  then show ?thesis using grows_count [OF grows, of rs] by cases auto
qed

lemma grows_walks:
  assumes grows: "grows P rs P' rs'" and walks: "walks n P rs p"
  shows "walks n P' rs' p"
proof -
  have same: "frontBlock P' = frontBlock P" "\<And>a. a \<in> set rs \<Longrightarrow> front (heap P' ! a) = front (heap P ! a) \<and>
      window (heap P ! a) \<le> window (heap P' ! a)"
    using grows by (auto simp: grows_def)
  note split = grows_split [OF grows]
  show ?thesis
  proof (cases p)
    case (Inr r)
    then show ?thesis using walks grows_total [OF grows] by force
  next
    case (Inl pc)
    show ?thesis
    proof (cases pc)
      case SizeEnter
      then show ?thesis using Inl walks grows_total [OF grows] by simp
    next
      case (SizeFront f a r)
      with Inl walks obtain ys zs m where w: "f = frontBlock P" "rs = ys @ a # zs" "r = of_nat m"
        "m \<le> count P ys" "n \<le> m + count P (a # zs)" by auto
      from split [OF w(2)] obtain ys' zs' where rs': "rs' = ys' @ a # zs'" and le: "count P ys \<le> count P' ys'"
        "count P zs \<le> count P' zs'" by blast
      have here: "front (heap P' ! a) = front (heap P ! a)" "window (heap P ! a) \<le> window (heap P' ! a)" "f = frontBlock P'"
        using same w by simp_all
      show ?thesis unfolding Inl SizeFront
        by (rule walksI(1) [OF rs' here(3) w(3)]) (use w le here in simp_all)
    next
      case (SizeTail f a r i)
      with Inl walks obtain ys zs m where w: "f = frontBlock P" "i = front (heap P ! a)" "rs = ys @ a # zs"
        "r = of_nat m" "m \<le> count P ys" "n \<le> m + count P (a # zs)" by auto
      from split [OF w(3)] obtain ys' zs' where rs': "rs' = ys' @ a # zs'" and le: "count P ys \<le> count P' ys'"
        "count P zs \<le> count P' zs'" by blast
      have here: "front (heap P' ! a) = front (heap P ! a)" "window (heap P ! a) \<le> window (heap P' ! a)" "f = frontBlock P'"
        using same w by simp_all
      show ?thesis unfolding Inl SizeTail
        by (rule walksI(2) [OF rs' here(3) w(4)]) (use w le here in simp_all)
    next
      case (SizeNext f a r)
      with Inl walks obtain ys zs m where w: "f = frontBlock P" "rs = ys @ a # zs" "r = of_nat m"
        "m \<le> count P (ys @ [a])" "n \<le> m + count P zs" by auto
      from split [OF w(2)] obtain ys' zs' where rs': "rs' = ys' @ a # zs'" and le: "count P ys \<le> count P' ys'"
        "count P zs \<le> count P' zs'" by blast
      have here: "front (heap P' ! a) = front (heap P ! a)" "window (heap P ! a) \<le> window (heap P' ! a)" "f = frontBlock P'"
        using same w by simp_all
      show ?thesis unfolding Inl SizeNext
        by (rule walksI(3) [OF rs' here(3) w(3)]) (use w le here in simp_all)
    qed
  qed
qed

subsection \<open>Every interleaving\<close>

definition size_inv :: "nat \<Rightarrow> 'a duo \<times> (size_pc + size_t) \<Rightarrow> bool" where
  "size_inv n = (\<lambda>(s, p). taking s = None \<and> duo_inv s \<and> (\<exists>rs. circle (queue s) rs \<and> walks n (queue s) rs p))"

text \<open>When the consumer is outside of its operations, the circle is that of the memory.\<close>

lemma duo_circle:
  assumes "duo_inv s" "taking s = None"
  obtains q us fs where "rwq_ring q us fs" "queue s = put_pending (put_elem s) (put_place s) q"
    "put_knows (put_place s) q" "entered s = departed s @ chain (heap q) us"
    "circle (queue s) (blocks_of (put_place s) us fs)"
    "length (entered s) \<le> length (departed s) + count (queue s) (blocks_of (put_place s) us fs)"
    "count (queue s) (blocks_of (put_place s) us fs) \<le>
      length (entered s) - length (departed s) + (if putting s = None then 0 else 1)"
proof -
  from assms(1) obtain q us where h: "duo_holds s q us" unfolding duo_inv_def by blast
  then obtain fs where ring: "rwq_ring q us fs" by (blast dest: duo_holdsD(1))
  note h = duo_holdsD(2,3,5) [OF h]
  have q: "queue s = put_pending (put_elem s) (put_place s) q" using h(1) assms(2) by (simp add: places)
  have "putting s = None \<Longrightarrow> put_place s = PutEnter" by (simp add: places)
  with memory_circle [OF ring h(2), of "put_elem s"] h(3) show thesis
    by (intro that [OF ring q h(2,3)]) (auto simp: q split: if_splits)
qed

lemma size_step_inv:
  assumes "size_step x y" "size_inv n x"
  shows "size_inv n y \<and> departed (fst y) = departed (fst x)"
  using assms
proof cases
  case (Counts pc s r)
  with assms(2) size_at_walks show ?thesis by (force simp: size_inv_def)
next
  case (PutsBegin s p c)
  then have "duo_inv (s\<lparr>putting := Some (c, PutEnter)\<rparr>)"
    using assms(2) by (intro duo_inv_begin(1)) (simp_all add: size_inv_def)
  with PutsBegin assms(2) show ?thesis by (auto simp: size_inv_def)
next
  case (Puts s s' p)
  from assms(2) Puts(1) obtain rs where inv: "taking s = None" "duo_inv s" "circle (queue s) rs" "walks n (queue s) rs p"
    by (auto simp: size_inv_def)
  from putter.this_keeps [OF inv(2)] Puts(3) have inv': "duo_inv s'" by simp
  from Puts(3) have same: "taking s' = None" "departed s' = departed s"
    using inv(1) by (cases rule: duo_putE; simp)+
  show ?thesis
  proof (cases "putting s")
    case None
    then have "s' = s" using Puts(3) by (simp add: duo_put_def)
    then show ?thesis using Puts(1,2) assms(2) by simp
  next
    case (Some a)
    then obtain m mem x pc where p: "putting s = Some ((m, mem, x), pc)" by (metis prod_cases3 surj_pair)
    then have place: "put_elem s = x" "put_place s = pc" by (simp_all add: places)
    from duo_circle [OF inv(2,1)] obtain q us fs where q: "rwq_ring q us fs" "queue s = put_pending x pc q"
      "put_knows pc q" "circle (queue s) (blocks_of pc us fs)" unfolding place by metis
    from put_at_legal [OF q(1,3), of m mem x "TakeEnter :: 'a take_pc"] obtain r Q where
      step: "put_at (m, mem, x) pc (queue s) = Inr (r, Q)"
      and legal: "put_legal (m, mem, x) pc (put_write (m, mem, x) pc (queue s)) r q"
      by (auto simp: q(2))
    from put_grows [OF q(1,3) legal] obtain rs' where
      grows: "grows (queue s) (blocks_of pc us fs) (do_writes (put_write (m, mem, x) pc (queue s)) (queue s)) rs'"
      unfolding q(2) by blast
    have "queue s' = do_writes (put_write (m, mem, x) pc (queue s)) (queue s)"
      using Puts(3) put_at_write [OF step] step p by (cases r) (auto simp: duo_put_def)
    with grows have "grows (queue s) rs (queue s') rs'"
      using circle_unique [OF inv(3) q(4)] by simp
    with grows_walks inv(4) have "walks n (queue s') rs' p" "circle (queue s') rs'"
      by (blast, simp add: grows_def)
    with inv' same Puts show ?thesis by (auto simp: size_inv_def)
  qed
qed

lemma size_steps_inv:
  assumes "size_step\<^sup>*\<^sup>* x y" "size_inv n x"
  shows "size_inv n y \<and> departed (fst y) = departed (fst x)"
  using assms by (induction rule: rtranclp_induct) (auto dest: size_step_inv)

lemma size_inv_start:
  assumes "duo_inv s" "taking s = None"
  shows "size_inv (length (entered s) - length (departed s)) (s, Inl SizeEnter)"
proof -
  from duo_circle [OF assms] obtain rs where "circle (queue s) rs"
    "length (entered s) \<le> length (departed s) + count (queue s) rs" by metis
  with assms show ?thesis by (auto simp: size_inv_def)
qed

subsection \<open>Properties\<close>

text \<open>
  C8. The consumer calls \<open>size_approx\<close> while the producer goes on: the walk over the blocks does not
  fault, whatever the producer does to the ring meanwhile. The result is no less than the number of
  elements at the beginning of the walk, and no more than the number at its end, with the one that is
  just put in.
\<close>

theorem size_between_threads:
  assumes "0 < capacity" "unat capacity < 2 ^ 32" "new_queue (\<lambda>_. True) capacity = Inr q"
    "duo_step\<^sup>*\<^sup>* (idle_duo q) s" "taking s = None"
    "size_step\<^sup>*\<^sup>* (s, Inl SizeEnter) (s', p)" "length (entered s') < 2 ^ 64 - 1"
  shows "departed s' = departed s \<and> (case p of
     Inl pc \<Rightarrow> \<exists>r. size_at pc (queue s') = Inr r
   | Inr n \<Rightarrow> length (entered s) - length (departed s) \<le> unat n \<and>
       unat n \<le> length (entered s') - length (departed s') + (if putting s' = None then 0 else 1))"
proof -
  have "duo_inv s" by (rule duo_reachable [OF new_queue_holds [OF assms(1-3)] assms(4)])
  from size_steps_inv [OF assms(6) size_inv_start [OF this assms(5)]] obtain rs where
    inv: "duo_inv s'" "taking s' = None" "departed s' = departed s"
    "circle (queue s') rs" "walks (length (entered s) - length (departed s)) (queue s') rs p"
    by (auto simp: size_inv_def)
  show ?thesis
  proof (cases p)
    case (Inl pc)
    with size_at_walks [OF inv(4)] inv(3,5) show ?thesis by fastforce
  next
    case (Inr n)
    with inv(5) obtain m where m: "n = of_nat m" "m \<le> count (queue s') rs"
      "length (entered s) - length (departed s) \<le> m" by auto
    from duo_circle [OF inv(1,2)] circle_unique [OF inv(4)]
    have count: "count (queue s') rs \<le> length (entered s') - length (departed s') + (if putting s' = None then 0 else 1)"
      by metis
    with m(2) assms(7) have "m < 2 ^ 64" by (auto split: if_splits)
    then have "unat n = m" by (simp add: m(1) unsigned_of_nat take_bit_nat_eq_self)
    with m count inv(3) Inr show ?thesis by simp
  qed
qed

theorem size_between_threads_witness:
  "\<exists>s s'. duo_step\<^sup>*\<^sup>* (idle_duo (default_queue :: u8 rwq)) s \<and> putting s = None \<and>
     size_step\<^sup>*\<^sup>* (s, Inl SizeEnter) (s', Inr 0) \<and> putting s' = Some ((CanAlloc, True, 7), PutEnter) \<and>
     length (entered s') - length (departed s') + 1 \<ge> unat (0 :: size_t)"
proof -
  let ?s = "idle_duo default_queue :: u8 duo"
  let ?s' = "?s\<lparr>putting := Some ((CanAlloc, True, 7), PutEnter)\<rparr>"
  note eval = idle_duo_def default_queue_def new_block_def deref_def follow_def
  have "size_step (?s, Inl SizeEnter) (?s, Inl (SizeFront 0 0 0))"
    by (rule Counts) (simp add: eval)
  moreover have "size_step (?s, Inl (SizeFront 0 0 0)) (?s', Inl (SizeFront 0 0 0))"
    by (rule PutsBegin) (simp add: eval)
  moreover have "size_step (?s', Inl (SizeFront 0 0 0)) (?s', Inl (SizeTail 0 0 0 0))"
    by (rule Counts) (simp add: eval)
  moreover have "size_step (?s', Inl (SizeTail 0 0 0 0)) (?s', Inl (SizeNext 0 0 0))"
    by (rule Counts) (simp add: eval)
  moreover have "size_step (?s', Inl (SizeNext 0 0 0)) (?s', Inr 0)"
    by (rule Counts) (simp add: eval)
  ultimately have run: "size_step\<^sup>*\<^sup>* (?s, Inl SizeEnter) (?s', Inr 0)"
    by (meson rtranclp.rtrancl_into_rtrancl rtranclp.rtrancl_refl)
  have h: "0 < (15 :: size_t)" "unat (15 :: size_t) < 2 ^ 32" by simp_all
  have idle: "taking ?s = None" "length (entered ?s') < 2 ^ 64 - 1" by (simp_all add: idle_duo_def)
  from size_between_threads [OF h new_queue_default rtranclp.rtrancl_refl idle(1) run idle(2)] run
  show ?thesis by (intro exI [of _ ?s] exI [of _ ?s']) (simp add: idle_duo_def)
qed

end
