(* ===== verification/Rw_Pso_Size.thy ===== *)
theory Rw_Pso_Size
  imports Rw_Pso_Correct Rw_Size
begin

text \<open>
  \<open>size_approx\<close> on a processor that reorders writes. The walk over the blocks follows \<open>next\<close>, and
  \<open>inner_enqueue\<close> links a new block without a release fence between its initialisation and the link. On
  x86 the walk is safe; otherwise the consumer can follow the link to a block that is not there yet.
\<close>

subsection \<open>With store buffers in order\<close>

lemma walk_ends:
  assumes "circle P rs" "rs = ys @ a # zs"
  shows "\<exists>n. run_size (3 * Suc (length zs)) (SizeFront (frontBlock P) a r) P = Inr n"
  using assms(2)
proof (induction zs arbitrary: ys a r)
  case Nil
  from circle_next [of P ys a "[]"] assms(1) Nil show ?case
    by (simp add: numeral_3_eq_3 deref_def follow_def)
next
  case (Cons b zs)
  from circle_next [of P ys a "b # zs"] assms(1) Cons.prems have "a < length (heap P)" "next_blk (heap P ! a) = Some b"
    by simp_all
  moreover have "b \<noteq> frontBlock P"
    using assms(1) Cons.prems by (cases ys) (auto simp: circle_def)
  moreover from Cons.IH [of "ys @ [a]" b] Cons.prems
  have "\<exists>n. run_size (3 * Suc (length zs)) (SizeFront (frontBlock P) b r') P = Inr n" for r' by simp
  ultimately show ?case
    by (simp add: deref_def follow_def numeral_3_eq_3)
qed

lemma tso_walk:
  assumes "tso_inv s" "taking s = None"
  shows "\<exists>fuel n. run_size fuel SizeEnter (take_view s) = Inr n"
proof -
  from assms(1) obtain A q where h: "together A (taker_of s) q" "take_view s = seen A (taker_of s) q"
    by (rule tso_invD) blast
  then obtain us fs where g: "rwq_ring q us fs" "put_knows (put_pc_of A) q" by (auto simp: together_def)
  have "take_view s = put_pending (elem_of A) (put_pc_of A) q"
    using h(2) assms(2) by (simp add: seen_def taker_of_def)
  with memory_circle [OF g, of "elem_of A"] have c: "circle (take_view s) (blocks_of (put_pc_of A) us fs)" by simp
  then obtain zs where zs: "blocks_of (put_pc_of A) us fs = [] @ frontBlock (take_view s) # zs"
    by (cases "blocks_of (put_pc_of A) us fs") (auto simp: circle_def)
  from walk_ends [OF c zs, of 0] have "\<exists>n. run_size (Suc (3 * Suc (length zs))) SizeEnter (take_view s) = Inr n"
    by (subst run_size.simps(2)) simp
  then show ?thesis by blast
qed

subsection \<open>With writes that pass each other\<close>

definition small_queue :: "'a rwq" where
  "small_queue = \<lparr>heap = [(new_block 2)\<lparr>next_blk := Some 0\<rparr>], frontBlock = 0, tailBlock = 0, largestBlockSize = 2\<rparr>"

definition linked_early :: "u8 rwq" where
  "linked_early = upd 0 (\<lambda>b. b\<lparr>cells := (cells b)[0 := Some 7], next_blk := Some 1\<rparr>) small_queue"

definition walk_astray :: "u8 pso" where
  "walk_astray = (idle_pso linked_early)\<lparr>putting := Some ((CanAlloc, True, 8), NewAdvance 1), entered := [7],
     put_stores := [(True, ToTail 0 1), (False, ToLocalFront 0 0),
       (False, ToNewBlock (grown 8 (small_queue\<lparr>largestBlockSize := 4\<rparr>)) 4)]\<rparr>"

lemma walk_astray: "pso_step\<^sup>*\<^sup>* (idle_pso small_queue) walk_astray"
proof -
  let ?s = "(idle_pso small_queue) :: u8 pso"
  let ?q = "upd 0 (\<lambda>b. b\<lparr>cells := (cells b)[0 := Some 7]\<rparr>) small_queue"
  let ?t = "(idle_pso ?q)\<lparr>entered := [7 :: u8]\<rparr>"
  let ?c = "(CanAlloc, True, 7 :: u8)" and ?d = "(CanAlloc, True, 8 :: u8)"
  let ?nb = "grown 8 (small_queue\<lparr>largestBlockSize := 4\<rparr>)"
  let ?ws = "[(True, ToTail 0 1), (False, ToLocalFront 0 0)]"
  note eval = pso_put_def put_sees_def idle_pso_def small_queue_def new_block_def deref_def construct_def
    Let_def releases perform_store_def upd_def
  let ?s1 = "?s\<lparr>putting := Some (?c, PutEnter)\<rparr>" and ?s2 = "?s\<lparr>putting := Some (?c, PutCell 0 1)\<rparr>"
  let ?s3 = "?s\<lparr>putting := Some (?c, PutTail 1), put_stores := [(False, ToCell 0 0 (Some 7))]\<rparr>"
  let ?s4 = "?s\<lparr>queue := ?q, putting := Some (?c, PutTail 1)\<rparr>"
  let ?t1 = "?t\<lparr>put_stores := [(True, ToTail 0 1)]\<rparr>"
  let ?t2 = "?t1\<lparr>putting := Some (?d, PutEnter)\<rparr>" and ?t3 = "?t1\<lparr>putting := Some (?d, PutFront 1 0)\<rparr>"
  let ?t4 = "?t\<lparr>putting := Some (?d, PutNext), put_stores := ?ws\<rparr>"
  let ?t5 = "?t\<lparr>putting := Some (?d, PutNew), put_stores := ?ws\<rparr>"
  let ?t6 = "?t\<lparr>putting := Some (?d, NewLink 1), put_stores := ?ws @ [(False, ToNewBlock ?nb 4)]\<rparr>"
  let ?t7 = "?t\<lparr>putting := Some (?d, NewAdvance 1), put_stores := ?ws @ [(False, ToNewBlock ?nb 4), (False, ToNext 0 1)]\<rparr>"
  have "pso_step ?s ?s1" by (rule PutCalled) (simp add: idle_pso_def)
  moreover have "pso_step ?s1 ?s2" by (rule PutRuns) (simp add: eval)
  moreover have "pso_step ?s2 ?s3" by (rule PutRuns) (simp add: eval)
  moreover have "pso_step ?s3 ?s4"
    using PutDrains [of ?s3 "[]" "(False, ToCell 0 0 (Some 7))" "[]"]
    by (simp add: may_drain_def may_pass_def idle_pso_def perform_store_def)
  moreover have "pso_step ?s4 ?t1" by (rule PutRuns) (simp add: eval)
  moreover have "pso_step ?t1 ?t2" by (rule PutCalled) (simp add: idle_pso_def)
  moreover have "pso_step ?t2 ?t3" by (rule PutRuns) (simp add: eval)
  moreover have "pso_step ?t3 ?t4" by (rule PutRuns) (simp add: eval)
  moreover have "pso_step ?t4 ?t5" by (rule PutRuns) (simp add: eval follow_def)
  moreover have "pso_step ?t5 ?t6"
    by (rule PutRuns) (simp add: eval filled_block_def grown_def fill_def MAX_BLOCK_SIZE_def)
  moreover have "pso_step ?t6 ?t7" by (rule PutRuns) (simp add: eval)
  moreover have "pso_step ?t7 walk_astray"
    using PutDrains [of ?t7 "?ws @ [(False, ToNewBlock ?nb 4)]" "(False, ToNext 0 1)" "[]"]
    by (simp add: may_drain_def may_pass_def idle_pso_def walk_astray_def linked_early_def perform_store_def upd_upd small_queue_def)
  ultimately show ?thesis by (meson rtranclp.rtrancl_into_rtrancl rtranclp.rtrancl_refl)
qed

lemma new_small_queue: "new_queue (\<lambda>_. True) 1 = Inr small_queue"
proof -
  have "ceilToPow2 2 = 2" using ceilToPow2_mask [of 1 1] by simp
  then show ?thesis by (simp add: new_queue_def make_block_def small_queue_def MAX_BLOCK_SIZE_def)
qed

lemma astray: "run_size 5 SizeEnter (take_sees walk_astray) = Inl WildPointer"
  by (simp add: walk_astray_def take_sees_def idle_pso_def linked_early_def small_queue_def new_block_def
      upd_def numeral_eq_Suc deref_def follow_def)

subsection \<open>Properties\<close>

text \<open>
  C9. What \<open>size_approx\<close> asks of the processor. If the writes of a thread take effect in order, then the
  consumer, whatever the producer is in the middle of, walks over the blocks to the end. If writes
  may pass each other, it may not: a queue made for one element, to which a second one is added, is
  left with a link to a block whose contents have not reached the memory, and the walk reads there.
\<close>

theorem size_needs_write_order:
  assumes "0 < capacity" "unat capacity < 2 ^ 32" "new_queue (\<lambda>_. True) capacity = Inr q"
    "tso_step\<^sup>*\<^sup>* (idle_tso q) s" "taking s = None"
  shows "(\<exists>fuel n. run_size fuel SizeEnter (take_view s) = Inr n) \<and>
    (\<exists>q s. new_queue (\<lambda>_. True) 1 = Inr (q :: u8 rwq) \<and> pso_step\<^sup>*\<^sup>* (idle_pso q) s \<and> taking s = None \<and>
       run_size 5 SizeEnter (take_sees s) = Inl WildPointer)"
proof
  show "\<exists>fuel n. run_size fuel SizeEnter (take_view s) = Inr n"
    by (rule tso_walk [OF tso_reachable [OF new_queue_holds [OF assms(1-3)] assms(4)] assms(5)])
  show "\<exists>q s. new_queue (\<lambda>_. True) 1 = Inr (q :: u8 rwq) \<and> pso_step\<^sup>*\<^sup>* (idle_pso q) s \<and> taking s = None \<and>
      run_size 5 SizeEnter (take_sees s) = Inl WildPointer"
    using new_small_queue walk_astray astray
    by (intro exI [of _ small_queue] exI [of _ walk_astray]) (simp add: walk_astray_def idle_pso_def)
qed

theorem size_needs_write_order_witness:
  "\<exists>fuel n. run_size fuel SizeEnter (take_view (idle_tso (default_queue :: u8 rwq))) = Inr n"
proof -
  have h: "0 < (15 :: size_t)" "unat (15 :: size_t) < 2 ^ 32" by simp_all
  have "taking (idle_tso (default_queue :: u8 rwq)) = None" by (simp add: idle_tso_def)
  from size_needs_write_order [OF h new_queue_default rtranclp.rtrancl_refl this] show ?thesis by blast
qed

end
