(* ===== verification/Rw_Rmo.thy ===== *)
theory Rw_Rmo
  imports Rw_Pso
begin

text \<open>
  The two threads of \<open>ReaderWriterQueue\<close> on a processor that reorders the loads as well as the writes.
  Each thread has a memory of its own. Its writes are in it at once, and wait in a buffer as in \<open>Rw_Pso\<close>
  for their way to the other thread, where they join the writes that have arrived but that the thread
  is not bound to see yet: a load may be satisfied with any number of them, more or fewer than the
  load before. An acquire fence binds a thread to see what any load before the fence has seen.
  That a write does not get to the other thread before a load that stands in front of it is satisfied
  is a matter of the dependencies and fences that precede every write of the queue, and taken for
  granted here.
\<close>

subsection \<open>Acquire fences\<close>

text \<open>Whether \<open>fence order\<close> keeps the loads after it from getting in front of those before it.\<close>

definition orders_loads :: "memory_order \<Rightarrow> bool" where
  "orders_loads order = (case order of
     memory_order_relaxed \<Rightarrow> False
   | memory_order_acquire \<Rightarrow> True
   | memory_order_release \<Rightarrow> False
   | memory_order_acq_rel \<Rightarrow> True
   | memory_order_seq_cst \<Rightarrow> True)"

definition put_acquires :: "put_pc \<Rightarrow> bool" where
  "put_acquires pc \<longleftrightarrow> list_ex orders_loads (put_fences pc)"

definition take_acquires :: "'a take_pc \<Rightarrow> bool" where
  "take_acquires k \<longleftrightarrow> list_ex orders_loads (take_fences k)"

lemma put_acquires_simps [simp]:
  "\<not> put_acquires PutEnter" "\<not> put_acquires (PutFront t t')" "put_acquires (PutCell t t')"
  "\<not> put_acquires (PutTail t')" "put_acquires PutNext" "put_acquires (NextFront n)" "put_acquires (NextCell n t)"
  "\<not> put_acquires (NextTail n t)" "\<not> put_acquires (NextAdvance n)" "\<not> put_acquires PutNew"
  "\<not> put_acquires (NewLink n)" "\<not> put_acquires (NewAdvance n)"
  by (simp_all add: put_acquires_def orders_loads_def)

lemma take_acquires_simps [simp]:
  "\<not> take_acquires TakeEnter" "\<not> take_acquires TakeTail" "\<not> take_acquires TakeBlock" "take_acquires TakeAgain"
  "take_acquires AheadNext" "\<not> take_acquires (AheadTail n)" "take_acquires (AheadBlock n)"
  "\<not> take_acquires (AheadPeek n)" "take_acquires (TakeCell f)" "\<not> take_acquires (TakeFront f x)"
  by (simp_all add: take_acquires_def orders_loads_def)

subsection \<open>The two threads\<close>

text \<open>
  The buffers are those of \<open>pso\<close>; its \<open>queue\<close> is the memory of the consumer, \<open>put_memory\<close> that of the
  producer. \<open>put_arrived\<close> are the writes of the consumer that have arrived at the producer,
  \<open>take_arrived\<close> those of the producer that have arrived at the consumer; \<open>put_read\<close> and \<open>take_read\<close>
  tell how many of them the loads since the last acquire fence have seen.
\<close>

record 'a rmo = "'a pso" +
  put_memory :: "'a rwq"
  put_arrived :: "'a store list"
  put_read :: nat
  take_arrived :: "'a store list"
  take_read :: nat

definition idle_rmo :: "'a rwq \<Rightarrow> 'a rmo" where
  "idle_rmo q = \<lparr>queue = q, putting = None, taking = None, entered = [], departed = [], entered_before = [],
     put_stores = [], take_stores = [], put_memory = q, put_arrived = [], put_read = 0, take_arrived = [], take_read = 0\<rparr>"

text \<open>What a load sees with the first \<open>n\<close> of the writes that have arrived.\<close>

definition put_loads :: "nat \<Rightarrow> 'a rmo \<Rightarrow> 'a rwq" where
  "put_loads n s = fold perform_store (take n (put_arrived s)) (put_memory s)"

definition take_loads :: "nat \<Rightarrow> 'a rmo \<Rightarrow> 'a rwq" where
  "take_loads n s = fold perform_store (take n (take_arrived s)) (queue s)"

definition put_acquire :: "'a rmo \<Rightarrow> 'a rmo" where
  "put_acquire s = s\<lparr>put_memory := put_loads (put_read s) s, put_arrived := drop (put_read s) (put_arrived s),
     put_read := 0\<rparr>"

definition take_acquire :: "'a rmo \<Rightarrow> 'a rmo" where
  "take_acquire s = s\<lparr>queue := take_loads (take_read s) s, take_arrived := drop (take_read s) (take_arrived s),
     take_read := 0\<rparr>"

text \<open>A step: the access, and then the acquire fence, if there is one before the next access.\<close>

definition rmo_put :: "nat \<Rightarrow> 'a rmo \<Rightarrow> 'a rmo res" where
  "rmo_put n s = (case putting s of
     None \<Rightarrow> Inr s
   | Some (c, pc) \<Rightarrow>
       bindE (put_at c pc (put_loads n s)) (\<lambda>(r, _).
         let ws = map (Pair (put_releases pc)) (put_write c pc (put_loads n s));
             s = s\<lparr>put_stores := put_stores s @ ws, put_memory := fold perform_store ws (put_memory s),
               put_read := max (put_read s) n\<rparr>
         in Inr (case r of
              Inl pc \<Rightarrow> (if put_acquires pc then put_acquire s else s)\<lparr>putting := Some (c, pc)\<rparr>
            | Inr ok \<Rightarrow> s\<lparr>putting := None, entered := entered s @ (if ok then [snd (snd c)] else [])\<rparr>)))"

definition rmo_take :: "nat \<Rightarrow> 'a rmo \<Rightarrow> 'a rmo res" where
  "rmo_take n s = (case taking s of
     None \<Rightarrow> Inr s
   | Some (c, pc) \<Rightarrow>
       bindE (take_at c pc (take_loads n s)) (\<lambda>(r, _).
         let ws = map (Pair (take_releases pc)) (take_write c pc (take_loads n s));
             s = s\<lparr>take_stores := take_stores s @ ws, queue := fold perform_store ws (queue s),
               take_read := max (take_read s) n\<rparr>
         in Inr (case r of
              Inl pc \<Rightarrow> (if take_acquires pc then take_acquire s else s)\<lparr>taking := Some (c, pc)\<rparr>
            | Inr x \<Rightarrow> s\<lparr>taking := None,
                departed := departed s @ (if c = PeekCall then [] else case_option [] (\<lambda>x. [x]) x)\<rparr>)))"

text \<open>
  What was put in before an operation of the consumer is what it was bound to see when it began.
\<close>

inductive rmo_step :: "'a rmo \<Rightarrow> 'a rmo \<Rightarrow> bool" where
  PutCalled: "putting s = None \<Longrightarrow> rmo_step s (s\<lparr>putting := Some (c, PutEnter)\<rparr>)"
| PutRuns: "n \<le> length (put_arrived s) \<Longrightarrow> rmo_put n s = Inr s' \<Longrightarrow> rmo_step s s'"
| PutArrives: "put_stores s = us @ w # vs \<Longrightarrow> may_drain us w \<Longrightarrow>
    rmo_step s (s\<lparr>put_stores := us @ vs, take_arrived := take_arrived s @ [w]\<rparr>)"
| TakeCalled: "taking s = None \<Longrightarrow>
    rmo_step s (s\<lparr>taking := Some (c, TakeEnter),
      entered_before := (if put_stores s = [] \<and> take_arrived s = [] then entered s else departed s)\<rparr>)"
| TakeRuns: "n \<le> length (take_arrived s) \<Longrightarrow> rmo_take n s = Inr s' \<Longrightarrow> rmo_step s s'"
| TakeArrives: "take_stores s = us @ w # vs \<Longrightarrow> may_drain us w \<Longrightarrow>
    rmo_step s (s\<lparr>take_stores := us @ vs, put_arrived := put_arrived s @ [w]\<rparr>)"

end
