(* ===== verification/Rw_Rmo_Loads.thy ===== *)
theory Rw_Rmo_Loads
  imports Rw_Rmo Rw_Pso_Correct
begin

text \<open>
  What a load of the queue depends on. One of a thread sees more when writes of the other are drained
  in \<open>Rw_Pso\<close>. Unless an acquire fence follows, that makes no difference: of the variables of the other
  thread a thread finds what it has found before, or what can no longer change. That is shown from the
  moves that the other thread is ahead by.
\<close>

subsection \<open>What a thread finds while the other moves on\<close>

lemma put_move_respects:
  assumes "together A B q" "put_move A q w A' q'"
  shows "put_respects q q'"
  using assms(2)
proof cases
  case (PutMove m mem x pc r xs)
  from assms(1) PutMove(1) obtain us fs where g: "rwq_ring q us fs" "put_knows pc q" "taker_knows B q"
    by (auto simp: together_def)
  from taker_knows_take [OF g(3)] obtain e c where t: "take_knows e c (take_pc_of B) q" by blast
  from put_legal_result [OF g(1,2) t PutMove(4)] PutMove(3) show ?thesis by (simp add: put_result_def Let_def)
qed simp

lemma take_move_respects:
  assumes "together A B q" "take_move B q w B' q'"
  shows "take_respects q q'"
  using assms(2)
proof cases
  case (TakeMove e c k r xs)
  from assms(1) TakeMove(1) obtain us fs where g: "rwq_ring q us fs"
    "put_knows (put_pc_of A) q" "take_knows e c k q" by (auto simp: together_def)
  from take_legal_result [OF g TakeMove(4), of undefined] TakeMove(3) show ?thesis
    by (simp add: take_result_def Let_def)
qed simp

text \<open>The consumer: elements in the front block stay, and a block ahead stays ahead.\<close>

definition stays :: "'a rwq \<Rightarrow> 'a rwq \<Rightarrow> bool" where
  "stays q q' \<longleftrightarrow> (let f = frontBlock q; b = heap q ! f; b' = heap q' ! f in
     frontBlock q' = f \<and> front b' = front b \<and> (front b \<noteq> tail b \<longrightarrow> front b' \<noteq> tail b') \<and>
     (f \<noteq> tailBlock q \<longrightarrow> f \<noteq> tailBlock q' \<and> next_blk b' = next_blk b))"

lemma stays_refl: "stays q q"
  by (simp add: stays_def Let_def)

lemma stays_trans: "stays q q' \<Longrightarrow> stays q' q'' \<Longrightarrow> stays q q''"
  by (auto simp: stays_def Let_def)

lemma front_cell:
  assumes "block_ok b" "front b \<noteq> tail b"
  shows "cells b ! unat (front b) \<noteq> None"
proof -
  from assms(1) obtain n where n: "block_bits n b" by (auto simp: block_ok_def)
  note d = block_bitsD [OF n]
  have "0 < window b" using contents_Nil [OF assms(1)] assms(2) length_contents [of b] by (metis length_greater_0_conv)
  with block_bits_cells [OF n, of 0] d show ?thesis by (simp add: slot_def)
qed

lemma put_respects_stays:
  assumes "put_respects q q'" "rwq_ring q us fs" "rwq_ring q' us' fs'"
  shows "stays q q'"
proof -
  let ?f = "frontBlock q"
  note d = rwq_ringD [OF assms(2)] and d' = rwq_ringD [OF assms(3)]
  have f: "frontBlock q' = ?f" "front (heap q' ! ?f) = front (heap q ! ?f)"
    "front (heap q ! ?f) \<noteq> tail (heap q ! ?f) \<Longrightarrow>
     cells (heap q' ! ?f) ! unat (front (heap q ! ?f)) = cells (heap q ! ?f) ! unat (front (heap q ! ?f))"
    "?f \<noteq> tailBlock q \<Longrightarrow> ?f \<noteq> tailBlock q' \<and> next_blk (heap q' ! ?f) = next_blk (heap q ! ?f)"
    using assms(1) d(8) by (auto simp: put_respects_def Let_def)
  have ok: "block_ok (heap q ! ?f)" "block_ok (heap q' ! ?f)"
    using ring_block(1) [OF assms(2), of ?f] d(6) ring_block(1) [OF assms(3), of ?f] d'(6) f(1) by simp_all
  have "front (heap q' ! ?f) \<noteq> tail (heap q' ! ?f)" if "front (heap q ! ?f) \<noteq> tail (heap q ! ?f)"
    using front_cell [OF ok(1) that] tail_cell [OF ok(2)] f(2,3) that by auto
  with f show ?thesis by (simp add: stays_def Let_def)
qed

lemma put_moves_stay:
  "moves put_go A q ws A' q' \<Longrightarrow> together A B q \<Longrightarrow> stays q q'"
proof (induction rule: moves.induct)
  case (Go A q w A' q' ws A'' q'')
  then obtain v where m: "put_move A q v A' q'" by (auto simp: put_go_def)
  note k = put_go_keeps [OF Go.prems Go.hyps(1)]
  from Go.prems k obtain us fs us' fs' where "rwq_ring q us fs" "rwq_ring q' us' fs'" by (auto simp: together_def)
  with put_respects_stays [OF put_move_respects [OF Go.prems m]] have "stays q q'" by blast
  with Go.IH k show ?case by (blast intro: stays_trans)
qed (rule stays_refl)

text \<open>The producer: a block ahead that is free stays free.\<close>

definition stays_free :: "'a rwq \<Rightarrow> 'a rwq \<Rightarrow> bool" where
  "stays_free q q' \<longleftrightarrow> tailBlock q' = tailBlock q \<and>
     next_blk (heap q' ! tailBlock q) = next_blk (heap q ! tailBlock q) \<and>
     (\<forall>n. next_blk (heap q ! tailBlock q) = Some n \<and> n \<noteq> frontBlock q \<longrightarrow> n \<noteq> frontBlock q')"

lemma take_moves_stay:
  "moves take_go B q ws B' q' \<Longrightarrow> together A B q \<Longrightarrow> stays_free q q'"
proof (induction rule: moves.induct)
  case (Go B q w B' q' ws B'' q'')
  then obtain v where m: "take_move B q v B' q'" by (auto simp: take_go_def)
  note k = take_go_keeps [OF Go.prems Go.hyps(1)]
  from Go.prems obtain us fs where "rwq_ring q us fs" by (auto simp: together_def)
  from rwq_ringD [OF this] take_move_respects [OF Go.prems m] have "stays_free q q'"
    by (auto simp: stays_free_def take_respects_def Let_def)
  with Go.IH k show ?case by (auto simp: stays_free_def)
qed (simp add: stays_free_def)

text \<open>The same for what the threads see in a state of \<open>Rw_Pso\<close>.\<close>

abbreviation reached_pso ::
  "'a putter \<Rightarrow> 'a taker \<Rightarrow> 'a rwq \<Rightarrow> 'a store track \<Rightarrow> 'a store track \<Rightarrow> 'a rwq \<Rightarrow> 'a rwq \<Rightarrow> 'a pso \<Rightarrow> bool" where
  "reached_pso A B q ts us qa qb s \<equiv>
     ahead_pso.reached A B q ts us (pso_putter s) (pso_taker s) qa qb (queue s) \<and>
     waiting ts = put_stores s \<and> waiting us = take_stores s"

lemma take_sees_front:
  assumes r: "reached_pso A B q ts us qa qb s" and k: "taking s = Some (c, k)" "\<forall>f x. k \<noteq> TakeFront f x"
  defines "p \<equiv> take_sees s" and "f \<equiv> frontBlock qb"
  shows "frontBlock p = f" "tailBlock p = tailBlock qb" "f < length (heap p)" "length (heap qb) \<le> length (heap p)"
    "front (heap p ! f) = front (heap qb ! f)" "tail (heap p ! f) = tail (heap qb ! f)"
    "f \<noteq> tailBlock qb \<Longrightarrow> next_blk (heap p ! f) = next_blk (heap qb ! f)"
proof -
  note facts = reached_facts [OF conjunct1 [OF r] conjunct1 [OF conjunct2 [OF r]] conjunct2 [OF conjunct2 [OF r]]]
  from facts(3) obtain vs fs where g: "rwq_ring qb vs fs" "put_knows (put_pc_of A) qb" by (auto simp: together_def)
  note d = rwq_ringD [OF g(1)]
  have fvs: "f \<in> set vs" using d(6) by (simp add: f_def)
  have last: "f \<in> set (butlast vs)" if "f \<noteq> tailBlock qb"
  proof -
    have "vs = butlast vs @ [tailBlock qb]" using d(3,5) by (metis append_butlast_last_id)
    with fvs that show ?thesis by (metis Un_iff empty_iff empty_set insert_iff list.set(2) set_append)
  qed
  let ?S = "seen A (pso_taker s) qb"
  have S: "?S = put_pending (elem_of A) (put_pc_of A) qb"
    using k by (cases k) (simp_all add: seen_def pso_taker_def)
  note see = put_pending_read [OF g fvs, of "elem_of A", folded S]
  note same = facts(4) [OF g(1), folded p_def]
  have len: "f < length (heap ?S)" using d(8) seen_longer [of qb A "pso_taker s"] by (simp add: f_def)
  have at: "front (heap p ! f) = front (heap ?S ! f)" "tail (heap p ! f) = tail (heap ?S ! f)"
    "f \<in> set (butlast vs) \<Longrightarrow> next_blk (heap p ! f) = next_blk (heap ?S ! f)" "f < length (heap p)"
    using same len fvs by (auto simp: same_take_def Let_def)
  from same have "frontBlock p = frontBlock ?S" "tailBlock p = tailBlock ?S" "length (heap ?S) \<le> length (heap p)"
    by (simp_all add: same_take_def)
  then show "frontBlock p = f" "tailBlock p = tailBlock qb" "length (heap qb) \<le> length (heap p)"
    using seen_reads(1,2) [OF facts(3)] seen_longer [of qb A "pso_taker s"] by (simp_all add: f_def)
  show "f < length (heap p)" "front (heap p ! f) = front (heap qb ! f)" "tail (heap p ! f) = tail (heap qb ! f)"
    using at see by simp_all
  show "next_blk (heap p ! f) = next_blk (heap qb ! f)" if "f \<noteq> tailBlock qb"
    using at(3) last [OF that] see(7) that by simp
qed

lemma put_sees_next:
  assumes r: "reached_pso A B q ts us qa qb s" and pc: "putting s = Some (c, PutNext)"
  defines "p \<equiv> put_sees s"
  shows "frontBlock p = frontBlock qa" "tailBlock p = tailBlock qa" "tailBlock qa < length (heap p)"
    "next_blk (heap p ! tailBlock qa) = next_blk (heap qa ! tailBlock qa)"
proof -
  note facts = reached_facts [OF conjunct1 [OF r] conjunct1 [OF conjunct2 [OF r]] conjunct2 [OF conjunct2 [OF r]]]
  from facts(1) obtain vs fs where g: "rwq_ring qa vs fs" by (auto simp: together_def)
  note d = rwq_ringD [OF g]
  let ?S = "seen (pso_putter s) B qa"
  have S: "?S = take_pending (take_pc_of B) qa" using pc by (cases c) (simp add: seen_def pso_putter_def)
  have "next_blk (heap ?S ! tailBlock qa) = next_blk (heap qa ! tailBlock qa)" "length (heap ?S) = length (heap qa)"
    unfolding S using d(8) by (cases "take_pc_of B"; simp add: heap_upd)+
  with facts(2) [folded p_def] seen_reads(1,2) [OF facts(1)] d(9) show
    "frontBlock p = frontBlock qa" "tailBlock p = tailBlock qa" "tailBlock qa < length (heap p)"
    "next_blk (heap p ! tailBlock qa) = next_blk (heap qa ! tailBlock qa)"
    by (auto simp: same_put_def Let_def)
qed

subsection \<open>A write is drained\<close>

text \<open>Any two writes of the two threads that are on their way can be made in either order.\<close>

lemma on_their_way:
  assumes r: "reached_pso A B q ts us qa qb s" and w: "w \<in> set (put_stores s)" and v: "v \<in> set (take_stores s)"
  shows "free v w (queue s)"
proof -
  from r have h: "together A B q" "moves put_go A q (map snd ts) (pso_putter s) qa"
    "moves take_go B q (map snd us) (pso_taker s) qb" "waiting ts = put_stores s" "waiting us = take_stores s"
    "queue s = fold perform_store (early us) (fold perform_store (early ts) (seen A B q))"
    by (simp_all add: ahead_pso.reached_def)
  have "w \<in> set (map snd ts)" by (rule subsetD [OF track_parts(2)]) (simp only: h(4) w)
  moreover have "v \<in> set (map snd us)" by (rule subsetD [OF track_parts(2)]) (simp only: h(5) v)
  note put_take_free(1) [OF h(1-3) calculation this]
  then show ?thesis unfolding h(6) by (intro ahead_pso.fold_free)
qed

lemma taker_kind:
  assumes "pso_inv s" "v \<in> set (take_stores s)"
  shows "\<exists>q. emptying (snd v) q"
proof -
  from assms(1) obtain A B q ts us qa qb where r: "reached_pso A B q ts us qa qb s" by (auto simp: pso_inv_def)
  then have h: "together A B q" "moves take_go B q (map snd us) (pso_taker s) qb" "waiting us = take_stores s"
    by (simp_all add: ahead_pso.reached_def)
  from assms(2) track_parts(2) [of us] h(3) have "(fst v, snd v) \<in> set (map snd us)" by auto
  from take_moves_writes [OF h(2,1) this] show ?thesis by blast
qed

lemma putter_kind:
  assumes "pso_inv s" "v \<in> set (put_stores s)"
  shows "\<exists>q. filling (snd v) q"
proof -
  from assms(1) obtain A B q ts us qa qb where r: "reached_pso A B q ts us qa qb s" by (auto simp: pso_inv_def)
  then have h: "together A B q" "moves put_go A q (map snd ts) (pso_putter s) qa" "waiting ts = put_stores s"
    by (simp_all add: ahead_pso.reached_def)
  from assms(2) track_parts(2) [of ts] h(3) have "(fst v, snd v) \<in> set (map snd ts)" by auto
  from put_moves_writes [OF h(2,1) this] show ?thesis by blast
qed

lemma put_drained:
  assumes inv: "pso_inv s" and may: "may_drain ws w" and stores: "put_stores s = ws @ w # vs"
  defines "s' \<equiv> s\<lparr>queue := perform_store w (queue s), put_stores := ws @ vs\<rparr>"
  shows "pso_inv s'" "put_sees s' = put_sees s" "take_sees s' = perform_store w (take_sees s)"
    "taking s = Some (c, k) \<Longrightarrow> \<forall>f x. k \<noteq> TakeFront f x \<Longrightarrow> stays (take_sees s) (take_sees s')"
proof -
  from inv obtain A B q ts us qa qb where r: "reached_pso A B q ts us qa qb s" by (auto simp: pso_inv_def)
  from r stores have R: "ahead_pso.reached A B q ts us (pso_putter s) (pso_taker s) qa qb (queue s)"
    "waiting ts = ws @ w # vs" by simp_all
  from ahead_pso.reached_drain_on [OF R may [unfolded may_drain_def]]
  obtain A1 q1 ts1 qa' qb' xs where d:
    "ahead_pso.reached A1 B q1 ts1 us (pso_putter s) (pso_taker s) qa' qb' (perform_store w (queue s))"
    "waiting ts1 = ws @ vs" "fold perform_store (ws @ vs) (perform_store w (queue s)) = fold perform_store (ws @ w # vs) (queue s)"
    "moves put_go A qb xs A1 qb'" by blast
  have r': "reached_pso A1 B q1 ts1 us qa' qb' s'"
    using d(1,2) r by (simp add: s'_def pso_putter_def pso_taker_def)
  then show "pso_inv s'" unfolding pso_inv_def by blast
  show "put_sees s' = put_sees s" using d(3) stores by (simp add: put_sees_def s'_def)
  have "\<forall>v\<in>set (take_stores s). free v w (queue s)" using on_their_way [OF r] stores by simp
  from ahead_pso.fold_pass [OF this] show "take_sees s' = perform_store w (take_sees s)"
    by (simp add: take_sees_def s'_def)
  show "stays (take_sees s) (take_sees s')" if k: "taking s = Some (c, k)" "\<forall>f x. k \<noteq> TakeFront f x"
  proof -
    have k': "taking s' = Some (c, k)" using k(1) by (simp add: s'_def)
    have "together A (pso_taker s) qb" using r by (intro reached_facts(3)) auto
    with put_moves_stay [OF d(4)] have "stays qb qb'" .
    with take_sees_front [OF r k] take_sees_front [OF r' k' k(2)] show ?thesis
      by (auto simp: stays_def Let_def)
  qed
qed

lemma take_drained:
  assumes inv: "pso_inv s" and may: "may_drain ws w" and stores: "take_stores s = ws @ w # vs"
  defines "s' \<equiv> s\<lparr>queue := perform_store w (queue s), take_stores := ws @ vs\<rparr>"
  shows "pso_inv s'" "take_sees s' = take_sees s" "put_sees s' = perform_store w (put_sees s)"
    "putting s = Some (c, PutNext) \<Longrightarrow> stays_free (put_sees s) (put_sees s')"
proof -
  from inv obtain A B q ts us qa qb where r: "reached_pso A B q ts us qa qb s" by (auto simp: pso_inv_def)
  from r stores have R: "behind_pso.reached B A q us ts (pso_taker s) (pso_putter s) qb qa (queue s)"
    "waiting us = ws @ w # vs" by (simp_all add: reached_swap)
  from behind_pso.reached_drain_on [OF R may [unfolded may_drain_def]]
  obtain B1 q1 us1 qb' qa' xs where d:
    "behind_pso.reached B1 A q1 us1 ts (pso_taker s) (pso_putter s) qb' qa' (perform_store w (queue s))"
    "waiting us1 = ws @ vs" "fold perform_store (ws @ vs) (perform_store w (queue s)) = fold perform_store (ws @ w # vs) (queue s)"
    "moves take_go B qa xs B1 qa'" by blast
  have r': "reached_pso A B1 q1 ts us1 qa' qb' s'"
    using d(1,2) r by (simp add: s'_def pso_putter_def pso_taker_def reached_swap)
  then show "pso_inv s'" unfolding pso_inv_def by blast
  show "take_sees s' = take_sees s" using d(3) stores by (simp add: take_sees_def s'_def)
  have "\<forall>v\<in>set [w]. \<forall>u\<in>set (put_stores s). free v u (queue s)" using on_their_way [OF r] stores by simp
  from ahead_pso.fold_swap [OF this] show "put_sees s' = perform_store w (put_sees s)"
    by (simp add: put_sees_def s'_def)
  show "stays_free (put_sees s) (put_sees s')" if pc: "putting s = Some (c, PutNext)"
  proof -
    have pc': "putting s' = Some (c, PutNext)" using pc by (simp add: s'_def)
    have "together (pso_putter s) B qa" using r by (intro reached_facts(1)) auto
    with take_moves_stay [OF d(4)] have f: "tailBlock qa' = tailBlock qa"
      "next_blk (heap qa' ! tailBlock qa) = next_blk (heap qa ! tailBlock qa)"
      "\<forall>n. next_blk (heap qa ! tailBlock qa) = Some n \<and> n \<noteq> frontBlock qa \<longrightarrow> n \<noteq> frontBlock qa'"
      by (simp_all add: stays_free_def)
    note a = put_sees_next [OF r pc] and b = put_sees_next [OF r' pc']
    show ?thesis unfolding stays_free_def a(1,2) b(1,2)
      using f a(4) b(4) [unfolded f(1)] by simp
  qed
qed

text \<open>Some writes leave a buffer, one after the other; the rest stay.\<close>

inductive leave :: "'a store list \<Rightarrow> 'a store list \<Rightarrow> 'a store list \<Rightarrow> bool" where
  None_leaves: "leave ss [] ss"
| One_leaves: "may_drain us w \<Longrightarrow> leave (us @ vs) ws rest \<Longrightarrow> leave (us @ w # vs) (w # ws) rest"

lemma leave_next: "leave ss ws (us @ w # vs) \<Longrightarrow> may_drain us w \<Longrightarrow> leave ss (ws @ [w]) (us @ vs)"
proof (induction ss ws "us @ w # vs" rule: leave.induct)
  case None_leaves
  from One_leaves [OF None_leaves leave.None_leaves] show ?case by simp
next
  case (One_leaves us' w' vs' ws)
  then show ?case by (simp add: leave.One_leaves)
qed

lemma leave_more: "leave ss ws rest \<Longrightarrow> leave (ss @ xs) ws (rest @ xs)"
proof (induction rule: leave.induct)
  case (One_leaves us w vs ws rest)
  then show ?case using leave.One_leaves [of us w "vs @ xs" ws "rest @ xs"] by simp
qed (rule leave.None_leaves)

lemma leave_in: "leave ss ws rest \<Longrightarrow> set ws \<subseteq> set ss \<and> set rest \<subseteq> set ss"
  by (induction rule: leave.induct) auto

text \<open>The consumer learns of writes of the producer: they are drained.\<close>

lemma take_learns:
  assumes "pso_inv s" "leave (put_stores s) (ws @ ws') rest"
  shows "\<exists>q ss. let s' = s\<lparr>queue := q, put_stores := ss\<rparr> in pso_inv s' \<and> leave ss ws' rest \<and>
    put_sees s' = put_sees s \<and> take_sees s' = fold perform_store ws (take_sees s) \<and>
    (\<forall>c k. taking s = Some (c, k) \<and> (\<forall>f x. k \<noteq> TakeFront f x) \<longrightarrow> stays (take_sees s) (take_sees s'))"
  using assms
proof (induction ws arbitrary: s)
  case Nil
  then show ?case
    by (intro exI [of _ "queue s"] exI [of _ "put_stores s"]) (simp add: stays_refl)
next
  case (Cons w ws)
  from Cons.prems(2) obtain us vs where d: "put_stores s = us @ w # vs" "may_drain us w" "leave (us @ vs) (ws @ ws') rest"
    by (cases rule: leave.cases) auto
  define s1 where "s1 = s\<lparr>queue := perform_store w (queue s), put_stores := us @ vs\<rparr>"
  note h = put_drained [OF Cons.prems(1) d(2,1), folded s1_def]
  from Cons.IH [of s1] h(1) d(3) obtain q ss where
    "let s' = s1\<lparr>queue := q, put_stores := ss\<rparr> in pso_inv s' \<and> leave ss ws' rest \<and>
    put_sees s' = put_sees s1 \<and> take_sees s' = fold perform_store ws (take_sees s1) \<and>
    (\<forall>c k. taking s1 = Some (c, k) \<and> (\<forall>f x. k \<noteq> TakeFront f x) \<longrightarrow> stays (take_sees s1) (take_sees s'))"
    by (auto simp: s1_def)
  moreover have "s1\<lparr>queue := q, put_stores := ss\<rparr> = s\<lparr>queue := q, put_stores := ss\<rparr>" "taking s1 = taking s"
    by (simp_all add: s1_def)
  ultimately show ?case using h(2-4)
    by (intro exI [of _ q] exI [of _ ss]) (auto simp: Let_def intro: stays_trans)
qed

lemma put_learns:
  assumes "pso_inv s" "leave (take_stores s) (ws @ ws') rest"
  shows "\<exists>q ss. let s' = s\<lparr>queue := q, take_stores := ss\<rparr> in pso_inv s' \<and> leave ss ws' rest \<and>
    take_sees s' = take_sees s \<and> put_sees s' = fold perform_store ws (put_sees s) \<and>
    (\<forall>c. putting s = Some (c, PutNext) \<longrightarrow> stays_free (put_sees s) (put_sees s'))"
  using assms
proof (induction ws arbitrary: s)
  case Nil
  then show ?case
    by (intro exI [of _ "queue s"] exI [of _ "take_stores s"]) (simp add: stays_free_def)
next
  case (Cons w ws)
  from Cons.prems(2) obtain us vs where d: "take_stores s = us @ w # vs" "may_drain us w" "leave (us @ vs) (ws @ ws') rest"
    by (cases rule: leave.cases) auto
  define s1 where "s1 = s\<lparr>queue := perform_store w (queue s), take_stores := us @ vs\<rparr>"
  note h = take_drained [OF Cons.prems(1) d(2,1), folded s1_def]
  from Cons.IH [of s1] h(1) d(3) obtain q ss where
    "let s' = s1\<lparr>queue := q, take_stores := ss\<rparr> in pso_inv s' \<and> leave ss ws' rest \<and>
    take_sees s' = take_sees s1 \<and> put_sees s' = fold perform_store ws (put_sees s1) \<and>
    (\<forall>c. putting s1 = Some (c, PutNext) \<longrightarrow> stays_free (put_sees s1) (put_sees s'))"
    by (auto simp: s1_def)
  moreover have "s1\<lparr>queue := q, take_stores := ss\<rparr> = s\<lparr>queue := q, take_stores := ss\<rparr>" "putting s1 = putting s"
    by (simp_all add: s1_def)
  moreover have "stays_free p p' \<Longrightarrow> stays_free p' p'' \<Longrightarrow> stays_free p p''" for p p' p'' :: "'a rwq"
    by (auto simp: stays_free_def)
  ultimately show ?case using h(2-4)
    by (intro exI [of _ q] exI [of _ ss]) (auto simp: Let_def)
qed

subsection \<open>Loads that do not depend on what has arrived\<close>

text \<open>The variables of its own that the producer looks at.\<close>

definition own_puts :: "'a rwq \<Rightarrow> 'a rwq \<Rightarrow> bool" where
  "own_puts p p' \<longleftrightarrow> tailBlock p' = tailBlock p \<and> largestBlockSize p' = largestBlockSize p \<and>
     length (heap p') = length (heap p) \<and>
     (\<forall>a < length (heap p). let b = heap p ! a; b' = heap p' ! a in
       tail b' = tail b \<and> localFront b' = localFront b \<and> sizeMask b' = sizeMask b \<and>
       next_blk b' = next_blk b \<and> length (cells b') = length (cells b))"

lemma own_puts_kept:
  assumes "own_puts p p'" "emptying v q"
  shows "own_puts p (do_write v p')"
proof -
  have "own_puts p (upd a f p')"
    if "\<And>b. tail (f b) = tail b \<and> localFront (f b) = localFront b \<and>
      sizeMask (f b) = sizeMask b \<and> next_blk (f b) = next_blk b \<and> length (cells (f b)) = length (cells b)" for a f
    using assms(1) that by (cases "a < length (heap p')") (auto simp: own_puts_def heap_upd upd_beyond Let_def)
  then show ?thesis using assms by (cases v) (auto simp: own_puts_def)
qed

lemma own_puts_fold:
  "\<forall>v\<in>set vs. \<exists>q. emptying (snd v) q \<Longrightarrow> own_puts p (fold perform_store vs p)"
proof -
  have "own_puts p p' \<Longrightarrow> own_puts p (fold perform_store vs p')" if "\<forall>v\<in>set vs. \<exists>q. emptying (snd v) q" for p'
    using that by (induction vs arbitrary: p') (auto simp: perform_store_def intro: own_puts_kept)
  moreover have "own_puts p p" by (simp add: own_puts_def Let_def)
  ultimately show "\<forall>v\<in>set vs. \<exists>q. emptying (snd v) q \<Longrightarrow> own_puts p (fold perform_store vs p)" by blast
qed

lemma put_at_own:
  assumes "own_puts p p'" "put_at (m, mem, x) pc p = Inr (r, p1)"
    "\<forall>t t' n. pc \<noteq> PutFront t t' \<and> pc \<noteq> NextFront n \<and> pc \<noteq> PutNext"
  shows "(\<exists>p2. put_at (m, mem, x) pc p' = Inr (r, p2)) \<and> put_write (m, mem, x) pc p' = put_write (m, mem, x) pc p"
  using assms
  by (cases pc)
    (auto simp: own_puts_def deref_def bindE_eq_Inr Let_def construct_def follow_def assertE_def
      split: if_splits alloc_mode.splits option.splits)

lemma put_at_fenced:
  "put_at c (PutFront t t') p = Inr (r, p1) \<Longrightarrow> \<exists>pc. r = Inl pc \<and> put_acquires pc"
  "put_at c (NextFront n) p = Inr (r, p1) \<Longrightarrow> \<exists>pc. r = Inl pc \<and> put_acquires pc"
  by (auto simp: bindE_eq_Inr Let_def split: if_splits)

text \<open>
  A step of the producer that sees more: there is an acquire fence after it, or it would have done the
  same without.
\<close>

lemma put_sees_more:
  assumes now: "put_at (m, mem, x) pc p = Inr (r0, p0)" and more: "put_at (m, mem, x) pc p' = Inr (r, p1)"
    and own: "own_puts p p'" and free: "pc = PutNext \<Longrightarrow> stays_free p p'"
  shows "(\<exists>pc. r = Inl pc \<and> put_acquires pc) \<or>
    r0 = r \<and> put_write (m, mem, x) pc p' = put_write (m, mem, x) pc p"
proof (cases pc)
  case PutNext
  show ?thesis
  proof (cases "next_blk (heap p ! tailBlock p) = Some (frontBlock p)")
    case True
    with now more PutNext show ?thesis
      by (cases m) (auto simp: deref_def bindE_eq_Inr follow_def split: if_splits option.splits)
  next
    case False
    with now PutNext obtain n where n: "next_blk (heap p ! tailBlock p) = Some n" "n \<noteq> frontBlock p"
      by (auto simp: deref_def bindE_eq_Inr follow_def split: if_splits option.splits)
    with free [OF PutNext] have "next_blk (heap p' ! tailBlock p') = Some n" "n \<noteq> frontBlock p'"
      by (auto simp: stays_free_def)
    with more PutNext show ?thesis by (auto simp: deref_def bindE_eq_Inr follow_def split: if_splits)
  qed
next
  case (PutFront t t')
  with put_at_fenced(1) more show ?thesis by blast
next
  case (NextFront n)
  with put_at_fenced(2) more show ?thesis by blast
qed (use put_at_own [OF own now] more in auto)

text \<open>The same for the consumer.\<close>

definition own_takes :: "'a rwq \<Rightarrow> 'a rwq \<Rightarrow> bool" where
  "own_takes p p' \<longleftrightarrow> frontBlock p' = frontBlock p \<and> length (heap p) \<le> length (heap p') \<and>
     (\<forall>a < length (heap p). let b = heap p ! a; b' = heap p' ! a in
       front b' = front b \<and> localTail b' = localTail b \<and> sizeMask b' = sizeMask b)"

lemma own_takes_kept:
  assumes "own_takes p p'" "filling v q"
  shows "own_takes p (do_write v p')"
proof -
  have "own_takes p (upd a f p')"
    if "\<And>b. front (f b) = front b \<and> localTail (f b) = localTail b \<and> sizeMask (f b) = sizeMask b" for a f
    using assms(1) that by (cases "a < length (heap p')") (auto simp: own_takes_def heap_upd upd_beyond Let_def)
  note upd = this
  show ?thesis
  proof (cases v)
    case (ToNewBlock b s)
    with assms(1) show ?thesis by (auto simp: own_takes_def nth_append Let_def)
  qed (use assms upd in \<open>auto simp: own_takes_def\<close>)
qed

lemma own_takes_fold:
  "\<forall>v\<in>set vs. \<exists>q. filling (snd v) q \<Longrightarrow> own_takes p (fold perform_store vs p)"
proof -
  have "own_takes p p' \<Longrightarrow> own_takes p (fold perform_store vs p')" if "\<forall>v\<in>set vs. \<exists>q. filling (snd v) q" for p'
    using that by (induction vs arbitrary: p') (auto simp: perform_store_def intro: own_takes_kept)
  moreover have "own_takes p p" by (simp add: own_takes_def Let_def)
  ultimately show "\<forall>v\<in>set vs. \<exists>q. filling (snd v) q \<Longrightarrow> own_takes p (fold perform_store vs p)" by blast
qed

lemma take_sees_more:
  assumes now: "take_at c k p = Inr (r0, p0)" and more: "take_at c k p' = Inr (r, p1)"
    and own: "own_takes p p'" and stays: "\<forall>f x. k \<noteq> TakeFront f x \<Longrightarrow> stays p p'"
    and ahead: "k = AheadNext \<Longrightarrow> frontBlock p \<noteq> tailBlock p"
    and val: "\<And>x y. r0 = Inr (Some x) \<Longrightarrow> r = Inr (Some y) \<Longrightarrow> x = y"
      "\<And>f x g y. r0 = Inl (TakeFront f x) \<Longrightarrow> r = Inl (TakeFront g y) \<Longrightarrow> x = y"
  shows "(\<exists>k. r = Inl k \<and> take_acquires k) \<or> r0 = r \<and> take_write c k p' = take_write c k p"
proof -
  have fb: "frontBlock p' = frontBlock p" using own by (simp add: own_takes_def)
  have at: "front (heap p' ! frontBlock p) = front (heap p ! frontBlock p) \<and>
      localTail (heap p' ! frontBlock p) = localTail (heap p ! frontBlock p) \<and>
      sizeMask (heap p' ! frontBlock p) = sizeMask (heap p ! frontBlock p)" if "frontBlock p < length (heap p)"
    using own that by (auto simp: own_takes_def Let_def)
  show ?thesis
  proof (cases k)
    case TakeEnter
    with now more fb at show ?thesis by (auto simp: deref_def bindE_eq_Inr Let_def split: if_splits)
  next
    case TakeTail
    then have "stays p p'" by (intro stays) simp
    then have "front (heap p' ! frontBlock p) = front (heap p ! frontBlock p)"
      "front (heap p ! frontBlock p) \<noteq> tail (heap p ! frontBlock p) \<longrightarrow>
        front (heap p' ! frontBlock p) \<noteq> tail (heap p' ! frontBlock p)" unfolding stays_def Let_def by blast+
    with TakeTail now more fb show ?thesis by (auto simp: deref_def bindE_eq_Inr Let_def split: if_splits)
  next
    case TakeBlock
    then have "stays p p'" by (intro stays) simp
    then have "frontBlock p \<noteq> tailBlock p \<longrightarrow> frontBlock p \<noteq> tailBlock p'" by (simp add: stays_def Let_def)
    with TakeBlock now more fb show ?thesis by (auto split: if_splits)
  next
    case TakeAgain
    with more show ?thesis by (auto simp: bindE_eq_Inr Let_def split: if_splits)
  next
    case AheadNext
    then have "stays p p'" by (intro stays) simp
    with ahead [OF AheadNext] have "next_blk (heap p' ! frontBlock p) = next_blk (heap p ! frontBlock p)"
      by (simp add: stays_def Let_def)
    with AheadNext now more fb show ?thesis by (auto simp: deref_def bindE_eq_Inr split: if_splits)
  next
    case (AheadTail n)
    with now more show ?thesis by (auto simp: bindE_eq_Inr Let_def split: if_splits)
  next
    case (AheadBlock n)
    with more show ?thesis by (auto simp: bindE_eq_Inr)
  next
    case (AheadPeek n)
    with now more val(1) show ?thesis by (auto simp: bindE_eq_Inr)
  next
    case (TakeCell f)
    with now more val fb show ?thesis by (cases "c = PeekCall") (auto simp: bindE_eq_Inr)
  next
    case (TakeFront f x)
    with now more fb at show ?thesis by (auto simp: deref_def bindE_eq_Inr split: if_splits)
  qed
qed

text \<open>What a thread writes right before an acquire fence can be exchanged with what has arrived.\<close>

lemma put_write_fenced:
  fixes f :: bool
  assumes now: "put_at (m, mem, x) pc p = Inr (r0, p0)" and more: "put_at (m, mem, x) pc p' = Inr (Inl pc', p1)"
    and fence: "put_acquires pc'" and own: "own_puts p p'" and us: "\<forall>u\<in>set us. \<exists>q. emptying (snd u) q"
  defines "ws \<equiv> map (Pair f) (put_write (m, mem, x) pc p')"
  shows "fold perform_store us (fold perform_store ws p) = fold perform_store ws (fold perform_store us p)"
proof -
  have tb: "tailBlock p' = tailBlock p" using own by (simp add: own_puts_def)
  have ws: "\<exists>a y. v = (f, ToLocalFront a y) \<and> a < length (heap p)" if "v \<in> set ws" for v
  proof (cases "(\<exists>t t'. pc = PutFront t t') \<or> (\<exists>n. pc = NextFront n)")
    case True
    with that now tb show ?thesis unfolding ws_def
      by (auto simp: deref_def bindE_eq_Inr Let_def split: if_splits)
  next
    case False
    with more fence have "put_write (m, mem, x) pc p' = []"
      by (cases pc; cases m) (auto simp: bindE_eq_Inr Let_def split: if_splits)
    with that show ?thesis by (simp add: ws_def)
  qed
  have "place_of u \<noteq> LocalFrontAt a" if "emptying u q" for u a and q :: "'a rwq" using that by (cases u) auto
  note kind = this
  have "free v u p" if "v \<in> set ws" "u \<in> set us" for v u
    using ws [OF that(1)] bspec [OF us that(2)] kind by (auto simp: free_def within_def)
  then have "\<forall>v\<in>set ws. \<forall>u\<in>set us. free v u p" by blast
  then show ?thesis by (rule ahead_pso.fold_swap)
qed

lemma take_write_fenced:
  fixes f :: bool
  assumes now: "take_at c k p = Inr (r0, p0)" and more: "take_at c k p' = Inr (Inl k', p1)"
    and fence: "take_acquires k'" and own: "own_takes p p'" and us: "\<forall>u\<in>set us. \<exists>q. filling (snd u) q"
  defines "ws \<equiv> map (Pair f) (take_write c k p')"
  shows "fold perform_store us (fold perform_store ws p) = fold perform_store ws (fold perform_store us p)"
proof -
  have fb: "frontBlock p' = frontBlock p" using own by (simp add: own_takes_def)
  have ws: "(\<exists>a y. v = (f, ToLocalTail a y) \<and> a < length (heap p)) \<or> (\<exists>n. v = (f, ToFrontBlock n))" if "v \<in> set ws" for v
    using that now more fence fb unfolding ws_def
    by (cases k) (auto simp: deref_def bindE_eq_Inr Let_def split: if_splits)
  have "place_of u \<noteq> LocalTailAt a \<and> place_of u \<noteq> FrontBlockAt" if "filling u q" for u a and q :: "'a rwq"
    using that by (cases u) auto
  note kind = this
  have "free v u p" if "v \<in> set ws" "u \<in> set us" for v u
    using ws [OF that(1)] bspec [OF us that(2)] kind by (auto simp: free_def within_def)
  then have "\<forall>v\<in>set ws. \<forall>u\<in>set us. free v u p" by blast
  then show ?thesis by (rule ahead_pso.fold_swap)
qed

end
