(* ===== verification/Rw_Rmo_Correct.thy ===== *)
theory Rw_Rmo_Correct
  imports Rw_Rmo_Loads
begin

text \<open>
  The queue between two threads whose loads and writes are reordered. A state is compared with one of
  \<open>Rw_Pso\<close>, in which a write reaches the memory when the other thread is bound to see it. A load that
  sees more, and after which an acquire fence follows, is one of a state in which more has been
  drained. The other loads do not depend on how much they see, by the lemmas of \<open>Rw_Rmo_Loads\<close>.
\<close>

subsection \<open>The invariant\<close>

definition follows :: "'a pso \<Rightarrow> 'a rmo \<Rightarrow> bool" where
  "follows v s \<longleftrightarrow> putting v = putting s \<and> taking v = taking s \<and> entered v = entered s \<and> departed v = departed s \<and>
     entered_before v = entered_before s \<and> put_sees v = put_memory s \<and> take_sees v = queue s \<and>
     leave (put_stores v) (take_arrived s) (put_stores s) \<and> leave (take_stores v) (put_arrived s) (take_stores s) \<and>
     put_read s \<le> length (put_arrived s) \<and> take_read s \<le> length (take_arrived s)"

definition rmo_inv :: "'a rmo \<Rightarrow> bool" where
  "rmo_inv s \<longleftrightarrow> (\<exists>v. pso_inv v \<and> follows v s)"

text \<open>What the producer learns, in a state that is followed.\<close>

lemma put_learns_more:
  assumes inv: "pso_inv v" and fol: "follows v s" and n: "n \<le> length (put_arrived s)"
  obtains v1 q1 ss1 where "v1 = v\<lparr>queue := q1, take_stores := ss1\<rparr>" "pso_inv v1"
    "leave ss1 (drop n (put_arrived s)) (take_stores s)" "take_sees v1 = queue s" "put_sees v1 = put_loads n s"
    "\<forall>c. putting s = Some (c, PutNext) \<longrightarrow> stays_free (put_memory s) (put_loads n s)"
    "own_puts (put_memory s) (put_loads n s)" "\<forall>u\<in>set (put_arrived s). \<exists>q. emptying (snd u) q"
proof -
  from fol have f: "leave (take_stores v) (take n (put_arrived s) @ drop n (put_arrived s)) (take_stores s)"
    "put_sees v = put_memory s" "take_sees v = queue s" "putting v = putting s"
    "leave (take_stores v) (put_arrived s) (take_stores s)" by (simp_all add: follows_def)
  from put_learns [OF inv f(1)] obtain q ss where l:
    "pso_inv (v\<lparr>queue := q, take_stores := ss\<rparr>)" "leave ss (drop n (put_arrived s)) (take_stores s)"
    "take_sees (v\<lparr>queue := q, take_stores := ss\<rparr>) = take_sees v"
    "put_sees (v\<lparr>queue := q, take_stores := ss\<rparr>) = fold perform_store (take n (put_arrived s)) (put_sees v)"
    "\<forall>c. putting v = Some (c, PutNext) \<longrightarrow> stays_free (put_sees v) (put_sees (v\<lparr>queue := q, take_stores := ss\<rparr>))"
    unfolding Let_def by blast
  from leave_in [OF f(5)] taker_kind [OF inv] have k: "\<forall>u\<in>set (put_arrived s). \<exists>q. emptying (snd u) q" by blast
  then have "own_puts (put_memory s) (put_loads n s)"
    unfolding put_loads_def by (intro own_puts_fold) (auto dest: in_set_takeD)
  moreover have st: "\<forall>c. putting s = Some (c, PutNext) \<longrightarrow> stays_free (put_memory s) (put_loads n s)"
    using l(4,5) f(2,4) unfolding put_loads_def by metis
  ultimately show thesis using l(3,4) k by (intro that [OF refl l(1,2)]) (simp_all only: f put_loads_def)
qed

lemma take_learns_more:
  assumes inv: "pso_inv v" and fol: "follows v s" and n: "n \<le> length (take_arrived s)"
  obtains v1 q1 ss1 where "v1 = v\<lparr>queue := q1, put_stores := ss1\<rparr>" "pso_inv v1"
    "leave ss1 (drop n (take_arrived s)) (put_stores s)" "put_sees v1 = put_memory s" "take_sees v1 = take_loads n s"
    "\<forall>c k. taking s = Some (c, k) \<and> (\<forall>f x. k \<noteq> TakeFront f x) \<longrightarrow> stays (queue s) (take_loads n s)"
    "own_takes (queue s) (take_loads n s)" "\<forall>u\<in>set (take_arrived s). \<exists>q. filling (snd u) q"
proof -
  from fol have f: "leave (put_stores v) (take n (take_arrived s) @ drop n (take_arrived s)) (put_stores s)"
    "put_sees v = put_memory s" "take_sees v = queue s" "taking v = taking s"
    "leave (put_stores v) (take_arrived s) (put_stores s)" by (simp_all add: follows_def)
  from take_learns [OF inv f(1)] obtain q ss where l:
    "pso_inv (v\<lparr>queue := q, put_stores := ss\<rparr>)" "leave ss (drop n (take_arrived s)) (put_stores s)"
    "put_sees (v\<lparr>queue := q, put_stores := ss\<rparr>) = put_sees v"
    "take_sees (v\<lparr>queue := q, put_stores := ss\<rparr>) = fold perform_store (take n (take_arrived s)) (take_sees v)"
    "\<forall>c k. taking v = Some (c, k) \<and> (\<forall>f x. k \<noteq> TakeFront f x) \<longrightarrow>
      stays (take_sees v) (take_sees (v\<lparr>queue := q, put_stores := ss\<rparr>))"
    unfolding Let_def by blast
  from leave_in [OF f(5)] putter_kind [OF inv] have k: "\<forall>u\<in>set (take_arrived s). \<exists>q. filling (snd u) q" by blast
  then have "own_takes (queue s) (take_loads n s)"
    unfolding take_loads_def by (intro own_takes_fold) (auto dest: in_set_takeD)
  moreover have st: "\<forall>c k. taking s = Some (c, k) \<and> (\<forall>f x. k \<noteq> TakeFront f x) \<longrightarrow> stays (queue s) (take_loads n s)"
    using l(4,5) f(3,4) unfolding take_loads_def by metis
  ultimately show thesis using l(3,4) k
    by (intro that [OF refl l(1,2)]) (simp_all only: f take_loads_def simp_thms)
qed

subsection \<open>The steps\<close>

text \<open>The state after a step in \<open>Rw_Pso\<close>, by the outcome and the writes.\<close>

definition put_ran :: "'a put_call \<Rightarrow> put_pc + bool \<Rightarrow> 'a store list \<Rightarrow> 'a pso \<Rightarrow> 'a pso" where
  "put_ran c r ws s = (let s = s\<lparr>put_stores := put_stores s @ ws\<rparr> in case r of
     Inl pc \<Rightarrow> s\<lparr>putting := Some (c, pc)\<rparr>
   | Inr ok \<Rightarrow> s\<lparr>putting := None, entered := entered s @ (if ok then [snd (snd c)] else [])\<rparr>)"

definition take_ran :: "take_call \<Rightarrow> 'a take_pc + 'a option \<Rightarrow> 'a store list \<Rightarrow> 'a pso \<Rightarrow> 'a pso" where
  "take_ran c r ws s = (let s = s\<lparr>take_stores := take_stores s @ ws\<rparr> in case r of
     Inl k \<Rightarrow> s\<lparr>taking := Some (c, k)\<rparr>
   | Inr x \<Rightarrow> s\<lparr>taking := None, departed := departed s @ (if c = PeekCall then [] else case_option [] (\<lambda>x. [x]) x)\<rparr>)"

lemma put_ran_simps [simp]:
  "queue (put_ran c r ws s) = queue s" "taking (put_ran c r ws s) = taking s" "departed (put_ran c r ws s) = departed s"
  "entered_before (put_ran c r ws s) = entered_before s" "put_stores (put_ran c r ws s) = put_stores s @ ws"
  "take_stores (put_ran c r ws s) = take_stores s" "take_sees (put_ran c r ws s) = take_sees s"
  "put_sees (put_ran c r ws s) = fold perform_store ws (put_sees s)"
  by (cases r; simp add: put_ran_def take_sees_def put_sees_def Let_def)+

lemma take_ran_simps [simp]:
  "queue (take_ran c r ws s) = queue s" "putting (take_ran c r ws s) = putting s" "entered (take_ran c r ws s) = entered s"
  "entered_before (take_ran c r ws s) = entered_before s" "take_stores (take_ran c r ws s) = take_stores s @ ws"
  "put_stores (take_ran c r ws s) = put_stores s" "put_sees (take_ran c r ws s) = put_sees s"
  "take_sees (take_ran c r ws s) = fold perform_store ws (take_sees s)"
  by (cases r; simp add: take_ran_def take_sees_def put_sees_def Let_def)+

lemma put_runs:
  assumes "pso_inv s" "putting s = Some (c, pc)"
  shows "\<exists>r q'. put_at c pc (put_sees s) = Inr (r, q') \<and>
    pso_inv (put_ran c r (map (Pair (put_releases pc)) (put_write c pc (put_sees s))) s)"
  using pso_put_inv [OF assms(1)] assms(2)
  by (auto simp: pso_put_def put_ran_def bindE_eq_Inr Let_def)

lemma take_runs:
  assumes "pso_inv s" "taking s = Some (c, k)"
  shows "\<exists>r q'. take_at c k (take_sees s) = Inr (r, q') \<and>
    pso_inv (take_ran c r (map (Pair (take_releases k)) (take_write c k (take_sees s))) s)"
  using pso_take_inv(1) [OF assms] assms(2)
  by (auto simp: pso_take_def take_ran_def bindE_eq_Inr Let_def)

text \<open>The rest of what a thread is bound to see at a fence, after what the last load has seen.\<close>

lemma take_max: "take n xs @ drop n (take (max m n) xs) = take (max m n) xs"
proof -
  have "take n (take (max m n) xs) = take n xs" by (simp add: min_def)
  then show ?thesis by (metis append_take_drop_id)
qed

lemma drop_max: "n \<le> length xs \<Longrightarrow> drop n xs = drop n (take (max m n) xs) @ drop (max m n) xs"
proof -
  assume n: "n \<le> length xs"
  have "drop n (take (max m n) xs @ drop (max m n) xs) = drop n (take (max m n) xs) @ drop (max m n) xs"
    using n by (simp only: drop_append) simp
  then show ?thesis by simp
qed

lemma rmo_put_follows:
  assumes inv: "pso_inv v" and fol: "follows v s" and n: "n \<le> length (put_arrived s)"
  shows "\<exists>s' v'. rmo_put n s = Inr s' \<and> pso_inv v' \<and> follows v' s'"
proof (cases "putting s")
  case None
  with inv fol show ?thesis by (auto simp: rmo_put_def)
next
  case (Some a)
  then obtain m mem x pc where p: "putting s = Some ((m, mem, x), pc)" by (metis prod_cases3 surj_pair)
  let ?c = "(m, mem, x)"
  from fol have f: "putting v = putting s" "put_sees v = put_memory s" "leave (put_stores v) (take_arrived s) (put_stores s)"
    by (simp_all add: follows_def)
  obtain v1 q1 ss1 where l: "v1 = v\<lparr>queue := q1, take_stores := ss1\<rparr>" "pso_inv v1"
    "leave ss1 (drop n (put_arrived s)) (take_stores s)" "take_sees v1 = queue s" "put_sees v1 = put_loads n s"
    "\<forall>c. putting s = Some (c, PutNext) \<longrightarrow> stays_free (put_memory s) (put_loads n s)"
    "own_puts (put_memory s) (put_loads n s)" "\<forall>u\<in>set (put_arrived s). \<exists>q. emptying (snd u) q"
    by (rule put_learns_more [OF inv fol n]) (rule that; assumption)
  define ws where "ws = map (Pair (put_releases pc)) (put_write ?c pc (put_loads n s))"
  have pv: "putting v = Some (?c, pc)" "putting v1 = Some (?c, pc)" using p f(1) l(1) by simp_all
  let ?ws = "\<lambda>p. map (Pair (put_releases pc)) (put_write ?c pc p)"
  from put_runs [OF inv pv(1)] f(2) obtain r0 p0 where r0: "put_at ?c pc (put_memory s) = Inr (r0, p0)"
    "pso_inv (put_ran ?c r0 (?ws (put_memory s)) v)" by auto
  from put_runs [OF l(2) pv(2)] l(5) obtain r p1 where r: "put_at ?c pc (put_loads n s) = Inr (r, p1)"
    "pso_inv (put_ran ?c r ws v1)" by (auto simp: ws_def)
  define s1 where "s1 = s\<lparr>put_stores := put_stores s @ ws, put_memory := fold perform_store ws (put_memory s),
    put_read := max (put_read s) n\<rparr>"
  define s' where "s' = (case r of Inl pc \<Rightarrow> (if put_acquires pc then put_acquire s1 else s1)\<lparr>putting := Some (?c, pc)\<rparr>
    | Inr ok \<Rightarrow> s1\<lparr>putting := None, entered := entered s1 @ (if ok then [x] else [])\<rparr>)"
  have step: "rmo_put n s = Inr s'"
    by (cases r) (simp_all add: rmo_put_def p r(1) s'_def s1_def ws_def Let_def)
  have own: "(\<exists>pc. r = Inl pc \<and> put_acquires pc) \<or>
    r0 = r \<and> put_write ?c pc (put_loads n s) = put_write ?c pc (put_memory s)"
    by (rule put_sees_more [OF r0(1) r(1) l(7)]) (use l(6) p in simp)
  show ?thesis
  proof (cases "\<exists>pc'. r = Inl pc' \<and> put_acquires pc'")
    case False
    with own r0(2) have v': "pso_inv (put_ran ?c r ws v)" by (auto simp: ws_def)
    have "s' = (case r of Inl pc \<Rightarrow> s1\<lparr>putting := Some (?c, pc)\<rparr>
        | Inr ok \<Rightarrow> s1\<lparr>putting := None, entered := entered s1 @ (if ok then [x] else [])\<rparr>)"
      using False by (cases r) (simp_all add: s'_def)
    with fol leave_more [OF f(3), of ws] n have "follows (put_ran ?c r ws v) s'"
      by (cases r) (simp_all add: follows_def s1_def, simp_all add: put_ran_def)
    with step v' show ?thesis by blast
  next
    case True
    then obtain pc' where pc': "r = Inl pc'" "put_acquires pc'" by blast
    let ?v1 = "put_ran ?c r ws v1"
    let ?N = "max (put_read s) n"
    have "leave (take_stores ?v1) (drop n (take ?N (put_arrived s)) @ drop ?N (put_arrived s)) (take_stores s)"
      using l(1,3) drop_max [OF n, of "put_read s"] by simp
    from put_learns [OF r(2) this] obtain q2 ss2 where l2: "pso_inv (?v1\<lparr>queue := q2, take_stores := ss2\<rparr>)"
      "leave ss2 (drop ?N (put_arrived s)) (take_stores s)" "take_sees (?v1\<lparr>queue := q2, take_stores := ss2\<rparr>) = queue s"
      "put_sees (?v1\<lparr>queue := q2, take_stores := ss2\<rparr>) =
        fold perform_store (drop n (take ?N (put_arrived s))) (fold perform_store ws (put_loads n s))"
      unfolding Let_def put_ran_simps l(4,5) by blast
    let ?v = "?v1\<lparr>queue := q2, take_stores := ss2\<rparr>"
    have "\<forall>u\<in>set (take n (put_arrived s)). \<exists>q. emptying (snd u) q" using l(8) by (blast dest: in_set_takeD)
    from put_write_fenced [OF r0(1) r(1) [unfolded pc'(1)] pc'(2) l(7) this, of "put_releases pc", folded ws_def]
    have "put_sees ?v = fold perform_store (drop n (take ?N (put_arrived s)))
        (fold perform_store (take n (put_arrived s)) (fold perform_store ws (put_memory s)))"
      unfolding l2(4) put_loads_def by simp
    also have "\<dots> = fold perform_store (take ?N (put_arrived s)) (fold perform_store ws (put_memory s))"
      using take_max [of n "put_arrived s" "put_read s"] by (metis fold_append comp_apply)
    finally have "put_sees ?v = put_memory s'"
      by (simp add: s'_def pc' s1_def put_acquire_def put_loads_def)
    then have "follows ?v s'"
      using fol l2(2,3) leave_more [OF f(3), of ws]
      by (simp add: follows_def s'_def pc' s1_def put_acquire_def, simp add: put_ran_def l(1))
    with step l2(1) show ?thesis by blast
  qed
qed

text \<open>The element that the consumer moves out is the next one, wherever it stands.\<close>

lemma take_moves_next:
  assumes "pso_inv s" "taking s = Some (c, k)" "take_at c k (take_sees s) = Inr (Inl (TakeFront f x), q')"
  shows "\<exists>xs. entered s = departed s @ x # xs"
proof -
  let ?s = "take_ran c (Inl (TakeFront f x)) (map (Pair (take_releases k)) (take_write c k (take_sees s))) s"
  have s: "pso_inv ?s" "taking ?s = Some (c, TakeFront f x)" "departed ?s = departed s"
    using take_runs [OF assms(1,2)] assms(3) by (auto simp: take_ran_def)
  from take_runs [OF s(1,2)] obtain r p where "take_at c (TakeFront f x) (take_sees ?s) = Inr (r, p)" by blast
  then have "take_at c (TakeFront f x) (take_sees ?s) = Inr (Inr (Some x), p)" by (auto simp: bindE_eq_Inr)
  from pso_take_inv(2) [OF s(1,2) this] s(3) show ?thesis by simp
qed

lemma ahead_of_tail:
  assumes "pso_inv s" "taking s = Some (c, AheadNext)"
  shows "frontBlock (take_sees s) \<noteq> tailBlock (take_sees s)"
proof -
  from assms(1) obtain A B q ts us qa qb where r: "reached_pso A B q ts us qa qb s" by (auto simp: pso_inv_def)
  then have "together A (pso_taker s) qb" by (intro reached_facts(3)) auto
  with assms(2) have "frontBlock qb \<noteq> tailBlock qb" by (auto simp: together_def pso_taker_def)
  with take_sees_front(1,2) [OF r assms(2)] show ?thesis by simp
qed

lemma rmo_take_follows:
  assumes inv: "pso_inv v" and fol: "follows v s" and n: "n \<le> length (take_arrived s)"
  shows "\<exists>s' v'. rmo_take n s = Inr s' \<and> pso_inv v' \<and> follows v' s'"
    "taking s = Some (c, k) \<Longrightarrow> take_at c k (take_loads n s) = Inr (Inr y, q') \<Longrightarrow>
     (case y of None \<Rightarrow> entered_before s = departed s | Some x \<Rightarrow> \<exists>xs. entered s = departed s @ x # xs)"
proof -
  from fol have f: "taking v = taking s" "take_sees v = queue s" "leave (take_stores v) (put_arrived s) (take_stores s)"
    "entered v = entered s" "departed v = departed s" "entered_before v = entered_before s"
    by (simp_all add: follows_def)
  obtain v1 q1 ss1 where l: "v1 = v\<lparr>queue := q1, put_stores := ss1\<rparr>" "pso_inv v1"
    "leave ss1 (drop n (take_arrived s)) (put_stores s)" "put_sees v1 = put_memory s" "take_sees v1 = take_loads n s"
    "\<forall>c k. taking s = Some (c, k) \<and> (\<forall>f x. k \<noteq> TakeFront f x) \<longrightarrow> stays (queue s) (take_loads n s)"
    "own_takes (queue s) (take_loads n s)" "\<forall>u\<in>set (take_arrived s). \<exists>q. filling (snd u) q"
    by (rule take_learns_more [OF inv fol n]) (rule that; assumption)
  have same: "entered v1 = entered s" "departed v1 = departed s" "entered_before v1 = entered_before s" "taking v1 = taking s"
    using l(1) f by simp_all
  show "case y of None \<Rightarrow> entered_before s = departed s | Some x \<Rightarrow> \<exists>xs. entered s = departed s @ x # xs"
    if "taking s = Some (c, k)" "take_at c k (take_loads n s) = Inr (Inr y, q')"
    using pso_take_inv(2) [OF l(2), of c k y q'] that unfolding same l(5) by simp
  show "\<exists>s' v'. rmo_take n s = Inr s' \<and> pso_inv v' \<and> follows v' s'"
  proof (cases "taking s")
    case None
    with inv fol show ?thesis by (auto simp: rmo_take_def)
  next
    case (Some a)
    then obtain c k where p: "taking s = Some (c, k)" by (metis surj_pair)
    define ws where "ws = map (Pair (take_releases k)) (take_write c k (take_loads n s))"
    have pv: "taking v = Some (c, k)" "taking v1 = Some (c, k)" using p f(1) l(1) by simp_all
    let ?ws = "\<lambda>p. map (Pair (take_releases k)) (take_write c k p)"
    from take_runs [OF inv pv(1)] f(2) obtain r0 p0 where r0: "take_at c k (queue s) = Inr (r0, p0)"
      "pso_inv (take_ran c r0 (?ws (queue s)) v)" by auto
    from take_runs [OF l(2) pv(2)] l(5) obtain r p1 where r: "take_at c k (take_loads n s) = Inr (r, p1)"
      "pso_inv (take_ran c r ws v1)" by (auto simp: ws_def)
    define s1 where "s1 = s\<lparr>take_stores := take_stores s @ ws, queue := fold perform_store ws (queue s),
      take_read := max (take_read s) n\<rparr>"
    define s' where "s' = (case r of Inl k \<Rightarrow> (if take_acquires k then take_acquire s1 else s1)\<lparr>taking := Some (c, k)\<rparr>
      | Inr x \<Rightarrow> s1\<lparr>taking := None,
          departed := departed s1 @ (if c = PeekCall then [] else case_option [] (\<lambda>x. [x]) x)\<rparr>)"
    have step: "rmo_take n s = Inr s'"
      by (cases r) (simp_all add: rmo_take_def p r(1) s'_def s1_def ws_def Let_def)
    have own: "(\<exists>k. r = Inl k \<and> take_acquires k) \<or>
      r0 = r \<and> take_write c k (take_loads n s) = take_write c k (queue s)"
    proof (rule take_sees_more [OF r0(1) r(1) l(7)])
      show "\<forall>f x. k \<noteq> TakeFront f x \<Longrightarrow> stays (queue s) (take_loads n s)" using l(6) p by simp
      show "k = AheadNext \<Longrightarrow> frontBlock (queue s) \<noteq> tailBlock (queue s)"
        using ahead_of_tail [OF inv] pv(1) unfolding f(2) by simp
      show "x = y" if "r0 = Inr (Some x)" "r = Inr (Some y)" for x y
        using pso_take_inv(2) [OF inv pv(1), of "Some x"] pso_take_inv(2) [OF l(2) pv(2), of "Some y"]
          r0(1) r(1) that unfolding f(2,4,5) l(5) same by auto
      show "x = y" if "r0 = Inl (TakeFront f x)" "r = Inl (TakeFront g y)" for f x g y
        using take_moves_next [OF inv pv(1)] take_moves_next [OF l(2) pv(2)] r0(1) r(1) that
        unfolding f(2,4,5) l(5) same by fastforce
    qed
    show ?thesis
    proof (cases "\<exists>k'. r = Inl k' \<and> take_acquires k'")
      case False
      with own r0(2) have v': "pso_inv (take_ran c r ws v)" by (auto simp: ws_def)
      have "s' = (case r of Inl k \<Rightarrow> s1\<lparr>taking := Some (c, k)\<rparr>
        | Inr x \<Rightarrow> s1\<lparr>taking := None,
            departed := departed s1 @ (if c = PeekCall then [] else case_option [] (\<lambda>x. [x]) x)\<rparr>)"
        using False by (cases r) (simp_all add: s'_def)
      with fol leave_more [OF f(3), of ws] n have "follows (take_ran c r ws v) s'"
        by (cases r) (simp_all add: follows_def s1_def, simp_all add: take_ran_def)
      with step v' show ?thesis by blast
    next
      case True
      then obtain k' where k': "r = Inl k'" "take_acquires k'" by blast
      let ?v1 = "take_ran c r ws v1"
      let ?N = "max (take_read s) n"
      have "leave (put_stores ?v1) (drop n (take ?N (take_arrived s)) @ drop ?N (take_arrived s)) (put_stores s)"
        using l(1,3) drop_max [OF n, of "take_read s"] by simp
      from take_learns [OF r(2) this] obtain q2 ss2 where l2: "pso_inv (?v1\<lparr>queue := q2, put_stores := ss2\<rparr>)"
        "leave ss2 (drop ?N (take_arrived s)) (put_stores s)" "put_sees (?v1\<lparr>queue := q2, put_stores := ss2\<rparr>) = put_memory s"
        "take_sees (?v1\<lparr>queue := q2, put_stores := ss2\<rparr>) =
          fold perform_store (drop n (take ?N (take_arrived s))) (fold perform_store ws (take_loads n s))"
        unfolding Let_def take_ran_simps l(4,5) by blast
      let ?v = "?v1\<lparr>queue := q2, put_stores := ss2\<rparr>"
      have "\<forall>u\<in>set (take n (take_arrived s)). \<exists>q. filling (snd u) q" using l(8) by (blast dest: in_set_takeD)
      from take_write_fenced [OF r0(1) r(1) [unfolded k'(1)] k'(2) l(7) this, of "take_releases k", folded ws_def]
      have "take_sees ?v = fold perform_store (drop n (take ?N (take_arrived s)))
          (fold perform_store (take n (take_arrived s)) (fold perform_store ws (queue s)))"
        unfolding l2(4) take_loads_def by simp
      also have "\<dots> = fold perform_store (take ?N (take_arrived s)) (fold perform_store ws (queue s))"
        using take_max [of n "take_arrived s" "take_read s"] by (metis fold_append comp_apply)
      finally have "take_sees ?v = queue s'"
        by (simp add: s'_def k' s1_def take_acquire_def take_loads_def)
      then have "follows ?v s'"
        using fol l2(2,3) leave_more [OF f(3), of ws]
        by (simp add: follows_def s'_def k' s1_def take_acquire_def, simp add: take_ran_def l(1))
      with step l2(1) show ?thesis by blast
    qed
  qed
qed

lemma leave_Nil: "leave ss ws rest \<Longrightarrow> ss = [] \<longleftrightarrow> ws = [] \<and> rest = []"
  by (induction rule: leave.induct) auto

lemma rmo_called:
  assumes "rmo_inv s"
  shows "putting s = None \<Longrightarrow> rmo_inv (s\<lparr>putting := Some (c, PutEnter)\<rparr>)"
    "taking s = None \<Longrightarrow> rmo_inv (s\<lparr>taking := Some (d, TakeEnter),
      entered_before := (if put_stores s = [] \<and> take_arrived s = [] then entered s else departed s)\<rparr>)"
proof -
  from assms obtain v where v: "pso_inv v" "follows v s" by (auto simp: rmo_inv_def)
  note called = pso_called [OF v(1)]
  show "rmo_inv (s\<lparr>putting := Some (c, PutEnter)\<rparr>)" if "putting s = None"
    unfolding rmo_inv_def using called(1) v(2) that
    by (intro exI [of _ "v\<lparr>putting := Some (c, PutEnter)\<rparr>"]) (simp add: follows_def put_sees_def take_sees_def)
  from v(2) have "put_stores v = [] \<longleftrightarrow> put_stores s = [] \<and> take_arrived s = []"
    using leave_Nil by (auto simp: follows_def)
  then show "rmo_inv (s\<lparr>taking := Some (d, TakeEnter),
      entered_before := (if put_stores s = [] \<and> take_arrived s = [] then entered s else departed s)\<rparr>)"
    if "taking s = None"
    unfolding rmo_inv_def using called(2) v(2) that
    by (intro exI [of _ "v\<lparr>taking := Some (d, TakeEnter),
      entered_before := (if put_stores v = [] then entered v else departed v)\<rparr>"])
      (simp add: follows_def put_sees_def take_sees_def)
qed

lemma rmo_arrives:
  assumes "rmo_inv s" and may: "may_drain us w"
  shows "put_stores s = us @ w # vs \<Longrightarrow>
      rmo_inv (s\<lparr>put_stores := us @ vs, take_arrived := take_arrived s @ [w]\<rparr>)"
    "take_stores s = us @ w # vs \<Longrightarrow>
      rmo_inv (s\<lparr>take_stores := us @ vs, put_arrived := put_arrived s @ [w]\<rparr>)"
  using assms leave_next [OF _ may] unfolding rmo_inv_def follows_def by fastforce+

lemma rmo_reachable:
  assumes "rwq_holds q []" "rmo_step\<^sup>*\<^sup>* (idle_rmo q) s"
  shows "rmo_inv s"
  using assms(2)
proof induction
  case base
  have "pso_inv (idle_pso q)" using pso_reachable [OF assms(1)] by blast
  moreover have "follows (idle_pso q) (idle_rmo q)"
    by (simp add: follows_def idle_pso_def idle_rmo_def put_sees_def take_sees_def leave.None_leaves)
  ultimately show ?case by (auto simp: rmo_inv_def)
next
  case (step s s')
  then obtain v where v: "pso_inv v" "follows v s" by (auto simp: rmo_inv_def)
  from step.hyps(2) show ?case
  proof cases
    case (PutCalled c)
    with rmo_called(1) [OF step.IH] show ?thesis by simp
  next
    case (PutRuns n)
    with rmo_put_follows [OF v PutRuns(1)] show ?thesis by (auto simp: rmo_inv_def)
  next
    case (PutArrives us w vs)
    with rmo_arrives(1) [OF step.IH] show ?thesis by simp
  next
    case (TakeCalled d)
    with rmo_called(2) [OF step.IH] show ?thesis by simp
  next
    case (TakeRuns n)
    with rmo_take_follows(1) [OF v TakeRuns(1)] show ?thesis by (auto simp: rmo_inv_def)
  next
    case (TakeArrives us w vs)
    with rmo_arrives(2) [OF step.IH] show ?thesis by simp
  qed
qed

text \<open>When nothing is under way, and what is in the buffers has arrived, the two memories agree.\<close>

lemma rmo_entered:
  assumes "rmo_inv s"
  shows "\<exists>xs. entered s = departed s @ xs"
    "putting s = None \<Longrightarrow> taking s = None \<Longrightarrow> put_stores s = [] \<Longrightarrow> take_stores s = [] \<Longrightarrow>
     \<exists>xs. entered s = departed s @ xs \<and> rwq_holds (fold perform_store (take_arrived s) (queue s)) xs \<and>
       fold perform_store (put_arrived s) (put_memory s) = fold perform_store (take_arrived s) (queue s)"
proof -
  from assms obtain v where v: "pso_inv v" "follows v s" by (auto simp: rmo_inv_def)
  show "\<exists>xs. entered s = departed s @ xs" using pso_entered(1) [OF v(1)] v(2) by (simp add: follows_def)
  show "\<exists>xs. entered s = departed s @ xs \<and> rwq_holds (fold perform_store (take_arrived s) (queue s)) xs \<and>
       fold perform_store (put_arrived s) (put_memory s) = fold perform_store (take_arrived s) (queue s)"
    if idle: "putting s = None" "taking s = None" "put_stores s = []" "take_stores s = []"
  proof -
    from v(2) idle have l: "leave (put_stores v) (take_arrived s @ []) []" "leave (take_stores v) (put_arrived s @ []) []"
      and f: "put_sees v = put_memory s" "take_sees v = queue s" by (simp_all add: follows_def)
    from take_learns [OF v(1) l(1)] obtain q1 ss1 where
      v1: "pso_inv (v\<lparr>queue := q1, put_stores := ss1\<rparr>)" "leave ss1 [] []"
      "put_sees (v\<lparr>queue := q1, put_stores := ss1\<rparr>) = put_memory s"
      "take_sees (v\<lparr>queue := q1, put_stores := ss1\<rparr>) = fold perform_store (take_arrived s) (queue s)"
      unfolding f Let_def by blast
    let ?v1 = "v\<lparr>queue := q1, put_stores := ss1\<rparr>"
    have "leave (take_stores ?v1) (put_arrived s @ []) []" using l(2) by simp
    from put_learns [OF v1(1) this] obtain q2 ss2 where
      v2: "pso_inv (?v1\<lparr>queue := q2, take_stores := ss2\<rparr>)" "leave ss2 [] []"
      "take_sees (?v1\<lparr>queue := q2, take_stores := ss2\<rparr>) = fold perform_store (take_arrived s) (queue s)"
      "put_sees (?v1\<lparr>queue := q2, take_stores := ss2\<rparr>) = fold perform_store (put_arrived s) (put_memory s)"
      unfolding v1(3,4) Let_def by blast
    have "ss1 = []" "ss2 = []" using leave_Nil [OF v1(2)] leave_Nil [OF v2(2)] by simp_all
    with v2(3,4) have "q2 = fold perform_store (take_arrived s) (queue s)" "q2 = fold perform_store (put_arrived s) (put_memory s)"
      by (simp_all add: put_sees_def take_sees_def)
    with pso_entered(2) [OF v2(1)] v(2) idle \<open>ss1 = []\<close> \<open>ss2 = []\<close> show ?thesis by (simp add: follows_def)
  qed
qed

subsection \<open>Properties\<close>

text \<open>
  C5. The two threads share the queue also on a processor that reorders the loads of a thread, but for
  the acquire fences of the code, and the writes, but for the release fences and writes to the same
  place. Whichever of the writes that have arrived a load sees, neither thread fails an assertion,
  follows a wild pointer or reads a cell without an object, what was taken out is what was put in,
  in order, and an operation of the consumer that finds nothing, when it began with no write of the
  producer under way, found the queue empty. When nothing is under way, what has arrived makes the
  memories of the two threads the same, and they hold the rest.
\<close>

theorem reordered_loads_share_queue:
  assumes "0 < capacity" "unat capacity < 2 ^ 32" "new_queue (\<lambda>_. True) capacity = Inr q"
    "rmo_step\<^sup>*\<^sup>* (idle_rmo q) s"
  shows "(\<exists>xs. entered s = departed s @ xs \<and>
      (putting s = None \<and> taking s = None \<and> put_stores s = [] \<and> take_stores s = [] \<longrightarrow>
        rwq_holds (fold perform_store (take_arrived s) (queue s)) xs \<and>
        fold perform_store (put_arrived s) (put_memory s) = fold perform_store (take_arrived s) (queue s))) \<and>
    (\<forall>n \<le> length (put_arrived s). \<exists>s'. rmo_put n s = Inr s') \<and>
    (\<forall>n \<le> length (take_arrived s). \<exists>s'. rmo_take n s = Inr s') \<and>
    (\<forall>n c k y q'. n \<le> length (take_arrived s) \<and> taking s = Some (c, k) \<and>
        take_at c k (take_loads n s) = Inr (Inr y, q') \<longrightarrow>
      (case y of None \<Rightarrow> entered_before s = departed s | Some x \<Rightarrow> \<exists>xs. entered s = departed s @ x # xs))"
proof (intro conjI)
  have inv: "rmo_inv s" by (rule rmo_reachable [OF new_queue_holds [OF assms(1-3)] assms(4)])
  then obtain v where v: "pso_inv v" "follows v s" by (auto simp: rmo_inv_def)
  show "\<exists>xs. entered s = departed s @ xs \<and>
      (putting s = None \<and> taking s = None \<and> put_stores s = [] \<and> take_stores s = [] \<longrightarrow>
        rwq_holds (fold perform_store (take_arrived s) (queue s)) xs \<and>
        fold perform_store (put_arrived s) (put_memory s) = fold perform_store (take_arrived s) (queue s))"
  proof (cases "putting s = None \<and> taking s = None \<and> put_stores s = [] \<and> take_stores s = []")
    case True
    then show ?thesis using rmo_entered(2) [OF inv] by simp
  next
    case False
    then show ?thesis using rmo_entered(1) [OF inv] by auto
  qed
  show "\<forall>n \<le> length (put_arrived s). \<exists>s'. rmo_put n s = Inr s'" using rmo_put_follows [OF v] by blast
  show "\<forall>n \<le> length (take_arrived s). \<exists>s'. rmo_take n s = Inr s'" using rmo_take_follows(1) [OF v] by blast
  show "\<forall>n c k y q'. n \<le> length (take_arrived s) \<and> taking s = Some (c, k) \<and>
        take_at c k (take_loads n s) = Inr (Inr y, q') \<longrightarrow>
      (case y of None \<Rightarrow> entered_before s = departed s | Some x \<Rightarrow> \<exists>xs. entered s = departed s @ x # xs)"
    by (intro allI impI, elim conjE) (rule rmo_take_follows(2) [OF v])
qed

text \<open>
  An element has arrived, and the first load of the consumer has seen it, but not the second, which
  looks for the tail.
\<close>

definition example_rmo :: "u8 rmo" where
  "example_rmo = (idle_rmo (upd 0 (\<lambda>b. b\<lparr>localTail := 0\<rparr>) default_queue))\<lparr>
     put_memory := upd 0 (\<lambda>b. b\<lparr>tail := 1\<rparr>) filled_queue, entered := [7],
     take_arrived := [(False, ToCell 0 0 (Some 7)), (True, ToTail 0 1)],
     taking := Some (DequeueCall, TakeBlock), take_stores := [(False, ToLocalTail 0 0)], take_read := 2\<rparr>"

lemma example_rmo: "rmo_step\<^sup>*\<^sup>* (idle_rmo default_queue) example_rmo"
proof -
  let ?s = "(idle_rmo default_queue) :: u8 rmo" and ?c = "(CanAlloc, True, 7 :: u8)"
  let ?p = "upd 0 (\<lambda>b. b\<lparr>tail := 1\<rparr>) filled_queue"
  let ?w = "(False, ToCell 0 0 (Some 7)) :: u8 store" and ?v = "(True, ToTail 0 1) :: u8 store"
  note eval = rmo_put_def rmo_take_def put_loads_def take_loads_def put_acquire_def idle_rmo_def default_queue_def
    new_block_def deref_def construct_def Let_def releases filled_queue_def perform_store_def upd_def store_def
  let ?s1 = "?s\<lparr>putting := Some (?c, PutEnter)\<rparr>" and ?s2 = "?s\<lparr>putting := Some (?c, PutCell 0 1)\<rparr>"
  let ?s3 = "?s\<lparr>putting := Some (?c, PutTail 1), put_stores := [?w], put_memory := filled_queue\<rparr>"
  let ?t = "?s\<lparr>put_memory := ?p, entered := [7]\<rparr>"
  let ?t1 = "?t\<lparr>put_stores := [?w, ?v]\<rparr>" and ?t2 = "?t\<lparr>put_stores := [?v], take_arrived := [?w]\<rparr>"
  let ?t3 = "?t\<lparr>take_arrived := [?w, ?v]\<rparr>"
  let ?t4 = "?t3\<lparr>taking := Some (DequeueCall, TakeEnter)\<rparr>"
  let ?t5 = "?t3\<lparr>taking := Some (DequeueCall, TakeTail), take_read := 2\<rparr>"
  have "rmo_step ?s ?s1" by (rule rmo_step.PutCalled) (simp add: idle_rmo_def)
  moreover have "rmo_step ?s1 ?s2" by (rule rmo_step.PutRuns [of 0]) (simp_all add: eval)
  moreover have "rmo_step ?s2 ?s3" by (rule rmo_step.PutRuns [of 0]) (simp_all add: eval)
  moreover have "rmo_step ?s3 ?t1" by (rule rmo_step.PutRuns [of 0]) (simp_all add: eval)
  moreover have "rmo_step ?t1 ?t2"
    using PutArrives [of ?t1 "[]" ?w "[?v]"] by (simp add: may_drain_def may_pass_def idle_rmo_def)
  moreover have "rmo_step ?t2 ?t3"
    using PutArrives [of ?t2 "[]" ?v "[]"] by (simp add: may_drain_def may_pass_def idle_rmo_def)
  moreover have "rmo_step ?t3 ?t4"
    using rmo_step.TakeCalled [of ?t3 DequeueCall] by (simp add: idle_rmo_def)
  moreover have "rmo_step ?t4 ?t5" by (rule rmo_step.TakeRuns [of 2]) (simp_all add: eval)
  moreover have "rmo_step ?t5 example_rmo"
    by (rule rmo_step.TakeRuns [of 0]) (simp_all add: eval example_rmo_def)
  ultimately show ?thesis by (meson rtranclp.rtrancl_into_rtrancl rtranclp.rtrancl_refl)
qed

theorem reordered_loads_share_queue_witness:
  "rmo_step\<^sup>*\<^sup>* (idle_rmo default_queue) example_rmo \<and> length (take_arrived example_rmo) = 2 \<and>
   (\<exists>s'. rmo_put 0 example_rmo = Inr s') \<and> (\<exists>s'. rmo_take 0 example_rmo = Inr s') \<and>
   (\<exists>s'. rmo_take 2 example_rmo = Inr s')"
proof -
  have h: "0 < (15 :: size_t)" "unat (15 :: size_t) < 2 ^ 32" by simp_all
  note all = reordered_loads_share_queue [OF h new_queue_default example_rmo]
  have "length (take_arrived example_rmo) = 2" by (simp add: example_rmo_def)
  with all example_rmo show ?thesis by auto
qed

end
