(* ===== verification/Uart_Bridge.thy ===== *)
theory Uart_Bridge
  imports Uart_Server
begin

text \<open>
  The thread of the server and the UART together: what a client sends to the socket comes out on the
  pin of the design. The simulation calls \<open>doUARTServer\<close> once per tick, while the thread is anywhere
  in \<open>Listen\<close>.
\<close>

subsection \<open>The bridge\<close>

text \<open>
  The server with its thread, the variables of \<open>doUARTServer\<close>, the tick, the value of \<open>rx_pin\<close>, its
  values after the calls so far, and the values of \<open>tx_pin\<close> in those calls.
\<close>

record bridge =
  link_of :: link
  uart_of :: uart
  tick :: u64
  level :: u8
  wave :: "u8 list"
  probe :: "u8 list"

definition bridge_tick :: "u8 \<Rightarrow> bridge \<Rightarrow> bridge res" where
  "bridge_tick tx_pin b =
     bindE (doUARTServer True (tick b) tx_pin (level b) (uart_of b) (srv (link_of b))) (\<lambda>(u, v, rx_pin).
       Inr \<lparr>link_of = (link_of b)\<lparr>srv := v\<rparr>, uart_of = u, tick = tick b + 1, level = rx_pin,
            wave = wave b @ [rx_pin], probe = probe b @ [tx_pin]\<rparr>)"

inductive bridge_step :: "bridge \<Rightarrow> bridge \<Rightarrow> bool" where
  Tick: "bridge_tick tx_pin b = Inr b' \<Longrightarrow> bridge_step b b'"
| Listens: "os_lossless os (link_of b) \<Longrightarrow> listen os (link_of b) = Inr s \<Longrightarrow>
    bridge_step b (b\<lparr>link_of := s\<rparr>)"

text \<open>The bridge when the thread has opened its socket; the pin is at rest.\<close>

definition opened :: "link \<Rightarrow> u64 \<Rightarrow> bridge" where
  "opened s t = \<lparr>link_of = s, uart_of = uart_init, tick = t, level = 1, wave = [],
     probe = []\<rparr>"

text \<open>
  What should be on the pin: the bytes in frames, each after a pause, and then a pause.
\<close>

definition signal :: "nat \<Rightarrow> (nat \<times> u8) list \<Rightarrow> u8 list" where
  "signal n ps = concat (map (\<lambda>(k, b). replicate k 1 @ frame n b) ps)"

lemma signal_simps [simp]: "signal n [] = []" "signal n (ps @ [(k, b)]) = signal n ps @ replicate k 1 @ frame n b"
  by (simp_all add: signal_def)

subsection \<open>The streams of the thread\<close>

text \<open>
  A server that is up, with what is in its two queues. As the thread does not look at the record of
  the streams, what is known of it holds for any record that fits the queues.
\<close>

definition up :: "link \<Rightarrow> u8 list \<Rightarrow> u8 list \<Rightarrow> bool" where
  "up s txs rxs \<longleftrightarrow> rwq_holds (tx (srv s)) txs \<and> rwq_holds (rx (srv s)) rxs \<and>
     length (in_cmd (pc s)) \<le> 255 \<and> length (in_resp (pc s)) \<le> 256 \<and>
     running (srv s) = Some True \<and> pc s \<noteq> Opening"

definition recorded :: "u8 list \<Rightarrow> u8 list \<Rightarrow> u8 list \<Rightarrow> link \<Rightarrow> link" where
  "recorded h q f s = s\<lparr>from_host := h, queued := q, to_sim := [], from_sim := f, passed := [], to_host := []\<rparr>"

lemma recorded_simps [simp]:
  "srv (recorded h q f s) = srv s" "pc (recorded h q f s) = pc s"
  "from_host (recorded h q f s) = h" "queued (recorded h q f s) = q"
  "to_sim (recorded h q f s) = []" "from_sim (recorded h q f s) = f" "passed (recorded h q f s) = []"
  "to_host (recorded h q f s) = []"
  by (simp_all add: recorded_def)

lemma listen_recorded:
  assumes "listen os s = Inr s'"
  shows "\<exists>g xs ys. listen os (recorded h q f s) = Inr g \<and> srv g = srv s' \<and> pc g = pc s' \<and>
    to_sim g = [] \<and> from_sim g = f \<and> from_host s' = from_host s @ xs \<and> from_host g = h @ xs \<and>
    to_host s' = to_host s @ ys \<and> to_host g = ys"
proof (cases "pc s")
  case (Queueing bs)
  show ?thesis
  proof (cases bs)
    case (Cons b bs')
    with assms Queueing obtain ok q' where "enqueue (malloc_ok os) b (tx (srv s)) = Inr (ok, q')"
      by (auto simp: listen_def bindE_eq_Inr)
    with assms Queueing Cons show ?thesis by (auto simp: listen_def recorded_def)
  qed (use assms Queueing in \<open>auto simp: listen_def recorded_def\<close>)
next
  case Checking
  with assms obtain k where "size_approx (rx (srv s)) = Inr k" by (auto simp: listen_def bindE_eq_Inr)
  with assms Checking show ?thesis by (auto simp: listen_def recorded_def)
next
  case (Emptying resp)
  show ?thesis
  proof (cases "length resp < 256")
    case True
    with assms Emptying obtain val q' where "try_dequeue (rx (srv s)) = Inr (val, q')"
      by (auto simp: listen_def bindE_eq_Inr)
    with assms Emptying True show ?thesis by (auto simp: listen_def recorded_def)
  qed (use assms Emptying in \<open>auto simp: listen_def recorded_def\<close>)
qed (use assms in \<open>auto simp: listen_def recorded_def bindE_eq_Inr fail_def Send_def Let_def
    split: if_splits option.splits bool.splits\<close>)

lemma listen_running:
  "pc s \<noteq> Opening \<Longrightarrow> listen os s = Inr s' \<Longrightarrow>
   running (srv s') = running (srv s) \<and> period (srv s') = period (srv s) \<and> pc s' \<noteq> Opening"
  by (cases "(pc s, os, s)" rule: listen_at.cases)
    (auto simp: listen_def bindE_eq_Inr fail_def Send_def Let_def split: if_splits option.splits bool.splits)

lemma listen_streams:
  assumes up: "up s txs rxs" and os: "os_lossless os s" and step: "listen os s = Inr s'"
  shows "\<exists>txs' rxs' xs ys. up s' txs' rxs' \<and> period (srv s') = period (srv s) \<and>
    from_host s' = from_host s @ xs \<and> txs @ in_cmd (pc s) @ xs = txs' @ in_cmd (pc s') \<and>
    to_host s' = to_host s @ ys \<and> in_resp (pc s) @ rxs = ys @ in_resp (pc s') @ rxs'"
proof -
  have h: "rwq_holds (tx (srv s)) txs" "rwq_holds (rx (srv s)) rxs" "length (in_cmd (pc s)) \<le> 255"
    "length (in_resp (pc s)) \<le> 256" "running (srv s) = Some True" "pc s \<noteq> Opening"
    using up by (simp_all add: up_def)
  let ?g = "recorded (txs @ in_cmd (pc s)) txs (in_resp (pc s) @ rxs) s"
  have ok: "streams_ok ?g" by (rule streams_okI [of _ txs rxs]) (use h in simp_all)
  have less: "lossless_ok ?g" by (simp add: lossless_ok_def)
  have os': "os_lossless os ?g" using os by (simp add: os_lossless_def os_ok_def)
  from listen_recorded [OF step] obtain g xs ys where
    g: "listen os ?g = Inr g" "srv g = srv s'" "pc g = pc s'" "to_sim g = []" "from_sim g = in_resp (pc s) @ rxs"
    "from_host s' = from_host s @ xs" "from_host g = (txs @ in_cmd (pc s)) @ xs" "to_host s' = to_host s @ ys"
    "to_host g = ys" by blast
  have "streams_ok g" using listen_streams_ok [OF ok _ g(1)] os' by (simp add: os_lossless_def)
  then obtain txs' rxs' where s: "rwq_holds (tx (srv s')) txs'" "rwq_holds (rx (srv s')) rxs'" "queued g = txs'"
    "length (in_cmd (pc s')) \<le> 255" "length (in_resp (pc s')) \<le> 256"
    "in_resp (pc s) @ rxs = passed g @ in_resp (pc s') @ rxs'"
    using g(2-5) by (metis append_Nil streams_okE)
  have l: "from_host g = queued g @ in_cmd (pc s')" "to_host g = passed g"
    using listen_lossless [OF ok less os' g(1)] g(3) by (simp_all add: lossless_ok_def)
  have "up s' txs' rxs'" "period (srv s') = period (srv s)"
    using s listen_running [OF h(6) step] h(5) by (simp_all add: up_def)
  with g s l show ?thesis by (intro exI [of _ txs'] exI [of _ rxs'] exI [of _ xs] exI [of _ ys]) simp
qed

text \<open>Towards the simulation: \<open>bs\<close> has been taken from \<open>tx\<close>.\<close>

definition hosts :: "link \<Rightarrow> u8 list \<Rightarrow> u8 list \<Rightarrow> bool" where
  "hosts s bs txs \<longleftrightarrow> (\<exists>rxs. up s txs rxs) \<and> from_host s = bs @ txs @ in_cmd (pc s)"

lemma listen_hosts:
  assumes "hosts s bs txs" "os_lossless os s" "listen os s = Inr s'"
  shows "\<exists>txs'. hosts s' bs txs'"
proof -
  from assms(1) obtain rxs where up: "up s txs rxs" and "from_host s = bs @ txs @ in_cmd (pc s)"
    by (auto simp: hosts_def)
  with listen_streams [OF up assms(2,3)] show ?thesis unfolding hosts_def by fastforce
qed

text \<open>Towards the client: \<open>cs\<close> has been put into \<open>rx\<close>.\<close>

definition serves :: "link \<Rightarrow> u8 list \<Rightarrow> bool" where
  "serves s cs \<longleftrightarrow> (\<exists>txs rxs. up s txs rxs \<and> cs = to_host s @ in_resp (pc s) @ rxs)"

lemma listen_serves:
  assumes "serves s cs" "os_lossless os s" "listen os s = Inr s'"
  shows "serves s' cs"
proof -
  from assms(1) obtain txs rxs where up: "up s txs rxs" and "cs = to_host s @ in_resp (pc s) @ rxs"
    by (auto simp: serves_def)
  with listen_streams [OF up assms(2,3)] show ?thesis unfolding serves_def by fastforce
qed

subsection \<open>Ticks\<close>

lemma idle_tick:
  assumes "running s = Some True" "send_idle u" "rwq_holds (tx s) []" "rwq_holds (rx s) ys" "bit_time s \<noteq> 0"
  shows "\<exists>u' r t ys'. doUARTServer True now tx_pin rx_pin u s = Inr (u', s\<lparr>rx := r, tx := t\<rparr>, rx_pin) \<and>
    send_idle u' \<and> rwq_holds t [] \<and> rwq_holds r ys'"
proof (cases "truth (now AND 1)")
  case True
  with assms show ?thesis
    by (intro exI [of _ u] exI [of _ "rx s"] exI [of _ "tx s"] exI [of _ ys]) (simp add: odd_call)
next
  case False
  from receive_any [OF assms(4,5), of True now tx_pin u] obtain u' r ys' where
    r: "uart_receive True now tx_pin u s = Inr (u', s\<lparr>rx := r\<rparr>)" "rwq_holds r ys'" "same_send u u'" by blast
  have u': "rx_state u' = STATE_IDLE" "rx_start u' = 0" "tcnt u' = 0"
    using assms(2) r(3) by (simp_all add: send_idle_def same_send_def)
  from rwq.poll_Nil [OF assms(3), folded poll_def] obtain t where t: "poll (tx s) = Inr (None, t)" "rwq_holds t []"
    by blast
  with r u' assms(1) False show ?thesis
    by (intro exI [of _ u'] exI [of _ r] exI [of _ t] exI [of _ ys'])
      (simp add: doUARTServer_def uart_transmit_def uart_finish_def send_idle_def)
qed

subsection \<open>The invariant\<close>

text \<open>
  Between the bytes the pin is at rest; within one, \<open>d\<close> ticks of its frame have passed. \<open>ps\<close> has the
  bytes that were taken from the queue, with the pauses before them.
\<close>

definition resting :: "nat \<Rightarrow> bridge \<Rightarrow> (nat \<times> u8) list \<Rightarrow> bool" where
  "resting n b ps \<longleftrightarrow> send_idle (uart_of b) \<and> level b = 1 \<and> (\<exists>k. wave b = signal n ps @ replicate k 1)"

definition within :: "nat \<Rightarrow> bridge \<Rightarrow> (nat \<times> u8) list \<Rightarrow> nat \<Rightarrow> u8 \<Rightarrow> nat \<Rightarrow> bool" where
  "within n b ps k c d \<longleftrightarrow> 0 < d \<and> d < 10 * n \<and> level b = frame_bit c ((d - 1) div n) \<and>
     wave b = signal n ps @ replicate k 1 @ take d (frame n c) \<and>
     (\<exists>t. tick b = t + of_nat d \<and> clocked t n (10 * n) (srv (link_of b)) \<and> send_at t n c d (uart_of b))"

definition bridged :: "u64 \<Rightarrow> nat \<Rightarrow> bridge \<Rightarrow> bool" where
  "bridged t0 n b \<longleftrightarrow> t0 \<noteq> 0 \<and> n = 2 * unat (period (srv (link_of b))) \<and> 0 < n \<and> n < 2 ^ 32 \<and>
     tick b = t0 + of_nat (length (wave b)) \<and>
     ((\<exists>ps txs. hosts (link_of b) (map snd ps) txs \<and> resting n b ps) \<or>
      (\<exists>ps k c d txs. hosts (link_of b) (map snd ps @ [c]) txs \<and> within n b ps k c d))"

text \<open>What fits into 64 bits.\<close>

definition in_time :: "u64 \<Rightarrow> nat \<Rightarrow> bridge \<Rightarrow> bool" where
  "in_time t0 n b \<longleftrightarrow> unat t0 + length (wave b) + 10 * n < 2 ^ 64 \<and> length (from_host (link_of b)) < 2 ^ 64 - 1"

lemma listen_from_host: "listen os s = Inr s' \<Longrightarrow> length (from_host s) \<le> length (from_host s')"
  by (cases "(pc s, os, s)" rule: listen_at.cases)
    (auto simp: listen_def bindE_eq_Inr fail_def Send_def Let_def split: if_splits option.splits bool.splits)

lemma bridge_step_in_time: "bridge_step b b' \<Longrightarrow> in_time t0 n b' \<Longrightarrow> in_time t0 n b"
  by (induction rule: bridge_step.induct)
    (fastforce simp: in_time_def bridge_tick_def bindE_eq_Inr dest: listen_from_host)+

lemma hosts_queues:
  assumes "hosts s bs txs" "rwq_holds t txs'" "rwq_holds r rxs" "bs @ txs = bs' @ txs'"
  shows "hosts (s\<lparr>srv := (srv s)\<lparr>rx := r, tx := t\<rparr>\<rparr>) bs' txs'"
  using assms by (auto simp: hosts_def up_def)

lemma bridge_clocked:
  assumes "bridged t0 n b" "in_time t0 n b" "hosts (link_of b) bs txs"
  shows "even (unat (tick b)) \<Longrightarrow> clocked (tick b) n (10 * n) (srv (link_of b))"
    "bit_time (srv (link_of b)) \<noteq> 0" "(tick b AND 1 = 0) = even (unat (tick b))"
proof -
  have t: "tick b = t0 + of_nat (length (wave b))" "t0 \<noteq> 0" and n: "n = 2 * unat (period (srv (link_of b)))" "0 < n" "n < 2 ^ 32"
    using assms(1) by (simp_all add: bridged_def)
  have len: "unat t0 + length (wave b) < 2 ^ 64" "unat t0 + length (wave b) + 10 * n < 2 ^ 64"
    using assms(2) by (simp_all add: in_time_def)
  then have u: "unat (tick b) = unat t0 + length (wave b)" by (simp add: t(1) unat_word_ariths unat_of_nat)
  moreover have "0 < unat t0" using t(2) by (simp add: unat_gt_0)
  ultimately have "tick b \<noteq> 0" by (metis add_gr_0 less_numeral_extra(3) unat_0)
  with u n len assms(3) show "even (unat (tick b)) \<Longrightarrow> clocked (tick b) n (10 * n) (srv (link_of b))"
    by (auto simp: clocked_def hosts_def up_def)
  have "unat (period (srv (link_of b)) * 2) = n" using n by (simp add: unat_word_ariths mult.commute)
  with n(2) show "bit_time (srv (link_of b)) \<noteq> 0"
    by (metis bit_time_def less_numeral_extra(3) unat_0 unat_ucast_32_64)
  show "(tick b AND 1 = 0) = even (unat (tick b))"
    by (simp add: and_one_eq word_unat_eq_iff unat_mod even_iff_mod_2_eq_zero)
qed

lemma bridged_next:
  assumes "bridged t0 n b" "period (srv (link_of b')) = period (srv (link_of b))" "tick b' = tick b + 1"
    "length (wave b') = Suc (length (wave b))"
  shows "hosts (link_of b') (map snd ps) txs \<Longrightarrow> resting n b' ps \<Longrightarrow> bridged t0 n b'"
    "hosts (link_of b') (map snd ps @ [c]) txs \<Longrightarrow> within n b' ps k c d \<Longrightarrow> bridged t0 n b'"
proof -
  have *: "t0 \<noteq> 0 \<and> n = 2 * unat (period (srv (link_of b'))) \<and> 0 < n \<and> n < 2 ^ 32 \<and>
      tick b' = t0 + of_nat (length (wave b'))"
    using assms by (simp add: bridged_def add.assoc add.commute)
  show "hosts (link_of b') (map snd ps) txs \<Longrightarrow> resting n b' ps \<Longrightarrow> bridged t0 n b'"
    "hosts (link_of b') (map snd ps @ [c]) txs \<Longrightarrow> within n b' ps k c d \<Longrightarrow> bridged t0 n b'"
    unfolding bridged_def using * by blast+
qed

text \<open>A tick, by what the call returns and what is to be on the pin afterwards.\<close>

lemma tick_rests:
  assumes call: "doUARTServer True (tick b) tx_pin (level b) (uart_of b) (srv (link_of b)) =
      Inr (u, (srv (link_of b))\<lparr>rx := r, tx := t\<rparr>, 1)"
    and inv: "bridged t0 n b" and u: "send_idle u" and wave: "wave b @ [1] = signal n ps @ replicate k 1"
    and hosts: "hosts ((link_of b)\<lparr>srv := (srv (link_of b))\<lparr>rx := r, tx := t\<rparr>\<rparr>) (map snd ps) txs"
  shows "\<exists>b'. bridge_tick tx_pin b = Inr b' \<and> bridged t0 n b'"
proof -
  let ?b = "\<lparr>link_of = (link_of b)\<lparr>srv := (srv (link_of b))\<lparr>rx := r, tx := t\<rparr>\<rparr>, uart_of = u, tick = tick b + 1,
    level = 1, wave = wave b @ [1], probe = probe b @ [tx_pin]\<rparr>"
  have "bridge_tick tx_pin b = Inr ?b" using call by (simp add: bridge_tick_def)
  moreover have "resting n ?b ps" using u wave by (auto simp: resting_def)
  then have "bridged t0 n ?b"
    by (intro bridged_next(1) [OF inv, where txs = txs and ps = ps]) (use hosts in simp_all)
  ultimately show ?thesis by blast
qed

lemma tick_within:
  assumes call: "doUARTServer True (tick b) tx_pin (level b) (uart_of b) (srv (link_of b)) =
      Inr (u, (srv (link_of b))\<lparr>rx := r, tx := t\<rparr>, frame_bit c (d div n))"
    and inv: "bridged t0 n b" and d: "Suc d < 10 * n" "tick b = t1 + of_nat d"
    and c: "clocked t1 n (10 * n) (srv (link_of b))" and u: "send_at t1 n c (Suc d) u"
    and wave: "wave b = signal n ps @ replicate k 1 @ take d (frame n c)"
    and hosts: "hosts ((link_of b)\<lparr>srv := (srv (link_of b))\<lparr>rx := r, tx := t\<rparr>\<rparr>) (map snd ps @ [c]) txs"
  shows "\<exists>b'. bridge_tick tx_pin b = Inr b' \<and> bridged t0 n b'"
proof -
  let ?b = "\<lparr>link_of = (link_of b)\<lparr>srv := (srv (link_of b))\<lparr>rx := r, tx := t\<rparr>\<rparr>, uart_of = u, tick = tick b + 1,
    level = frame_bit c (d div n), wave = wave b @ [frame_bit c (d div n)],
    probe = probe b @ [tx_pin]\<rparr>"
  have "bridge_tick tx_pin b = Inr ?b" using call by (simp add: bridge_tick_def)
  moreover have "frame n c ! d = frame_bit c (d div n)" using d(1) by (simp add: frame_def)
  then have "take d (frame n c) @ [frame_bit c (d div n)] = take (Suc d) (frame n c)"
    using d(1) by (simp add: take_Suc_conv_app_nth)
  with d u wave c have "within n ?b ps k c (Suc d)"
    unfolding within_def by (intro conjI exI [of _ t1]) (simp_all add: clocked_def add.assoc add.commute)
  then have "bridged t0 n ?b"
    by (intro bridged_next(2) [OF inv, where txs = txs and ps = ps and c = c]) (use hosts in simp_all)
  ultimately show ?thesis by blast
qed

lemma signal_pause: "replicate k x @ [x] = replicate (Suc k) x"
  by (simp add: replicate_append_same)

lemma resting_tick:
  assumes inv: "bridged t0 n b" and time: "in_time t0 n b" and hosts: "hosts (link_of b) (map snd ps) txs"
    and rest: "resting n b ps"
  shows "\<exists>b'. bridge_tick tx_pin b = Inr b' \<and> bridged t0 n b'"
proof -
  let ?s = "srv (link_of b)"
  note clock = bridge_clocked [OF inv time hosts]
  from hosts obtain rxs where h: "rwq_holds (tx ?s) txs" "rwq_holds (rx ?s) rxs" "running ?s = Some True"
    "from_host (link_of b) = map snd ps @ txs @ in_cmd (pc (link_of b))" by (auto simp: hosts_def up_def)
  from rest obtain k where u: "send_idle (uart_of b)" "level b = 1" "wave b = signal n ps @ replicate k 1"
    by (auto simp: resting_def)
  consider "txs = []" | "txs \<noteq> []" "odd (unat (tick b))" | c xs where "txs = c # xs" "even (unat (tick b))"
    by (cases txs) auto
  then show ?thesis
  proof cases
    case 1
    with idle_tick [OF h(3) u(1) _ h(2) clock(2), of "tick b" tx_pin "level b"] h(1) obtain u' r t ys where
      d: "doUARTServer True (tick b) tx_pin (level b) (uart_of b) ?s = Inr (u', ?s\<lparr>rx := r, tx := t\<rparr>, level b)"
      "send_idle u'" "rwq_holds t []" "rwq_holds r ys" by blast
    have "hosts ((link_of b)\<lparr>srv := ?s\<lparr>rx := r, tx := t\<rparr>\<rparr>) (map snd ps) []"
      by (rule hosts_queues [OF hosts d(3,4)]) (simp add: 1)
    then show ?thesis using u signal_pause
      by (intro tick_rests [OF _ inv d(2), where k = "Suc k"]) (use d(1) in \<open>simp_all del: replicate_Suc\<close>)
  next
    case 2
    then have "doUARTServer True (tick b) tx_pin (level b) (uart_of b) ?s =
        Inr (uart_of b, ?s\<lparr>rx := rx ?s, tx := tx ?s\<rparr>, level b)"
      using clock(3) h(3) by (simp add: odd_call)
    with hosts u show ?thesis
      by (intro tick_rests [OF _ inv u(1), where k = "Suc k" and r = "rx ?s" and t = "tx ?s" and txs = txs]) (simp_all add: signal_pause del: replicate_Suc)
  next
    case (3 c xs)
    note c = clock(1) [OF 3(2)]
    have n: "1 < 10 * n" using c by (simp add: clocked_def)
    have "sends ?s (tick b) n c xs 0 (level b) (uart_of b) ?s"
      using sendsI [OF h(2), of "tick b" n c 0 "uart_of b" "level b" "tx ?s" xs ?s] u(1) h(1) 3(1)
      by (simp add: send_at_def)
    from sends_call [OF c order_refl _ _ this, of tx_pin] n time h(4) 3(1) obtain u' s' where
      d: "doUARTServer True (tick b) tx_pin (level b) (uart_of b) ?s = Inr (u', s', frame_bit c 0)"
      "sends ?s (tick b) n c xs 1 (frame_bit c 0) u' s'" by (auto simp: in_time_def)
    then obtain r t ys where s': "s' = ?s\<lparr>rx := r, tx := t\<rparr>" "rwq_holds r ys" "send_at (tick b) n c 1 u'" "rwq_holds t xs"
      by (auto simp: sends_def)
    have "hosts ((link_of b)\<lparr>srv := ?s\<lparr>rx := r, tx := t\<rparr>\<rparr>) (map snd ps @ [c]) xs"
      by (rule hosts_queues [OF hosts s'(4,2)]) (simp add: 3)
    then show ?thesis
      by (intro tick_within [OF _ inv _ _ c, where d = 0]) (use n u(3) s'(1,3) d(1) in simp_all)
  qed
qed

lemma within_tick:
  assumes inv: "bridged t0 n b" and time: "in_time t0 n b" and hosts: "hosts (link_of b) (map snd ps @ [c]) txs"
    and within: "within n b ps k c d"
  shows "\<exists>b'. bridge_tick tx_pin b = Inr b' \<and> bridged t0 n b'"
proof -
  let ?s = "srv (link_of b)"
  from hosts obtain rxs where h: "rwq_holds (tx ?s) txs" "rwq_holds (rx ?s) rxs"
    "from_host (link_of b) = map snd ps @ [c] @ txs @ in_cmd (pc (link_of b))" by (auto simp: hosts_def up_def)
  from within obtain t1 where w: "0 < d" "d < 10 * n" "level b = frame_bit c ((d - 1) div n)"
    "wave b = signal n ps @ replicate k 1 @ take d (frame n c)" "tick b = t1 + of_nat d"
    "clocked t1 n (10 * n) ?s" "send_at t1 n c d (uart_of b)" by (auto simp: within_def)
  have "sends ?s t1 n c txs d (level b) (uart_of b) ?s"
    using sendsI [OF h(2) w(7), of "level b" "tx ?s" txs ?s] h(1) w(1,3) by simp
  from sends_call [OF w(6) order_refl w(2) _ this, of tx_pin] time h(3) w(5) obtain u' s' where
    d: "doUARTServer True (tick b) tx_pin (level b) (uart_of b) ?s = Inr (u', s', frame_bit c (d div n))"
    "sends ?s t1 n c txs (Suc d) (frame_bit c (d div n)) u' s'" by (auto simp: in_time_def)
  then obtain r t ys where s': "s' = ?s\<lparr>rx := r, tx := t\<rparr>" "rwq_holds r ys" "send_at t1 n c (Suc d) u'"
    "rwq_holds t txs" by (auto simp: sends_def)
  have hosts': "hosts ((link_of b)\<lparr>srv := ?s\<lparr>rx := r, tx := t\<rparr>\<rparr>) (map snd ps @ [c]) txs"
    by (rule hosts_queues [OF hosts s'(4,2)]) simp
  show ?thesis
  proof (cases "Suc d = 10 * n")
    case True
    then have "d div n = 9" using w(2) by (intro div_nat_eqI) auto
    then have "frame_bit c (d div n) = 1" by (simp add: frame_bit_def)
    moreover have "send_idle u'" using s'(3) True w(2) by (simp add: send_at_def)
    moreover have "frame n c = take d (frame n c) @ [frame_bit c (d div n)]"
      using take_Suc_conv_app_nth [of d "frame n c"] w(2) True by (simp add: frame_def)
    then have "wave b @ [frame_bit c (d div n)] = signal n (ps @ [(k, c)])" using w(4) by simp
    ultimately show ?thesis using hosts' d(1) s'(1)
      by (intro tick_rests [OF _ inv, where ps = "ps @ [(k, c)]" and k = 0]) simp_all
  next
    case False
    then have "Suc d < 10 * n" using w(2) by simp
    with hosts' d(1) s'(1) show ?thesis
      by (intro tick_within [OF _ inv _ w(5,6) s'(3) w(4)]) simp_all
  qed
qed

lemma bridgedE:
  assumes "bridged t0 n b"
  obtains (rests) ps txs where "hosts (link_of b) (map snd ps) txs" "resting n b ps"
    | (inside) ps k c d txs where "hosts (link_of b) (map snd ps @ [c]) txs" "within n b ps k c d"
  using assms unfolding bridged_def by blast

lemma bridge_tick_keeps:
  assumes "bridged t0 n b" "in_time t0 n b"
  shows "\<exists>b'. bridge_tick tx_pin b = Inr b' \<and> bridged t0 n b'"
  using assms(1) by (cases rule: bridgedE) (fact resting_tick [OF assms], fact within_tick [OF assms])

lemma listens_keeps:
  assumes inv: "bridged t0 n b" and os: "os_lossless os (link_of b)" "listen os (link_of b) = Inr s"
  shows "bridged t0 n (b\<lparr>link_of := s\<rparr>)"
proof -
  have *: "\<exists>txs'. hosts s bs txs' \<and> period (srv s) = period (srv (link_of b)) \<and> running (srv s) = Some True"
    if "hosts (link_of b) bs txs" for bs txs
    using listen_hosts [OF that os] listen_running [OF _ os(2)] that by (auto simp: hosts_def up_def)
  from inv show ?thesis
  proof (cases rule: bridgedE)
    case (rests ps txs)
    with * [OF rests(1)] inv show ?thesis
      unfolding bridged_def by (auto simp: resting_def)
  next
    case (inside ps k c d txs)
    from * [OF inside(1)] obtain txs' where h: "hosts s (map snd ps @ [c]) txs'" "period (srv s) = period (srv (link_of b))"
      "running (srv s) = Some True" by blast
    have "within n (b\<lparr>link_of := s\<rparr>) ps k c d" using inside(2) h by (auto simp: within_def clocked_def)
    with h inv show ?thesis unfolding bridged_def by (simp del: ex_simps) blast
  qed
qed

lemma bridge_reachable:
  assumes "bridge_step\<^sup>*\<^sup>* b b'" "bridged t0 n b" "in_time t0 n b'"
  shows "bridged t0 n b'"
  using assms
proof (induction rule: rtranclp_induct)
  case (step b1 b2)
  note time = bridge_step_in_time [OF step.hyps(2) step.prems(2)]
  note inv = step.IH [OF step.prems(1) time]
  from step.hyps(2) show ?case
  proof cases
    case (Tick tx_pin)
    with bridge_tick_keeps [OF inv time, of tx_pin] show ?thesis by simp
  next
    case (Listens os s)
    with listens_keeps [OF inv] show ?thesis by simp
  qed
qed

lemma opened_bridged:
  assumes start: "bindE (new_server True True nm per dbg) (Start p rv) = Inr v" "listen os (started v) = Inr s"
    and per: "0 < per" "unat per < 2 ^ 31" "t \<noteq> 0"
  shows "bridged t (2 * unat per) (opened s t)"
proof -
  have v: "rwq_holds (tx v) []" "rwq_holds (rx v) []" "period v = per"
    using start(1) default_queue_holds by (auto simp: new_server_eq Start_def Let_def fail_def split: if_splits)
  have s: "tx (srv s) = tx v" "rx (srv s) = rx v" "period (srv s) = per" "pc s = Accepting" "running (srv s) = Some True"
    "from_host s = []"
    using start(2) v(3) by (auto simp: listen_def started_def fail_def Let_def split: if_splits)
  have "hosts s (map snd []) []" using v s by (auto simp: hosts_def up_def)
  moreover have "resting (2 * unat per) (opened s t) []"
    by (simp add: resting_def opened_def send_idle_def uart_init_def)
  ultimately show ?thesis
    using per s(3) unfolding bridged_def by (auto simp: opened_def unat_gt_0 intro!: exI [of _ "[]"])
qed

subsection \<open>Properties\<close>

text \<open>
  C27. What a client sends comes out on the pin. In every interleaving of the thread with the calls of
  the simulation, when no allocation fails and no write is cut short, no call faults, and the pin has
  carried the bytes read from the socket, from the first one on and in order, each in a whole frame
  after a pause, the last one perhaps only in part; the other bytes are still in the queue or in the
  buffer of the thread.
\<close>

theorem uart_bridge:
  assumes "bindE (new_server True True nm per dbg) (Start p rv) = Inr v" "listen os (started v) = Inr s"
    "0 < per" "unat per < 2 ^ 31" "t \<noteq> 0" "bridge_step\<^sup>*\<^sup>* (opened s t) b"
    "unat t + length (wave b) + 20 * unat per < 2 ^ 64" "length (from_host (link_of b)) < 2 ^ 64 - 1"
  shows "(\<exists>ps k bs txs. from_host (link_of b) = bs @ txs @ in_cmd (pc (link_of b)) \<and>
      rwq_holds (tx (srv (link_of b))) txs \<and>
      (bs = map snd ps \<and> wave b = signal (2 * unat per) ps @ replicate k 1 \<or>
       (\<exists>c d. bs = map snd ps @ [c] \<and> 0 < d \<and> d < 20 * unat per \<and>
          wave b = signal (2 * unat per) ps @ replicate k 1 @ take d (frame (2 * unat per) c)))) \<and>
    (\<exists>b'. bridge_tick tx_pin b = Inr b')"
proof
  have time: "in_time t (2 * unat per) b" using assms(7,8) by (simp add: in_time_def)
  have inv: "bridged t (2 * unat per) b"
    by (rule bridge_reachable [OF assms(6) opened_bridged [OF assms(1-5)] time])
  show "\<exists>ps k bs txs. from_host (link_of b) = bs @ txs @ in_cmd (pc (link_of b)) \<and>
      rwq_holds (tx (srv (link_of b))) txs \<and>
      (bs = map snd ps \<and> wave b = signal (2 * unat per) ps @ replicate k 1 \<or>
       (\<exists>c d. bs = map snd ps @ [c] \<and> 0 < d \<and> d < 20 * unat per \<and>
          wave b = signal (2 * unat per) ps @ replicate k 1 @ take d (frame (2 * unat per) c)))"
    (is "\<exists>ps k bs txs. ?stream bs txs \<and> ?queue txs \<and> ?pin ps k bs")
    using inv
  proof (cases rule: bridgedE)
    case (rests ps txs)
    then obtain k where "?stream (map snd ps) txs" "?queue txs" "?pin ps k (map snd ps)"
      by (auto simp: hosts_def up_def resting_def)
    then show ?thesis by blast
  next
    case (inside ps k c d txs)
    then have "?stream (map snd ps @ [c]) txs" "?queue txs" "?pin ps k (map snd ps @ [c])"
      by (auto simp: hosts_def up_def within_def)
    then show ?thesis by blast
  qed
  show "\<exists>b'. bridge_tick tx_pin b = Inr b'" using bridge_tick_keeps [OF inv time] by blast
qed

text \<open>A client connects and sends a byte, and the simulation calls the server at the tick 2.\<close>

lemma example_bridge:
  "\<exists>s b. listen one_byte (started example_server) = Inr s \<and> bridge_step\<^sup>*\<^sup>* (opened s 2) b \<and>
     wave b = [0] \<and> from_host (link_of b) = [0x41]"
proof -
  let ?v = "example_server\<lparr>running := Some True, sockfd := Some 3\<rparr>"
  let ?s1 = "(started example_server)\<lparr>srv := ?v, pc := Accepting\<rparr>"
  let ?s3 = "?s1\<lparr>pc := Queueing [0x41], from_host := [0x41]\<rparr>"
  from rwq.enq_mem [OF default_queue_holds, of "0x41 :: u8"] obtain q where
    q: "enqueue True (0x41 :: u8) default_queue = Inr (True, q)" "rwq_holds q [0x41]" by auto
  from poll_Cons [OF q(2)] obtain q' where q': "poll q = Inr (Some 0x41, q')" by auto
  let ?s4 = "?s3\<lparr>srv := ?v\<lparr>tx := q\<rparr>, pc := Queueing [], queued := [0x41]\<rparr>"
  note eval = os_lossless_def os_ok_def one_byte_def quiet_def listen_def started_def example_server_def q(1)
  let ?b = "\<lambda>s. (opened ?s1 2)\<lparr>link_of := s\<rparr>"
  have start: "listen one_byte (started example_server) = Inr ?s1" by (simp add: eval)
  have "bridge_step (?b ?s1) (?b ?s1\<lparr>link_of := ?s1\<lparr>pc := Looping\<rparr>\<rparr>)"
    by (rule Listens [of one_byte]) (simp_all add: eval)
  moreover have "bridge_step (?b (?s1\<lparr>pc := Looping\<rparr>)) (?b (?s1\<lparr>pc := Looping\<rparr>)\<lparr>link_of := ?s3\<rparr>)"
    by (rule Listens [of one_byte]) (simp_all add: eval)
  moreover have "bridge_step (?b ?s3) (?b ?s3\<lparr>link_of := ?s4\<rparr>)"
    by (rule Listens [of one_byte]) (simp_all add: eval)
  moreover have "\<exists>b. bridge_tick 1 (?b ?s4) = Inr b \<and> wave b = [0] \<and> from_host (link_of b) = [0x41]"
    by (simp add: bridge_tick_def opened_def doUARTServer_def uart_receive_def uart_transmit_def uart_finish_def
        uart_init_def q' example_server_def)
  then obtain b where b: "bridge_tick 1 (?b ?s4) = Inr b" "wave b = [0]" "from_host (link_of b) = [0x41]" by blast
  ultimately have "bridge_step\<^sup>*\<^sup>* (?b ?s1) b"
    using Tick [OF b(1)] by simp
  moreover have "?b ?s1 = opened ?s1 2" by (simp add: opened_def)
  ultimately show ?thesis using start b(2,3) by metis
qed

theorem uart_bridge_witness:
  "\<exists>s b b'. listen one_byte (started example_server) = Inr s \<and> bridge_step\<^sup>*\<^sup>* (opened s 2) b \<and>
     wave b = [0] \<and> from_host (link_of b) = [0x41] \<and> bridge_tick 1 b = Inr b'"
proof -
  from example_bridge obtain s b where b: "listen one_byte (started example_server) = Inr s"
    "bridge_step\<^sup>*\<^sup>* (opened s 2) b" "wave b = [0]" "from_host (link_of b) = [0x41]" by blast
  have "0 < (8 :: u32)" "unat (8 :: u32) < 2 ^ 31" "(2 :: u64) \<noteq> 0" by simp_all
  from uart_bridge [OF example_server_starts b(1) this b(2), of 1] b show ?thesis by auto
qed

end
