(* ===== verification/Uart_Bridge_Back.thy ===== *)
theory Uart_Bridge_Back
  imports Uart_Bridge
begin

text \<open>
  The other direction of the bridge: what the design sends on \<open>tx_pin\<close> comes to the client.
\<close>

subsection \<open>Towards the client\<close>

text \<open>
  When \<open>tx_pin\<close> has carried whole frames, at even ticks, the machine is idle and has queued their
  bytes; within a frame it is where the bits so far have led it.
\<close>

definition even_pauses :: "(nat \<times> u8) list \<Rightarrow> bool" where
  "even_pauses ps \<longleftrightarrow> (\<forall>(k, c)\<in>set ps. even k)"

lemma even_pauses_snoc [simp]: "even_pauses [] " "even_pauses (ps @ [(k, c)]) \<longleftrightarrow> even_pauses ps \<and> even k"
  by (auto simp: even_pauses_def)

lemma even_signal: "even n \<Longrightarrow> even_pauses ps \<Longrightarrow> even (length (signal n ps))"
  by (induction ps rule: rev_induct) (auto simp: even_pauses_def)

definition hears :: "nat \<Rightarrow> bridge \<Rightarrow> bool" where
  "hears n b \<longleftrightarrow>
     (\<forall>ps k. probe b = signal n ps @ replicate k 1 \<and> even_pauses ps \<longrightarrow>
        recv_idle (uart_of b) \<and> serves (link_of b) (map snd ps)) \<and>
     (\<forall>ps k c d. probe b = signal n ps @ replicate k 1 @ take d (frame n c) \<and> even_pauses (ps @ [(k, c)]) \<and>
        0 < d \<and> d < 10 * n \<longrightarrow>
        (\<exists>t. tick b = t + of_nat d \<and> clocked t n (10 * n) (srv (link_of b)) \<and> recv_at t n c d (uart_of b)) \<and>
        serves (link_of b) (map snd ps @ (if 9 * n < d then [c] else [])))"

lemma hearsI:
  assumes "\<And>ps k. probe b = signal n ps @ replicate k 1 \<Longrightarrow> even_pauses ps \<Longrightarrow>
      recv_idle (uart_of b) \<and> serves (link_of b) (map snd ps)"
    and "\<And>ps k c d. probe b = signal n ps @ replicate k 1 @ take d (frame n c) \<Longrightarrow> even_pauses (ps @ [(k, c)]) \<Longrightarrow>
      0 < d \<Longrightarrow> d < 10 * n \<Longrightarrow>
      (\<exists>t. tick b = t + of_nat d \<and> clocked t n (10 * n) (srv (link_of b)) \<and> recv_at t n c d (uart_of b)) \<and>
      serves (link_of b) (map snd ps @ (if 9 * n < d then [c] else []))"
  shows "hears n b"
  using assms unfolding hears_def by blast

lemma hearsD:
  assumes "hears n b"
  shows "probe b = signal n ps @ replicate k 1 \<Longrightarrow> even_pauses ps \<Longrightarrow>
      recv_idle (uart_of b) \<and> serves (link_of b) (map snd ps)"
    "probe b = signal n ps @ replicate k 1 @ take d (frame n c) \<Longrightarrow> even_pauses (ps @ [(k, c)]) \<Longrightarrow> 0 < d \<Longrightarrow>
      d < 10 * n \<Longrightarrow>
      (\<exists>t. tick b = t + of_nat d \<and> clocked t n (10 * n) (srv (link_of b)) \<and> recv_at t n c d (uart_of b)) \<and>
      serves (link_of b) (map snd ps @ (if 9 * n < d then [c] else []))"
  using assms unfolding hears_def by blast+

lemma listening_tick:
  assumes "up s txs rxs" "recv_idle u" "bit_time (srv s) \<noteq> 0"
  shows "\<exists>u' t p ys. doUARTServer True now 1 lv u (srv s) = Inr (u', (srv s)\<lparr>rx := rx (srv s), tx := t\<rparr>, p) \<and>
    recv_idle u' \<and> rwq_holds t ys"
proof (cases "truth (now AND 1)")
  case True
  with assms show ?thesis
    by (intro exI [of _ u] exI [of _ "tx (srv s)"] exI [of _ lv] exI [of _ txs]) (simp add: odd_call up_def)
next
  case False
  have "uart_receive True now 1 u (srv s) = Inr (u, srv s)"
    using assms(2) by (simp add: uart_receive_def recv_idle_def)
  moreover have "rwq_holds (tx (srv s)) txs" using assms(1) by (simp add: up_def)
  from transmit_any [OF this assms(3), of now lv u] obtain u' u'' t ys p where
    t: "uart_transmit now lv u (srv s) = Inr (u', (srv s)\<lparr>tx := t\<rparr>, p)"
    "uart_finish now u' ((srv s)\<lparr>tx := t\<rparr>) = Inr u''" "rwq_holds t ys" "same_recv u u''" by blast
  moreover have "recv_idle u''" using assms(2) t(4) by (simp add: recv_idle_def same_recv_def)
  ultimately show ?thesis using False assms(1)
    by (intro exI [of _ u''] exI [of _ t] exI [of _ p] exI [of _ ys]) (simp add: doUARTServer_def up_def)
qed

lemma serves_queues:
  assumes "up s txs rxs" "rwq_holds t ys" "rwq_holds r (rxs @ zs)"
  shows "serves (s\<lparr>srv := (srv s)\<lparr>rx := r, tx := t\<rparr>\<rparr>) (to_host s @ in_resp (pc s) @ rxs @ zs)"
  using assms by (auto simp: serves_def up_def)

lemma hears_rest:
  assumes serves: "serves (link_of b) cs" and u: "recv_idle (uart_of b)" and bt: "bit_time (srv (link_of b)) \<noteq> 0"
    and tick: "bridge_tick 1 b = Inr b'"
  shows "recv_idle (uart_of b') \<and> serves (link_of b') cs" "tick b' = tick b + 1"
    "clocked t1 n len (srv (link_of b)) \<Longrightarrow> clocked t1 n len (srv (link_of b'))"
proof -
  from serves obtain txs rxs where up: "up (link_of b) txs rxs" and cs: "cs = to_host (link_of b) @ in_resp (pc (link_of b)) @ rxs"
    by (auto simp: serves_def)
  from listening_tick [OF up u bt, of "tick b" "level b"] obtain u' t p ys where
    d: "doUARTServer True (tick b) 1 (level b) (uart_of b) (srv (link_of b)) =
      Inr (u', (srv (link_of b))\<lparr>rx := rx (srv (link_of b)), tx := t\<rparr>, p)" "recv_idle u'" "rwq_holds t ys" by blast
  have "rwq_holds (rx (srv (link_of b))) (rxs @ [])" using up by (simp add: up_def)
  from serves_queues [OF up d(3) this] cs tick d(1,2) show "recv_idle (uart_of b') \<and> serves (link_of b') cs"
    by (auto simp: bridge_tick_def)
  show "tick b' = tick b + 1" "clocked t1 n len (srv (link_of b)) \<Longrightarrow> clocked t1 n len (srv (link_of b'))"
    using tick d(1) by (auto simp: bridge_tick_def clocked_def)
qed

lemma hears_bit:
  assumes serves: "serves (link_of b) cs" and at: "recv_at t1 n c d (uart_of b)" "tick b = t1 + of_nat d" "d \<le> 9 * n"
    and c: "clocked t1 n (10 * n) (srv (link_of b))" and tick: "bridge_tick (frame n c ! d) b = Inr b'"
  shows "tick b' = t1 + of_nat (Suc d) \<and> clocked t1 n (10 * n) (srv (link_of b')) \<and> recv_at t1 n c (Suc d) (uart_of b') \<and>
    serves (link_of b') (cs @ (if 9 * n < Suc d then [c] else []))"
proof -
  let ?s = "srv (link_of b)"
  from serves obtain txs rxs where up: "up (link_of b) txs rxs" and cs: "cs = to_host (link_of b) @ in_resp (pc (link_of b)) @ rxs"
    by (auto simp: serves_def)
  then have q: "rwq_holds (tx ?s) txs" "rwq_holds (rx ?s) rxs" by (simp_all add: up_def)
  have d: "d < 10 * n" using at(3) c by (simp add: clocked_def)
  have "receives ?s t1 n c rxs d (level b) (uart_of b) ?s"
    using receivesI [OF q(1) at(1), of "rx ?s" rxs ?s "level b"] q(2) at(3) by simp
  from receives_call [OF c order_refl d this] at(2) obtain u' s' p where
    call: "doUARTServer True (tick b) (frame n c ! d) (level b) (uart_of b) ?s = Inr (u', s', p)"
    "receives ?s t1 n c rxs (Suc d) p u' s'" by auto
  then obtain r t ys where s': "s' = ?s\<lparr>rx := r, tx := t\<rparr>" "rwq_holds t ys" "recv_at t1 n c (Suc d) u'"
    "rwq_holds r (rxs @ (if 9 * n < Suc d then [c] else []))" by (auto simp: receives_def split: if_splits)
  from serves_queues [OF up s'(2,4)] cs c call(1) s'(1,3) at(2) tick show ?thesis
    by (auto simp: bridge_tick_def clocked_def add.assoc add.commute)
qed

lemma hears_tick:
  assumes inv: "bridged t0 n b" and time: "in_time t0 n b" and hears: "hears n b" and even: "even (unat t0)"
    and len: "length (probe b) = length (wave b)" and tick: "bridge_tick x b = Inr b'"
  shows "hears n b'"
proof -
  have probe: "probe b' = probe b @ [x]" using tick by (auto simp: bridge_tick_def bindE_eq_Inr)
  from inv obtain bs txs where hosts: "hosts (link_of b) bs txs" by (rule bridgedE)
  note clock = bridge_clocked [OF inv time hosts]
  have n: "0 < n" "even n" using inv by (simp_all add: bridged_def)
  then have n2: "2 \<le> n" by presburger
  have last: "frame n c ! d = 1" if "9 * n \<le> d" "d < 10 * n" for c d
  proof -
    have "d div n = 9" using that by (intro div_nat_eqI) auto
    then show ?thesis using that by (simp add: frame_def frame_bit_def)
  qed
  have split: "probe b = ys @ take d (frame n c) \<and> x = frame n c ! d"
    if "probe b @ [x] = ys @ take (Suc d) (frame n c)" "d < 10 * n" for ys c d
    using that take_Suc_conv_app_nth [of d "frame n c"] by simp
  show ?thesis
  proof (rule hearsI, unfold probe, goal_cases)
    case (1 ps k)
    show ?case
    proof (cases k)
      case (Suc m)
      have "replicate k (1 :: u8) = replicate m 1 @ [1]" by (simp add: Suc replicate_append_same)
      with 1 have p: "probe b = signal n ps @ replicate m 1" "x = 1" by simp_all
      from hearsD(1) [OF hears p(1)] 1 have h: "recv_idle (uart_of b)" "serves (link_of b) (map snd ps)" by simp_all
      show ?thesis by (rule hears_rest(1) [OF h(2,1) clock(2)]) (use tick p(2) in simp)
    next
      case 0
      from 1 0 have ne: "ps \<noteq> []" by (cases ps) auto
      then obtain ps' j c where ps: "ps = ps' @ [(j, c)]" by (metis rev_exhaust surj_pair)
      have "Suc (10 * n - 1) = 10 * n" using n by simp
      then have "probe b @ [x] = (signal n ps' @ replicate j 1) @ take (Suc (10 * n - 1)) (frame n c)"
        using 1 0 by (simp add: ps)
      from split [OF this] n have p: "probe b = signal n ps' @ replicate j 1 @ take (10 * n - 1) (frame n c)"
        "x = frame n c ! (10 * n - 1)" by simp_all
      have d: "0 < 10 * n - 1" "10 * n - 1 < 10 * n" "9 * n < 10 * n - 1" using n2 by simp_all
      from hearsD(2) [OF hears p(1) _ d(1,2)] 1 d have h: "recv_idle (uart_of b)" "serves (link_of b) (map snd ps)"
        by (auto simp: ps recv_at_def)
      have "x = 1" using p(2) last [of "10 * n - 1" c] d by simp
      show ?thesis by (rule hears_rest(1) [OF h(2,1) clock(2)]) (use tick \<open>x = 1\<close> in simp)
    qed
  next
    case (2 ps k c d)
    then obtain e where e: "d = Suc e" "e < 10 * n" by (cases d) auto
    have "probe b @ [x] = (signal n ps @ replicate k 1) @ take (Suc e) (frame n c)" using 2 e by simp
    from split [OF this e(2)] have p: "probe b = signal n ps @ replicate k 1 @ take e (frame n c)"
      "x = frame n c ! e" by simp_all
    show ?case
    proof (cases "e = 0")
      case True
      then have p0: "probe b = signal n ps @ replicate k 1" using p by simp
      have "even (unat (tick b))"
      proof -
        have "even (length (probe b))" using even_signal [OF n(2), of ps] 2 p0 by simp
        moreover have "unat (tick b) = unat t0 + length (wave b)"
          using inv time by (simp add: bridged_def in_time_def unat_word_ariths unat_of_nat)
        ultimately show ?thesis using even len by simp
      qed
      note c = clock(1) [OF this]
      from hearsD(1) [OF hears p0] 2 have h: "recv_idle (uart_of b)" "serves (link_of b) (map snd ps)" by simp_all
      have "recv_at (tick b) n c 0 (uart_of b)" using h(1) by (simp add: recv_at_def)
      from hears_bit [OF h(2) this _ _ c, of b'] tick p(2) True n show ?thesis by (auto simp: e(1))
    next
      case False
      from hearsD(2) [OF hears p(1) _ _ e(2)] 2 False obtain t where h: "tick b = t + of_nat e"
        "clocked t n (10 * n) (srv (link_of b))" "recv_at t n c e (uart_of b)"
        "serves (link_of b) (map snd ps @ (if 9 * n < e then [c] else []))" by blast
      show ?thesis
      proof (cases "9 * n < e")
        case True
        then have u: "recv_idle (uart_of b)" "x = 1" using h(3) last [of e c] p(2) e(2) by (simp_all add: recv_at_def)
        from hears_rest [OF h(4) u(1) clock(2), of b'] tick u(2) have r: "recv_idle (uart_of b')"
          "serves (link_of b') (map snd ps @ (if 9 * n < e then [c] else []))" "tick b' = tick b + 1"
          "clocked t n (10 * n) (srv (link_of b'))" using h(2) by simp_all
        with True h(1) show ?thesis by (auto simp: e(1) recv_at_def add.assoc add.commute intro!: exI [of _ t])
      next
        case False
        from hears_bit [OF h(4,3,1) _ h(2), of b'] False tick p(2) show ?thesis by (auto simp: e(1))
      qed
    qed
  qed
qed

lemma hears_listens:
  assumes hears: "hears n b" and os: "os_lossless os (link_of b)" "listen os (link_of b) = Inr s"
  shows "hears n (b\<lparr>link_of := s\<rparr>)"
proof -
  have keep: "clocked t n len (srv s)" if "clocked t n len (srv (link_of b))" "serves (link_of b) cs" for t len cs
    using that listen_running [OF _ os(2)] by (auto simp: clocked_def serves_def up_def)
  show ?thesis
  proof (rule hearsI, goal_cases)
    case (1 ps k)
    with hearsD(1) [OF hears, of ps k] listen_serves [OF _ os] show ?case by simp
  next
    case (2 ps k c d)
    with hearsD(2) [OF hears, of ps k d c] listen_serves [OF _ os] keep show ?case by fastforce
  qed
qed

lemma hears_reachable:
  assumes "bridge_step\<^sup>*\<^sup>* b b'" "bridged t0 n b" "in_time t0 n b'" "even (unat t0)" "hears n b"
    "length (probe b) = length (wave b)"
  shows "hears n b' \<and> length (probe b') = length (wave b')"
  using assms
proof (induction rule: rtranclp_induct)
  case (step b1 b2)
  note time = bridge_step_in_time [OF step.hyps(2) step.prems(2)]
  note inv = bridge_reachable [OF step.hyps(1) step.prems(1) time]
  from step.IH [OF step.prems(1) time step.prems(3-5)] have IH: "hears n b1" "length (probe b1) = length (wave b1)"
    by simp_all
  from step.hyps(2) show ?case
  proof cases
    case (Tick tx_pin)
    with hears_tick [OF inv time IH(1) step.prems(3) IH(2)] IH(2) show ?thesis
      by (auto simp: bridge_tick_def bindE_eq_Inr)
  next
    case (Listens os s)
    with hears_listens [OF IH(1)] IH(2) show ?thesis by simp
  qed
qed simp

lemma opened_hears:
  assumes "bindE (new_server True True nm per dbg) (Start p rv) = Inr v" "listen os (started v) = Inr s" "0 < n"
  shows "hears n (opened s t)"
proof -
  have v: "rwq_holds (tx v) []" "rwq_holds (rx v) []"
    using assms(1) default_queue_holds by (auto simp: new_server_eq Start_def Let_def fail_def split: if_splits)
  have s: "tx (srv s) = tx v" "rx (srv s) = rx v" "pc s = Accepting" "running (srv s) = Some True" "to_host s = []"
    using assms(2) by (auto simp: listen_def started_def fail_def Let_def split: if_splits)
  have "serves s []" using v s by (auto simp: serves_def up_def)
  moreover have none: "ps = []" if "signal n ps = []" for ps
    using that assms(3) by (cases ps rule: rev_cases) (auto simp: frame_def)
  moreover have "take d (frame n c) \<noteq> []" if "0 < d" for d c
    using that assms(3) by (simp flip: length_greater_0_conv)
  ultimately show ?thesis
    by (intro hearsI) (auto simp: opened_def recv_idle_def uart_init_def dest: none)
qed

lemma bridge_ticks_run:
  assumes "bridged t0 n b" "unat t0 + length (wave b) + length xs + 10 * n < 2 ^ 64"
    "length (from_host (link_of b)) < 2 ^ 64 - 1"
  shows "\<exists>b'. bridge_step\<^sup>*\<^sup>* b b' \<and> probe b' = probe b @ xs \<and> length (wave b') = length (wave b) + length xs \<and>
    from_host (link_of b') = from_host (link_of b)"
  using assms
proof (induction xs arbitrary: b)
  case (Cons x xs)
  then have "in_time t0 n b" by (simp add: in_time_def)
  from bridge_tick_keeps [OF Cons.prems(1) this, of x] obtain b1 where b1: "bridge_tick x b = Inr b1" "bridged t0 n b1"
    by blast
  then have same: "probe b1 = probe b @ [x]" "length (wave b1) = Suc (length (wave b))"
    "from_host (link_of b1) = from_host (link_of b)" by (auto simp: bridge_tick_def bindE_eq_Inr)
  with Cons.IH [OF b1(2)] Cons.prems(2,3) obtain b' where "bridge_step\<^sup>*\<^sup>* b1 b'" "probe b' = probe b1 @ xs"
    "length (wave b') = length (wave b1) + length xs" "from_host (link_of b') = from_host (link_of b1)" by auto
  with Tick [OF b1(1)] same show ?case by (auto intro: converse_rtranclp_into_rtranclp)
qed auto

subsection \<open>Properties\<close>

text \<open>
  C28. What the design sends comes to the client. When \<open>tx_pin\<close> has carried bytes in frames that begin
  on even ticks, with pauses between them, and the frame of \<open>c\<close> is \<open>d\<close> ticks old, then the bytes written
  to the socket, those in the buffer of the thread and those in the queue are those bytes, in order;
  \<open>c\<close> is one of them from its stop bit on. This holds in every interleaving of the thread with the calls of the
  simulation, when no allocation fails and no write is cut short.
\<close>

theorem uart_bridge_back:
  assumes "bindE (new_server True True nm per dbg) (Start p rv) = Inr v" "listen os (started v) = Inr s"
    "0 < per" "unat per < 2 ^ 31" "t \<noteq> 0" "even (unat t)" "bridge_step\<^sup>*\<^sup>* (opened s t) b"
    "unat t + length (wave b) + 20 * unat per < 2 ^ 64" "length (from_host (link_of b)) < 2 ^ 64 - 1"
    "probe b = signal (2 * unat per) ps @ replicate k 1 @ take d (frame (2 * unat per) c)"
    "even_pauses (ps @ [(k, c)])" "d < 20 * unat per"
  shows "\<exists>rxs. rwq_holds (rx (srv (link_of b))) rxs \<and>
    to_host (link_of b) @ in_resp (pc (link_of b)) @ rxs = map snd ps @ (if 18 * unat per < d then [c] else [])"
proof -
  let ?n = "2 * unat per"
  have time: "in_time t ?n b" using assms(8,9) by (simp add: in_time_def)
  have "0 < ?n" using assms(3) by (simp add: unat_gt_0)
  from hears_reachable [OF assms(7) opened_bridged [OF assms(1-5)] time assms(6) opened_hears [OF assms(1,2) this]]
  have hears: "hears ?n b" by (simp add: opened_def)
  have "serves (link_of b) (map snd ps @ (if 9 * ?n < d then [c] else []))"
  proof (cases "d = 0")
    case True
    with hearsD(1) [OF hears, of ps k] assms(10,11) show ?thesis by simp
  next
    case False
    with hearsD(2) [OF hears assms(10,11)] assms(12) show ?thesis by simp
  qed
  then show ?thesis by (auto simp: serves_def up_def)
qed

theorem uart_bridge_back_witness:
  "\<exists>s b rxs. listen one_byte (started example_server) = Inr s \<and> bridge_step\<^sup>*\<^sup>* (opened s 2) b \<and>
     probe b = frame 16 0x41 \<and> rwq_holds (rx (srv (link_of b))) rxs \<and>
     to_host (link_of b) @ in_resp (pc (link_of b)) @ rxs = [0x41]"
proof -
  have per: "0 < (8 :: u32)" "unat (8 :: u32) < 2 ^ 31" "(2 :: u64) \<noteq> 0" by simp_all
  obtain s where s: "listen one_byte (started example_server) = Inr s" using example_bridge by blast
  note inv = opened_bridged [OF example_server_starts s per]
  have host: "from_host s = []"
    using s by (auto simp: listen_def started_def fail_def Let_def split: if_splits)
  with bridge_ticks_run [OF inv, of "frame 16 0x41"] obtain b where b: "bridge_step\<^sup>*\<^sup>* (opened s 2) b"
    "probe b = frame 16 0x41" "length (wave b) = 160" "from_host (link_of b) = []" by (auto simp: opened_def)
  have e: "probe b = signal (2 * unat (8 :: u32)) [(0, 0x41)] @ replicate 0 1 @ take 0 (frame (2 * unat (8 :: u32)) 0)"
    by (simp add: b(2) signal_def)
  have bounds: "even (unat (2 :: u64))" "unat (2 :: u64) + length (wave b) + 20 * unat (8 :: u32) < 2 ^ 64"
    "length (from_host (link_of b)) < 2 ^ 64 - 1" "even_pauses ([(0, 0x41)] @ [(0, 0)])" "0 < 20 * unat (8 :: u32)"
    by (simp_all add: b(3,4) even_pauses_def)
  from uart_bridge_back [OF example_server_starts s per bounds(1) b(1) bounds(2,3) e bounds(4,5)] s b(1,2)
  show ?thesis by fastforce
qed

end
