(* ===== verification/Bench.thy ===== *)
theory Bench
  imports Verilator_Utils_Correct
begin

text \<open>
  What the testbenches of \<open>ahb3lite_remote_bridge2/bench\<close> share: the ports of the design, a clock
  cycle, and the two ways to talk to the design, through a queue of requests and a queue of
  responses. The design itself, which Verilator generates from the SystemVerilog sources, is a
  parameter. An operation of a bench takes the bench and returns a result and the bench, or a
  fault; \<open>exit (-1)\<close> is the fault \<open>Exit\<close> without a message.
\<close>

subsection \<open>The ports and the bench\<close>

text \<open>
  The ports of the designs; a design has those its bench uses. For \<open>swd_phy\<close> the ports \<open>TCK\<close>,
  \<open>TMSIN\<close>, \<open>TMSOUT\<close> and \<open>TMSOE\<close> are called \<open>SWDCLK\<close>, \<open>SWDIN\<close>, \<open>SWDOUT\<close> and \<open>SWDOE\<close>. The ports
  with a leading \<open>N\<close> are those of a queue of words of up to 64 bits, the others those of a queue of
  wider words, which Verilator stores as 32-bit words; for \<open>debug_mux\<close> they have the prefixes
  \<open>ADIv5_\<close> and \<open>JTAG_\<close>. The record is extended by the state of the design.
\<close>

record top =
  RESETn :: u8
  CLK :: u8
  PHY_CLK :: u8
  PHY_CLKn :: u8
  ENABLE :: u8
  TCK :: u8
  TDI :: u8
  TDO :: u8
  TMS :: u8
  TMSIN :: u8
  TMSOUT :: u8
  TMSOE :: u8
  JTAGnSWD :: u8
  JTAG_DIRECT :: u8
  WRDATA :: "u32 \<times> u32 \<times> u32"
  WREN :: u8
  WRFULL :: u8
  RDDATA :: "u32 \<times> u32 \<times> u32"
  RDEN :: u8
  RDEMPTY :: u8
  NWRDATA :: u64
  NWREN :: u8
  NWRFULL :: u8
  NRDDATA :: u64
  NRDEN :: u8
  NRDEMPTY :: u8

text \<open>
  The bench: its base class, the design, and the static variable \<open>done\<close>, with the half cycles that
  have been, which index the world. What was printed, and which words were handed to the design,
  is recorded; no operation depends on it.
\<close>

record 'd tb =
  base :: utils
  design :: "'d top_scheme"
  stopped :: bool
  halves :: nat
  printed :: "(string \<times> u64 list) list"
  requests :: "(u32 \<times> u32 \<times> u32) list"
  nrequests :: "u64 list"

text \<open>
  The world: the design as a function on its ports and state, for every half cycle whether the
  design has called \<open>$finish\<close>, whether an interrupt has arrived, and how the exchange of the JTAG
  client with its server went, and whether the trace file is open at the end.
\<close>

record 'd world =
  eval :: "'d top_scheme \<Rightarrow> 'd top_scheme"
  finished :: "nat \<Rightarrow> bool"
  interrupt :: "nat \<Rightarrow> bool"
  transfer :: "nat \<Rightarrow> exchange"
  trace_open :: bool

subsection \<open>Sequences of operations\<close>

type_synonym ('b, 'x) op = "'b \<Rightarrow> ('x \<times> 'b) res"

definition bindS :: "('b, 'x) op \<Rightarrow> ('x \<Rightarrow> ('b, 'y) op) \<Rightarrow> ('b, 'y) op" where
  "bindS m f b = bindE (m b) (\<lambda>(x, b). f x b)"

definition returnS :: "'x \<Rightarrow> ('b, 'x) op" where
  "returnS x b = Inr (x, b)"

definition thenS :: "('b, 'x) op \<Rightarrow> ('b, 'y) op \<Rightarrow> ('b, 'y) op" where
  "thenS m n = bindS m (\<lambda>_. n)"

definition liftS :: "'x res \<Rightarrow> ('b, 'x) op" where
  "liftS r b = bindE r (\<lambda>x. Inr (x, b))"

text \<open>A block of statements.\<close>

primrec blockS :: "('b, unit) op list \<Rightarrow> ('b, unit) op" where
  "blockS [] = returnS ()"
| "blockS (m # ms) = thenS m (blockS ms)"

text \<open>\<open>for (i = 0; i < n; i++) ...\<close>, without and with a result for every \<open>i\<close>.\<close>

primrec repeatS :: "nat \<Rightarrow> ('b, unit) op \<Rightarrow> ('b, unit) op" where
  "repeatS 0 m = returnS ()"
| "repeatS (Suc n) m = thenS m (repeatS n m)"

primrec gatherS :: "nat \<Rightarrow> nat \<Rightarrow> (nat \<Rightarrow> ('b, 'x) op) \<Rightarrow> ('b, 'x list) op" where
  "gatherS 0 i m = returnS []"
| "gatherS (Suc n) i m = bindS (m i) (\<lambda>x. bindS (gatherS n (Suc i) m) (\<lambda>xs. returnS (x # xs)))"

text \<open>\<open>do ... while\<close>: the body tells whether it is run again. The fuel bounds the number of runs.\<close>

primrec do_while :: "nat \<Rightarrow> ('b, bool) op \<Rightarrow> ('b, unit) op" where
  "do_while 0 m = (\<lambda>b. Inl OutOfFuel)"
| "do_while (Suc fuel) m = bindS m (\<lambda>again. if again then do_while fuel m else returnS ())"

definition set_ports :: "('d top_scheme \<Rightarrow> 'd top_scheme) \<Rightarrow> ('d tb, unit) op" where
  "set_ports f b = Inr ((), b\<lparr>design := f (design b)\<rparr>)"

definition get_ports :: "('d top_scheme \<Rightarrow> 'x) \<Rightarrow> ('d tb, 'x) op" where
  "get_ports f b = Inr (f (design b), b)"

definition printf :: "string \<Rightarrow> u64 list \<Rightarrow> ('d tb, unit) op" where
  "printf label vs b = Inr ((), b\<lparr>printed := printed b @ [(label, vs)]\<rparr>)"

subsection \<open>A clock cycle\<close>

text \<open>
  How a bench is wired: the clocks it flips after the evaluation, what it passes to the JTAG client
  for \<open>tck\<close>, \<open>*tdo\<close>, \<open>tdi\<close>, \<open>*tms\<close> and \<open>tmsoe\<close>, and where \<open>tdo\<close> and \<open>tms\<close> point to.
\<close>

record 'd wiring =
  clocks :: "'d top_scheme \<Rightarrow> 'd top_scheme"
  client_in :: "'d top_scheme \<Rightarrow> u8 \<times> u8 \<times> u8 \<times> u8 \<times> u8"
  client_out :: "u8 \<Rightarrow> u8 \<Rightarrow> 'd top_scheme \<Rightarrow> 'd top_scheme"

definition lnot :: "u8 \<Rightarrow> u8" where
  "lnot w = (if w = 0 then 1 else 0)"

definition RESET_TIME :: u64 where
  "RESET_TIME = 10"

definition INTHandler :: "'d tb \<Rightarrow> 'd tb" where
  "INTHandler b = b\<lparr>stopped := True\<rparr>"

text \<open>\<open>if (!VerilatorUtils::doCycle() || done) exit (-1)\<close>; an interrupt may arrive before the test.\<close>

definition tick :: "'d world \<Rightarrow> ('d tb, unit) op" where
  "tick w b =
     bindE (doCycle (finished w (halves b)) (base b)) (\<lambda>(go, u).
       let b = b\<lparr>base := u, halves := halves b + 1\<rparr>;
           b = (if interrupt w (halves b) then INTHandler b else b)
       in if \<not> go \<or> stopped b then fail '''' else Inr ((), b))"

definition drive :: "'d wiring \<Rightarrow> 'd world \<Rightarrow> ('d tb, unit) op" where
  "drive k w b =
     (let t = design b;
          t = t\<lparr>RESETn := (if RESET_TIME < now (base b) then 1 else 0)\<rparr>;
          t = eval w t
      in Inr ((), b\<lparr>design := clocks k t\<rparr>))"

definition call_client :: "'d wiring \<Rightarrow> 'd world \<Rightarrow> ('d tb, unit) op" where
  "call_client k w b =
     (case client_in k (design b) of
        (ck, tdo, di, ms, oe) \<Rightarrow>
          bindE (utils_doJTAGClient (transfer w (halves b)) ck tdo di ms oe (base b)) (\<lambda>(tdo, ms, sent).
            Inr ((), b\<lparr>design := client_out k tdo ms (design b)\<rparr>)))"

text \<open>\<open>_doCycle\<close> and \<open>doCycle\<close>; both return true whenever they return.\<close>

definition half_cycle :: "'d wiring \<Rightarrow> 'd world \<Rightarrow> ('d tb, unit) op" where
  "half_cycle k w = thenS (tick w) (thenS (drive k w) (call_client k w))"

definition cycle :: "'d wiring \<Rightarrow> 'd world \<Rightarrow> ('d tb, unit) op" where
  "cycle k w = thenS (half_cycle k w) (half_cycle k w)"

subsection \<open>Requests and responses\<close>

text \<open>\<open>while (top->port) doCycle ()\<close>.\<close>

definition wait_while :: "'d wiring \<Rightarrow> 'd world \<Rightarrow> ('d top_scheme \<Rightarrow> u8) \<Rightarrow> nat \<Rightarrow> ('d tb, unit) op" where
  "wait_while k w busy fuel = do_while fuel
     (bindS (get_ports busy) (\<lambda>p.
        if truth p then thenS (cycle k w) (returnS True) else returnS False))"

text \<open>
  A request of either queue: wait until there is room, set the data and the enable for one cycle.
  And a response: wait until there is one, and set the enable for one cycle.
\<close>

definition push_wide :: "'d wiring \<Rightarrow> 'd world \<Rightarrow> nat \<Rightarrow> u32 \<times> u32 \<times> u32 \<Rightarrow> ('d tb, unit) op" where
  "push_wide k w fuel d = blockS
     [wait_while k w WRFULL fuel,
      set_ports (\<lambda>t. t\<lparr>WRDATA := d\<rparr>),
      set_ports (\<lambda>t. t\<lparr>WREN := 1\<rparr>),
      (\<lambda>b. Inr ((), b\<lparr>requests := requests b @ [WRDATA (design b)]\<rparr>)),
      cycle k w,
      set_ports (\<lambda>t. t\<lparr>WREN := 0\<rparr>)]"

definition pull_wide :: "'d wiring \<Rightarrow> 'd world \<Rightarrow> nat \<Rightarrow> ('d tb, unit) op" where
  "pull_wide k w fuel = blockS
     [wait_while k w RDEMPTY fuel,
      set_ports (\<lambda>t. t\<lparr>RDEN := 1\<rparr>),
      cycle k w,
      set_ports (\<lambda>t. t\<lparr>RDEN := 0\<rparr>)]"

definition push_narrow :: "'d wiring \<Rightarrow> 'd world \<Rightarrow> nat \<Rightarrow> u64 \<Rightarrow> ('d tb, unit) op" where
  "push_narrow k w fuel d = blockS
     [wait_while k w NWRFULL fuel,
      set_ports (\<lambda>t. t\<lparr>NWRDATA := d\<rparr>),
      set_ports (\<lambda>t. t\<lparr>NWREN := 1\<rparr>),
      (\<lambda>b. Inr ((), b\<lparr>nrequests := nrequests b @ [NWRDATA (design b)]\<rparr>)),
      cycle k w,
      set_ports (\<lambda>t. t\<lparr>NWREN := 0\<rparr>)]"

definition pull_narrow :: "'d wiring \<Rightarrow> 'd world \<Rightarrow> nat \<Rightarrow> ('d tb, unit) op" where
  "pull_narrow k w fuel = blockS
     [wait_while k w NRDEMPTY fuel,
      set_ports (\<lambda>t. t\<lparr>NRDEN := 1\<rparr>),
      cycle k w,
      set_ports (\<lambda>t. t\<lparr>NRDEN := 0\<rparr>)]"

subsection \<open>The frame of the main programs\<close>

text \<open>\<open>parse_args\<close>: \<open>opts\<close> are the options that argp finds in the arguments.\<close>

definition parse_args :: "'img opt_env \<Rightarrow> (opt_key \<times> string option) list \<Rightarrow> ('d tb, unit) op" where
  "parse_args env opts b = bindE (parse_all env opts (base b)) (\<lambda>u. Inr ((), b\<lparr>base := u\<rparr>))"

definition delete_tb :: "'d world \<Rightarrow> ('d tb, unit) op" where
  "delete_tb w b = bindE (delete_utils (trace_open w) (base b)) (\<lambda>(u, closed). Inr ((), b\<lparr>base := u\<rparr>))"

definition Enable :: "'d wiring \<Rightarrow> 'd world \<Rightarrow> ('d tb, unit) op" where
  "Enable k w = thenS (set_ports (\<lambda>t. t\<lparr>ENABLE := 1\<rparr>)) (cycle k w)"

definition Disable :: "'d wiring \<Rightarrow> 'd world \<Rightarrow> ('d tb, unit) op" where
  "Disable k w = thenS (set_ports (\<lambda>t. t\<lparr>ENABLE := 0\<rparr>)) (cycle k w)"

end
