(* ===== verification/Bench_Correct.thy ===== *)
theory Bench_Correct
  imports Bench
begin

text \<open>
  Two ways to reason about the operations of a bench: they end when the simulation has a timeout,
  and, when the design is ready and nothing stops the simulation, they return and hand the design
  the requests they should. Each comes with a collection of rules that follow the structure of an
  operation.
\<close>

subsection \<open>Runs that return\<close>

lemma bindS_Inr: "bindS m f b = Inr (y, b') \<longleftrightarrow> (\<exists>x b1. m b = Inr (x, b1) \<and> f x b1 = Inr (y, b'))"
  by (auto simp: bindS_def bindE_eq_Inr)

lemma thenS_Inr: "thenS m n b = Inr (y, b') \<longleftrightarrow> (\<exists>x b1. m b = Inr (x, b1) \<and> n b1 = Inr (y, b'))"
  by (simp add: thenS_def bindS_Inr)

lemma returnS_Inr: "returnS x b = Inr (y, b') \<longleftrightarrow> y = x \<and> b' = b"
  by (auto simp: returnS_def)

lemma liftS_Inr: "liftS r b = Inr (y, b') \<longleftrightarrow> r = Inr y \<and> b' = b"
  by (auto simp: liftS_def bindE_eq_Inr)

lemmas run_Inr = bindS_Inr thenS_Inr returnS_Inr liftS_Inr

lemma gatherS_length: "gatherS n i m b = Inr (xs, b') \<Longrightarrow> length xs = n"
  by (induction n arbitrary: i b xs) (auto simp: bindS_def returnS_def bindE_eq_Inr)

subsection \<open>Simulations that end\<close>

text \<open>
  An operation ends, in a simulation with the timeout \<open>T\<close>, if it does not run out of fuel, keeps
  the timeout, and never puts the time back; it moves on if it also takes at least a tick.
\<close>

definition queues_ok :: "server \<Rightarrow> bool" where
  "queues_ok s \<longleftrightarrow> (\<exists>xs ys. rwq_holds (rx s) xs \<and> rwq_holds (tx s) ys)"

definition servers_ok :: "utils \<Rightarrow> bool" where
  "servers_ok u \<longleftrightarrow> queues_ok (jtag_server u) \<and> queues_ok (uart_server u) \<and> queues_ok (gpio_server u)"

named_theorems ends_intros \<open>operations of a bench that end\<close>

definition timed :: "u64 \<Rightarrow> 'd tb \<Rightarrow> bool" where
  "timed T b \<longleftrightarrow> T \<noteq> 0 \<and> timeout (base b) = T \<and> servers_ok (base b)"

definition takes :: "nat \<Rightarrow> u64 \<Rightarrow> ('d tb, 'x) op \<Rightarrow> bool" where
  "takes n T m \<longleftrightarrow>
     (\<forall>b e. timed T b \<longrightarrow> m b = Inl e \<longrightarrow> e \<noteq> OutOfFuel) \<and>
     (\<forall>b x b'. timed T b \<longrightarrow> m b = Inr (x, b') \<longrightarrow>
        timed T b' \<and> unat (now (base b)) + n \<le> unat (now (base b')) \<and>
        (now (base b') = now (base b) \<or> now (base b') \<le> T))"

abbreviation tb_ends :: "u64 \<Rightarrow> ('d tb, 'x) op \<Rightarrow> bool" where
  "tb_ends \<equiv> takes 0"

lemma takesI:
  assumes "\<And>b e. timed T b \<Longrightarrow> m b = Inl e \<Longrightarrow> e \<noteq> OutOfFuel"
    and "\<And>b x b'. timed T b \<Longrightarrow> m b = Inr (x, b') \<Longrightarrow>
      timed T b' \<and> unat (now (base b)) + n \<le> unat (now (base b')) \<and>
      (now (base b') = now (base b) \<or> now (base b') \<le> T)"
  shows "takes n T m"
  using assms unfolding takes_def by blast

lemma takes_Inl: "takes n T m \<Longrightarrow> timed T b \<Longrightarrow> m b = Inl e \<Longrightarrow> e \<noteq> OutOfFuel"
  unfolding takes_def by blast

lemma takes_Inr:
  assumes "takes n T m" "timed T b" "m b = Inr (x, b')"
  shows "timed T b'" "unat (now (base b)) + n \<le> unat (now (base b'))"
    "now (base b') = now (base b) \<or> now (base b') \<le> T"
  using assms unfolding takes_def by blast+

lemma takes_mono: "takes n T m \<Longrightarrow> k \<le> n \<Longrightarrow> takes k T m"
  unfolding takes_def by (meson add_le_mono order_refl order_trans)

lemma takes_bindS:
  assumes m: "takes i T m" and f: "\<And>x. takes j T (f x)"
  shows "takes (i + j) T (bindS m f)"
proof (rule takesI)
  fix b e assume b: "timed T b" "bindS m f b = Inl e"
  show "e \<noteq> OutOfFuel"
  proof (cases "m b")
    case (Inl e')
    with takes_Inl [OF m b(1) Inl] b(2) show ?thesis by (simp add: bindS_def)
  next
    case (Inr r)
    obtain x b1 where r: "r = (x, b1)" by (cases r)
    with Inr b(2) have "f x b1 = Inl e" by (simp add: bindS_def)
    from takes_Inl [OF f takes_Inr(1) [OF m b(1) Inr [unfolded r]] this] show ?thesis .
  qed
next
  fix b y b' assume b: "timed T b" "bindS m f b = Inr (y, b')"
  then obtain x b1 where 1: "m b = Inr (x, b1)" "f x b1 = Inr (y, b')"
    by (auto simp: bindS_def bindE_eq_Inr)
  note t1 = takes_Inr [OF m b(1) 1(1)]
  note t2 = takes_Inr [OF f t1(1) 1(2)]
  from t1 t2 show "timed T b' \<and> unat (now (base b)) + (i + j) \<le> unat (now (base b')) \<and>
    (now (base b') = now (base b) \<or> now (base b') \<le> T)" by auto
qed

lemma takes_thenS: "takes i T m \<Longrightarrow> takes j T n \<Longrightarrow> takes (i + j) T (thenS m n)"
  unfolding thenS_def by (rule takes_bindS)

lemma ends_bindS [ends_intros]: "tb_ends T m \<Longrightarrow> (\<And>x. tb_ends T (f x)) \<Longrightarrow> tb_ends T (bindS m f)"
  using takes_bindS [of 0 T m 0 f] by simp

lemma ends_thenS [ends_intros]: "tb_ends T m \<Longrightarrow> tb_ends T n \<Longrightarrow> tb_ends T (thenS m n)"
  using takes_thenS [of 0 T m 0 n] by simp

lemma ends_returnS [ends_intros]: "tb_ends T (returnS x)"
  by (simp add: takes_def returnS_def)

lemma ends_blockS: "(\<And>m. m \<in> set ms \<Longrightarrow> tb_ends T m) \<Longrightarrow> tb_ends T (blockS ms)"
  by (induction ms) (auto intro: ends_intros)

lemma ends_blockS_list [ends_intros]: "list_all (tb_ends T) ms \<Longrightarrow> tb_ends T (blockS ms)"
  by (simp add: ends_blockS list_all_iff)

lemma ends_list_Nil [ends_intros]: "list_all (tb_ends T) []"
  and ends_list_Cons [ends_intros]: "tb_ends T m \<Longrightarrow> list_all (tb_ends T) ms \<Longrightarrow> list_all (tb_ends T) (m # ms)"
  by simp_all

lemma ends_repeatS [ends_intros]: "tb_ends T m \<Longrightarrow> tb_ends T (repeatS n m)"
  by (induction n) (auto intro: ends_intros)

lemma ends_gatherS [ends_intros]: "(\<And>i. tb_ends T (m i)) \<Longrightarrow> tb_ends T (gatherS n i m)"
  by (induction n arbitrary: i) (auto intro!: ends_intros)

lemma ends_set_ports [ends_intros]: "tb_ends T (set_ports f)"
  and ends_get_ports [ends_intros]: "tb_ends T (get_ports g)"
  and ends_printf [ends_intros]: "tb_ends T (printf l vs)"
  by (simp_all add: takes_def set_ports_def get_ports_def printf_def timed_def)

lemma ends_note [ends_intros]:
  "tb_ends T (\<lambda>b. Inr (x, b\<lparr>requests := f b\<rparr>))" "tb_ends T (\<lambda>b. Inr (x, b\<lparr>nrequests := g b\<rparr>))"
  "tb_ends T (\<lambda>b. Inr (x, b\<lparr>stopped := s b\<rparr>))"
  by (simp_all add: takes_def timed_def)

lemma ends_if [ends_intros]: "tb_ends T m \<Longrightarrow> tb_ends T n \<Longrightarrow> tb_ends T (if c then m else n)"
  by simp

lemma ends_case_prod [ends_intros]: "(\<And>x y. tb_ends T (f x y)) \<Longrightarrow> tb_ends T (case p of (x, y) \<Rightarrow> f x y)"
  by (cases p) simp

lemma ends_liftS [ends_intros]: "r \<noteq> Inl OutOfFuel \<Longrightarrow> tb_ends T (liftS r)"
  by (cases r) (auto simp: takes_def liftS_def)

text \<open>A half cycle takes one tick, and there is none at the timeout.\<close>

lemma doCycle_ticks:
  assumes "doCycle fin u = Inr (True, u')" "timeout u \<noteq> 0"
  shows "now u < timeout u" "now u' = now u + 1" "timeout u' = timeout u"
    "servers_ok u' = servers_ok u"
  using assms
  by (auto simp: doCycle_def fst_window_def call_fst_def bindE_eq_Inr Let_def not_le servers_ok_def
      split: if_splits option.splits)

lemma doCycle_faults: "doCycle fin u = Inl e \<Longrightarrow> e = UninitRead"
  by (auto simp: doCycle_def fst_window_def bindE_def Let_def split: if_splits option.splits sum.splits)

lemma client_faults: "utils_doJTAGClient x ck tdo di ms oe u = Inl e \<Longrightarrow> e \<noteq> OutOfFuel"
  by (auto simp: utils_doJTAGClient_def when_due_def on_period_def remainder_def doJTAGClient_def
      fail_def Let_def bindE_def split: if_splits sum.splits)

lemma next_tick: "(n :: u64) < T \<Longrightarrow> unat (n + 1) = unat n + 1"
proof -
  assume "n < T"
  then have "unat n < unat T" by (simp add: word_less_nat_alt)
  moreover have "unat T < 2 ^ 64" using unsigned_less [of T] by simp
  ultimately show ?thesis by (simp add: unat_word_ariths)
qed

lemma takes_tick: "takes 1 T (tick w)"
proof (rule takesI)
  fix b :: "'a tb" and e assume "tick w b = Inl e"
  then show "e \<noteq> OutOfFuel"
    by (auto simp: tick_def bindE_def Let_def fail_def dest: doCycle_faults split: sum.splits if_splits)
next
  fix b :: "'a tb" and x b' assume b: "timed T b" "tick w b = Inr (x, b')"
  then obtain u where u: "doCycle (finished w (halves b)) (base b) = Inr (True, u)" "base b' = u"
    by (auto simp: tick_def bindE_eq_Inr Let_def fail_def INTHandler_def split: if_splits)
  from doCycle_ticks [OF u(1)] b(1) u(2) next_tick [of "now (base b)" T]
  show "timed T b' \<and> unat (now (base b)) + 1 \<le> unat (now (base b')) \<and>
    (now (base b') = now (base b) \<or> now (base b') \<le> T)"
    by (auto simp: timed_def word_less_nat_alt word_le_nat_alt)
qed

lemma ends_drive [ends_intros]: "tb_ends T (drive k w)"
  by (simp add: takes_def drive_def timed_def Let_def)

lemma ends_call_client [ends_intros]: "tb_ends T (call_client k w)"
  by (auto simp: takes_def call_client_def timed_def bindE_eq_Inr bindE_def dest: client_faults
      split: prod.splits sum.splits)

lemma takes_half_cycle: "takes 1 T (half_cycle k w)"
  using takes_thenS [OF takes_tick ends_thenS [OF ends_drive ends_call_client]]
  by (simp add: half_cycle_def)

lemma takes_cycle: "takes 2 T (cycle k w)"
  using takes_thenS [OF takes_half_cycle takes_half_cycle] by (simp add: cycle_def numeral_2_eq_2)

lemma ends_cycle [ends_intros]: "tb_ends T (cycle k w)"
  using takes_cycle by (rule takes_mono) simp

text \<open>
  A fuel of more than the timeout is enough for a loop of which every run that is not the last
  takes a tick.
\<close>

definition moves :: "u64 \<Rightarrow> ('d tb, bool) op \<Rightarrow> bool" where
  "moves T m \<longleftrightarrow> tb_ends T m \<and>
     (\<forall>b b'. timed T b \<longrightarrow> m b = Inr (True, b') \<longrightarrow> now (base b) < now (base b'))"

lemma moves_takes: "takes (Suc n) T m \<Longrightarrow> moves T m"
  unfolding moves_def using takes_mono [of "Suc n" T m 0] takes_Inr(2) [of "Suc n" T m]
  by (fastforce simp: word_less_nat_alt)

lemma moves_wait: "moves T (bindS (get_ports busy) (\<lambda>p.
    if truth p then thenS (cycle k w) (returnS True) else returnS False))"
proof -
  have "takes (2 + 0) T (thenS (cycle k w) (returnS True))"
    by (intro takes_thenS takes_cycle ends_returnS)
  from takes_Inr(2) [OF this] show ?thesis
    by (fastforce simp: moves_def bindS_def get_ports_def returnS_def word_less_nat_alt
        intro!: ends_intros split: if_splits)
qed

lemma do_while_ends:
  assumes m: "moves T m" and b: "timed T b" "unat T - unat (now (base b)) < fuel"
  shows "(\<forall>e. do_while fuel m b = Inl e \<longrightarrow> e \<noteq> OutOfFuel) \<and>
    (\<forall>x b'. do_while fuel m b = Inr (x, b') \<longrightarrow> timed T b' \<and>
      unat (now (base b)) \<le> unat (now (base b')) \<and> (now (base b') = now (base b) \<or> now (base b') \<le> T))"
  using b
proof (induction fuel arbitrary: b)
  case (Suc fuel)
  from m have ends: "tb_ends T m" by (simp add: moves_def)
  show ?case
  proof (cases "m b")
    case (Inl e)
    with takes_Inl [OF ends Suc.prems(1) Inl] show ?thesis by (simp add: bindS_def)
  next
    case (Inr r)
    obtain x b1 where r: "r = (x, b1)" by (cases r)
    note t = takes_Inr [OF ends Suc.prems(1) Inr [unfolded r]]
    show ?thesis
    proof (cases x)
      case True
      with m Suc.prems(1) Inr r have "now (base b) < now (base b1)" by (auto simp: moves_def)
      with t(3) have less: "unat (now (base b)) < unat (now (base b1))" "unat (now (base b1)) \<le> unat T"
        by (auto simp: word_less_nat_alt word_le_nat_alt)
      with Suc.prems(2) have "unat T - unat (now (base b1)) < fuel" by linarith
      from Suc.IH [OF t(1) this] less Inr r True show ?thesis
        by (auto simp: bindS_def word_less_nat_alt word_le_nat_alt)
    next
      case False
      with Inr r t show ?thesis by (auto simp: bindS_def returnS_def)
    qed
  qed
qed simp

lemma ends_do_while [ends_intros]:
  assumes "moves T m" "unat T < fuel"
  shows "tb_ends T (do_while fuel m)"
proof (rule takesI)
  fix b :: "'a tb" assume "timed T b"
  from do_while_ends [OF assms(1) this, of fuel] assms(2)
  have *: "(\<forall>e. do_while fuel m b = Inl e \<longrightarrow> e \<noteq> OutOfFuel) \<and>
    (\<forall>x b'. do_while fuel m b = Inr (x, b') \<longrightarrow> timed T b' \<and>
      unat (now (base b)) \<le> unat (now (base b')) \<and> (now (base b') = now (base b) \<or> now (base b') \<le> T))"
    by simp
  from * show "do_while fuel m b = Inl e \<Longrightarrow> e \<noteq> OutOfFuel" for e by blast
  from * show "do_while fuel m b = Inr (x, b') \<Longrightarrow> timed T b' \<and>
      unat (now (base b)) + 0 \<le> unat (now (base b')) \<and> (now (base b') = now (base b) \<or> now (base b') \<le> T)" for x b'
    by simp
qed

lemma ends_wait_while [ends_intros]: "unat T < fuel \<Longrightarrow> tb_ends T (wait_while k w busy fuel)"
  unfolding wait_while_def by (intro ends_do_while moves_wait)

lemma ends_push_wide [ends_intros]: "unat T < fuel \<Longrightarrow> tb_ends T (push_wide k w fuel d)"
  and ends_push_narrow [ends_intros]: "unat T < fuel \<Longrightarrow> tb_ends T (push_narrow k w fuel e)"
  and ends_pull_wide [ends_intros]: "unat T < fuel \<Longrightarrow> tb_ends T (pull_wide k w fuel)"
  and ends_pull_narrow [ends_intros]: "unat T < fuel \<Longrightarrow> tb_ends T (pull_narrow k w fuel)"
  unfolding push_wide_def push_narrow_def pull_wide_def pull_narrow_def by (auto intro!: ends_intros)

lemma takes_push:
  assumes "unat T < fuel"
  shows "takes 2 T (push_wide k w fuel d)" "takes 2 T (push_narrow k w fuel e)"
proof -
  note parts = takes_thenS [OF ends_wait_while [OF assms]
      takes_thenS [OF ends_set_ports takes_thenS [OF ends_set_ports takes_thenS [OF ends_note(1)
      takes_thenS [OF takes_cycle takes_thenS [OF ends_set_ports ends_returnS]]]]]]
  note nparts = takes_thenS [OF ends_wait_while [OF assms]
      takes_thenS [OF ends_set_ports takes_thenS [OF ends_set_ports takes_thenS [OF ends_note(2)
      takes_thenS [OF takes_cycle takes_thenS [OF ends_set_ports ends_returnS]]]]]]
  show "takes 2 T (push_wide k w fuel d)" using parts by (simp add: push_wide_def numeral_2_eq_2)
  show "takes 2 T (push_narrow k w fuel e)" using nparts by (simp add: push_narrow_def numeral_2_eq_2)
qed

lemma moves_thenS: "takes 2 T m \<Longrightarrow> tb_ends T n \<Longrightarrow> moves T (thenS m n)"
  using takes_thenS [of 2 T m 0 n] moves_takes [of 1 T "thenS m n"] by (simp add: numeral_2_eq_2)

lemma ends_Enable [ends_intros]: "tb_ends T (Enable k w)"
  and ends_Disable [ends_intros]: "tb_ends T (Disable k w)"
  unfolding Enable_def Disable_def by (intro ends_intros)+

lemma delete_server_faults:
  assumes "queues_ok s" "delete_server s = Inl e"
  shows "e = UninitRead"
proof (cases "running s")
  case None
  with assms(2) show ?thesis by (simp add: delete_server_def Stop_def)
next
  case (Some r)
  from assms(1) obtain xs ys where "rwq_holds (rx s) xs" "rwq_holds (tx s) ys"
    by (auto simp: queues_ok_def)
  with destruct_correct obtain f1 f2 where "destruct (tx s) = Inr f1" "destruct (rx s) = Inr f2"
    unfolding rwq_holds_def by blast
  with assms(2) Some show ?thesis by (cases r) (auto simp: delete_server_def Stop_def)
qed

lemma ends_delete_tb [ends_intros]: "tb_ends T (delete_tb w)"
proof (rule takesI)
  fix b :: "'a tb" and e assume "timed T b" "delete_tb w b = Inl e"
  then show "e \<noteq> OutOfFuel"
    by (auto simp: delete_tb_def delete_utils_def close_dump_def call_fst_def timed_def servers_ok_def
        bindE_def Let_def dest: delete_server_faults split: sum.splits option.splits if_splits)
next
  fix b :: "'a tb" and x b' assume "timed T b" "delete_tb w b = Inr (x, b')"
  then show "timed T b' \<and> unat (now (base b)) + 0 \<le> unat (now (base b')) \<and>
      (now (base b') = now (base b) \<or> now (base b') \<le> T)"
    by (auto simp: delete_tb_def delete_utils_def close_dump_def call_fst_def timed_def servers_ok_def
        bindE_eq_Inr Let_def split: option.splits if_splits)
qed

lemma parse_args_result: "parse_args env opts b = Inr (x, b') \<Longrightarrow> \<exists>u. parse_all env opts (base b) = Inr u \<and> b' = b\<lparr>base := u\<rparr>"
  by (auto simp: parse_args_def bindE_eq_Inr)

subsection \<open>Operations of a steady simulation\<close>

text \<open>
  In a steady simulation nothing stops the bench: there is no timeout and no waveform, the design
  does not finish, no interrupt comes, the JTAG client is not connected, and the design always has
  room for a request and a response to hand out.
\<close>

definition ready :: "'d top_scheme \<Rightarrow> bool" where
  "ready t \<longleftrightarrow> WRFULL t = 0 \<and> RDEMPTY t = 0 \<and> NWRFULL t = 0 \<and> NRDEMPTY t = 0"

definition steady_base :: "utils \<Rightarrow> bool" where
  "steady_base u \<longleftrightarrow> fstDumping u = Some False \<and> \<not> fstDump u \<and> fstDumpStop u = 0 \<and> timeout u = 0 \<and>
     \<not> jtagClientEnable u"

definition steady_world :: "'d world \<Rightarrow> bool" where
  "steady_world w \<longleftrightarrow> (\<forall>i. \<not> finished w i \<and> \<not> interrupt w i) \<and> (\<forall>t. ready t \<longrightarrow> ready (eval w t))"

definition steady :: "'d tb \<Rightarrow> bool" where
  "steady b \<longleftrightarrow> steady_base (base b) \<and> ready (design b) \<and> \<not> stopped b"

definition wired :: "'d wiring \<Rightarrow> bool" where
  "wired k \<longleftrightarrow> (\<forall>t. ready (clocks k t) = ready t) \<and> (\<forall>tdo ms t. ready (client_out k tdo ms t) = ready t)"

text \<open>
  An operation does the requests \<open>rs\<close> and \<open>ns\<close> of the two queues if it returns, steady again, with
  these requests handed to the design in this order, and with a result and a bench as \<open>P\<close> says.
\<close>

named_theorems does_intros \<open>operations of a bench that do their requests\<close>

definition does ::
  "('d tb, 'x) op \<Rightarrow> (u32 \<times> u32 \<times> u32) list \<Rightarrow> u64 list \<Rightarrow> ('x \<Rightarrow> 'd tb \<Rightarrow> bool) \<Rightarrow> bool" where
  "does m rs ns P \<longleftrightarrow> (\<forall>b. steady b \<longrightarrow> (\<exists>x b'. m b = Inr (x, b') \<and> steady b' \<and>
     requests b' = requests b @ rs \<and> nrequests b' = nrequests b @ ns \<and> P x b'))"

abbreviation anything :: "'x \<Rightarrow> 'd tb \<Rightarrow> bool" where
  "anything \<equiv> \<lambda>x b. True"

lemma doesD:
  assumes "does m rs ns P" "steady b"
  obtains x b' where "m b = Inr (x, b')" "steady b'" "requests b' = requests b @ rs"
    "nrequests b' = nrequests b @ ns" "P x b'"
  using assms unfolding does_def by blast

lemma does_weaken: "does m rs ns P \<Longrightarrow> (\<And>x b. P x b \<Longrightarrow> Q x b) \<Longrightarrow> does m rs ns Q"
  unfolding does_def by blast

lemma does_bindS:
  assumes "does m rs ns P" "\<And>x. does (f x) rs' ns' Q"
  shows "does (bindS m f) (rs @ rs') (ns @ ns') Q"
  unfolding does_def
proof (intro allI impI)
  fix b :: "'a tb" assume "steady b"
  with assms(1) obtain x b1 where 1: "m b = Inr (x, b1)" "steady b1" "requests b1 = requests b @ rs"
    "nrequests b1 = nrequests b @ ns" by (rule doesD)
  from assms(2) 1(2) obtain y b' where "f x b1 = Inr (y, b')" "steady b'"
    "requests b' = requests b1 @ rs'" "nrequests b' = nrequests b1 @ ns'" "Q y b'" by (rule doesD)
  with 1 show "\<exists>x b'. bindS m f b = Inr (x, b') \<and> steady b' \<and> requests b' = requests b @ (rs @ rs') \<and>
      nrequests b' = nrequests b @ (ns @ ns') \<and> Q x b'" by (simp add: bindS_def)
qed

lemma does_thenS: "does m rs ns P \<Longrightarrow> does n rs' ns' Q \<Longrightarrow> does (thenS m n) (rs @ rs') (ns @ ns') Q"
  unfolding thenS_def by (rule does_bindS)

lemma does_silent_thenS [does_intros]: "does m [] [] anything \<Longrightarrow> does n rs ns Q \<Longrightarrow> does (thenS m n) rs ns Q"
  using does_thenS [of m "[]" "[]" anything n rs ns Q] by simp

lemma does_returnS [does_intros]: "does (returnS x) [] [] anything"
  by (simp add: does_def returnS_def)

lemma does_result:
  assumes "does m rs ns P"
  shows "does (bindS m (\<lambda>x. returnS (f x))) rs ns (\<lambda>y b. \<exists>x. y = f x \<and> P x b)"
  using assms unfolding does_def bindS_def returnS_def by fastforce

lemma does_printf [does_intros]: "does (printf l vs) [] [] anything"
  by (simp add: does_def printf_def steady_def)

lemma does_set_ports [does_intros]: "(\<And>t. ready (f t) = ready t) \<Longrightarrow> does (set_ports f) [] [] anything"
  by (simp add: does_def set_ports_def steady_def)

lemma does_repeatS [does_intros]: "does m [] [] anything \<Longrightarrow> does (repeatS n m) [] [] anything"
  by (induction n) (auto intro: does_intros)

lemma does_tick [does_intros]: "steady_world w \<Longrightarrow> does (tick w) [] [] anything"
  by (simp add: does_def tick_def steady_def steady_world_def steady_base_def doCycle_def fst_window_def
      Let_def)

lemma does_drive [does_intros]: "steady_world w \<Longrightarrow> wired k \<Longrightarrow> does (drive k w) [] [] anything"
  by (simp add: does_def drive_def steady_def steady_world_def wired_def ready_def Let_def)

lemma does_call_client [does_intros]: "wired k \<Longrightarrow> does (call_client k w) [] [] anything"
  by (auto simp: does_def call_client_def steady_def steady_base_def wired_def utils_doJTAGClient_def
      when_due_def split: prod.splits)

lemma does_cycle [does_intros]: "steady_world w \<Longrightarrow> wired k \<Longrightarrow> does (cycle k w) [] [] anything"
  unfolding cycle_def half_cycle_def by (intro does_intros)

lemma ready_port: "steady b \<Longrightarrow> busy \<in> {WRFULL, RDEMPTY, NWRFULL, NRDEMPTY} \<Longrightarrow> busy (design b) = 0"
  by (auto simp: steady_def ready_def)

lemma does_wait_while [does_intros]:
  assumes "busy \<in> {WRFULL, RDEMPTY, NWRFULL, NRDEMPTY}" "0 < fuel"
  shows "does (wait_while k w busy fuel) [] [] anything"
  using assms ready_port [OF _ assms(1)]
  by (cases fuel) (auto simp: does_def wait_while_def bindS_def get_ports_def returnS_def)

lemma ready_update [simp]:
  "ready (t\<lparr>WREN := v\<rparr>) = ready t" "ready (t\<lparr>RDEN := v\<rparr>) = ready t"
  "ready (t\<lparr>NWREN := v\<rparr>) = ready t" "ready (t\<lparr>NRDEN := v\<rparr>) = ready t"
  "ready (t\<lparr>WRDATA := d\<rparr>) = ready t" "ready (t\<lparr>NWRDATA := n\<rparr>) = ready t"
  "ready (t\<lparr>ENABLE := v\<rparr>) = ready t" "ready (t\<lparr>JTAGnSWD := v\<rparr>) = ready t"
  "ready (t\<lparr>JTAG_DIRECT := v\<rparr>) = ready t" "ready (t\<lparr>CLK := v\<rparr>) = ready t"
  "ready (t\<lparr>PHY_CLK := v\<rparr>) = ready t" "ready (t\<lparr>PHY_CLKn := v\<rparr>) = ready t"
  "ready (t\<lparr>TDO := v\<rparr>) = ready t" "ready (t\<lparr>TMS := v\<rparr>) = ready t"
  "ready (t\<lparr>TMSIN := v\<rparr>) = ready t" "ready (t\<lparr>TMSOUT := v\<rparr>) = ready t"
  by (simp_all add: ready_def)

lemma does_push_wide:
  assumes "steady_world w" "wired k" "0 < fuel"
  shows "does (push_wide k w fuel d) [d] [] anything"
proof -
  let ?put = "\<lambda>b. Inr ((), b\<lparr>requests := requests b @ [WRDATA (design b)]\<rparr>)"
  have "does (thenS (set_ports (\<lambda>t. t\<lparr>WRDATA := d\<rparr>)) (thenS (set_ports (\<lambda>t. t\<lparr>WREN := 1\<rparr>)) ?put)) [d] [] anything"
    by (simp add: does_def thenS_def bindS_def set_ports_def steady_def)
  note put = does_thenS [OF this]
  have "does (thenS (cycle k w) (thenS (set_ports (\<lambda>t. t\<lparr>WREN := 0\<rparr>)) (returnS ()))) [] [] anything"
    using assms by (intro does_intros) auto
  note put [OF this]
  moreover have "blockS [set_ports (\<lambda>t. t\<lparr>WRDATA := d\<rparr>), set_ports (\<lambda>t. t\<lparr>WREN := 1\<rparr>), ?put, cycle k w,
      set_ports (\<lambda>t. t\<lparr>WREN := 0\<rparr>)] =
    thenS (thenS (set_ports (\<lambda>t. t\<lparr>WRDATA := d\<rparr>)) (thenS (set_ports (\<lambda>t. t\<lparr>WREN := 1\<rparr>)) ?put))
      (thenS (cycle k w) (thenS (set_ports (\<lambda>t. t\<lparr>WREN := 0\<rparr>)) (returnS ())))"
    by (rule ext) (simp add: thenS_def bindS_def set_ports_def)
  ultimately show ?thesis
    unfolding push_wide_def blockS.simps(2) [of "wait_while k w WRFULL fuel"] using assms(3)
    by (intro does_silent_thenS does_wait_while) simp_all
qed

lemma does_push_narrow:
  assumes "steady_world w" "wired k" "0 < fuel"
  shows "does (push_narrow k w fuel d) [] [d] anything"
proof -
  let ?put = "\<lambda>b. Inr ((), b\<lparr>nrequests := nrequests b @ [NWRDATA (design b)]\<rparr>)"
  have "does (thenS (set_ports (\<lambda>t. t\<lparr>NWRDATA := d\<rparr>)) (thenS (set_ports (\<lambda>t. t\<lparr>NWREN := 1\<rparr>)) ?put)) [] [d] anything"
    by (simp add: does_def thenS_def bindS_def set_ports_def steady_def)
  note put = does_thenS [OF this]
  have "does (thenS (cycle k w) (thenS (set_ports (\<lambda>t. t\<lparr>NWREN := 0\<rparr>)) (returnS ()))) [] [] anything"
    using assms by (intro does_intros) auto
  note put [OF this]
  moreover have "blockS [set_ports (\<lambda>t. t\<lparr>NWRDATA := d\<rparr>), set_ports (\<lambda>t. t\<lparr>NWREN := 1\<rparr>), ?put, cycle k w,
      set_ports (\<lambda>t. t\<lparr>NWREN := 0\<rparr>)] =
    thenS (thenS (set_ports (\<lambda>t. t\<lparr>NWRDATA := d\<rparr>)) (thenS (set_ports (\<lambda>t. t\<lparr>NWREN := 1\<rparr>)) ?put))
      (thenS (cycle k w) (thenS (set_ports (\<lambda>t. t\<lparr>NWREN := 0\<rparr>)) (returnS ())))"
    by (rule ext) (simp add: thenS_def bindS_def set_ports_def)
  ultimately show ?thesis
    unfolding push_narrow_def blockS.simps(2) [of "wait_while k w NWRFULL fuel"] using assms(3)
    by (intro does_silent_thenS does_wait_while) simp_all
qed

lemma does_pull_wide [does_intros]: "steady_world w \<Longrightarrow> wired k \<Longrightarrow> 0 < fuel \<Longrightarrow> does (pull_wide k w fuel) [] [] anything"
  and does_pull_narrow [does_intros]: "steady_world w \<Longrightarrow> wired k \<Longrightarrow> 0 < fuel \<Longrightarrow> does (pull_narrow k w fuel) [] [] anything"
  unfolding pull_wide_def pull_narrow_def blockS.simps by (auto intro!: does_intros)

text \<open>A port read after an operation, and what is made of it.\<close>

lemma does_read:
  assumes "does m [] [] anything"
  shows "does (thenS m (bindS (get_ports pin) (\<lambda>d. returnS (f d)))) [] [] (\<lambda>x b. x = f (pin (design b)))"
  unfolding does_def
proof (intro allI impI)
  fix b :: "'a tb" assume "steady b"
  with assms obtain x b' where "m b = Inr (x, b')" "steady b'" "requests b' = requests b @ []"
    "nrequests b' = nrequests b @ []" by (rule doesD)
  then show "\<exists>x b'. thenS m (bindS (get_ports pin) (\<lambda>d. returnS (f d))) b = Inr (x, b') \<and> steady b' \<and>
      requests b' = requests b @ [] \<and> nrequests b' = nrequests b @ [] \<and> x = f (pin (design b'))"
    by (simp add: thenS_def bindS_def get_ports_def returnS_def)
qed

text \<open>What is known of the ports is kept when others are set.\<close>

lemma does_keep:
  assumes "does m rs ns (\<lambda>x b. P (design b))" "\<And>t. ready (f t) = ready t" "\<And>t. P t \<Longrightarrow> P (f t)"
  shows "does (thenS m (thenS (set_ports f) (returnS ()))) rs ns (\<lambda>x b. P (design b))"
  unfolding does_def
proof (intro allI impI)
  fix b :: "'a tb" assume "steady b"
  with assms(1) obtain x b1 where 1: "m b = Inr (x, b1)" "steady b1" "requests b1 = requests b @ rs"
    "nrequests b1 = nrequests b @ ns" "P (design b1)" by (rule doesD)
  with assms(2,3) show "\<exists>x b'. thenS m (thenS (set_ports f) (returnS ())) b = Inr (x, b') \<and> steady b' \<and>
      requests b' = requests b @ rs \<and> nrequests b' = nrequests b @ ns \<and> P (design b')"
    by (simp add: thenS_def bindS_def set_ports_def returnS_def steady_def)
qed

text \<open>What is printed does not matter.\<close>

lemma does_report:
  assumes "does m rs ns (\<lambda>x b. P x (design b))"
  shows "does (bindS m (\<lambda>x. thenS (if c x then printf (l x) (vs x) else returnS ()) (returnS (f x)))) rs ns
    (\<lambda>y b. \<exists>x. y = f x \<and> P x (design b))"
  unfolding does_def
proof (intro allI impI)
  fix b :: "'a tb" assume "steady b"
  with assms obtain x b1 where 1: "m b = Inr (x, b1)" "steady b1" "requests b1 = requests b @ rs"
    "nrequests b1 = nrequests b @ ns" "P x (design b1)" by (rule doesD)
  then show "\<exists>y b'. bindS m (\<lambda>x. thenS (if c x then printf (l x) (vs x) else returnS ()) (returnS (f x))) b = Inr (y, b') \<and>
      steady b' \<and> requests b' = requests b @ rs \<and> nrequests b' = nrequests b @ ns \<and> (\<exists>x. y = f x \<and> P x (design b'))"
    by (intro exI [of _ "f x"] exI [of _ "if c x then b1\<lparr>printed := printed b1 @ [(l x, vs x)]\<rparr> else b1"])
      (auto simp: bindS_def thenS_def printf_def returnS_def steady_def)
qed

subsection \<open>A design for examples\<close>

text \<open>A design that is always ready and does nothing, with the response \<open>r\<close> of the one queue and \<open>n\<close> of the other.\<close>

definition idle_top :: "u32 \<times> u32 \<times> u32 \<Rightarrow> u64 \<Rightarrow> top" where
  "idle_top r n = \<lparr>RESETn = 0, CLK = 0, PHY_CLK = 0, PHY_CLKn = 0, ENABLE = 0, TCK = 0, TDI = 0, TDO = 0,
     TMS = 0, TMSIN = 0, TMSOUT = 0, TMSOE = 0, JTAGnSWD = 0, JTAG_DIRECT = 0,
     WRDATA = (0, 0, 0), WREN = 0, WRFULL = 0, RDDATA = r, RDEN = 0, RDEMPTY = 0,
     NWRDATA = 0, NWREN = 0, NWRFULL = 0, NRDDATA = n, NRDEN = 0, NRDEMPTY = 0\<rparr>"

definition idle_world :: "unit world" where
  "idle_world = \<lparr>eval = (\<lambda>t. t), finished = (\<lambda>_. False), interrupt = (\<lambda>_. False),
     transfer = (\<lambda>_. \<lparr>write1 = 1, write2 = 1, read_n = 1, read_byte = 0x30\<rparr>), trace_open = False\<rparr>"

definition idle_tb :: "u32 \<times> u32 \<times> u32 \<Rightarrow> u64 \<Rightarrow> u64 \<Rightarrow> unit tb" where
  "idle_tb r n T = \<lparr>base = example_utils\<lparr>fstDump := False, fstDumpStop := 0, timeout := T\<rparr>,
     design = idle_top r n, stopped = False, halves = 0, printed = [], requests = [], nrequests = []\<rparr>"

lemma steady_idle_world [simp]: "steady_world idle_world"
  by (simp add: steady_world_def idle_world_def)

lemma steady_idle_tb [simp]: "steady (idle_tb r n 0)"
  by (simp add: steady_def idle_tb_def steady_base_def ready_def idle_top_def example_utils_def new_utils_def
      new_jtag_server_def new_uart_server_def new_gpio_server_def new_server_eq)

lemma servers_ok_idle [simp]: "servers_ok (base (idle_tb r n T))"
  using default_queue_holds
  by (auto simp: servers_ok_def queues_ok_def idle_tb_def example_utils_def new_utils_def
      new_jtag_server_def new_uart_server_def new_gpio_server_def new_server_eq)

lemma idle_tb_simps [simp]:
  "timeout (base (idle_tb r n T)) = T" "requests (idle_tb r n T) = []" "nrequests (idle_tb r n T) = []"
  by (simp_all add: idle_tb_def)

lemma parse_no_args [simp]: "parse_args env [] b = Inr ((), b)"
  by (simp add: parse_args_def)

end
