(* ===== verification/Jtag_Phy_Bench.thy ===== *)
theory Jtag_Phy_Bench
  imports Bench_Correct
begin

text \<open>
  The bench of the JTAG phy (\<open>ahb3lite_remote_bridge2/bench/jtag_phy_tb.cpp\<close>): requests to shift
  up to 4095 bits into the data or the instruction register of a scan chain, the responses, and on
  top of them the accesses to the registers of a debug port and its access ports.
\<close>

subsection \<open>Requests and responses\<close>

definition jtag_phy_wiring :: "'d wiring" where
  "jtag_phy_wiring =
     \<lparr>clocks = (\<lambda>t. let t = t\<lparr>CLK := lnot (CLK t)\<rparr> in t\<lparr>PHY_CLK := lnot (PHY_CLK t)\<rparr>),
      client_in = (\<lambda>t. (TCK t, TDO t, TDI t, TMS t, 1)),
      client_out = (\<lambda>tdo ms t. t\<lparr>TDO := tdo, TMS := ms\<rparr>)\<rparr>"

definition CMD_DR_WRITE :: u8 where "CMD_DR_WRITE = 0"
definition CMD_DR_READ :: u8 where "CMD_DR_READ = 1"
definition CMD_DR_WRITE_AUTO :: u8 where "CMD_DR_WRITE_AUTO = 2"
definition CMD_IR_WRITE :: u8 where "CMD_IR_WRITE = 4"
definition CMD_IR_READ :: u8 where "CMD_IR_READ = 5"
definition CMD_IR_WRITE_AUTO :: u8 where "CMD_IR_WRITE_AUTO = 6"

text \<open>The words of a request: 3 bits of command, 12 bits of length and 64 bits of data.\<close>

definition pack_request :: "u8 \<Rightarrow> u32 \<Rightarrow> u64 \<Rightarrow> u32 \<times> u32 \<times> u32" where
  "pack_request cmd len data =
     (let w0 = ucast (cmd AND 7);
          w0 = w0 OR push_bit 3 (len AND 0xfff);
          w0 = w0 OR ucast (push_bit 15 (data AND 0x1ffff));
          w1 = ucast (drop_bit 17 data AND 0xffffffff);
          w2 = ucast (drop_bit 49 data AND 0x7fff)
      in (w0, w1, w2))"

record jtag_resp =
  resp_len :: u8
  resp_data :: u64

text \<open>The words of a response: 6 bits of length, and the data left justified in 64 bits.\<close>

definition unpack_response :: "u32 \<times> u32 \<times> u32 \<Rightarrow> jtag_resp" where
  "unpack_response = (\<lambda>(r0, r1, r2).
     let len = ucast (r0 AND 0x3f) :: u8;
         len = (if len = 0 then 64 else len);
         data = ucast (drop_bit 6 r0) OR push_bit 26 (ucast r1) OR push_bit 58 (ucast r2 AND 0x3f) :: u64
     in \<lparr>resp_len = len, resp_data = drop_bit (64 - unat len) data\<rparr>)"

definition SendReq :: "'d wiring \<Rightarrow> 'd world \<Rightarrow> nat \<Rightarrow> u8 \<Rightarrow> u32 \<Rightarrow> u64 \<Rightarrow> ('d tb, unit) op" where
  "SendReq k w fuel cmd len data = push_wide k w fuel (pack_request cmd len data)"

definition GetResp :: "'d wiring \<Rightarrow> 'd world \<Rightarrow> nat \<Rightarrow> ('d tb, jtag_resp) op" where
  "GetResp k w fuel =
     thenS (pull_wide k w fuel) (bindS (get_ports RDDATA) (\<lambda>d. returnS (unpack_response d)))"

definition dump_resp :: "jtag_resp \<Rightarrow> ('d tb, unit) op" where
  "dump_resp resp = printf ''[%d] %08X%08X''
     [ucast (resp_len resp), drop_bit 32 (resp_data resp) AND 0xffffffff, resp_data resp AND 0xffffffff]"

subsection \<open>The scan chain\<close>

definition MAX_IR_LEN :: nat where "MAX_IR_LEN = 384"

text \<open>\<open>for (...; i < n; i++) if (dr[i>>6] & (1 << (i & 0x3f))) break\<close>, with \<open>k\<close> tests left.\<close>

primrec first_set :: "nat \<Rightarrow> nat \<Rightarrow> u64 list \<Rightarrow> nat res" where
  "first_set 0 i dr = Inr i"
| "first_set (Suc k) i dr =
     (if i div 64 < length dr then
        bindE (shl_int (i mod 64)) (\<lambda>m. if truth (dr ! (i div 64) AND m) then Inr i else first_set k (Suc i) dr)
      else Inl OutOfBounds)"

definition device_count :: "'d world \<Rightarrow> nat \<Rightarrow> bool \<Rightarrow> ('d tb, int) op" where
  "device_count w fuel stall =
     (let k = jtag_phy_wiring; len = of_nat MAX_IR_LEN in
      thenS (SendReq k w fuel CMD_IR_WRITE_AUTO len (-1))
     (thenS (SendReq k w fuel CMD_DR_WRITE_AUTO len 0)
     (thenS (SendReq k w fuel CMD_DR_READ len 1)
     (thenS (repeatS (MAX_IR_LEN div 64 - 1) (SendReq k w fuel CMD_DR_READ len 0xdeadbeefdeadbeef))
     (bindS (GetResp k w fuel) (\<lambda>resp.
      thenS (printf ''%d: '' [0]) (thenS (dump_resp resp)
     (thenS (if stall then repeatS 182 (cycle k w) else repeatS 181 (cycle k w))
     (bindS (gatherS (MAX_IR_LEN div 64 - 1) 1 (\<lambda>i.
        bindS (GetResp k w fuel) (\<lambda>resp.
        thenS (printf ''%d: '' [of_nat i]) (thenS (dump_resp resp) (returnS (resp_data resp)))))) (\<lambda>rest.
      bindS (liftS (first_set MAX_IR_LEN 0 (resp_data resp # rest))) (\<lambda>i.
        returnS (if i = MAX_IR_LEN then -1 else int i))))))))))))"

definition ir_len :: "'d world \<Rightarrow> nat \<Rightarrow> bool \<Rightarrow> ('d tb, int) op" where
  "ir_len w fuel stall =
     (let k = jtag_phy_wiring in
      thenS (SendReq k w fuel CMD_IR_READ 128 0x8000000000000000)
     (thenS (if stall then repeatS 68 (cycle k w) else repeatS 67 (cycle k w))
     (thenS (SendReq k w fuel CMD_IR_READ 128 0x0000000000000001)
     (bindS (gatherS 2 0 (\<lambda>i.
        bindS (GetResp k w fuel) (\<lambda>resp. thenS (dump_resp resp) (returnS (resp_data resp))))) (\<lambda>ir.
      bindS (liftS (first_set 64 64 ir)) (\<lambda>i.
        returnS (if i = 128 then -1 else int i - 64 + 1)))))))"

subsection \<open>Debug and access ports\<close>

definition dp_write :: "'d world \<Rightarrow> nat \<Rightarrow> u8 \<Rightarrow> u32 \<Rightarrow> ('d tb, unit) op" where
  "dp_write w fuel addr data =
     thenS (SendReq jtag_phy_wiring w fuel CMD_IR_WRITE 4 0xA)
           (SendReq jtag_phy_wiring w fuel CMD_DR_WRITE 35 (push_bit 3 (ucast data) OR (drop_bit 1 (ucast addr) AND 6)))"

definition dp_read :: "'d world \<Rightarrow> nat \<Rightarrow> u8 \<Rightarrow> ('d tb, u32) op" where
  "dp_read w fuel addr =
     thenS (SendReq jtag_phy_wiring w fuel CMD_IR_WRITE 4 0xA)
    (thenS (SendReq jtag_phy_wiring w fuel CMD_DR_READ 35 ((drop_bit 1 (ucast addr) AND 6) OR 1))
    (bindS (GetResp jtag_phy_wiring w fuel) (\<lambda>resp.
     thenS (if resp_data resp AND 3 \<noteq> 2 then printf ''RESP ERR: %d'' [resp_data resp AND 3] else returnS ())
           (returnS (ucast (drop_bit 3 (resp_data resp) AND 0xffffffff))))))"

definition ap_select :: "u8 \<Rightarrow> u8 \<Rightarrow> u32" where
  "ap_select ap addr = ucast addr OR push_bit 24 (ucast ap)"

text \<open>The data of \<open>ap_write\<close> is shifted in 32 bits, that of \<open>dp_write\<close> in 64.\<close>

definition ap_write :: "'d world \<Rightarrow> nat \<Rightarrow> u8 \<Rightarrow> u8 \<Rightarrow> u32 \<Rightarrow> ('d tb, unit) op" where
  "ap_write w fuel ap addr data =
     thenS (dp_write w fuel 8 (ap_select ap addr))
    (thenS (SendReq jtag_phy_wiring w fuel CMD_IR_WRITE 4 0xB)
           (SendReq jtag_phy_wiring w fuel CMD_DR_WRITE 35 (ucast (push_bit 3 data OR (drop_bit 1 (ucast addr) AND 6)))))"

definition ap_read :: "'d world \<Rightarrow> nat \<Rightarrow> u8 \<Rightarrow> u8 \<Rightarrow> ('d tb, u32) op" where
  "ap_read w fuel ap addr =
     thenS (dp_write w fuel 8 (ap_select ap addr))
    (thenS (SendReq jtag_phy_wiring w fuel CMD_IR_WRITE 4 0xB)
    (thenS (SendReq jtag_phy_wiring w fuel CMD_DR_WRITE 35 ((drop_bit 1 (ucast addr) AND 6) OR 1))
           (dp_read w fuel 0xc)))"

subsection \<open>The main program\<close>

text \<open>\<open>printf (label, value)\<close> of what an operation returns.\<close>

definition show_int :: "string \<Rightarrow> ('d tb, int) op \<Rightarrow> ('d tb, unit) op" where
  "show_int label m = bindS m (\<lambda>x. printf label [word_of_int x])"

definition show_u32 :: "string \<Rightarrow> ('d tb, u32) op \<Rightarrow> ('d tb, unit) op" where
  "show_u32 label m = bindS m (\<lambda>x. printf label [ucast x])"

definition jtag_phy_halt :: "'d world \<Rightarrow> nat \<Rightarrow> ('d tb, unit) op" where
  "jtag_phy_halt w fuel = do_while fuel
     (thenS (ap_write w fuel 0 0xc 0xA05F0003)
     (bindS (ap_read w fuel 0 0xc) (\<lambda>data. returnS (data AND push_bit 17 1 = 0))))"

definition jtag_phy_main ::
  "'d world \<Rightarrow> 'img opt_env \<Rightarrow> (opt_key \<times> string option) list \<Rightarrow> nat \<Rightarrow> ('d tb, unit) op" where
  "jtag_phy_main w env opts fuel =
     (let k = jtag_phy_wiring in thenS (parse_args env opts) (blockS
     [repeatS 20 (cycle k w),
      Enable k w,
      SendReq k w fuel CMD_DR_WRITE 0 0,
      SendReq k w fuel CMD_IR_WRITE 0 0,
      show_int ''Total ir_len = %d'' (ir_len w fuel False),
      show_int ''Total ir_len = %d'' (ir_len w fuel True),
      show_int ''Device count = %d'' (device_count w fuel False),
      show_int ''Device count = %d'' (device_count w fuel True),
      SendReq k w fuel CMD_DR_WRITE 0 0,
      SendReq k w fuel CMD_DR_READ 32 0,
      show_u32 ''IDCODE=%08X'' (bindS (GetResp k w fuel) (\<lambda>resp. returnS (ucast (resp_data resp)))),
      dp_write w fuel 4 0x50000000,
      show_u32 ''CTRL/STAT=%08X'' (dp_read w fuel 4),
      repeatS 100 (cycle k w),
      show_u32 ''AP[0]=%08X'' (ap_read w fuel 0 0xfc),
      show_u32 ''BASE=%08X'' (ap_read w fuel 0 0xf8),
      show_u32 ''CSW=%08X'' (ap_read w fuel 0 0x0),
      printf ''Halting processor... '' [],
      ap_write w fuel 0 0 0xA2000002,
      ap_write w fuel 0 4 0xE000EDF0,
      jtag_phy_halt w fuel,
      printf ''Processor HALTED'' [],
      repeatS 100 (cycle k w),
      Disable k w,
      repeatS 20 (cycle k w),
      delete_tb w]))"

subsection \<open>The fields of requests and responses\<close>

text \<open>The request as a word of 96 bits, and the response from its fields.\<close>

definition wide_word :: "u32 \<times> u32 \<times> u32 \<Rightarrow> 96 word" where
  "wide_word = (\<lambda>(w0, w1, w2). ucast w0 OR push_bit 32 (ucast w1) OR push_bit 64 (ucast w2))"

definition wide_response :: "nat \<Rightarrow> u64 \<Rightarrow> u32 \<times> u32 \<times> u32" where
  "wide_response n data =
     (let d = push_bit (64 - n) data
      in ((of_nat n AND 0x3f) OR push_bit 6 (ucast d), ucast (drop_bit 26 d), ucast (drop_bit 58 d)))"

lemma masks:
  "(7 :: u8) = mask 3" "(0xfff :: u32) = mask 12" "(0x1ffff :: u64) = mask 17"
  "(0xffffffff :: u64) = mask 32" "(0x7fff :: u64) = mask 15" "(0x3f :: u32) = mask 6"
  "(0x3f :: u64) = mask 6"
  by code_simp+

lemma bit_wide_word:
  "bit (wide_word (w0, w1, w2)) i \<longleftrightarrow>
     (if i < 32 then bit w0 i else if i < 64 then bit w1 (i - 32) else i < 96 \<and> bit w2 (i - 64))"
  by (auto simp: wide_word_def bit_simps dest: bit_imp_le_length)

lemma request_bits:
  "bit (wide_word (pack_request cmd len data)) i \<longleftrightarrow>
     (if i < 3 then bit cmd i else if i < 15 then bit len (i - 3) else i < 79 \<and> bit data (i - 15))"
  unfolding pack_request_def masks Let_def prod.case bit_wide_word
  by (auto simp: bit_simps dest: bit_imp_le_length)

lemma response_length:
  "list_all (\<lambda>n. let len = ucast ((of_nat n :: u32) AND 0x3f) :: u8 in
     (if len = 0 then 64 else len) = of_nat n \<and> unat (of_nat n :: u8) = n) [1..<65]"
  by code_simp

lemma response_fields:
  "((of_nat n AND 0x3f) OR push_bit 6 (ucast (d :: u64)) :: u32) AND 0x3f = of_nat n AND 0x3f"
  "ucast (drop_bit 6 ((of_nat n AND 0x3f) OR push_bit 6 (ucast d) :: u32)) OR
     push_bit 26 (ucast (ucast (drop_bit 26 d) :: u32)) OR
     push_bit 58 (ucast (ucast (drop_bit 58 d) :: u32) AND 0x3f) = d"
  unfolding masks
  by (rule bit_eqI; auto simp: bit_simps dest: bit_imp_le_length)+

lemma unpack_wide_response:
  assumes "1 \<le> n" "n \<le> 64" "take_bit n data = data"
  shows "unpack_response (wide_response n data) = \<lparr>resp_len = of_nat n, resp_data = data\<rparr>"
proof -
  from assms(1,2) response_length have len: "(let len = ucast ((of_nat n :: u32) AND 0x3f) :: u8 in
     (if len = 0 then 64 else len) = of_nat n \<and> unat (of_nat n :: u8) = n)"
    by (simp only: list_all_iff) auto
  have "drop_bit (64 - n) (push_bit (64 - n) data) = data"
  proof (rule bit_eqI)
    fix i
    from assms(3) have "bit data i \<longleftrightarrow> i < n \<and> bit data i" by (metis bit_take_bit_iff)
    moreover have "i < n \<Longrightarrow> 64 - n + i < 64" using assms(1,2) by simp
    ultimately show "bit (drop_bit (64 - n) (push_bit (64 - n) data)) i = bit data i"
      by (auto simp: bit_drop_bit_eq bit_push_bit_iff)
  qed
  with len show ?thesis
    unfolding unpack_response_def wide_response_def Let_def prod.case response_fields by simp
qed

subsection \<open>What the accesses send\<close>

lemma wired_jtag_phy [simp]: "wired jtag_phy_wiring"
  by (simp add: wired_def jtag_phy_wiring_def Let_def)

lemma does_SendReq:
  "steady_world w \<Longrightarrow> wired k \<Longrightarrow> 0 < fuel \<Longrightarrow> does (SendReq k w fuel cmd len data) [pack_request cmd len data] [] anything"
  unfolding SendReq_def by (rule does_push_wide)

lemma does_GetResp:
  "steady_world w \<Longrightarrow> wired k \<Longrightarrow> 0 < fuel \<Longrightarrow>
    does (GetResp k w fuel) [] [] (\<lambda>r b. r = unpack_response (RDDATA (design b)))"
  unfolding GetResp_def by (intro does_read does_pull_wide)

text \<open>
  A scan of the register DPACC or APACC: 35 bits, of which the first is set for a read, the next
  two are the bits 2 and 3 of the address, and the others the data.
\<close>

definition acc_scan :: "bool \<Rightarrow> u8 \<Rightarrow> u32 \<Rightarrow> u64" where
  "acc_scan rnw addr data =
     of_bool rnw OR push_bit 1 (take_bit 2 (drop_bit 2 (ucast addr))) OR push_bit 3 (ucast data)"

definition scan_requests :: "(u8 \<times> u32 \<times> u64) list \<Rightarrow> (u32 \<times> u32 \<times> u32) list" where
  "scan_requests = map (\<lambda>(cmd, len, data). pack_request cmd len data)"

lemma six: "(6 :: u64) = push_bit 1 (mask 2)" "(6 :: u32) = push_bit 1 (mask 2)"
  by code_simp+

lemma acc_scans:
  "push_bit 3 (ucast data) OR (drop_bit 1 (ucast addr) AND 6) = acc_scan False addr data"
  "(drop_bit 1 (ucast addr) AND 6) OR 1 = acc_scan True addr 0"
  "ucast (push_bit 3 data OR (drop_bit 1 (ucast addr) AND 6) :: u32) = acc_scan False addr (take_bit 29 data)"
  unfolding acc_scan_def six
  by (rule bit_eqI; auto simp: bit_simps simp del: push_bit_Suc drop_bit_Suc dest: bit_imp_le_length)+

named_theorems does_access \<open>the requests of the accesses\<close>

lemma does_dp_write [does_access]:
  assumes "steady_world w" "0 < fuel"
  shows "does (dp_write w fuel addr data)
    (scan_requests [(CMD_IR_WRITE, 4, 0xA), (CMD_DR_WRITE, 35, acc_scan False addr data)]) [] anything"
  using does_thenS [OF does_SendReq does_SendReq] assms wired_jtag_phy
  unfolding dp_write_def acc_scans by (fastforce simp: scan_requests_def)

lemma does_dp_read [does_access]:
  assumes "steady_world w" "0 < fuel"
  shows "does (dp_read w fuel addr)
    (scan_requests [(CMD_IR_WRITE, 4, 0xA), (CMD_DR_READ, 35, acc_scan True addr 0)]) []
    (\<lambda>v b. v = ucast (drop_bit 3 (resp_data (unpack_response (RDDATA (design b))))))"
proof -
  note req = does_SendReq [OF assms(1) wired_jtag_phy assms(2)]
  note resp = does_GetResp [OF assms(1) wired_jtag_phy assms(2)]
  have *: "does (bindS (GetResp jtag_phy_wiring w fuel) (\<lambda>resp.
      thenS (if resp_data resp AND 3 \<noteq> 2 then printf ''RESP ERR: %d'' [resp_data resp AND 3] else returnS ())
        (returnS ((ucast (drop_bit 3 (resp_data resp) AND 0xffffffff)) :: u32)))) [] []
      (\<lambda>v b. \<exists>r. v = ucast (drop_bit 3 (resp_data r) AND 0xffffffff) \<and> r = unpack_response (RDDATA (design b)))"
    using resp by (rule does_report)
  have mask: "ucast (x AND 0xffffffff) = (ucast x :: u32)" for x :: u64
    unfolding masks by (rule bit_eqI) (auto simp: bit_simps)
  show ?thesis
    unfolding dp_read_def acc_scans
    using does_thenS [OF req does_thenS [OF req *]] by (simp add: scan_requests_def mask)
qed

lemma does_ap_write [does_access]:
  assumes "steady_world w" "0 < fuel"
  shows "does (ap_write w fuel ap addr data)
    (scan_requests [(CMD_IR_WRITE, 4, 0xA), (CMD_DR_WRITE, 35, acc_scan False 8 (ap_select ap addr)),
      (CMD_IR_WRITE, 4, 0xB), (CMD_DR_WRITE, 35, acc_scan False addr (take_bit 29 data))]) [] anything"
proof -
  note req = does_SendReq [OF assms(1) wired_jtag_phy assms(2)]
  show ?thesis
    unfolding ap_write_def acc_scans
    using does_thenS [OF does_dp_write [OF assms] does_thenS [OF req req]] by (simp add: scan_requests_def)
qed

lemma does_ap_read [does_access]:
  assumes "steady_world w" "0 < fuel"
  shows "does (ap_read w fuel ap addr)
    (scan_requests [(CMD_IR_WRITE, 4, 0xA), (CMD_DR_WRITE, 35, acc_scan False 8 (ap_select ap addr)),
      (CMD_IR_WRITE, 4, 0xB), (CMD_DR_WRITE, 35, acc_scan True addr 0),
      (CMD_IR_WRITE, 4, 0xA), (CMD_DR_READ, 35, acc_scan True 0xc 0)]) []
    (\<lambda>v b. v = ucast (drop_bit 3 (resp_data (unpack_response (RDDATA (design b))))))"
proof -
  note req = does_SendReq [OF assms(1) wired_jtag_phy assms(2)]
  show ?thesis
    unfolding ap_read_def acc_scans
    using does_thenS [OF does_dp_write [OF assms] does_thenS [OF req does_thenS [OF req does_dp_read [OF assms]]]]
    by (simp add: scan_requests_def)
qed

subsection \<open>The bench ends\<close>

lemma ends_SendReq [ends_intros]: "unat T < fuel \<Longrightarrow> tb_ends T (SendReq k w fuel cmd len data)"
  and ends_GetResp [ends_intros]: "unat T < fuel \<Longrightarrow> tb_ends T (GetResp k w fuel)"
  and ends_dump_resp [ends_intros]: "tb_ends T (dump_resp resp)"
  unfolding SendReq_def GetResp_def dump_resp_def by (auto intro!: ends_intros)

lemma first_set_fuel: "first_set k i dr \<noteq> Inl OutOfFuel"
  by (induction k arbitrary: i) (auto simp: shl_int_def)

lemma ends_scan_chain [ends_intros]:
  assumes "unat T < fuel"
  shows "tb_ends T (device_count w fuel stall)" "tb_ends T (ir_len w fuel stall)"
  unfolding device_count_def ir_len_def Let_def using assms first_set_fuel by (intro ends_intros; simp)+

lemma takes_dp_write:
  assumes "unat T < fuel"
  shows "takes 2 T (dp_write w fuel addr data)"
  unfolding dp_write_def SendReq_def
  using takes_thenS [OF takes_push(1) takes_mono [OF takes_push(1), of _ _ 0]] assms by fastforce

lemma takes_ap_write:
  assumes "unat T < fuel"
  shows "takes 2 T (ap_write w fuel ap addr data)"
  using takes_thenS [OF takes_dp_write ends_thenS [OF ends_SendReq ends_SendReq]] assms
  unfolding ap_write_def by fastforce

lemma ends_accesses [ends_intros]:
  assumes "unat T < fuel"
  shows "tb_ends T (dp_write w fuel addr data)" "tb_ends T (dp_read w fuel addr)"
    "tb_ends T (ap_write w fuel ap addr data)" "tb_ends T (ap_read w fuel ap addr)"
proof -
  show wr: "tb_ends T (dp_write w fuel addr data)" for addr data
    by (rule takes_mono [OF takes_dp_write [OF assms]]) simp
  show "tb_ends T (ap_write w fuel ap addr data)"
    by (rule takes_mono [OF takes_ap_write [OF assms]]) simp
  show rd: "tb_ends T (dp_read w fuel addr)" for addr
    unfolding dp_read_def using assms by (intro ends_intros; simp)
  show "tb_ends T (ap_read w fuel ap addr)"
    unfolding ap_read_def using assms by (intro ends_intros wr rd; simp)
qed

lemma ends_show [ends_intros]: "tb_ends T m \<Longrightarrow> tb_ends T (show_int l m)" "tb_ends T n \<Longrightarrow> tb_ends T (show_u32 l n)"
  unfolding show_int_def show_u32_def by (intro ends_intros; simp)+

lemma ends_jtag_phy_halt [ends_intros]:
  assumes "unat T < fuel"
  shows "tb_ends T (jtag_phy_halt w fuel)"
proof -
  have "moves T (thenS (ap_write w fuel 0 0xc 0xA05F0003)
     (bindS (ap_read w fuel 0 0xc) (\<lambda>data. returnS (data AND push_bit 17 1 = 0))))"
    using assms by (intro moves_thenS takes_ap_write ends_intros)
  with assms show ?thesis unfolding jtag_phy_halt_def by (intro ends_do_while)
qed

text \<open>The frame of every main program: the options set the timeout, and the rest of it ends.\<close>

lemma main_ends:
  assumes "parse_args env opts b = Inr ((), b')" "servers_ok (base b')" "timeout (base b') \<noteq> 0"
    and "tb_ends (timeout (base b')) m"
  shows "thenS (parse_args env opts) m b \<noteq> Inl OutOfFuel"
proof -
  from assms(2,3) have "timed (timeout (base b')) b'" by (simp add: timed_def)
  with assms(1) takes_Inl [OF assms(4) this] show ?thesis by (auto simp: thenS_def bindS_def)
qed

lemma jtag_phy_main_ends:
  assumes "parse_args env opts b = Inr ((), b')" "servers_ok (base b')" "timeout (base b') \<noteq> 0"
    and "unat (timeout (base b')) < fuel"
  shows "jtag_phy_main w env opts fuel b \<noteq> Inl OutOfFuel"
  unfolding jtag_phy_main_def Let_def
  using assms(4) by (intro main_ends [OF assms(1-3)] ends_intros)

text \<open>
  C36. The fields of a request to shift the scan chain are where the design looks for them: read as
  one word, the three words the bench writes hold the command in the bits 0 to 2, the length in
  the bits 3 to 14, the data in the bits 15 to 78, and nothing else. And a response of \<open>n\<close> bits,
  which the design delivers left justified, is decoded to these bits and their number, for every
  length from 1 to 64.
\<close>

theorem request_and_response:
  assumes "1 \<le> n" "n \<le> 64" "take_bit n data = data"
  shows "(let r = wide_word (pack_request cmd len d) in
      ucast (take_bit 3 r) = take_bit 3 cmd \<and> ucast (take_bit 12 (drop_bit 3 r)) = take_bit 12 len \<and>
      ucast (drop_bit 15 r) = d \<and> take_bit 79 r = r) \<and>
    unpack_response (wide_response n data) = \<lparr>resp_len = of_nat n, resp_data = data\<rparr>"
proof -
  define r where "r = wide_word (pack_request cmd len d)"
  note bits = request_bits [of cmd len d, folded r_def]
  have "ucast (take_bit 3 r) = take_bit 3 cmd"
    by (rule bit_eqI) (auto simp: bit_simps bits)
  moreover have "ucast (take_bit 12 (drop_bit 3 r)) = take_bit 12 len"
    by (rule bit_eqI) (auto simp: bit_simps bits)
  moreover have "ucast (drop_bit 15 r) = d"
    by (rule bit_eqI) (auto simp: bit_simps bits)
  moreover have "take_bit 79 r = r"
    by (rule bit_eqI) (auto simp: bit_simps bits)
  ultimately show ?thesis using unpack_wide_response [OF assms] by (simp add: Let_def r_def)
qed

theorem request_and_response_witness:
  "unpack_response (wide_response 35 0x123456789) = \<lparr>resp_len = 35, resp_data = 0x123456789\<rparr>"
proof -
  have "take_bit 35 (0x123456789 :: u64) = 0x123456789" by code_simp
  with request_and_response [of 35 "0x123456789"] show ?thesis by simp
qed




text \<open>
  The search for the end of the scan chain: over the first 64 bits of the answer it finds the first
  bit that is set, but every bit from 31 on counts as bit 31, since the mask \<open>1 << 31\<close> is extended
  with its sign.
\<close>

lemma mask_31: "shl_int 31 = Inr 0xFFFFFFFF80000000" "(0xFFFFFFFF80000000 :: u64) = NOT (mask 31)"
  by (simp_all add: shl_int_def) code_simp+

lemma high_bits: "\<forall>i < 31. \<not> bit d i \<Longrightarrow> (d :: u64) AND 0xFFFFFFFF80000000 = d"
  unfolding mask_31(2) by (rule bit_eqI) (simp add: bit_and_iff bit_not_iff bit_mask_iff; meson not_le)

lemma at_word: "(n :: nat) mod 64 = 0 \<Longrightarrow> j < 64 \<Longrightarrow> (n + j) div 64 = n div 64 \<and> (n + j) mod 64 = j"
proof -
  assume n: "n mod 64 = 0" and j: "j < 64"
  from n obtain q where "n = 64 * q" unfolding mod_eq_0_iff_dvd by (rule dvdE)
  with j show ?thesis by simp
qed

lemma scan_word:
  assumes "n mod 64 = 0" "n div 64 < length dr" "dr ! (n div 64) = d"
    and "j \<le> 32" "\<forall>i < min j 31. \<not> bit d i" "j = 32 \<longrightarrow> d = 0" "32 - j < k"
  shows "first_set k (n + j) dr = (if d = 0 then Inl BadShift else Inr (n + min 31 (LEAST i. bit d i)))"
  using assms(4-7)
proof (induction "32 - j" arbitrary: j k)
  case 0
  then have j: "j = 32" by simp
  from 0 obtain k' where k: "k = Suc k'" by (cases k) auto
  have "(n + 32) div 64 = n div 64" "(n + 32) mod 64 = 32" using at_word [OF assms(1), of 32] by simp_all
  with j k 0 assms(2) show ?case by (simp add: shl_int_def)
next
  case (Suc m)
  from Suc.prems obtain k' where k: "k = Suc k'" by (cases k) auto
  from Suc.hyps(2) have j: "j < 32" by simp
  then have at: "(n + j) div 64 = n div 64" "(n + j) mod 64 = j" using at_word [OF assms(1), of j] by simp_all
  show ?case
  proof (cases "j < 31")
    case True
    show ?thesis
    proof (cases "bit d j")
      case bit: True
      have "(LEAST i. bit d i) = j"
        using bit Suc.prems(2) True by (intro Least_equality) (auto simp: not_le [symmetric])
      moreover have "d \<noteq> 0" using bit by auto
      ultimately show ?thesis
        using bit True k at assms(2,3) by (simp add: shl_int_low and_bit pow2_neq)
    next
      case False
      have "first_set k (n + j) dr = first_set k' (n + Suc j) dr"
        using False True k at assms(2,3) by (simp add: shl_int_low and_bit)
      also have "... = (if d = 0 then Inl BadShift else Inr (n + min 31 (LEAST i. bit d i)))"
        using Suc.hyps Suc.prems k True False by (intro Suc.hyps(1)) (auto simp: less_Suc_eq)
      finally show ?thesis .
    qed
  next
    case False
    with j have j31: "j = 31" by simp
    with Suc.prems(2) have low: "\<forall>i < 31. \<not> bit d i" by simp
    show ?thesis
    proof (cases "d = 0")
      case True
      have "first_set k (n + j) dr = first_set k' (n + Suc j) dr"
        using True k at assms(2,3) j31 by (simp add: mask_31 add.commute)
      also have "... = Inl BadShift"
        using Suc.hyps Suc.prems k True j31 by (subst Suc.hyps(1)) auto
      finally show ?thesis using True by simp
    next
      case nz: False
      then obtain i where "bit d i" by (metis bit_eqI bit_0_eq bot_apply bot_bool_def)
      then have "bit d (LEAST i. bit d i)" by (rule LeastI)
      with low have "31 \<le> (LEAST i. bit d i)" by (meson not_le)
      moreover have "first_set k (n + j) dr = Inr (n + 31)"
        using nz k at assms(2,3) j31 high_bits [OF low] by (simp add: mask_31(1))
      ultimately show ?thesis using nz by simp
    qed
  qed
qed

lemma first_set_counts:
  "first_set MAX_IR_LEN 0 (d # rest) = (if d = 0 then Inl BadShift else Inr (min 31 (LEAST n. bit d n)))"
  "first_set 64 64 [a, d] = (if d = 0 then Inl BadShift else Inr (64 + min 31 (LEAST n. bit d n)))"
  using scan_word [of 0 "d # rest" d 0 MAX_IR_LEN] scan_word [of 64 "[a, d]" d 0 64]
  by (simp_all add: MAX_IR_LEN_def)

lemma scan_results:
  "device_count w fuel stall b = Inr (c, b') \<Longrightarrow> 0 \<le> c \<and> c \<le> 31"
  "ir_len w fuel stall b = Inr (c, b') \<Longrightarrow> 1 \<le> c \<and> c \<le> 32"
proof -
  assume "device_count w fuel stall b = Inr (c, b')"
  then obtain d rest i where "first_set MAX_IR_LEN 0 (d # rest) = Inr i" "c = (if i = MAX_IR_LEN then -1 else int i)"
    by (auto simp: device_count_def Let_def run_Inr)
  then show "0 \<le> c \<and> c \<le> 31" by (auto simp: first_set_counts MAX_IR_LEN_def [symmetric] split: if_splits)
    (simp add: MAX_IR_LEN_def)
next
  assume "ir_len w fuel stall b = Inr (c, b')"
  then obtain ir i where ir: "length ir = 2" "first_set 64 64 ir = Inr i"
    "c = (if i = 128 then -1 else int i - 64 + 1)"
    by (auto simp: ir_len_def Let_def run_Inr dest!: gatherS_length)
  from ir(1) obtain a d where "ir = [a, d]"
    by (metis (no_types, opaque_lifting) length_0_conv length_Suc_conv numeral_2_eq_2)
  with ir show "1 \<le> c \<and> c \<le> 32" by (auto simp: first_set_counts split: if_splits)
qed

text \<open>
  The length of the scan chain is the position of the first bit that is set in the answer, for
  up to 31 devices; a longer chain of up to 64 devices is reported as 31 devices, or as 32 bits of
  instruction registers. When no bit is set, the search shifts an \<open>int\<close> by 32, so that neither
  function ever reports the error \<open>-1\<close>.
\<close>

theorem chain_length:
  "first_set MAX_IR_LEN 0 (d # rest) = (if d = 0 then Inl BadShift else Inr (min 31 (LEAST n. bit d n))) \<and>
   first_set 64 64 [a, d] = (if d = 0 then Inl BadShift else Inr (64 + min 31 (LEAST n. bit d n))) \<and>
   (case device_count w fuel stall b of Inr (c, b') \<Rightarrow> 0 \<le> c \<and> c \<le> 31 | Inl _ \<Rightarrow> True) \<and>
   (case ir_len w fuel stall b of Inr (c, b') \<Rightarrow> 1 \<le> c \<and> c \<le> 32 | Inl _ \<Rightarrow> True)"
proof (intro conjI)
  show "case device_count w fuel stall b of Inr (c, b') \<Rightarrow> 0 \<le> c \<and> c \<le> 31 | Inl _ \<Rightarrow> True"
    using scan_results(1) by (fastforce split: sum.splits)
  show "case ir_len w fuel stall b of Inr (c, b') \<Rightarrow> 1 \<le> c \<and> c \<le> 32 | Inl _ \<Rightarrow> True"
    using scan_results(2) by (fastforce split: sum.splits)
qed (rule first_set_counts)+

end
