(* ===== verification/Swd_Phy_Bench.thy ===== *)
theory Swd_Phy_Bench
  imports Jtag_Phy_Bench
begin

text \<open>
  The bench of the SWD phy (\<open>ahb3lite_remote_bridge2/bench/swd_phy_tb.cpp\<close>): requests to shift out
  up to 62 bits with turnarounds, the packets of the protocol, and the responses.
\<close>

subsection \<open>Requests and responses\<close>

definition tmsio_in :: "'d top_scheme \<Rightarrow> u8" where
  "tmsio_in t = (if truth (TMSOE t) then TMSOUT t else TMSIN t)"

definition tmsio_out :: "u8 \<Rightarrow> 'd top_scheme \<Rightarrow> 'd top_scheme" where
  "tmsio_out ms t = (if truth (TMSOE t) then t\<lparr>TMSOUT := ms\<rparr> else t\<lparr>TMSIN := ms\<rparr>)"

definition swd_phy_wiring :: "'d wiring" where
  "swd_phy_wiring =
     \<lparr>clocks = (\<lambda>t. let t = t\<lparr>CLK := lnot (CLK t)\<rparr> in t\<lparr>PHY_CLK := lnot (PHY_CLK t)\<rparr>),
      client_in = (\<lambda>t. (TCK t, 0, 0, tmsio_in t, TMSOE t)),
      client_out = (\<lambda>tdo ms t. tmsio_out ms t)\<rparr>"

text \<open>The cycles of the bench, and the two operations on \<open>ENABLE\<close>.\<close>

definition swd_phy_half_cycle :: "'d world \<Rightarrow> ('d tb, unit) op" where
  "swd_phy_half_cycle w = half_cycle swd_phy_wiring w"

definition swd_phy_cycle :: "'d world \<Rightarrow> ('d tb, unit) op" where
  "swd_phy_cycle w = thenS (swd_phy_half_cycle w) (swd_phy_half_cycle w)"

definition swd_phy_Enable :: "'d world \<Rightarrow> ('d tb, unit) op" where
  "swd_phy_Enable w = thenS (set_ports (\<lambda>t. t\<lparr>ENABLE := 1\<rparr>)) (swd_phy_cycle w)"

definition swd_phy_Disable :: "'d world \<Rightarrow> ('d tb, unit) op" where
  "swd_phy_Disable w = thenS (set_ports (\<lambda>t. t\<lparr>ENABLE := 0\<rparr>)) (swd_phy_cycle w)"

lemma swd_phy_ops:
  "swd_phy_cycle = cycle swd_phy_wiring" "swd_phy_Enable = Enable swd_phy_wiring"
  "swd_phy_Disable = Disable swd_phy_wiring"
  by (rule ext, simp add: swd_phy_half_cycle_def swd_phy_cycle_def cycle_def swd_phy_Enable_def Enable_def
      swd_phy_Disable_def Disable_def)+

definition reverseBits :: "u32 \<Rightarrow> u32" where
  "reverseBits n =
     (let n = (drop_bit 1 n AND 0x55555555) OR (push_bit 1 n AND 0xaaaaaaaa);
          n = (drop_bit 2 n AND 0x33333333) OR (push_bit 2 n AND 0xcccccccc);
          n = (drop_bit 4 n AND 0x0f0f0f0f) OR (push_bit 4 n AND 0xf0f0f0f0);
          n = (drop_bit 8 n AND 0x00ff00ff) OR (push_bit 8 n AND 0xff00ff00);
          n = (drop_bit 16 n AND 0x0000ffff) OR (push_bit 16 n AND 0xffff0000)
      in n)"

definition swd_request :: "u8 \<Rightarrow> u8 \<Rightarrow> u8 \<Rightarrow> u64 \<Rightarrow> u32 \<times> u32 \<times> u32" where
  "swd_request len t0 t1 so =
     (ucast (so AND 0xffffffff), ucast (drop_bit 32 so AND 0xffffffff),
      (ucast t1 AND 0x3f) OR push_bit 6 (ucast t0 AND 0x3f) OR push_bit 12 (ucast len AND 0x3f))"

definition swd_SendReq :: "'d world \<Rightarrow> nat \<Rightarrow> u8 \<Rightarrow> u8 \<Rightarrow> u8 \<Rightarrow> u64 \<Rightarrow> ('d tb, unit) op" where
  "swd_SendReq w fuel len t0 t1 so = push_wide swd_phy_wiring w fuel (swd_request len t0 t1 so)"

record swd_resp =
  swd_len :: u8
  swd_code :: u8
  swd_data :: u32
  swd_parity :: u8

text \<open>The response is cleared first; only a length of 36 or 3 is decoded.\<close>

definition swd_response :: "u64 \<Rightarrow> swd_resp" where
  "swd_response d =
     (let resp = \<lparr>swd_len = 0, swd_code = 0, swd_data = 0, swd_parity = 0\<rparr>;
          resp = resp\<lparr>swd_len := ucast (d AND 0x3f)\<rparr>
      in if swd_len resp = 36 then
           resp\<lparr>swd_parity := ucast (drop_bit 6 d AND 1),
                swd_data := reverseBits (ucast (drop_bit 7 d AND 0xffffffff)),
                swd_code := ucast (drop_bit 39 d AND 7)\<rparr>
         else if swd_len resp = 3 then
           resp\<lparr>swd_parity := 0, swd_data := 0, swd_code := ucast (drop_bit 6 d AND 7)\<rparr>
         else resp)"

definition swd_GetResp :: "'d world \<Rightarrow> nat \<Rightarrow> ('d tb, swd_resp) op" where
  "swd_GetResp w fuel =
     thenS (pull_narrow swd_phy_wiring w fuel) (bindS (get_ports NRDDATA) (\<lambda>d. returnS (swd_response d)))"

subsection \<open>The packets\<close>

function parity_loop :: "u32 \<Rightarrow> u8 \<Rightarrow> u8" where
  "parity_loop data parity =
     (if truth data then
        let parity = (if truth (data AND 1) then parity XOR 1 else parity)
        in parity_loop (drop_bit 1 data) parity
      else parity)"
  by pat_completeness auto
termination
proof (relation "measure (\<lambda>(data, parity). unat data)")
  fix data :: u32 and x parity :: u8
  assume "truth data"
  then have "0 < unat data" by (simp add: unat_gt_0)
  moreover have "unat (drop_bit 1 data) = unat data div 2"
    by (simp add: drop_bit_eq_div unat_div_distrib)
  ultimately show "((drop_bit 1 data, x), data, parity) \<in> measure (\<lambda>(data, parity). unat data)"
    by (simp del: drop_bit_Suc)
qed simp

declare parity_loop.simps [simp del]

definition swd_reg_write :: "bool \<Rightarrow> u8 \<Rightarrow> u32 \<Rightarrow> u64" where
  "swd_reg_write APnDP addr data =
     (let v = 1;
          v = (if APnDP then v OR push_bit 1 1 else v);
          v = v OR push_bit 2 0;
          v = v OR push_bit 3 (drop_bit 2 (ucast addr) AND 3);
          v = v OR push_bit 5 (0 XOR (drop_bit 2 (ucast addr) AND 1) XOR (drop_bit 3 (ucast addr) AND 1) XOR of_bool APnDP);
          v = v OR push_bit 6 0;
          v = v OR push_bit 7 1;
          v = v OR push_bit 9 (ucast data);
          parity = parity_loop data 0
      in v OR push_bit 41 (ucast parity))"

definition swd_reg_read :: "bool \<Rightarrow> u8 \<Rightarrow> u64" where
  "swd_reg_read APnDP addr =
     (let v = 1;
          v = (if APnDP then v OR push_bit 1 1 else v);
          v = v OR push_bit 2 1;
          v = v OR push_bit 3 (drop_bit 2 (ucast addr) AND 3);
          v = v OR push_bit 5 (1 XOR (drop_bit 2 (ucast addr) AND 1) XOR (drop_bit 3 (ucast addr) AND 1) XOR of_bool APnDP);
          v = v OR push_bit 6 0
      in v OR push_bit 7 1)"

text \<open>\<open>__builtin_parityl\<close> of a word, and what is printed of a response.\<close>

definition builtin_parity :: "u32 \<Rightarrow> u8" where
  "builtin_parity d = of_bool (odd (length (filter (bit d) [0..<32])))"

definition swd_dump_resp :: "swd_resp \<Rightarrow> ('d tb, unit) op" where
  "swd_dump_resp resp =
     (let code = [ucast (drop_bit 2 (swd_code resp)), ucast (drop_bit 1 (swd_code resp) AND 1), ucast (swd_code resp AND 1)]
      in if swd_len resp = 36 then
           printf (if swd_parity resp = builtin_parity (swd_data resp)
                   then ''R[%d%d%d] LEN=%d DATA=%08X PARITY=OK'' else ''R[%d%d%d] LEN=%d DATA=%08X PARITY=FAIL'')
             (code @ [ucast (swd_len resp), ucast (swd_data resp)])
         else printf ''W[%d%d%d]'' code)"

subsection \<open>The main program\<close>

definition swd_phy_main ::
  "'d world \<Rightarrow> 'img opt_env \<Rightarrow> (opt_key \<times> string option) list \<Rightarrow> nat \<Rightarrow> ('d tb, unit) op" where
  "swd_phy_main w env opts fuel =
     thenS (parse_args env opts) (blockS
     [repeatS 20 (swd_phy_cycle w),
      swd_phy_Enable w,
      swd_SendReq w fuel 60 64 64 0x0fffffffffffffff,
      swd_SendReq w fuel 16 64 64 0xe79e,
      swd_SendReq w fuel 62 64 64 0x003fffffffffffff,
      swd_SendReq w fuel 46 8 45 (swd_reg_read False 0),
      swd_SendReq w fuel 46 8 12 (swd_reg_write False 4 0x50000000),
      swd_SendReq w fuel 46 8 45 (swd_reg_read False 4),
      bindS (swd_GetResp w fuel) swd_dump_resp,
      bindS (swd_GetResp w fuel) swd_dump_resp,
      bindS (swd_GetResp w fuel) swd_dump_resp,
      swd_SendReq w fuel 46 8 12 (swd_reg_write False 8 0xfc),
      swd_SendReq w fuel 46 8 45 (swd_reg_read True (0xfc AND 0xc)),
      swd_SendReq w fuel 46 8 45 (swd_reg_read False 0xc),
      bindS (swd_GetResp w fuel) swd_dump_resp,
      bindS (swd_GetResp w fuel) swd_dump_resp,
      bindS (swd_GetResp w fuel) swd_dump_resp,
      swd_phy_Disable w,
      repeatS 20 (swd_phy_cycle w),
      delete_tb w])"

subsection \<open>The bench ends\<close>

lemma ends_swd [ends_intros]:
  "unat T < fuel \<Longrightarrow> tb_ends T (swd_SendReq w fuel len t0 t1 so)"
  "unat T < fuel \<Longrightarrow> tb_ends T (swd_GetResp w fuel)"
  "tb_ends T (swd_dump_resp resp)"
  unfolding swd_SendReq_def swd_GetResp_def swd_dump_resp_def Let_def by (auto intro!: ends_intros)

lemma swd_phy_main_ends:
  assumes "parse_args env opts b = Inr ((), b')" "servers_ok (base b')" "timeout (base b') \<noteq> 0"
    and "unat (timeout (base b')) < fuel"
  shows "swd_phy_main w env opts fuel b \<noteq> Inl OutOfFuel"
  unfolding swd_phy_main_def swd_phy_ops
  using assms(4) by (intro main_ends [OF assms(1-3)] ends_intros)

subsection \<open>Parity\<close>

text \<open>The bits of a packet: start, the access port, read, the address, their parity, stop and park.\<close>

definition swd_header :: "bool \<Rightarrow> bool \<Rightarrow> u8 \<Rightarrow> bool list" where
  "swd_header ap rnw addr =
     [True, ap, rnw, bit addr 2, bit addr 3, (rnw \<noteq> (bit addr 2 \<noteq> (bit addr 3 \<noteq> ap))), False, True]"

text \<open>The number of bits that are set.\<close>

definition weight :: "'a::len word \<Rightarrow> nat" where
  "weight w = card {i. bit w i}"

lemma weight_0 [simp]: "weight 0 = 0"
  by (simp add: weight_def)

lemma weight_shift: "weight w = of_bool (bit w 0) + weight (drop_bit 1 w)"
proof -
  have "{i. bit w i} = (if bit w 0 then {0} else {}) \<union> Suc ` {i. bit (drop_bit 1 w) i}"
  proof (rule set_eqI)
    fix i
    show "i \<in> {i. bit w i} \<longleftrightarrow> i \<in> (if bit w 0 then {0} else {}) \<union> Suc ` {i. bit (drop_bit 1 w) i}"
      by (cases i) (auto simp: bit_drop_bit_eq simp del: drop_bit_Suc)
  qed
  moreover have "finite {i. bit (drop_bit 1 w) i}" by (rule finite_bit_word)
  moreover have "card (Suc ` {i. bit (drop_bit 1 w) i}) = card {i. bit (drop_bit 1 w) i}"
    by (rule card_image) simp
  ultimately show ?thesis by (auto simp: weight_def card_insert_if simp del: drop_bit_Suc)
qed

lemma parity_loop_weight: "parity_loop data p = p XOR of_bool (odd (weight data))"
proof (induction data p rule: parity_loop.induct)
  case (1 data p)
  show ?case
  proof (cases "data = 0")
    case True
    then show ?thesis by (simp add: parity_loop.simps)
  next
    case False
    have "data AND 1 \<noteq> 0 \<longleftrightarrow> bit data 0" by (simp add: and_one_eq odd_iff_mod_2_eq_one bit_0)
    with 1 False weight_shift [of data] show ?thesis
      by (subst parity_loop.simps) (auto simp: Let_def xor.assoc simp del: drop_bit_Suc)
  qed
qed


subsection \<open>The bits of a packet, of a request and of a response\<close>

text \<open>
  A step of \<open>reverseBits\<close> moves every bit by \<open>k\<close>, up where the mask has a bit and down elsewhere;
  where each bit comes from after all steps is computed.
\<close>

definition moved :: "u32 \<Rightarrow> nat \<Rightarrow> nat \<Rightarrow> nat" where
  "moved m k i = (if bit m i then i + k else i - k)"

definition swapped :: "u32 \<Rightarrow> u32 \<Rightarrow> nat \<Rightarrow> u32 \<Rightarrow> u32" where
  "swapped m m' k n = (drop_bit k n AND m) OR (push_bit k n AND m')"

lemma reverseBits_swapped:
  "reverseBits n = swapped 0x0000ffff 0xffff0000 16 (swapped 0x00ff00ff 0xff00ff00 8
     (swapped 0x0f0f0f0f 0xf0f0f0f0 4 (swapped 0x33333333 0xcccccccc 2 (swapped 0x55555555 0xaaaaaaaa 1 n))))"
  by (simp only: reverseBits_def swapped_def Let_def)

lemma bit_swapped:
  assumes "m' = NOT m" "i < 32" "\<not> bit m i \<longrightarrow> k \<le> i"
  shows "bit (swapped m m' k n) i \<longleftrightarrow> bit n (moved m k i)"
  using assms by (auto simp: swapped_def moved_def bit_or_iff bit_and_iff bit_drop_bit_eq bit_push_bit_iff
      bit_not_iff add.commute)

lemma moved_all:
  "list_all (\<lambda>i.
     let i1 = moved 0x0000ffff 16 i; i2 = moved 0x00ff00ff 8 i1; i3 = moved 0x0f0f0f0f 4 i2; i4 = moved 0x33333333 2 i3 in
     (\<not> bit (0x0000ffff :: u32) i \<longrightarrow> 16 \<le> i) \<and>
     i1 < 32 \<and> (\<not> bit (0x00ff00ff :: u32) i1 \<longrightarrow> 8 \<le> i1) \<and> i2 < 32 \<and> (\<not> bit (0x0f0f0f0f :: u32) i2 \<longrightarrow> 4 \<le> i2) \<and>
     i3 < 32 \<and> (\<not> bit (0x33333333 :: u32) i3 \<longrightarrow> 2 \<le> i3) \<and> i4 < 32 \<and> (\<not> bit (0x55555555 :: u32) i4 \<longrightarrow> 1 \<le> i4) \<and>
     moved 0x55555555 1 i4 = 31 - i) [0..<32]"
  by code_simp

lemma not_masks:
  "(0xaaaaaaaa :: u32) = NOT 0x55555555" "(0xcccccccc :: u32) = NOT 0x33333333"
  "(0xf0f0f0f0 :: u32) = NOT 0x0f0f0f0f" "(0xff00ff00 :: u32) = NOT 0x00ff00ff"
  "(0xffff0000 :: u32) = NOT 0x0000ffff"
  by code_simp+

lemma bit_reverseBits: "bit (reverseBits n) i \<longleftrightarrow> i < 32 \<and> bit n (31 - i)"
proof (cases "i < 32")
  case True
  with moved_all have "
     let i1 = moved 0x0000ffff 16 i; i2 = moved 0x00ff00ff 8 i1; i3 = moved 0x0f0f0f0f 4 i2; i4 = moved 0x33333333 2 i3 in
     (\<not> bit (0x0000ffff :: u32) i \<longrightarrow> 16 \<le> i) \<and>
     i1 < 32 \<and> (\<not> bit (0x00ff00ff :: u32) i1 \<longrightarrow> 8 \<le> i1) \<and> i2 < 32 \<and> (\<not> bit (0x0f0f0f0f :: u32) i2 \<longrightarrow> 4 \<le> i2) \<and>
     i3 < 32 \<and> (\<not> bit (0x33333333 :: u32) i3 \<longrightarrow> 2 \<le> i3) \<and> i4 < 32 \<and> (\<not> bit (0x55555555 :: u32) i4 \<longrightarrow> 1 \<le> i4) \<and>
     moved 0x55555555 1 i4 = 31 - i"
    by (simp only: list_all_iff) auto
  note m = this [unfolded Let_def]
  note s1 = bit_swapped [OF not_masks(5) True conjunct1 [OF m]]
  note m2 = conjunct2 [OF m]
  note s2 = bit_swapped [OF not_masks(4) conjunct1 [OF m2] conjunct1 [OF conjunct2 [OF m2]]]
  note m3 = conjunct2 [OF conjunct2 [OF m2]]
  note s3 = bit_swapped [OF not_masks(3) conjunct1 [OF m3] conjunct1 [OF conjunct2 [OF m3]]]
  note m4 = conjunct2 [OF conjunct2 [OF m3]]
  note s4 = bit_swapped [OF not_masks(2) conjunct1 [OF m4] conjunct1 [OF conjunct2 [OF m4]]]
  note m5 = conjunct2 [OF conjunct2 [OF m4]]
  note s5 = bit_swapped [OF not_masks(1) conjunct1 [OF m5] conjunct1 [OF conjunct2 [OF m5]]]
  show ?thesis
    unfolding reverseBits_swapped s1 s2 s3 s4 s5 conjunct2 [OF conjunct2 [OF m5]] using True by simp
next
  case False
  with bit_imp_le_length [of "reverseBits n" i] show ?thesis by auto
qed

lemma low_bits: "(x :: u64) AND 1 = of_bool (bit x 0)" "(x :: u64) AND 3 = take_bit 2 x"
proof -
  show "x AND 1 = of_bool (bit x 0)" by (simp add: and_one_eq bit_0 mod_2_eq_odd)
  have "(3 :: u64) = mask 2" by code_simp
  then show "x AND 3 = take_bit 2 x" by (simp only: take_bit_eq_mask)
qed

lemma bit_of_bool_word: "bit (of_bool P :: 'a::len word) i \<longleftrightarrow> P \<and> i = 0"
  by (cases P) (auto simp: bit_1_iff)

lemma of_bool_xor: "(of_bool P XOR of_bool Q :: 'a::len word) = of_bool (P \<noteq> Q)"
  by (cases P; cases Q) simp_all

lemmas packet_bits = bit_or_iff bit_push_bit_iff bit_take_bit_iff bit_drop_bit_eq bit_of_bool_word
  bit_xor_iff
  bit_1_iff bit_0_eq bit_ucast_iff bot_apply o_apply add_0_right

lemma swd_header_nth:
  "i < 8 \<Longrightarrow> swd_header ap rnw addr ! i \<longleftrightarrow>
     (i = 0 \<or> i = 1 \<and> ap \<or> i = 2 \<and> rnw \<or> i = 3 \<and> bit addr 2 \<or> i = 4 \<and> bit addr 3 \<or>
      i = 5 \<and> (rnw \<noteq> (bit addr 2 \<noteq> (bit addr 3 \<noteq> ap))) \<or> i = 7)"
proof -
  assume "i < 8"
  then consider "i = 0" | "i = 1" | "i = 2" | "i = 3" | "i = 4" | "i = 5" | "i = 6" | "i = 7" by linarith
  then show ?thesis by cases (simp_all add: swd_header_def)
qed

text \<open>The header, as the code puts it together.\<close>

definition header_word :: "bool \<Rightarrow> bool \<Rightarrow> u8 \<Rightarrow> u64" where
  "header_word ap rnw addr =
     1 OR push_bit 1 (of_bool ap) OR push_bit 2 (of_bool rnw) OR push_bit 3 (take_bit 2 (drop_bit 2 (ucast addr))) OR
     push_bit 5 (of_bool (rnw \<noteq> (bit addr 2 \<noteq> (bit addr 3 \<noteq> ap)))) OR push_bit 7 1"

lemma bit_header_word: "bit (header_word ap rnw addr) i \<longleftrightarrow> i < 8 \<and> swd_header ap rnw addr ! i"
proof (cases "i < 8")
  case True
  then consider "i = 0" | "i = 1" | "i = 2" | "i = 3" | "i = 4" | "i = 5" | "i = 6" | "i = 7" by linarith
  then show ?thesis by cases (simp_all only: header_word_def packet_bits, simp_all add: swd_header_def)
next
  case False
  then show ?thesis by (simp only: header_word_def packet_bits) auto
qed

lemma address_bits: "bit (drop_bit 2 (ucast addr :: u64)) 0 = bit addr 2" "bit (drop_bit 3 (ucast addr :: u64)) 0 = bit (addr :: u8) 3"
  by (simp_all only: packet_bits) simp_all

lemma swd_reg_read_header: "swd_reg_read ap addr = header_word ap True addr"
  unfolding swd_reg_read_def Let_def low_bits address_bits header_word_def
  by (rule bit_eqI; cases ap; simp only: packet_bits if_True if_False simp_thms; auto)

lemma swd_reg_write_header:
  "swd_reg_write ap addr data = header_word ap False addr OR push_bit 9 (ucast data) OR push_bit 41 (of_bool (odd (weight data)))"
  unfolding swd_reg_write_def Let_def low_bits address_bits header_word_def parity_loop_weight
  by (rule bit_eqI; cases ap; simp only: packet_bits if_True if_False simp_thms; auto simp: bit_of_bool_word)

lemma bit_swd_reg_write:
  "bit (swd_reg_write ap addr data) i \<longleftrightarrow>
     (if i < 8 then swd_header ap False addr ! i else if i < 9 then False
      else if i < 41 then bit data (i - 9) else i = 41 \<and> odd (weight data))"
  unfolding swd_reg_write_header
  by (simp only: packet_bits bit_header_word) (auto dest: bit_imp_le_length)

lemma bit_swd_request:
  "bit (wide_word (swd_request len t0 t1 so)) i \<longleftrightarrow>
     (if i < 64 then bit so i else if i < 70 then bit t1 (i - 64) else if i < 76 then bit t0 (i - 70)
      else i < 82 \<and> bit len (i - 76))"
  unfolding swd_request_def masks bit_wide_word
  by (simp only: bit_or_iff bit_and_iff bit_push_bit_iff bit_drop_bit_eq bit_ucast_iff bit_mask_iff o_apply)
    (auto dest: bit_imp_le_length)

text \<open>A response to a read, as the design delivers it: the data comes with its first bit at the top.\<close>

definition swd_read_response :: "u8 \<Rightarrow> u32 \<Rightarrow> bool \<Rightarrow> u64" where
  "swd_read_response code data p =
     36 OR push_bit 6 (of_bool p) OR push_bit 7 (ucast (reverseBits data)) OR push_bit 39 (ucast (take_bit 3 code))"

lemma reverseBits_twice: "reverseBits (reverseBits n) = n"
  by (rule bit_eqI) (auto simp: bit_reverseBits)

lemma bit_36: "bit (36 :: u64) i \<longleftrightarrow> i = 2 \<or> i = 5"
proof -
  have "(36 :: u64) = push_bit 2 1 OR push_bit 5 1" by code_simp
  then show ?thesis by (simp only: packet_bits) auto
qed

lemma swd_response_fields:
  "swd_read_response code data p AND 0x3f = 36"
  "drop_bit 6 (swd_read_response code data p) AND 1 = of_bool p"
  "ucast (drop_bit 7 (swd_read_response code data p) AND 0xffffffff) = reverseBits data"
  "ucast (drop_bit 39 (swd_read_response code data p) AND 7) = take_bit 3 code"
proof -
  have 7: "(7 :: u64) = mask 3" by code_simp
  note bits = swd_read_response_def packet_bits bit_and_iff bit_mask_iff bit_36
  show "swd_read_response code data p AND 0x3f = 36"
    unfolding masks by (rule bit_eqI) (simp only: bits, auto)
  show "drop_bit 6 (swd_read_response code data p) AND 1 = of_bool p"
    unfolding low_bits by (rule bit_eqI) (simp only: bits, auto)
  show "ucast (drop_bit 7 (swd_read_response code data p) AND 0xffffffff) = reverseBits data"
    unfolding masks by (rule bit_eqI) (simp only: bits, auto)
  show "ucast (drop_bit 39 (swd_read_response code data p) AND 7) = take_bit 3 code"
    unfolding 7 by (rule bit_eqI) (simp only: bits, auto dest: bit_imp_le_length)
qed

text \<open>
  C38. The packets of the protocol. A write and a read of a register have, from the first bit
  shifted out: the start bit, the kind of port, the direction, the bits 2 and 3 of the address,
  their parity, the stop and the park bit; a write has the data from bit 9 on, the first bit first,
  and its parity in bit 41. A request holds what is shifted out, the two turnarounds and the length
  where the design looks for them. The reversal of a word swaps the bits \<open>i\<close> and \<open>31 - i\<close>, and a
  response to a read is decoded to its acknowledgement, its data and its parity.
\<close>

theorem swd_packets:
  "(\<forall>i. bit (swd_reg_write ap addr data) i \<longleftrightarrow>
      (if i < 8 then swd_header ap False addr ! i else if i < 9 then False
       else if i < 41 then bit data (i - 9) else i = 41 \<and> odd (weight data))) \<and>
   (\<forall>i. bit (swd_reg_read ap addr) i \<longleftrightarrow> i < 8 \<and> swd_header ap True addr ! i) \<and>
   (\<forall>i. bit (wide_word (swd_request len t0 t1 so)) i \<longleftrightarrow>
      (if i < 64 then bit so i else if i < 70 then bit t1 (i - 64) else if i < 76 then bit t0 (i - 70)
       else i < 82 \<and> bit len (i - 76))) \<and>
   (\<forall>i. bit (reverseBits data) i \<longleftrightarrow> i < 32 \<and> bit data (31 - i)) \<and>
   swd_response (swd_read_response code data p) =
     \<lparr>swd_len = 36, swd_code = take_bit 3 code, swd_data = data, swd_parity = of_bool p\<rparr>"
proof (intro conjI allI)
  show "swd_response (swd_read_response code data p) =
     \<lparr>swd_len = 36, swd_code = take_bit 3 code, swd_data = data, swd_parity = of_bool p\<rparr>"
    unfolding swd_response_def Let_def swd_response_fields
    by (cases p) (simp_all add: reverseBits_twice)
qed (simp_all only: bit_swd_reg_write swd_reg_read_header bit_header_word bit_swd_request bit_reverseBits)

end
