(* ===== verification/Adiv5_Bench.thy ===== *)
theory Adiv5_Bench
  imports Swd_Phy_Bench
begin

text \<open>
  The benches of the debug ports over JTAG and SWD (\<open>jtag_adiv5_tb.cpp\<close> and \<open>swd_adiv5_tb.cpp\<close> of
  \<open>ahb3lite_remote_bridge2/bench\<close>, which differ in how they are wired to the JTAG client only), and
  of the multiplexer between the two and the JTAG phy (\<open>debug_mux_tb.cpp\<close>), whose accesses to the
  debug port are those of the other two. The accesses take the wiring of the bench.
\<close>

subsection \<open>Wiring\<close>

definition jtag_adiv5_wiring :: "'d wiring" where
  "jtag_adiv5_wiring =
     \<lparr>clocks = (\<lambda>t. let t = t\<lparr>CLK := lnot (CLK t)\<rparr> in t\<lparr>PHY_CLK := lnot (PHY_CLK t)\<rparr>),
      client_in = (\<lambda>t. (TCK t, TDO t, TDI t, TMS t, 1)),
      client_out = (\<lambda>tdo ms t. t\<lparr>TDO := tdo, TMS := ms\<rparr>)\<rparr>"

definition swd_adiv5_wiring :: "'d wiring" where
  "swd_adiv5_wiring =
     \<lparr>clocks = (\<lambda>t. let t = t\<lparr>CLK := lnot (CLK t)\<rparr> in t\<lparr>PHY_CLK := lnot (PHY_CLK t)\<rparr>),
      client_in = (\<lambda>t. (TCK t, 0, 0, tmsio_in t, TMSOE t)),
      client_out = (\<lambda>tdo ms t. tmsio_out ms t)\<rparr>"

definition debug_mux_wiring :: "'d wiring" where
  "debug_mux_wiring =
     \<lparr>clocks = (\<lambda>t. let t = t\<lparr>CLK := lnot (CLK t)\<rparr>; t = t\<lparr>PHY_CLK := lnot (PHY_CLK t)\<rparr>
        in t\<lparr>PHY_CLKn := lnot (PHY_CLK t)\<rparr>),
      client_in = (\<lambda>t. (TCK t, TDO t, TDI t, tmsio_in t, TMSOE t)),
      client_out = (\<lambda>tdo ms t. tmsio_out ms (t\<lparr>TDO := tdo\<rparr>))\<rparr>"

subsection \<open>Accesses\<close>

text \<open>The status of a response.\<close>

datatype stat_t = OK | WAIT | FAULT | NOCONNECT

definition stat_code :: "stat_t \<Rightarrow> u64" where
  "stat_code s = (case s of OK \<Rightarrow> 4 | WAIT \<Rightarrow> 2 | FAULT \<Rightarrow> 1 | NOCONNECT \<Rightarrow> 7)"

text \<open>A request: 32 bits of data, 2 of address, and whether it is for an access port and a read.\<close>

definition adiv5_word :: "u8 \<Rightarrow> bool \<Rightarrow> bool \<Rightarrow> u32 \<Rightarrow> u64" where
  "adiv5_word addr APnDP RnW data =
     (let v = push_bit 4 (ucast data);
          v = v OR push_bit 2 (ucast addr AND 3);
          v = (if APnDP then v OR push_bit 1 1 else v);
          v = (if RnW then v OR 1 else v)
      in v)"

definition adiv5_write :: "'d wiring \<Rightarrow> 'd world \<Rightarrow> nat \<Rightarrow> u8 \<Rightarrow> bool \<Rightarrow> bool \<Rightarrow> u32 \<Rightarrow> ('d tb, unit) op" where
  "adiv5_write k w fuel addr APnDP RnW data = push_narrow k w fuel (adiv5_word addr APnDP RnW data)"

text \<open>When the status is not \<open>OK\<close> the bench runs on for 100 cycles and sets \<open>done\<close>.\<close>

definition adiv5_read :: "'d wiring \<Rightarrow> 'd world \<Rightarrow> nat \<Rightarrow> ('d tb, u32) op" where
  "adiv5_read k w fuel =
     thenS (pull_narrow k w fuel)
    (bindS (get_ports NRDDATA) (\<lambda>d.
     thenS (if d AND 7 \<noteq> stat_code OK then
              thenS (printf ''read failed: %d'' [d AND 7])
             (thenS (repeatS 100 (cycle k w))
                    (\<lambda>b. Inr ((), b\<lparr>stopped := True\<rparr>)))
            else returnS ())
    (bindS (get_ports NRDDATA) (\<lambda>d. returnS (ucast (drop_bit 3 d AND 0xffffffff))))))"

definition adiv5_dp_write :: "'d wiring \<Rightarrow> 'd world \<Rightarrow> nat \<Rightarrow> u8 \<Rightarrow> u32 \<Rightarrow> ('d tb, unit) op" where
  "adiv5_dp_write k w fuel addr data =
     thenS (adiv5_write k w fuel (drop_bit 2 addr AND 3) False False data)
           (if addr \<noteq> 0xc then thenS (adiv5_read k w fuel) (returnS ()) else returnS ())"

definition adiv5_dp_read :: "'d wiring \<Rightarrow> 'd world \<Rightarrow> nat \<Rightarrow> u8 \<Rightarrow> ('d tb, u32) op" where
  "adiv5_dp_read k w fuel addr =
     thenS (adiv5_write k w fuel (drop_bit 2 addr AND 3) False True 0) (adiv5_read k w fuel)"

definition adiv5_ap_read :: "'d wiring \<Rightarrow> 'd world \<Rightarrow> nat \<Rightarrow> u8 \<Rightarrow> u8 \<Rightarrow> ('d tb, u32) op" where
  "adiv5_ap_read k w fuel apsel addr =
     thenS (adiv5_write k w fuel 2 False False (push_bit 24 (ucast apsel) OR ucast addr))
    (thenS (adiv5_read k w fuel)
    (thenS (adiv5_write k w fuel (drop_bit 2 addr AND 3) True True 0)
           (adiv5_read k w fuel)))"

definition adiv5_ap_write :: "'d wiring \<Rightarrow> 'd world \<Rightarrow> nat \<Rightarrow> u8 \<Rightarrow> u8 \<Rightarrow> u32 \<Rightarrow> ('d tb, unit) op" where
  "adiv5_ap_write k w fuel apsel addr data =
     thenS (adiv5_write k w fuel 2 False False (push_bit 24 (ucast apsel) OR ucast addr))
    (thenS (adiv5_read k w fuel)
    (thenS (adiv5_write k w fuel (drop_bit 2 addr AND 3) True False data)
    (thenS (adiv5_read k w fuel) (returnS ()))))"

subsection \<open>The main programs\<close>

definition adiv5_halt :: "'d wiring \<Rightarrow> 'd world \<Rightarrow> nat \<Rightarrow> ('d tb, unit) op" where
  "adiv5_halt k w fuel = do_while fuel
     (thenS (adiv5_ap_write k w fuel 0 0xc 0xA05F0003)
     (bindS (adiv5_ap_read k w fuel 0 0xc) (\<lambda>data. returnS (data AND push_bit 17 1 = 0))))"

text \<open>From the reading of the identification of the debug port to the test of the memory.\<close>

definition adiv5_session :: "'d wiring \<Rightarrow> 'd world \<Rightarrow> nat \<Rightarrow> ('d tb, unit) op" where
  "adiv5_session k w fuel = blockS
     [adiv5_dp_write k w fuel 0xc 0,
      adiv5_dp_write k w fuel 0xc 1,
      show_u32 ''IDCODE=%08X'' (adiv5_dp_read k w fuel 0),
      adiv5_dp_write k w fuel 4 0x50000000,
      bindS (adiv5_dp_read k w fuel 4) (\<lambda>val.
        thenS (printf ''CTRL/STAT=%08X'' [ucast val])
              (if val AND 0xf0000000 = 0xf0000000 then printf ''PWR|DBG enabled'' [] else returnS ())),
      show_u32 ''AP[0]=%08X'' (adiv5_ap_read k w fuel 0 0xfc),
      show_u32 ''BASE=%08X'' (adiv5_ap_read k w fuel 0 0xf8),
      adiv5_ap_write k w fuel 0 0 0xA2000002,
      adiv5_ap_write k w fuel 0 4 0xE000EDF0,
      printf ''Halting processor... '' [],
      adiv5_halt k w fuel,
      printf ''OK'' [],
      adiv5_ap_write k w fuel 0 4 0x20000000,
      printf ''RAM test... '' [],
      adiv5_ap_write k w fuel 0 0xc 0xdeadc0de,
      bindS (adiv5_ap_read k w fuel 0 0xc) (\<lambda>val. if val = 0xdeadc0de then printf ''OK'' [] else printf ''FAILED'' [])]"

text \<open>
  \<open>jtag_adiv5_tb.cpp\<close> is what the definitions above translate; \<open>swd_adiv5_tb.cpp\<close> has members of
  its own for the accesses, which are shown to be the same on its wiring.
\<close>

definition jtag_adiv5_half_cycle :: "'d world \<Rightarrow> ('d tb, unit) op" where
  "jtag_adiv5_half_cycle w =
     half_cycle jtag_adiv5_wiring w"

definition jtag_adiv5_cycle :: "'d world \<Rightarrow> ('d tb, unit) op" where
  "jtag_adiv5_cycle w =
     thenS (jtag_adiv5_half_cycle w) (jtag_adiv5_half_cycle w)"

definition jtag_adiv5_Enable :: "'d world \<Rightarrow> ('d tb, unit) op" where
  "jtag_adiv5_Enable w =
     thenS (set_ports (\<lambda>t. t\<lparr>ENABLE := 1\<rparr>)) (jtag_adiv5_cycle w)"

definition jtag_adiv5_Disable :: "'d world \<Rightarrow> ('d tb, unit) op" where
  "jtag_adiv5_Disable w =
     thenS (set_ports (\<lambda>t. t\<lparr>ENABLE := 0\<rparr>)) (jtag_adiv5_cycle w)"

lemma jtag_adiv5_cycles:
  "jtag_adiv5_half_cycle = half_cycle jtag_adiv5_wiring"
  "jtag_adiv5_cycle = cycle jtag_adiv5_wiring"
  "jtag_adiv5_Enable = Enable jtag_adiv5_wiring"
  "jtag_adiv5_Disable = Disable jtag_adiv5_wiring"
  by (rule ext, simp add: jtag_adiv5_half_cycle_def jtag_adiv5_cycle_def cycle_def jtag_adiv5_Enable_def Enable_def jtag_adiv5_Disable_def Disable_def)+

definition jtag_adiv5_main ::
  "'d world \<Rightarrow> 'img opt_env \<Rightarrow> (opt_key \<times> string option) list \<Rightarrow> nat \<Rightarrow> ('d tb, unit) op" where
  "jtag_adiv5_main w env opts fuel = thenS (parse_args env opts) (blockS
     [repeatS 20 (jtag_adiv5_cycle w),
      jtag_adiv5_Enable w,
      adiv5_session jtag_adiv5_wiring w fuel,
      repeatS 200 (jtag_adiv5_cycle w),
      jtag_adiv5_Disable w,
      repeatS 20 (jtag_adiv5_cycle w),
      delete_tb w])"

definition swd_adiv5_half_cycle :: "'d world \<Rightarrow> ('d tb, unit) op" where
  "swd_adiv5_half_cycle w =
     half_cycle swd_adiv5_wiring w"

definition swd_adiv5_cycle :: "'d world \<Rightarrow> ('d tb, unit) op" where
  "swd_adiv5_cycle w =
     thenS (swd_adiv5_half_cycle w) (swd_adiv5_half_cycle w)"

definition swd_adiv5_Enable :: "'d world \<Rightarrow> ('d tb, unit) op" where
  "swd_adiv5_Enable w =
     thenS (set_ports (\<lambda>t. t\<lparr>ENABLE := 1\<rparr>)) (swd_adiv5_cycle w)"

definition swd_adiv5_Disable :: "'d world \<Rightarrow> ('d tb, unit) op" where
  "swd_adiv5_Disable w =
     thenS (set_ports (\<lambda>t. t\<lparr>ENABLE := 0\<rparr>)) (swd_adiv5_cycle w)"

definition swd_adiv5_write :: "'d world \<Rightarrow> nat \<Rightarrow> u8 \<Rightarrow> bool \<Rightarrow> bool \<Rightarrow> u32 \<Rightarrow> ('d tb, unit) op" where
  "swd_adiv5_write w fuel addr APnDP RnW data =
     push_narrow swd_adiv5_wiring w fuel (adiv5_word addr APnDP RnW data)"

definition swd_adiv5_read :: "'d world \<Rightarrow> nat \<Rightarrow> ('d tb, u32) op" where
  "swd_adiv5_read w fuel =
     thenS (pull_narrow swd_adiv5_wiring w fuel)
    (bindS (get_ports NRDDATA) (\<lambda>d.
     thenS (if d AND 7 \<noteq> stat_code OK then
              thenS (printf ''read failed: %d'' [d AND 7])
             (thenS (repeatS 100 (swd_adiv5_cycle w))
                    (\<lambda>b. Inr ((), b\<lparr>stopped := True\<rparr>)))
            else returnS ())
    (bindS (get_ports NRDDATA) (\<lambda>d. returnS (ucast (drop_bit 3 d AND 0xffffffff))))))"

definition swd_adiv5_dp_write :: "'d world \<Rightarrow> nat \<Rightarrow> u8 \<Rightarrow> u32 \<Rightarrow> ('d tb, unit) op" where
  "swd_adiv5_dp_write w fuel addr data =
     thenS (swd_adiv5_write w fuel (drop_bit 2 addr AND 3) False False data)
           (if addr \<noteq> 0xc then thenS (swd_adiv5_read w fuel) (returnS ()) else returnS ())"

definition swd_adiv5_dp_read :: "'d world \<Rightarrow> nat \<Rightarrow> u8 \<Rightarrow> ('d tb, u32) op" where
  "swd_adiv5_dp_read w fuel addr =
     thenS (swd_adiv5_write w fuel (drop_bit 2 addr AND 3) False True 0) (swd_adiv5_read w fuel)"

definition swd_adiv5_ap_read :: "'d world \<Rightarrow> nat \<Rightarrow> u8 \<Rightarrow> u8 \<Rightarrow> ('d tb, u32) op" where
  "swd_adiv5_ap_read w fuel apsel addr =
     thenS (swd_adiv5_write w fuel 2 False False (push_bit 24 (ucast apsel) OR ucast addr))
    (thenS (swd_adiv5_read w fuel)
    (thenS (swd_adiv5_write w fuel (drop_bit 2 addr AND 3) True True 0) (swd_adiv5_read w fuel)))"

definition swd_adiv5_ap_write :: "'d world \<Rightarrow> nat \<Rightarrow> u8 \<Rightarrow> u8 \<Rightarrow> u32 \<Rightarrow> ('d tb, unit) op" where
  "swd_adiv5_ap_write w fuel apsel addr data =
     thenS (swd_adiv5_write w fuel 2 False False (push_bit 24 (ucast apsel) OR ucast addr))
    (thenS (swd_adiv5_read w fuel)
    (thenS (swd_adiv5_write w fuel (drop_bit 2 addr AND 3) True False data)
    (thenS (swd_adiv5_read w fuel) (returnS ()))))"

lemma swd_adiv5_cycles:
  "swd_adiv5_half_cycle = half_cycle swd_adiv5_wiring"
  "swd_adiv5_cycle = cycle swd_adiv5_wiring"
  "swd_adiv5_Enable = Enable swd_adiv5_wiring"
  "swd_adiv5_Disable = Disable swd_adiv5_wiring"
  by (rule ext, simp add: swd_adiv5_half_cycle_def swd_adiv5_cycle_def cycle_def swd_adiv5_Enable_def Enable_def swd_adiv5_Disable_def Disable_def)+

lemma swd_adiv5_accesses:
  "swd_adiv5_write = adiv5_write swd_adiv5_wiring"
  "swd_adiv5_read = adiv5_read swd_adiv5_wiring"
  "swd_adiv5_dp_write = adiv5_dp_write swd_adiv5_wiring"
  "swd_adiv5_dp_read = adiv5_dp_read swd_adiv5_wiring"
  "swd_adiv5_ap_read = adiv5_ap_read swd_adiv5_wiring"
  "swd_adiv5_ap_write = adiv5_ap_write swd_adiv5_wiring"
  unfolding swd_adiv5_cycles swd_adiv5_write_def adiv5_write_def swd_adiv5_read_def adiv5_read_def
    swd_adiv5_dp_write_def adiv5_dp_write_def swd_adiv5_dp_read_def adiv5_dp_read_def
    swd_adiv5_ap_read_def adiv5_ap_read_def swd_adiv5_ap_write_def adiv5_ap_write_def
  by (rule refl)+

definition swd_adiv5_main ::
  "'d world \<Rightarrow> 'img opt_env \<Rightarrow> (opt_key \<times> string option) list \<Rightarrow> nat \<Rightarrow> ('d tb, unit) op" where
  "swd_adiv5_main w env opts fuel = thenS (parse_args env opts) (blockS
     [repeatS 20 (swd_adiv5_cycle w),
      swd_adiv5_Enable w,
      adiv5_session swd_adiv5_wiring w fuel,
      repeatS 200 (swd_adiv5_cycle w),
      swd_adiv5_Disable w,
      repeatS 20 (swd_adiv5_cycle w),
      delete_tb w])"

subsection \<open>The multiplexer\<close>

definition debug_mux_half_cycle :: "'d world \<Rightarrow> ('d tb, unit) op" where
  "debug_mux_half_cycle w =
     half_cycle debug_mux_wiring w"

definition debug_mux_cycle :: "'d world \<Rightarrow> ('d tb, unit) op" where
  "debug_mux_cycle w =
     thenS (debug_mux_half_cycle w) (debug_mux_half_cycle w)"

definition debug_mux_write :: "'d world \<Rightarrow> nat \<Rightarrow> u8 \<Rightarrow> bool \<Rightarrow> bool \<Rightarrow> u32 \<Rightarrow> ('d tb, unit) op" where
  "debug_mux_write w fuel addr APnDP RnW data =
     push_narrow debug_mux_wiring w fuel (adiv5_word addr APnDP RnW data)"

definition debug_mux_read :: "'d world \<Rightarrow> nat \<Rightarrow> ('d tb, u32) op" where
  "debug_mux_read w fuel =
     thenS (pull_narrow debug_mux_wiring w fuel)
    (bindS (get_ports NRDDATA) (\<lambda>d.
     thenS (if d AND 7 \<noteq> stat_code OK then
              thenS (printf ''read failed: %d'' [d AND 7])
             (thenS (repeatS 100 (debug_mux_cycle w))
                    (\<lambda>b. Inr ((), b\<lparr>stopped := True\<rparr>)))
            else returnS ())
    (bindS (get_ports NRDDATA) (\<lambda>d. returnS (ucast (drop_bit 3 d AND 0xffffffff))))))"

definition debug_mux_dp_write :: "'d world \<Rightarrow> nat \<Rightarrow> u8 \<Rightarrow> u32 \<Rightarrow> ('d tb, unit) op" where
  "debug_mux_dp_write w fuel addr data =
     thenS (debug_mux_write w fuel (drop_bit 2 addr AND 3) False False data)
           (if addr \<noteq> 0xc then thenS (debug_mux_read w fuel) (returnS ()) else returnS ())"

definition debug_mux_dp_read :: "'d world \<Rightarrow> nat \<Rightarrow> u8 \<Rightarrow> ('d tb, u32) op" where
  "debug_mux_dp_read w fuel addr =
     thenS (debug_mux_write w fuel (drop_bit 2 addr AND 3) False True 0) (debug_mux_read w fuel)"

definition debug_mux_ap_read :: "'d world \<Rightarrow> nat \<Rightarrow> u8 \<Rightarrow> u8 \<Rightarrow> ('d tb, u32) op" where
  "debug_mux_ap_read w fuel apsel addr =
     thenS (debug_mux_write w fuel 2 False False (push_bit 24 (ucast apsel) OR ucast addr))
    (thenS (debug_mux_read w fuel)
    (thenS (debug_mux_write w fuel (drop_bit 2 addr AND 3) True True 0) (debug_mux_read w fuel)))"

definition debug_mux_ap_write :: "'d world \<Rightarrow> nat \<Rightarrow> u8 \<Rightarrow> u8 \<Rightarrow> u32 \<Rightarrow> ('d tb, unit) op" where
  "debug_mux_ap_write w fuel apsel addr data =
     thenS (debug_mux_write w fuel 2 False False (push_bit 24 (ucast apsel) OR ucast addr))
    (thenS (debug_mux_read w fuel)
    (thenS (debug_mux_write w fuel (drop_bit 2 addr AND 3) True False data)
    (thenS (debug_mux_read w fuel) (returnS ()))))"

lemma debug_mux_cycles:
  "debug_mux_half_cycle = half_cycle debug_mux_wiring"
  "debug_mux_cycle = cycle debug_mux_wiring"
  by (rule ext, simp add: debug_mux_half_cycle_def debug_mux_cycle_def cycle_def)+

lemma debug_mux_accesses:
  "debug_mux_write = adiv5_write debug_mux_wiring"
  "debug_mux_read = adiv5_read debug_mux_wiring"
  "debug_mux_dp_write = adiv5_dp_write debug_mux_wiring"
  "debug_mux_dp_read = adiv5_dp_read debug_mux_wiring"
  "debug_mux_ap_read = adiv5_ap_read debug_mux_wiring"
  "debug_mux_ap_write = adiv5_ap_write debug_mux_wiring"
  unfolding debug_mux_cycles debug_mux_write_def adiv5_write_def debug_mux_read_def adiv5_read_def
    debug_mux_dp_write_def adiv5_dp_write_def debug_mux_dp_read_def adiv5_dp_read_def
    debug_mux_ap_read_def adiv5_ap_read_def debug_mux_ap_write_def adiv5_ap_write_def
  by (rule refl)+

definition JTAGReq :: "'d world \<Rightarrow> nat \<Rightarrow> u8 \<Rightarrow> u32 \<Rightarrow> u64 \<Rightarrow> ('d tb, unit) op" where
  "JTAGReq w fuel cmd len data = push_wide debug_mux_wiring w fuel (pack_request cmd len data)"

definition JTAGResp :: "'d world \<Rightarrow> nat \<Rightarrow> ('d tb, jtag_resp) op" where
  "JTAGResp w fuel =
     thenS (pull_wide debug_mux_wiring w fuel) (bindS (get_ports RDDATA) (\<lambda>d. returnS (unpack_response d)))"

definition test_if :: "'d world \<Rightarrow> nat \<Rightarrow> bool \<Rightarrow> ('d tb, unit) op" where
  "test_if w fuel jns = blockS
     [printf (if jns then ''Testing JTAG interface...'' else ''Testing SWD interface...'') [],
      set_ports (\<lambda>t. t\<lparr>JTAG_DIRECT := 0\<rparr>),
      set_ports (\<lambda>t. t\<lparr>JTAGnSWD := of_bool jns\<rparr>),
      debug_mux_cycle w,
      adiv5_session debug_mux_wiring w fuel,
      printf [] [],
      repeatS 100 (debug_mux_cycle w)]"

definition JTAG_Direct :: "'d world \<Rightarrow> nat \<Rightarrow> ('d tb, unit) op" where
  "JTAG_Direct w fuel = blockS
     [printf ''Testing JTAG direct interface'' [],
      set_ports (\<lambda>t. t\<lparr>JTAG_DIRECT := 1\<rparr>),
      debug_mux_cycle w,
      JTAGReq w fuel CMD_DR_WRITE 0 0,
      JTAGReq w fuel CMD_IR_WRITE 0 0,
      JTAGReq w fuel CMD_DR_READ 32 0,
      show_u32 ''IDCODE=%08X'' (bindS (JTAGResp w fuel) (\<lambda>resp. returnS (ucast (resp_data resp))))]"

definition debug_mux_main ::
  "'d world \<Rightarrow> 'img opt_env \<Rightarrow> (opt_key \<times> string option) list \<Rightarrow> nat \<Rightarrow> ('d tb, unit) op" where
  "debug_mux_main w env opts fuel = thenS (parse_args env opts) (blockS
     [repeatS 20 (debug_mux_cycle w),
      test_if w fuel False,
      test_if w fuel True,
      test_if w fuel False,
      JTAG_Direct w fuel,
      repeatS 20 (debug_mux_cycle w),
      delete_tb w])"

subsection \<open>The benches end\<close>

lemma ends_adiv5 [ends_intros]:
  assumes "unat T < fuel"
  shows "tb_ends T (adiv5_write k w fuel addr ap rnw data)" "tb_ends T (adiv5_read k w fuel)"
    "tb_ends T (adiv5_dp_write k w fuel addr data)" "tb_ends T (adiv5_dp_read k w fuel addr)"
    "tb_ends T (adiv5_ap_read k w fuel apsel addr)" "tb_ends T (adiv5_ap_write k w fuel apsel addr data)"
proof -
  show 1: "tb_ends T (adiv5_write k w fuel addr ap rnw data)" for addr ap rnw data
    unfolding adiv5_write_def using assms by (intro ends_intros)
  show 2: "tb_ends T (adiv5_read k w fuel)"
    unfolding adiv5_read_def using assms by (intro ends_intros)
  show "tb_ends T (adiv5_dp_write k w fuel addr data)" "tb_ends T (adiv5_dp_read k w fuel addr)"
    "tb_ends T (adiv5_ap_read k w fuel apsel addr)" "tb_ends T (adiv5_ap_write k w fuel apsel addr data)"
    unfolding adiv5_dp_write_def adiv5_dp_read_def adiv5_ap_read_def adiv5_ap_write_def
    by (intro ends_intros 1 2)+
qed

lemma takes_adiv5_ap_write:
  assumes "unat T < fuel"
  shows "takes 2 T (adiv5_ap_write k w fuel apsel addr data)"
proof -
  note rest = ends_thenS [OF ends_adiv5(2) [OF assms] ends_thenS [OF ends_adiv5(1) [OF assms]
      ends_thenS [OF ends_adiv5(2) [OF assms] ends_returnS]]]
  show ?thesis
    using takes_thenS [OF takes_push(2) [OF assms] rest] unfolding adiv5_ap_write_def adiv5_write_def by simp
qed

lemma ends_adiv5_halt [ends_intros]:
  assumes "unat T < fuel"
  shows "tb_ends T (adiv5_halt k w fuel)"
proof -
  have "moves T (thenS (adiv5_ap_write k w fuel 0 0xc 0xA05F0003)
     (bindS (adiv5_ap_read k w fuel 0 0xc) (\<lambda>data. returnS (data AND push_bit 17 1 = 0))))"
    using assms by (intro moves_thenS takes_adiv5_ap_write ends_intros)
  with assms show ?thesis unfolding adiv5_halt_def by (intro ends_do_while)
qed

lemma ends_adiv5_session [ends_intros]: "unat T < fuel \<Longrightarrow> tb_ends T (adiv5_session k w fuel)"
  unfolding adiv5_session_def by (intro ends_intros)

lemma ends_mux [ends_intros]:
  assumes "unat T < fuel"
  shows "tb_ends T (JTAGReq w fuel cmd len data)" "tb_ends T (JTAGResp w fuel)"
    "tb_ends T (test_if w fuel jns)" "tb_ends T (JTAG_Direct w fuel)"
proof -
  show 1: "tb_ends T (JTAGReq w fuel cmd len data)" for cmd len data
    unfolding JTAGReq_def using assms by (intro ends_intros)
  show 2: "tb_ends T (JTAGResp w fuel)"
    unfolding JTAGResp_def using assms by (intro ends_intros)
  show "tb_ends T (test_if w fuel jns)"
    unfolding test_if_def debug_mux_cycles using assms by (intro ends_intros)
  show "tb_ends T (JTAG_Direct w fuel)"
    unfolding JTAG_Direct_def debug_mux_cycles by (intro ends_intros 1 2)
qed

lemma adiv5_mains_end:
  assumes "parse_args env opts b = Inr ((), b')" "servers_ok (base b')" "timeout (base b') \<noteq> 0"
    and "unat (timeout (base b')) < fuel"
  shows "jtag_adiv5_main w env opts fuel b \<noteq> Inl OutOfFuel" "swd_adiv5_main w env opts fuel b \<noteq> Inl OutOfFuel"
    "debug_mux_main w env opts fuel b \<noteq> Inl OutOfFuel"
proof -
  show "jtag_adiv5_main w env opts fuel b \<noteq> Inl OutOfFuel"
    unfolding jtag_adiv5_main_def jtag_adiv5_cycles using assms(4) by (intro main_ends [OF assms(1-3)] ends_intros)
  show "swd_adiv5_main w env opts fuel b \<noteq> Inl OutOfFuel"
    unfolding swd_adiv5_main_def swd_adiv5_cycles using assms(4) by (intro main_ends [OF assms(1-3)] ends_intros)
  show "debug_mux_main w env opts fuel b \<noteq> Inl OutOfFuel"
    unfolding debug_mux_main_def debug_mux_cycles using assms(4) by (intro main_ends [OF assms(1-3)] ends_intros)
qed

subsection \<open>What the accesses send\<close>

text \<open>A wiring leaves the queues alone.\<close>

lemma wired_adiv5 [simp]: "wired jtag_adiv5_wiring" "wired swd_adiv5_wiring" "wired debug_mux_wiring"
  by (simp_all add: wired_def jtag_adiv5_wiring_def swd_adiv5_wiring_def debug_mux_wiring_def tmsio_out_def Let_def)

definition passes_response :: "'d wiring \<Rightarrow> bool" where
  "passes_response k \<longleftrightarrow> (\<forall>t. NRDDATA (clocks k t) = NRDDATA t) \<and>
     (\<forall>tdo ms t. NRDDATA (client_out k tdo ms t) = NRDDATA t)"

lemma passes_adiv5 [simp]:
  "passes_response jtag_adiv5_wiring" "passes_response swd_adiv5_wiring" "passes_response debug_mux_wiring"
  by (simp_all add: passes_response_def jtag_adiv5_wiring_def swd_adiv5_wiring_def debug_mux_wiring_def
      tmsio_out_def Let_def)

text \<open>The designs that answer with the status \<open>st\<close> only.\<close>

definition answers :: "'d world \<Rightarrow> (u64 \<Rightarrow> bool) \<Rightarrow> bool" where
  "answers w st \<longleftrightarrow> (\<forall>t. st (NRDDATA (eval w t) AND 7))"

lemma does_cycle_status:
  assumes "steady_world w" "wired k" "passes_response k" "answers w st"
  shows "does (cycle k w) [] [] (\<lambda>x b. st (NRDDATA (design b) AND 7))"
proof -
  have "does (thenS (drive k w) (call_client k w)) [] [] (\<lambda>x b. st (NRDDATA (design b) AND 7))"
    using assms
    by (auto simp: does_def thenS_def bindS_def drive_def call_client_def steady_def steady_base_def
        steady_world_def wired_def passes_response_def answers_def ready_def utils_doJTAGClient_def
        when_due_def Let_def split: prod.splits)
  note half = does_silent_thenS [OF does_tick [OF assms(1)] this]
  then have "does (half_cycle k w) [] [] anything"
    unfolding half_cycle_def by (rule does_weaken) simp
  from does_silent_thenS [OF this half] show ?thesis by (simp add: cycle_def half_cycle_def)
qed

lemma does_pull_status:
  assumes "steady_world w" "wired k" "passes_response k" "answers w st" "0 < fuel"
  shows "does (pull_narrow k w fuel) [] [] (\<lambda>x b. st (NRDDATA (design b) AND 7))"
  unfolding pull_narrow_def blockS.simps
  using assms does_cycle_status [OF assms(1-4)]
  by (intro does_silent_thenS does_wait_while does_set_ports does_keep) auto

lemma does_adiv5_read:
  assumes "steady_world w" "wired k" "passes_response k" "answers w ((=) 4)" "0 < fuel"
  shows "does (adiv5_read k w fuel) [] [] (\<lambda>v b. v = ucast (drop_bit 3 (NRDDATA (design b))))"
  unfolding does_def
proof (intro allI impI)
  fix b :: "'a tb" assume "steady b"
  with does_pull_status [OF assms] obtain x b1 where 1: "pull_narrow k w fuel b = Inr (x, b1)" "steady b1"
    "requests b1 = requests b @ []" "nrequests b1 = nrequests b @ []" "4 = NRDDATA (design b1) AND 7"
    by (rule doesD)
  have mask: "ucast (d AND 0xffffffff) = (ucast d :: u32)" for d :: u64
    unfolding masks by (rule bit_eqI) (auto simp: bit_simps)
  from 1 show "\<exists>x b'. adiv5_read k w fuel b = Inr (x, b') \<and> steady b' \<and>
      requests b' = requests b @ [] \<and> nrequests b' = nrequests b @ [] \<and> x = ucast (drop_bit 3 (NRDDATA (design b')))"
    by (simp add: adiv5_read_def thenS_def bindS_def get_ports_def returnS_def stat_code_def mask)
qed

lemma does_adiv5_write:
  "steady_world w \<Longrightarrow> wired k \<Longrightarrow> 0 < fuel \<Longrightarrow>
    does (adiv5_write k w fuel addr ap rnw data) [] [adiv5_word addr ap rnw data] anything"
  unfolding adiv5_write_def by (rule does_push_narrow)

lemma does_adiv5_accesses:
  assumes "steady_world w" "wired k" "passes_response k" "answers w ((=) 4)" "0 < fuel"
  shows "does (adiv5_dp_write k w fuel addr data) [] [adiv5_word (drop_bit 2 addr AND 3) False False data] anything"
    "does (adiv5_dp_read k w fuel addr) [] [adiv5_word (drop_bit 2 addr AND 3) False True 0]
      (\<lambda>v b. v = ucast (drop_bit 3 (NRDDATA (design b))))"
    "does (adiv5_ap_write k w fuel ap addr data) []
      [adiv5_word 2 False False (ap_select ap addr), adiv5_word (drop_bit 2 addr AND 3) True False data] anything"
    "does (adiv5_ap_read k w fuel ap addr) []
      [adiv5_word 2 False False (ap_select ap addr), adiv5_word (drop_bit 2 addr AND 3) True True 0]
      (\<lambda>v b. v = ucast (drop_bit 3 (NRDDATA (design b))))"
proof -
  note wr = does_adiv5_write [OF assms(1,2,5)]
  note rd = does_adiv5_read [OF assms]
  note rd0 = does_weaken [OF rd, of anything, simplified]
  have sel: "push_bit 24 (ucast ap) OR ucast addr = ap_select ap addr"
    by (simp add: ap_select_def or.commute)
  note fin = does_silent_thenS [OF rd0 does_returnS]
  show "does (adiv5_dp_read k w fuel addr) [] [adiv5_word (drop_bit 2 addr AND 3) False True 0]
      (\<lambda>v b. v = ucast (drop_bit 3 (NRDDATA (design b))))"
    using does_thenS [OF wr rd] by (simp add: adiv5_dp_read_def)
  show "does (adiv5_dp_write k w fuel addr data) [] [adiv5_word (drop_bit 2 addr AND 3) False False data] anything"
    using does_thenS [OF wr] fin does_returnS by (fastforce simp: adiv5_dp_write_def)
  show "does (adiv5_ap_write k w fuel ap addr data) []
      [adiv5_word 2 False False (ap_select ap addr), adiv5_word (drop_bit 2 addr AND 3) True False data] anything"
    using does_thenS [OF wr does_silent_thenS [OF rd0 does_thenS [OF wr fin]]] by (simp add: adiv5_ap_write_def sel)
  show "does (adiv5_ap_read k w fuel ap addr) []
      [adiv5_word 2 False False (ap_select ap addr), adiv5_word (drop_bit 2 addr AND 3) True True 0]
      (\<lambda>v b. v = ucast (drop_bit 3 (NRDDATA (design b))))"
    using does_thenS [OF wr does_silent_thenS [OF rd0 does_thenS [OF wr rd]]] by (simp add: adiv5_ap_read_def sel)
qed

text \<open>Another status stops the bench in the next cycle.\<close>

lemma stopped_write:
  assumes "steady (b\<lparr>stopped := False\<rparr>)" "stopped b" "steady_world w" "0 < fuel"
  shows "adiv5_write k w fuel addr ap rnw data b = Inl (Exit '''')"
proof -
  from assms(4) obtain n where n: "fuel = Suc n" by (cases fuel) auto
  have "tick w b' = Inl (Exit '''')" if "base b' = base b" "stopped b'" for b' :: "'a tb"
    using assms that
    by (simp add: tick_def steady_def steady_base_def steady_world_def doCycle_def fst_window_def fail_def Let_def)
  with assms n show ?thesis
    by (simp add: adiv5_write_def push_narrow_def wait_while_def thenS_def bindS_def get_ports_def set_ports_def
        returnS_def cycle_def half_cycle_def steady_def ready_def)
qed

lemma failed_read:
  assumes "steady_world w" "wired k" "passes_response k" "answers w (\<lambda>s. s \<noteq> 4)" "0 < fuel" "steady b"
  shows "\<exists>v b'. adiv5_read k w fuel b = Inr (v, b') \<and> steady (b'\<lparr>stopped := False\<rparr>) \<and> stopped b'"
proof -
  from does_pull_status [OF assms(1-5)] assms(6) obtain x b1 where 1: "pull_narrow k w fuel b = Inr (x, b1)"
    "steady b1" "NRDDATA (design b1) AND 7 \<noteq> 4" by (rule doesD)
  have "does (thenS (printf ''read failed: %d'' [NRDDATA (design b1) AND 7]) (repeatS 100 (cycle k w))) [] [] anything"
    using assms(1,2) by (intro does_intros)
  from doesD [OF this 1(2)] obtain b2 where
    "thenS (printf ''read failed: %d'' [NRDDATA (design b1) AND 7]) (repeatS 100 (cycle k w)) b1 = Inr ((), b2)" "steady b2"
    by auto
  with 1 show ?thesis
    by (auto simp: adiv5_read_def thenS_def bindS_def get_ports_def returnS_def stat_code_def steady_def bindE_eq_Inr)
qed

lemma failed_accesses:
  assumes "steady_world w" "wired k" "passes_response k" "answers w (\<lambda>s. s \<noteq> 4)" "0 < fuel" "steady b"
  shows "adiv5_ap_read k w fuel ap addr b = Inl (Exit '''')" "adiv5_ap_write k w fuel ap addr data b = Inl (Exit '''')"
proof -
  from does_adiv5_write [OF assms(1,2,5)] assms(6) obtain b1 where
    1: "adiv5_write k w fuel 2 False False (push_bit 24 (ucast ap) OR ucast addr) b = Inr ((), b1)" "steady b1"
    by (rule doesD) auto
  from failed_read [OF assms(1-5) 1(2)] obtain v b2 where
    2: "adiv5_read k w fuel b1 = Inr (v, b2)" "steady (b2\<lparr>stopped := False\<rparr>)" "stopped b2" by blast
  note stop = stopped_write [OF 2(2,3) assms(1,5)]
  from 1 2 stop show "adiv5_ap_read k w fuel ap addr b = Inl (Exit '''')"
    "adiv5_ap_write k w fuel ap addr data b = Inl (Exit '''')"
    by (simp_all add: adiv5_ap_read_def adiv5_ap_write_def thenS_def bindS_def)
qed

lemma bit_adiv5_word:
  "bit (adiv5_word addr ap rnw data) i \<longleftrightarrow>
     (if i = 0 then rnw else if i = 1 then ap else if i < 4 then bit addr (i - 2) else i < 36 \<and> bit data (i - 4))"
proof -
  have 3: "(3 :: u64) = mask 2" by code_simp
  show ?thesis
    unfolding adiv5_word_def Let_def 3
    by (cases ap; cases rnw; simp only: packet_bits bit_and_iff bit_mask_iff if_True if_False)
      (auto dest: bit_imp_le_length)
qed


definition answering :: "u64 \<Rightarrow> unit world" where
  "answering n = idle_world\<lparr>eval := (\<lambda>t. t\<lparr>NRDDATA := n\<rparr>)\<rparr>"

lemma answering_simps [simp]:
  "steady_world (answering n)" "answers (answering n) st = st (n AND 7)"
  by (simp_all add: answering_def answers_def steady_world_def idle_world_def ready_def)


end
