(* ===== verification/System_Bench.thy ===== *)
theory System_Bench
  imports Adiv5_Bench
begin

text \<open>
  The simulations of whole systems: the Cortex-M3 system (\<open>cm3_min_soc/bench/verilator/tb.cpp\<close>),
  with the JTAG and the GPIO server, and the test of the interconnect
  (\<open>ahb3lite_intercon_test/bench/verilator/tb.cpp\<close>), whose base class is not part of the
  repository and therefore a parameter.
\<close>

subsection \<open>The Cortex-M3 system\<close>

text \<open>
  The ports. \<open>IRQ\<close> has 16 bits, but the GPIO server is given its address as that of 64 bits:
  \<open>IRQ_bytes\<close> are the eight bytes there, on a little-endian host, the first two of which are \<open>IRQ\<close>.
\<close>

record cm3_top =
  cm3_CLK :: u8
  PORESETn :: u8
  IRQ_bytes :: u64
  cm3_TCK :: u8
  cm3_TDI :: u8
  cm3_TDO :: u8
  cm3_TMSIN :: u8
  cm3_TMSOUT :: u8
  cm3_TMSOE :: u8

record 'd cm3 =
  cm3_utils :: utils
  cm3_design :: "'d cm3_top_scheme"
  cm3_done :: bool
  cm3_ticks :: nat

text \<open>
  The world: the design, and for every tick whether it has called \<open>$finish\<close>, whether an interrupt
  has arrived, what the threads of the servers have done to their queues since the last tick, and
  whether there is memory for the bytes the servers queue. \<open>gpio_fuel\<close> bounds the commands the
  GPIO server handles in a tick.
\<close>

record 'd cm3_world =
  cm3_eval :: "'d cm3_top_scheme \<Rightarrow> 'd cm3_top_scheme"
  cm3_finished :: "nat \<Rightarrow> bool"
  cm3_interrupt :: "nat \<Rightarrow> bool"
  threads :: "nat \<Rightarrow> utils \<Rightarrow> utils"
  jtag_mem :: "nat \<Rightarrow> bool"
  gpio_mem :: "nat \<Rightarrow> nat \<Rightarrow> bool"
  gpio_fuel :: nat
  cm3_trace_open :: bool

definition CM3_RESET_TIME :: u64 where
  "CM3_RESET_TIME = 4"

text \<open>The pins the JTAG server is given pointers to.\<close>

definition cm3_pins :: "'d cm3_top_scheme \<Rightarrow> pins" where
  "cm3_pins t = \<lparr>tck = cm3_TCK t, tdi = cm3_TDI t,
     tms = (if truth (cm3_TMSOE t) then cm3_TMSOUT t else cm3_TMSIN t), srst = PORESETn t\<rparr>"

definition set_cm3_pins :: "pins \<Rightarrow> 'd cm3_top_scheme \<Rightarrow> 'd cm3_top_scheme" where
  "set_cm3_pins p t =
     (let t = t\<lparr>cm3_TCK := tck p, cm3_TDI := tdi p, PORESETn := srst p\<rparr>
      in if truth (cm3_TMSOE t) then t\<lparr>cm3_TMSOUT := tms p\<rparr> else t\<lparr>cm3_TMSIN := tms p\<rparr>)"

text \<open>The body of the loop in the tick \<open>n\<close>.\<close>

definition cm3_clock :: "'d cm3_world \<Rightarrow> u64 \<Rightarrow> 'd cm3_top_scheme \<Rightarrow> 'd cm3_top_scheme" where
  "cm3_clock w time t =
     (let t = (if CM3_RESET_TIME < time then t\<lparr>PORESETn := 1\<rparr> else t);
          t = cm3_eval w t
      in t\<lparr>cm3_CLK := lnot (cm3_CLK t)\<rparr>)"

definition cm3_body :: "'d cm3_world \<Rightarrow> nat \<Rightarrow> ('d cm3, unit) op" where
  "cm3_body w n b =
     (let u = cm3_utils b; t = cm3_clock w (now u) (cm3_design b) in
      bindE (utils_doJTAGServer (jtag_mem w n) (cm3_TDO t) (cm3_pins t) True u) (\<lambda>(p, u).
        let t = set_cm3_pins p t in
      bindE (utils_doGPIOServer (gpio_mem w n) (gpio_fuel w) (IRQ_bytes t) 16 0 0 u) (\<lambda>(irq, u).
        Inr ((), b\<lparr>cm3_utils := u, cm3_design := t\<lparr>IRQ_bytes := irq\<rparr>\<rparr>))))"

text \<open>A test of the loop and its body, which tells whether the loop goes on.\<close>

definition cm3_step :: "'d cm3_world \<Rightarrow> ('d cm3, bool) op" where
  "cm3_step w b =
     (let n = cm3_ticks b; u = threads w n (cm3_utils b) in
      bindE (doCycle (cm3_finished w n) u) (\<lambda>(go, u).
        let b = b\<lparr>cm3_utils := u, cm3_ticks := n + 1, cm3_done := cm3_done b \<or> cm3_interrupt w n\<rparr>
        in if go \<and> \<not> cm3_done b then bindE (cm3_body w n b) (\<lambda>(_, b). Inr (True, b)) else Inr (False, b)))"

text \<open>The main program, up to \<open>exit (0)\<close>; \<open>IRQ = 0\<close> clears the first two bytes.\<close>

definition cm3_main ::
  "'d cm3_world \<Rightarrow> 'img opt_env \<Rightarrow> (opt_key \<times> string option) list \<Rightarrow> nat \<Rightarrow> ('d cm3, unit) op" where
  "cm3_main w env opts fuel b =
     bindE (parse_all env opts (cm3_utils b)) (\<lambda>u.
       let t = cm3_design b;
           t = t\<lparr>cm3_CLK := 0, PORESETn := 0, IRQ_bytes := IRQ_bytes t AND NOT 0xFFFF\<rparr>
       in bindE (do_while fuel (cm3_step w) (b\<lparr>cm3_utils := u, cm3_design := t\<rparr>)) (\<lambda>(_, b).
          bindE (delete_utils (cm3_trace_open w) (cm3_utils b)) (\<lambda>(u, closed).
            Inr ((), b\<lparr>cm3_utils := u\<rparr>))))"

subsection \<open>The interconnect\<close>

text \<open>
  The class \<open>VerilatorTbUtils\<close> is a parameter: \<open>do_cycle\<close> and \<open>get_time\<close> are its \<open>doCycle\<close> and
  \<open>getTime\<close>, on an object of any type. The ports are \<open>CLK\<close> and \<open>RESET\<close>.
\<close>

record intercon_top =
  ic_CLK :: u8
  ic_RESET :: u8

definition INTERCON_RESET_TIME :: u64 where
  "INTERCON_RESET_TIME = 2"

definition intercon_step ::
  "('u \<Rightarrow> bool \<times> 'u) \<Rightarrow> ('u \<Rightarrow> u64) \<Rightarrow> ('d intercon_top_scheme \<Rightarrow> 'd intercon_top_scheme) \<Rightarrow> (nat \<Rightarrow> bool) \<Rightarrow>
   ('u \<times> 'd intercon_top_scheme \<times> nat, bool) op" where
  "intercon_step do_cycle get_time ev done_at = (\<lambda>(u, t, n).
     let (go, u) = do_cycle u in
     if \<not> go \<or> done_at n then Inr (False, u, t, n + 1)
     else
       let t = (if INTERCON_RESET_TIME < get_time u then t\<lparr>ic_RESET := 1\<rparr> else t);
           t = ev t;
           t = t\<lparr>ic_CLK := lnot (ic_CLK t)\<rparr>
       in Inr (True, u, t, n + 1))"

definition intercon_main ::
  "('u \<Rightarrow> bool \<times> 'u) \<Rightarrow> ('u \<Rightarrow> u64) \<Rightarrow> ('d intercon_top_scheme \<Rightarrow> 'd intercon_top_scheme) \<Rightarrow> (nat \<Rightarrow> bool) \<Rightarrow>
   nat \<Rightarrow> 'u \<Rightarrow> 'd intercon_top_scheme \<Rightarrow> (unit \<times> 'u \<times> 'd intercon_top_scheme \<times> nat) res" where
  "intercon_main do_cycle get_time ev done_at fuel u t =
     (let t = t\<lparr>ic_CLK := 0, ic_RESET := 0\<rparr>
      in do_while fuel (intercon_step do_cycle get_time ev done_at) (u, t, 0))"

subsection \<open>The simulation of the system ends\<close>

text \<open>
  The queues of the servers are well formed, and the GPIO server has fewer commands waiting than
  the fuel allows.
\<close>

definition gpio_waiting :: "nat \<Rightarrow> utils \<Rightarrow> bool" where
  "gpio_waiting n u \<longleftrightarrow> (\<exists>bytes. rwq_holds (tx (gpio_server u)) bytes \<and> length bytes < n)"

text \<open>What the threads may do: they keep the time and the timeout, and the queues as said.\<close>

definition threads_ok :: "'d cm3_world \<Rightarrow> bool" where
  "threads_ok w \<longleftrightarrow> (\<forall>n u. servers_ok u \<longrightarrow>
     servers_ok (threads w n u) \<and> gpio_waiting (gpio_fuel w) (threads w n u) \<and>
     now (threads w n u) = now u \<and> timeout (threads w n u) = timeout u)"

lemma recv_loop_fuel:
  assumes "rwq_holds q bytes" "length bytes < fuel"
  shows "(\<exists>inp' q' ys. server_recv_loop fuel cnt inp q = Inr (inp', q') \<and> rwq_holds q' ys) \<or>
    (\<exists>e. server_recv_loop fuel cnt inp q = Inl e \<and> e \<noteq> OutOfFuel)"
  using assms
proof (induction fuel arbitrary: q bytes inp)
  case (Suc fuel)
  show ?case
  proof (cases rule: rwq.poll_result [OF Suc.prems(1), folded poll_def, OF refl, case_names nothing first])
    case (nothing q')
    then show ?thesis by auto
  next
    case (first q')
    show ?thesis
    proof (cases "hd bytes = 0xFF")
      case True
      with first show ?thesis by auto
    next
      case False
      show ?thesis
      proof (cases "gpio_apply (hd bytes) cnt inp")
        case (Inl e)
        then have "e \<noteq> OutOfFuel"
          by (auto simp: gpio_apply_def shl_int_def bindE_def Let_def split: if_splits)
        with first False Inl show ?thesis by auto
      next
        case (Inr inp1)
        from first(1) Suc.prems(2) have "length (tl bytes) < fuel" by (cases bytes) auto
        from Suc.IH [OF first(3) this, of inp1] first False Inr show ?thesis by simp
      qed
    qed
  qed
qed simp

lemma jtag_server_keeps:
  assumes "queues_ok (jtag_server u)" "utils_doJTAGServer mem tdo p given u = r"
  shows "(\<exists>p' s. r = Inr (p', u\<lparr>jtag_server := s\<rparr>) \<and> queues_ok s) \<or> r = Inl DivByZero"
proof -
  from assms(1) obtain xs ys where h: "rwq_holds (rx (jtag_server u)) xs" "rwq_holds (tx (jtag_server u)) ys"
    by (auto simp: queues_ok_def)
  have "\<exists>p' s. doJTAGServer mem tdo p (jtag_server u) = Inr (p', s) \<and> queues_ok s"
  proof (cases rule: rwq.poll_result [OF h(2), folded poll_def, OF refl, case_names nothing first])
    case (nothing q')
    with h show ?thesis by (auto simp: doJTAGServer_def queues_ok_def Let_def)
  next
    case (first q')
    obtain p' c where cmd: "jtag_command (hd ys) tdo p = (p', c)" by (cases "jtag_command (hd ys) tdo p")
    show ?thesis
    proof (cases c)
      case None
      with first cmd h show ?thesis by (auto simp: doJTAGServer_def queues_ok_def Let_def)
    next
      case (Some b)
      from rwq.enq_result [OF h(1) refl, of mem b] obtain ok q2 where
        "enqueue mem b (rx (jtag_server u)) = Inr (ok, q2)" "rwq_holds q2 (if ok then xs @ [b] else xs)" .
      with Some first cmd show ?thesis by (auto simp: doJTAGServer_def queues_ok_def Let_def)
    qed
  qed
  then obtain p' s where run: "doJTAGServer mem tdo p (jtag_server u) = Inr (p', s)" "queues_ok s" by blast
  from assms(2) consider (off) "r = Inr (p, u)" | (fault) "r = Inl DivByZero"
    | (due) "r = bindE (doJTAGServer mem tdo p (jtag_server u)) (\<lambda>(p', s).
        Inr (if given then p' else p'\<lparr>srst := srst p\<rparr>, u\<lparr>jtag_server := s\<rparr>))"
    unfolding utils_doJTAGServer_def when_due_def on_period_def remainder_def
    by (auto split: if_splits)
  then show ?thesis
  proof cases
    case off
    have "r = Inr (p, u\<lparr>jtag_server := jtag_server u\<rparr>)" using off by simp
    with assms(1) show ?thesis by blast
  next
    case due
    with run show ?thesis by auto
  qed simp
qed

lemma gpio_server_keeps:
  assumes "queues_ok (gpio_server u)" "gpio_waiting fuel u" "utils_doGPIOServer mem fuel inp cnt out 0 u = r"
  shows "(\<exists>inp' g s. r = Inr (inp', u\<lparr>gpio_server_statics := g, gpio_server := s\<rparr>) \<and> queues_ok s) \<or>
    (\<exists>e. r = Inl e \<and> e \<noteq> OutOfFuel)"
proof -
  from assms(1) obtain xs where rx: "rwq_holds (rx (gpio_server u)) xs" by (auto simp: queues_ok_def)
  from assms(2) obtain bytes where tx: "rwq_holds (tx (gpio_server u)) bytes" "length bytes < fuel"
    by (auto simp: gpio_waiting_def)
  have send: "(\<exists>g' s'. server_SendOutputs mem out 0 g (gpio_server u) = Inr (g', s') \<and>
      rx s' = rx (gpio_server u) \<and> tx s' = tx (gpio_server u)) \<or>
    server_SendOutputs mem out 0 g (gpio_server u) = Inl UninitRead" for g
    by (auto simp: server_SendOutputs_def split: option.splits)
  have "(\<exists>inp' g s. doGPIOServer mem fuel inp cnt out 0 (gpio_server_statics u) (gpio_server u) = Inr (inp', g, s) \<and> queues_ok s) \<or>
    (\<exists>e. doGPIOServer mem fuel inp cnt out 0 (gpio_server_statics u) (gpio_server u) = Inl e \<and> e \<noteq> OutOfFuel)"
    using send [of "gpio_server_statics u"] send [of "gpio_server_statics u\<lparr>last_output := Some (NOT out)\<rparr>"]
      recv_loop_fuel [OF tx, of cnt inp] rx tx(1)
    by (auto simp: doGPIOServer_def queues_ok_def split: option.splits bool.splits)
  note run = this
  from assms(3) consider (off) "r = Inr (inp, u)" | (fault) "r = Inl DivByZero"
    | (due) "r = bindE (doGPIOServer mem fuel inp cnt out 0 (gpio_server_statics u) (gpio_server u))
        (\<lambda>(inp, g, s). Inr (inp, u\<lparr>gpio_server_statics := g, gpio_server := s\<rparr>))"
    unfolding utils_doGPIOServer_def when_due_def on_period_def remainder_def
    by (auto split: if_splits)
  then show ?thesis
  proof cases
    case off
    have "r = Inr (inp, u\<lparr>gpio_server_statics := gpio_server_statics u, gpio_server := gpio_server u\<rparr>)"
      using off by simp
    with assms(1) show ?thesis by blast
  next
    case due
    from run show ?thesis
    proof (elim disjE exE conjE)
      fix inp' g s
      assume "doGPIOServer mem fuel inp cnt out 0 (gpio_server_statics u) (gpio_server u) = Inr (inp', g, s)" "queues_ok s"
      with due show ?thesis by (intro disjI1 exI [of _ inp'] exI [of _ g] exI [of _ s]) simp
    next
      fix e
      assume "doGPIOServer mem fuel inp cnt out 0 (gpio_server_statics u) (gpio_server u) = Inl e" "e \<noteq> OutOfFuel"
      with due show ?thesis by simp
    qed
  qed simp
qed

lemma doCycle_keeps:
  assumes "doCycle fin u = Inr (go, u')"
  shows "jtag_server u' = jtag_server u" "uart_server u' = uart_server u" "gpio_server u' = gpio_server u"
    "timeout u' = timeout u"
  using assms
  by (auto simp: doCycle_def fst_window_def call_fst_def bindE_eq_Inr Let_def split: if_splits option.splits)

lemma cm3_body_result:
  assumes "servers_ok (cm3_utils b)" "gpio_waiting (gpio_fuel w) (cm3_utils b)"
  obtains (fault) e where "cm3_body w n b = Inl e" "e \<noteq> OutOfFuel"
    | (go) b' where "cm3_body w n b = Inr ((), b')" "servers_ok (cm3_utils b')"
        "timeout (cm3_utils b') = timeout (cm3_utils b)" "now (cm3_utils b') = now (cm3_utils b)"
proof -
  define u t where u: "u = cm3_utils b" and t: "t = cm3_clock w (now u) (cm3_design b)"
  from assms u have "queues_ok (jtag_server u)" by (simp add: servers_ok_def)
  from jtag_server_keeps [OF this refl, of "jtag_mem w n" "cm3_TDO t" "cm3_pins t" True] show thesis
  proof (elim disjE exE conjE)
    fix p s
    assume p: "utils_doJTAGServer (jtag_mem w n) (cm3_TDO t) (cm3_pins t) True u = Inr (p, u\<lparr>jtag_server := s\<rparr>)"
      and s: "queues_ok s"
    let ?u = "u\<lparr>jtag_server := s\<rparr>"
    from assms u have "queues_ok (gpio_server ?u)" "gpio_waiting (gpio_fuel w) ?u"
      by (simp_all add: servers_ok_def gpio_waiting_def)
    from gpio_server_keeps [OF this refl, of "gpio_mem w n" "IRQ_bytes (set_cm3_pins p t)" 16 0] show thesis
    proof (elim disjE exE conjE)
      fix irq g' s'
      assume "utils_doGPIOServer (gpio_mem w n) (gpio_fuel w) (IRQ_bytes (set_cm3_pins p t)) 16 0 0 ?u =
          Inr (irq, ?u\<lparr>gpio_server_statics := g', gpio_server := s'\<rparr>)" "queues_ok s'"
      with p s assms(1) show thesis
        by (intro go [of "b\<lparr>cm3_utils := ?u\<lparr>gpio_server_statics := g', gpio_server := s'\<rparr>,
            cm3_design := (set_cm3_pins p t)\<lparr>IRQ_bytes := irq\<rparr>\<rparr>"])
          (simp_all add: cm3_body_def servers_ok_def Let_def u [symmetric] t [symmetric])
    next
      fix e
      assume "utils_doGPIOServer (gpio_mem w n) (gpio_fuel w) (IRQ_bytes (set_cm3_pins p t)) 16 0 0 ?u = Inl e"
        "e \<noteq> OutOfFuel"
      with p show thesis
        by (intro fault [of e]) (simp_all add: cm3_body_def Let_def u [symmetric] t [symmetric])
    qed
  next
    assume "utils_doJTAGServer (jtag_mem w n) (cm3_TDO t) (cm3_pins t) True u = Inl DivByZero"
    then show thesis
      by (intro fault [of DivByZero]) (simp_all add: cm3_body_def Let_def u [symmetric] t [symmetric])
  qed
qed

lemma cm3_step_result:
  assumes "threads_ok w" "servers_ok (cm3_utils b)" "timeout (cm3_utils b) \<noteq> 0" "cm3_step w b = r"
  obtains (fault) e where "r = Inl e" "e \<noteq> OutOfFuel"
    | (stop) b' where "r = Inr (False, b')" "servers_ok (cm3_utils b')"
    | (go) b' where "r = Inr (True, b')" "servers_ok (cm3_utils b')"
        "timeout (cm3_utils b') = timeout (cm3_utils b)" "now (cm3_utils b) < timeout (cm3_utils b)"
        "now (cm3_utils b') = now (cm3_utils b) + 1"
proof -
  define n u where n: "n = cm3_ticks b" and u: "u = threads w n (cm3_utils b)"
  from assms(1,2) have ok: "servers_ok u" "gpio_waiting (gpio_fuel w) u" "now u = now (cm3_utils b)"
    "timeout u = timeout (cm3_utils b)" by (auto simp: threads_ok_def u)
  show thesis
  proof (cases "doCycle (cm3_finished w n) u")
    case (Inl e)
    with doCycle_faults [OF Inl] assms(4) show thesis
      by (intro fault [of e]) (auto simp: cm3_step_def Let_def n u)
  next
    case (Inr gu)
    obtain g u1 where gu: "gu = (g, u1)" by (cases gu)
    note kept = doCycle_keeps [OF Inr [unfolded gu]]
    define b1 where b1: "b1 = b\<lparr>cm3_utils := u1, cm3_ticks := n + 1, cm3_done := cm3_done b \<or> cm3_interrupt w n\<rparr>"
    from ok kept have ok1: "servers_ok (cm3_utils b1)" "gpio_waiting (gpio_fuel w) (cm3_utils b1)"
      by (simp_all add: servers_ok_def gpio_waiting_def b1)
    have r: "r = (if g \<and> \<not> cm3_done b1 then bindE (cm3_body w n b1) (\<lambda>(_, b). Inr (True, b)) else Inr (False, b1))"
      using Inr gu assms(4) by (auto simp: cm3_step_def Let_def n [symmetric] u [symmetric] b1 split: if_splits)
    show thesis
    proof (cases "g \<and> \<not> cm3_done b1")
      case True
      with Inr gu doCycle_ticks [of _ u u1] assms(3) ok
      have t: "now (cm3_utils b) < timeout (cm3_utils b)" "now u1 = now (cm3_utils b) + 1" by auto
      show thesis
      proof (cases rule: cm3_body_result [OF ok1, of n, case_names fault go])
        case (fault e)
        with r True show thesis by (intro that(1)) simp_all
      next
        case (go b')
        with r True t kept(4) ok(4) show thesis by (intro that(3) [of b']) (simp_all add: b1)
      qed
    next
      case False
      with r ok1 show thesis by (intro stop [of b1]) auto
    qed
  qed
qed

lemma cm3_loop_ends:
  assumes "threads_ok w" "servers_ok (cm3_utils b)" "timeout (cm3_utils b) \<noteq> 0"
    and "unat (timeout (cm3_utils b)) - unat (now (cm3_utils b)) < fuel"
  shows "(\<exists>e. do_while fuel (cm3_step w) b = Inl e \<and> e \<noteq> OutOfFuel) \<or>
    (\<exists>b'. do_while fuel (cm3_step w) b = Inr ((), b') \<and> servers_ok (cm3_utils b'))"
  using assms(2-4)
proof (induction fuel arbitrary: b)
  case (Suc fuel)
  show ?case
  proof (cases rule: cm3_step_result [OF assms(1) Suc.prems(1,2) refl, case_names fault stop go])
    case (fault e)
    then show ?thesis by (simp add: bindS_def)
  next
    case (stop b')
    then show ?thesis by (simp add: bindS_def returnS_def)
  next
    case (go b')
    from go(4,5) next_tick [OF go(4)] Suc.prems(3)
    have "unat (timeout (cm3_utils b')) - unat (now (cm3_utils b')) < fuel"
      by (auto simp: go(3) word_less_nat_alt)
    with Suc.IH [OF go(2)] go(1,3) Suc.prems(2) show ?thesis by (simp add: bindS_def)
  qed
qed simp

lemma cm3_main_ends:
  assumes "threads_ok w" "parse_all env opts (cm3_utils b) = Inr u" "servers_ok u" "timeout u \<noteq> 0"
    and "unat (timeout u) < fuel"
  shows "cm3_main w env opts fuel b \<noteq> Inl OutOfFuel"
proof -
  define b1 where "b1 = b\<lparr>cm3_utils := u, cm3_design := (cm3_design b)\<lparr>cm3_CLK := 0, PORESETn := 0,
    IRQ_bytes := IRQ_bytes (cm3_design b) AND NOT 0xFFFF\<rparr>\<rparr>"
  have "servers_ok (cm3_utils b1)" "timeout (cm3_utils b1) \<noteq> 0"
    "unat (timeout (cm3_utils b1)) - unat (now (cm3_utils b1)) < fuel" using assms by (auto simp: b1_def)
  from cm3_loop_ends [OF assms(1) this] show ?thesis
  proof (elim disjE exE conjE)
    fix e assume "do_while fuel (cm3_step w) b1 = Inl e" "e \<noteq> OutOfFuel"
    with assms(2) show ?thesis by (simp add: cm3_main_def Let_def b1_def)
  next
    fix b' assume b': "do_while fuel (cm3_step w) b1 = Inr ((), b')" "servers_ok (cm3_utils b')"
    have "delete_utils (cm3_trace_open w) (cm3_utils b') \<noteq> Inl OutOfFuel"
      using b'(2) by (auto simp: delete_utils_def close_dump_def call_fst_def servers_ok_def
          bindE_def Let_def dest: delete_server_faults split: sum.splits option.splits if_splits)
    with b'(1) assms(2) show ?thesis
      by (auto simp: cm3_main_def Let_def b1_def bindE_def split: sum.splits)
  qed
qed

text \<open>
  With a timeout every bench comes to an end, whatever the design and the operating system do:
  with more fuel than ticks before the timeout no loop of the main programs is cut off, neither the
  waits for the queues of the design, nor the loops that halt the processor, nor the main loop of
  the Cortex-M3 system, as long as the threads of its servers keep the queues well formed and leave
  no more commands than the fuel allows.
\<close>

theorem benches_end:
  assumes "parse_args env opts b = Inr ((), b')" "servers_ok (base b')" "timeout (base b') \<noteq> 0"
    and "unat (timeout (base b')) < fuel"
    and "parse_all env opts (cm3_utils s) = Inr u" "servers_ok u" "timeout u \<noteq> 0" "unat (timeout u) < fuel"
    and "threads_ok v"
  shows "jtag_phy_main w env opts fuel b \<noteq> Inl OutOfFuel \<and> swd_phy_main w env opts fuel b \<noteq> Inl OutOfFuel \<and>
    jtag_adiv5_main w env opts fuel b \<noteq> Inl OutOfFuel \<and> swd_adiv5_main w env opts fuel b \<noteq> Inl OutOfFuel \<and>
    debug_mux_main w env opts fuel b \<noteq> Inl OutOfFuel \<and> cm3_main v env opts fuel s \<noteq> Inl OutOfFuel"
  using jtag_phy_main_ends [OF assms(1-4)] swd_phy_main_ends [OF assms(1-4)] adiv5_mains_end [OF assms(1-4)]
    cm3_main_ends [OF assms(9,5-8)]
  by simp

definition idle_cm3_world :: "unit cm3_world" where
  "idle_cm3_world = \<lparr>cm3_eval = (\<lambda>t. t), cm3_finished = (\<lambda>_. False), cm3_interrupt = (\<lambda>_. False),
     threads = (\<lambda>_ u. u\<lparr>gpio_server := (gpio_server u)\<lparr>tx := default_queue\<rparr>\<rparr>),
     jtag_mem = (\<lambda>_. True), gpio_mem = (\<lambda>_ _. True), gpio_fuel = 1, cm3_trace_open = False\<rparr>"

definition idle_cm3 :: "unit cm3" where
  "idle_cm3 = \<lparr>cm3_utils = base (idle_tb (0, 0, 0) 0 6), cm3_design = \<lparr>cm3_CLK = 0, PORESETn = 0, IRQ_bytes = 0,
     cm3_TCK = 0, cm3_TDI = 0, cm3_TDO = 0, cm3_TMSIN = 0, cm3_TMSOUT = 0, cm3_TMSOE = 0\<rparr>,
     cm3_done = False, cm3_ticks = 0\<rparr>"

lemma idle_cm3_world_ok: "threads_ok idle_cm3_world"
  using default_queue_holds
  by (auto simp: threads_ok_def idle_cm3_world_def servers_ok_def queues_ok_def gpio_waiting_def)

definition example_env :: "unit opt_env" where
  "example_env = \<lparr>pthread_rv = 0, sock_rv = 3, connect_rv = 0, elf_files = (\<lambda>_. None), elf_read_32 = (\<lambda>_ _. 0),
     bin_files = (\<lambda>_. None)\<rparr>"

theorem benches_end_witness:
  "debug_mux_main (answering 4) example_env [] 7 (idle_tb (0, 0, 0) 0 6) \<noteq> Inl OutOfFuel \<and>
   cm3_main idle_cm3_world example_env [] 7 idle_cm3 \<noteq> Inl OutOfFuel"
  using benches_end [of example_env "[]" "idle_tb (0, 0, 0) 0 6" "idle_tb (0, 0, 0) 0 6" 7 idle_cm3
      "base (idle_tb (0, 0, 0) 0 6)" idle_cm3_world "answering 4"] idle_cm3_world_ok
  by (simp add: idle_cm3_def)

end
