(* ===== verification/Bench_Programs.thy ===== *)
theory Bench_Programs
  imports Complex_Main "HOL-Library.Log_Nat" System_Bench
begin

text \<open>
  The programs as a whole, from the objects that \<open>main\<close> makes to its end. The beginning of each of the
  seven files is modelled here: the handler of interrupts, what its parser of options does, the
  constructor and the destructor. The files repeat each other; each has its own definitions, which
  are shown to be the same.
\<close>

subsection \<open>Options\<close>

text \<open>
  \<open>argp_parse\<close> calls the parser of the program with the key \<open>ARGP_KEY_INIT\<close> first, with the object of
  the program in \<open>input\<close> and a null pointer for each parser it includes in \<open>child_inputs\<close>. What is
  there afterwards is the object for the included parser, here \<open>VerilatorUtils::parseOpts\<close>, which gets
  the options; the program declares none of its own.
\<close>

datatype argp_key = ARGP_KEY_INIT | OtherKey int

record 'o argp_state =
  input :: 'o
  child_inputs :: "'o option list"

type_synonym 'o parser = "argp_key \<Rightarrow> string option \<Rightarrow> 'o argp_state \<Rightarrow> int \<times> 'o argp_state"

definition child_input :: "'o parser \<Rightarrow> 'o \<Rightarrow> 'o res" where
  "child_input p ob =
     (case child_inputs (snd (p ARGP_KEY_INIT None \<lparr>input = ob, child_inputs = [None]\<rparr>)) of
        [Some ob] \<Rightarrow> Inr ob
      | _ \<Rightarrow> Inl WildPointer)"

definition jtag_phy_parse_opt :: "'o parser" where
  "jtag_phy_parse_opt key arg state = (case key of
     ARGP_KEY_INIT \<Rightarrow> (0, state\<lparr>child_inputs := (child_inputs state)[0 := Some (input state)]\<rparr>)
   | OtherKey _ \<Rightarrow> (0, state))"

definition swd_phy_parse_opt :: "'o parser" where
  "swd_phy_parse_opt key arg state = (case key of
     ARGP_KEY_INIT \<Rightarrow> (0, state\<lparr>child_inputs := (child_inputs state)[0 := Some (input state)]\<rparr>)
   | OtherKey _ \<Rightarrow> (0, state))"

definition jtag_adiv5_parse_opt :: "'o parser" where
  "jtag_adiv5_parse_opt key arg state = (case key of
     ARGP_KEY_INIT \<Rightarrow> (0, state\<lparr>child_inputs := (child_inputs state)[0 := Some (input state)]\<rparr>)
   | OtherKey _ \<Rightarrow> (0, state))"

definition swd_adiv5_parse_opt :: "'o parser" where
  "swd_adiv5_parse_opt key arg state = (case key of
     ARGP_KEY_INIT \<Rightarrow> (0, state\<lparr>child_inputs := (child_inputs state)[0 := Some (input state)]\<rparr>)
   | OtherKey _ \<Rightarrow> (0, state))"

definition debug_mux_parse_opt :: "'o parser" where
  "debug_mux_parse_opt key arg state = (case key of
     ARGP_KEY_INIT \<Rightarrow> (0, state\<lparr>child_inputs := (child_inputs state)[0 := Some (input state)]\<rparr>)
   | OtherKey _ \<Rightarrow> (0, state))"

definition cm3_parse_opt :: "'o parser" where
  "cm3_parse_opt key arg state = (case key of
     ARGP_KEY_INIT \<Rightarrow> (0, state\<lparr>child_inputs := (child_inputs state)[0 := Some (input state)]\<rparr>)
   | OtherKey _ \<Rightarrow> (0, state))"

definition intercon_parse_opt :: "'o parser" where
  "intercon_parse_opt key arg state = (case key of
     ARGP_KEY_INIT \<Rightarrow> (0, state\<lparr>child_inputs := (child_inputs state)[0 := Some (input state)]\<rparr>)
   | OtherKey _ \<Rightarrow> (0, state))"

lemma child_input_same [simp]:
  "child_input jtag_phy_parse_opt ob = Inr ob" "child_input swd_phy_parse_opt ob = Inr ob"
  "child_input jtag_adiv5_parse_opt ob = Inr ob" "child_input swd_adiv5_parse_opt ob = Inr ob"
  "child_input debug_mux_parse_opt ob = Inr ob" "child_input cm3_parse_opt ob = Inr ob"
  "child_input intercon_parse_opt ob = Inr ob"
  by (simp_all add: child_input_def jtag_phy_parse_opt_def swd_phy_parse_opt_def jtag_adiv5_parse_opt_def
      swd_adiv5_parse_opt_def debug_mux_parse_opt_def cm3_parse_opt_def intercon_parse_opt_def)

text \<open>\<open>parse_args\<close>: \<open>opts\<close> are the options that argp finds in the arguments.\<close>

definition jtag_phy_parse_args :: "'img opt_env \<Rightarrow> (opt_key \<times> string option) list \<Rightarrow> ('d tb, unit) op" where
  "jtag_phy_parse_args env opts b = bindE (child_input jtag_phy_parse_opt b) (parse_args env opts)"

definition swd_phy_parse_args :: "'img opt_env \<Rightarrow> (opt_key \<times> string option) list \<Rightarrow> ('d tb, unit) op" where
  "swd_phy_parse_args env opts b = bindE (child_input swd_phy_parse_opt b) (parse_args env opts)"

definition jtag_adiv5_parse_args :: "'img opt_env \<Rightarrow> (opt_key \<times> string option) list \<Rightarrow> ('d tb, unit) op" where
  "jtag_adiv5_parse_args env opts b = bindE (child_input jtag_adiv5_parse_opt b) (parse_args env opts)"

definition swd_adiv5_parse_args :: "'img opt_env \<Rightarrow> (opt_key \<times> string option) list \<Rightarrow> ('d tb, unit) op" where
  "swd_adiv5_parse_args env opts b = bindE (child_input swd_adiv5_parse_opt b) (parse_args env opts)"

definition debug_mux_parse_args :: "'img opt_env \<Rightarrow> (opt_key \<times> string option) list \<Rightarrow> ('d tb, unit) op" where
  "debug_mux_parse_args env opts b = bindE (child_input debug_mux_parse_opt b) (parse_args env opts)"

definition cm3_parse_args :: "'img opt_env \<Rightarrow> (opt_key \<times> string option) list \<Rightarrow> utils \<Rightarrow> utils res" where
  "cm3_parse_args env opts u = bindE (child_input cm3_parse_opt u) (parse_all env opts)"

text \<open>The parser of \<open>VerilatorTbUtils\<close> is a parameter, as the class is.\<close>

definition intercon_parse_args :: "('u \<Rightarrow> 'u res) \<Rightarrow> 'u \<Rightarrow> 'u res" where
  "intercon_parse_args parse_tb u = bindE (child_input intercon_parse_opt u) parse_tb"

lemma parse_args_same:
  "jtag_phy_parse_args = parse_args" "swd_phy_parse_args = parse_args" "jtag_adiv5_parse_args = parse_args"
  "swd_adiv5_parse_args = parse_args" "debug_mux_parse_args = parse_args" "cm3_parse_args = parse_all"
  "intercon_parse_args = (\<lambda>p. p)"
  by (simp_all add: fun_eq_iff jtag_phy_parse_args_def swd_phy_parse_args_def jtag_adiv5_parse_args_def
      swd_adiv5_parse_args_def debug_mux_parse_args_def cm3_parse_args_def intercon_parse_args_def)

subsection \<open>Interrupts and time\<close>

definition swd_phy_INTHandler :: "'d tb \<Rightarrow> 'd tb" where
  "swd_phy_INTHandler b = b\<lparr>stopped := True\<rparr>"

definition jtag_adiv5_INTHandler :: "'d tb \<Rightarrow> 'd tb" where
  "jtag_adiv5_INTHandler b = b\<lparr>stopped := True\<rparr>"

definition swd_adiv5_INTHandler :: "'d tb \<Rightarrow> 'd tb" where
  "swd_adiv5_INTHandler b = b\<lparr>stopped := True\<rparr>"

definition debug_mux_INTHandler :: "'d tb \<Rightarrow> 'd tb" where
  "debug_mux_INTHandler b = b\<lparr>stopped := True\<rparr>"

definition cm3_INThandler :: "'d cm3 \<Rightarrow> 'd cm3" where
  "cm3_INThandler b = b\<lparr>cm3_done := True\<rparr>"

definition intercon_INThandler :: "bool \<Rightarrow> bool" where
  "intercon_INThandler done_before = True"

lemma handlers_same:
  "swd_phy_INTHandler = INTHandler" "jtag_adiv5_INTHandler = INTHandler" "swd_adiv5_INTHandler = INTHandler"
  "debug_mux_INTHandler = INTHandler"
  by (simp_all add: fun_eq_iff INTHandler_def swd_phy_INTHandler_def jtag_adiv5_INTHandler_def
      swd_adiv5_INTHandler_def debug_mux_INTHandler_def)

text \<open>
  \<open>sc_time_stamp\<close>, which a design calls for its time: it returns \<open>main_time\<close>, which starts at 0 and
  which nothing in the programs changes.
\<close>

definition main_time :: u64 where
  "main_time = 0"

text \<open>The conversion to a double, which has 53 bits and rounds to the nearest, in doubt to the even one.\<close>

definition double_of :: "u64 \<Rightarrow> nat" where
  "double_of t =
     (let n = unat t; unit = 2 ^ (floorlog 2 n - 53); q = n div unit; r = n mod unit
      in (if unit < 2 * r \<or> unit = 2 * r \<and> odd q then q + 1 else q) * unit)"

definition cm3_sc_time_stamp :: "u64 \<Rightarrow> real" where
  "cm3_sc_time_stamp t = real (double_of t)"

definition intercon_sc_time_stamp :: "u64 \<Rightarrow> real" where
  "intercon_sc_time_stamp t = real (double_of t)"

lemma double_of_exact: "unat t < 2 ^ 53 \<Longrightarrow> double_of t = unat t"
proof -
  assume "unat t < 2 ^ 53"
  then have "floorlog 2 (unat t) \<le> 53" by (intro floorlog_leI) simp_all
  then show ?thesis by (simp add: double_of_def)
qed

lemma time_stamps: "cm3_sc_time_stamp main_time = 0" "intercon_sc_time_stamp main_time = 0"
  by (simp_all add: cm3_sc_time_stamp_def intercon_sc_time_stamp_def main_time_def double_of_exact)

subsection \<open>Objects\<close>

text \<open>
  The constructors of the benches. \<open>mem\<close> tells whether there is memory, \<open>junk\<close> what is in
  \<open>fstDumping\<close>, which no constructor initialises: \<open>None\<close> for a read that the language does not define,
  or what the memory happens to hold. \<open>d\<close> is the new design; that it is registered with the writer of
  waveforms is not modelled.
\<close>

definition initial_tb :: "bool option \<Rightarrow> utils \<Rightarrow> 'd top_scheme \<Rightarrow> 'd tb" where
  "initial_tb junk u d = \<lparr>base = u\<lparr>fstDumping := junk\<rparr>, design = d, stopped = False, halves = 0,
     printed = [], requests = [], nrequests = []\<rparr>"

definition new_jtag_phy_tb :: "bool \<Rightarrow> bool option \<Rightarrow> 'd top_scheme \<Rightarrow> 'd tb res" where
  "new_jtag_phy_tb mem junk d = bindE (new_utils mem None) (\<lambda>u. Inr (initial_tb junk u d))"

definition new_swd_phy_tb :: "bool \<Rightarrow> bool option \<Rightarrow> 'd top_scheme \<Rightarrow> 'd tb res" where
  "new_swd_phy_tb mem junk d = bindE (new_utils mem None) (\<lambda>u. Inr (initial_tb junk u d))"

definition new_jtag_adiv5_tb :: "bool \<Rightarrow> bool option \<Rightarrow> 'd top_scheme \<Rightarrow> 'd tb res" where
  "new_jtag_adiv5_tb mem junk d = bindE (new_utils mem None) (\<lambda>u. Inr (initial_tb junk u d))"

definition new_swd_adiv5_tb :: "bool \<Rightarrow> bool option \<Rightarrow> 'd top_scheme \<Rightarrow> 'd tb res" where
  "new_swd_adiv5_tb mem junk d = bindE (new_utils mem None) (\<lambda>u. Inr (initial_tb junk u d))"

definition new_debug_mux_tb :: "bool \<Rightarrow> bool option \<Rightarrow> 'd top_scheme \<Rightarrow> 'd tb res" where
  "new_debug_mux_tb mem junk d = bindE (new_utils mem None) (\<lambda>u. Inr (initial_tb junk u d))"

text \<open>The Cortex-M3 system gives \<open>VerilatorUtils\<close> the memory of the design, \<open>rom\<close>.\<close>

definition new_cm3 :: "bool \<Rightarrow> bool option \<Rightarrow> u32 list \<Rightarrow> 'd cm3_top_scheme \<Rightarrow> 'd cm3 res" where
  "new_cm3 mem junk rom d = bindE (new_utils mem (Some rom)) (\<lambda>u.
     Inr \<lparr>cm3_utils = u\<lparr>fstDumping := junk\<rparr>, cm3_design = d, cm3_done = False, cm3_ticks = 0\<rparr>)"

text \<open>The destructors: the design, which is not modelled, and then the base class.\<close>

definition delete_swd_phy_tb :: "'d world \<Rightarrow> ('d tb, unit) op" where
  "delete_swd_phy_tb w b = bindE (delete_utils (trace_open w) (base b)) (\<lambda>(u, closed). Inr ((), b\<lparr>base := u\<rparr>))"

definition delete_jtag_adiv5_tb :: "'d world \<Rightarrow> ('d tb, unit) op" where
  "delete_jtag_adiv5_tb w b = bindE (delete_utils (trace_open w) (base b)) (\<lambda>(u, closed). Inr ((), b\<lparr>base := u\<rparr>))"

definition delete_swd_adiv5_tb :: "'d world \<Rightarrow> ('d tb, unit) op" where
  "delete_swd_adiv5_tb w b = bindE (delete_utils (trace_open w) (base b)) (\<lambda>(u, closed). Inr ((), b\<lparr>base := u\<rparr>))"

definition delete_debug_mux_tb :: "'d world \<Rightarrow> ('d tb, unit) op" where
  "delete_debug_mux_tb w b = bindE (delete_utils (trace_open w) (base b)) (\<lambda>(u, closed). Inr ((), b\<lparr>base := u\<rparr>))"

lemma objects_same:
  "new_swd_phy_tb = new_jtag_phy_tb" "new_jtag_adiv5_tb = new_jtag_phy_tb" "new_swd_adiv5_tb = new_jtag_phy_tb"
  "new_debug_mux_tb = new_jtag_phy_tb"
  "delete_swd_phy_tb = delete_tb" "delete_jtag_adiv5_tb = delete_tb" "delete_swd_adiv5_tb = delete_tb"
  "delete_debug_mux_tb = delete_tb"
  by (simp_all add: fun_eq_iff new_jtag_phy_tb_def new_swd_phy_tb_def new_jtag_adiv5_tb_def new_swd_adiv5_tb_def
      new_debug_mux_tb_def delete_tb_def delete_swd_phy_tb_def delete_jtag_adiv5_tb_def delete_swd_adiv5_tb_def
      delete_debug_mux_tb_def)

text \<open>The multiplexer's own \<open>dump_resp\<close>, which nothing calls.\<close>

definition debug_mux_dump_resp :: "jtag_resp \<Rightarrow> ('d tb, unit) op" where
  "debug_mux_dump_resp resp = printf ''[%d] %08X%08X''
     [ucast (resp_len resp), drop_bit 32 (resp_data resp) AND 0xffffffff, resp_data resp AND 0xffffffff]"

lemma debug_mux_dump_resp_same: "debug_mux_dump_resp = dump_resp"
  by (simp add: fun_eq_iff debug_mux_dump_resp_def dump_resp_def)

subsection \<open>The programs\<close>

definition jtag_phy_program ::
  "'d world \<Rightarrow> 'img opt_env \<Rightarrow> (opt_key \<times> string option) list \<Rightarrow> nat \<Rightarrow> bool \<Rightarrow> bool option \<Rightarrow> 'd top_scheme \<Rightarrow>
   (unit \<times> 'd tb) res" where
  "jtag_phy_program w env opts fuel mem junk d = bindE (new_jtag_phy_tb mem junk d) (jtag_phy_main w env opts fuel)"

definition swd_phy_program ::
  "'d world \<Rightarrow> 'img opt_env \<Rightarrow> (opt_key \<times> string option) list \<Rightarrow> nat \<Rightarrow> bool \<Rightarrow> bool option \<Rightarrow> 'd top_scheme \<Rightarrow>
   (unit \<times> 'd tb) res" where
  "swd_phy_program w env opts fuel mem junk d = bindE (new_swd_phy_tb mem junk d) (swd_phy_main w env opts fuel)"

definition jtag_adiv5_program ::
  "'d world \<Rightarrow> 'img opt_env \<Rightarrow> (opt_key \<times> string option) list \<Rightarrow> nat \<Rightarrow> bool \<Rightarrow> bool option \<Rightarrow> 'd top_scheme \<Rightarrow>
   (unit \<times> 'd tb) res" where
  "jtag_adiv5_program w env opts fuel mem junk d = bindE (new_jtag_adiv5_tb mem junk d) (jtag_adiv5_main w env opts fuel)"

definition swd_adiv5_program ::
  "'d world \<Rightarrow> 'img opt_env \<Rightarrow> (opt_key \<times> string option) list \<Rightarrow> nat \<Rightarrow> bool \<Rightarrow> bool option \<Rightarrow> 'd top_scheme \<Rightarrow>
   (unit \<times> 'd tb) res" where
  "swd_adiv5_program w env opts fuel mem junk d = bindE (new_swd_adiv5_tb mem junk d) (swd_adiv5_main w env opts fuel)"

definition debug_mux_program ::
  "'d world \<Rightarrow> 'img opt_env \<Rightarrow> (opt_key \<times> string option) list \<Rightarrow> nat \<Rightarrow> bool \<Rightarrow> bool option \<Rightarrow> 'd top_scheme \<Rightarrow>
   (unit \<times> 'd tb) res" where
  "debug_mux_program w env opts fuel mem junk d = bindE (new_debug_mux_tb mem junk d) (debug_mux_main w env opts fuel)"

definition cm3_program ::
  "'d cm3_world \<Rightarrow> 'img opt_env \<Rightarrow> (opt_key \<times> string option) list \<Rightarrow> nat \<Rightarrow> bool \<Rightarrow> bool option \<Rightarrow> u32 list \<Rightarrow>
   'd cm3_top_scheme \<Rightarrow> (unit \<times> 'd cm3) res" where
  "cm3_program w env opts fuel mem junk rom d = bindE (new_cm3 mem junk rom d) (cm3_main w env opts fuel)"

definition intercon_program ::
  "'u res \<Rightarrow> ('u \<Rightarrow> 'u res) \<Rightarrow> ('u \<Rightarrow> bool \<times> 'u) \<Rightarrow> ('u \<Rightarrow> u64) \<Rightarrow> ('d intercon_top_scheme \<Rightarrow> 'd intercon_top_scheme) \<Rightarrow>
   (nat \<Rightarrow> bool) \<Rightarrow> nat \<Rightarrow> 'd intercon_top_scheme \<Rightarrow> (unit \<times> 'u \<times> 'd intercon_top_scheme \<times> nat) res" where
  "intercon_program new_tb parse_tb do_cycle get_time ev done_at fuel d =
     bindE new_tb (\<lambda>u. bindE (intercon_parse_args parse_tb u) (\<lambda>u.
       intercon_main do_cycle get_time ev done_at fuel u d))"

subsection \<open>The timeout of the command line\<close>

text \<open>The timeout after the options: that of the last one that sets it.\<close>

fun timeout_of :: "(opt_key \<times> string option) list \<Rightarrow> u64 \<Rightarrow> u64" where
  "timeout_of [] t = t"
| "timeout_of ((key, arg) # opts) t =
     timeout_of opts (case (key, arg) of (OPT_TIMEOUT, Some a) \<Rightarrow> strtol a | _ \<Rightarrow> t)"

lemma set_word_fault: "set_word i x m \<noteq> Inl OutOfFuel"
  by (simp add: set_word_def split: option.split)

lemma elf_loop_fault: "elf_loop rd img sz i m \<noteq> Inl OutOfFuel"
proof (induction rd img sz i m rule: elf_loop.induct)
  case (1 rd img sz i m)
  then show ?case
    using set_word_fault [of "nat (i div 4)" "rd img i" m]
    by (subst elf_loop.simps) (auto simp: bindE_def split: sum.split)
qed

lemma bin_loop_fault: "bin_loop i bs m \<noteq> Inl OutOfFuel"
  by (induction i bs m rule: bin_loop.induct)
    (auto simp: bindE_def set_byte_def split: sum.split option.split)

lemma option_faults:
  "loadElf files rd file u \<noteq> Inl OutOfFuel" "loadBin bins file u \<noteq> Inl OutOfFuel"
  "Start p rv s \<noteq> Inl OutOfFuel" "jtag_client_Start a b c \<noteq> Inl OutOfFuel" "gpio_client_Start a b e \<noteq> Inl OutOfFuel"
  "need_arg arg \<noteq> Inl OutOfFuel"
  by (auto simp: loadElf_def loadBin_def Start_def jtag_client_Start_def gpio_client_Start_def fail_def need_arg_def
      elf_loop_fault bin_loop_fault bindE_eq_Inl Let_def split: option.splits if_splits)

lemma option_results:
  "loadElf files rd file u = Inr (r, u') \<Longrightarrow> servers_ok u' = servers_ok u \<and> timeout u' = timeout u"
  "loadBin bins file u = Inr (r, u') \<Longrightarrow> servers_ok u' = servers_ok u \<and> timeout u' = timeout u"
  "Start p rv s = Inr s' \<Longrightarrow> queues_ok s' = queues_ok s"
proof -
  show "servers_ok u' = servers_ok u \<and> timeout u' = timeout u" if "loadElf files rd file u = Inr (r, u')"
    using that by (auto simp: loadElf_def servers_ok_def bindE_eq_Inr split: option.splits)
  show "servers_ok u' = servers_ok u \<and> timeout u' = timeout u" if "loadBin bins file u = Inr (r, u')"
    using that by (auto simp: loadBin_def servers_ok_def bindE_eq_Inr split: option.splits)
  show "queues_ok s' = queues_ok s" if "Start p rv s = Inr s'"
    using that by (auto simp: Start_def fail_def queues_ok_def Let_def split: if_splits option.splits)
qed

lemma parseOpts_result:
  shows "parseOpts env key arg u \<noteq> Inl OutOfFuel"
    "parseOpts env key arg u = Inr (r, u') \<Longrightarrow> servers_ok u \<Longrightarrow> servers_ok u'"
    "parseOpts env key arg u = Inr (r, u') \<Longrightarrow>
     timeout u' = (case (key, arg) of (OPT_TIMEOUT, Some a) \<Rightarrow> strtol a | _ \<Rightarrow> timeout u)"
proof -
  show "parseOpts env key arg u \<noteq> Inl OutOfFuel"
    by (cases key) (auto simp: parseOpts_def option_faults bindE_eq_Inl Let_def)
  show "servers_ok u'" if "parseOpts env key arg u = Inr (r, u')" "servers_ok u"
    using that by (cases key)
      (auto simp: parseOpts_def bindE_eq_Inr Let_def servers_ok_def dest!: option_results split: if_splits)
  show "timeout u' = (case (key, arg) of (OPT_TIMEOUT, Some a) \<Rightarrow> strtol a | _ \<Rightarrow> timeout u)"
    if "parseOpts env key arg u = Inr (r, u')"
    using that by (cases key)
      (auto simp: parseOpts_def need_arg_def bindE_eq_Inr Let_def dest!: option_results split: option.splits if_splits)
qed

lemma parse_all_result:
  shows "parse_all env opts u \<noteq> Inl OutOfFuel"
    "parse_all env opts u = Inr u' \<Longrightarrow> servers_ok u \<Longrightarrow> servers_ok u' \<and> timeout u' = timeout_of opts (timeout u)"
proof -
  show "parse_all env opts u \<noteq> Inl OutOfFuel"
  proof (induction opts arbitrary: u)
    case (Cons a opts)
    obtain key arg where a: "a = (key, arg)" by (cases a)
    from Cons.IH parseOpts_result(1) [of env key arg u] show ?case
      by (auto simp: a bindE_def split: sum.split)
  qed simp
  show "servers_ok u' \<and> timeout u' = timeout_of opts (timeout u)" if "parse_all env opts u = Inr u'" "servers_ok u"
    using that
  proof (induction opts arbitrary: u)
    case (Cons a opts)
    obtain key arg where a: "a = (key, arg)" by (cases a)
    from Cons.prems(1) a obtain r v where v: "parseOpts env key arg u = Inr (r, v)" "parse_all env opts v = Inr u'"
      by (auto simp: bindE_eq_Inr)
    from Cons.IH [OF v(2) parseOpts_result(2) [OF v(1) Cons.prems(2)]] parseOpts_result(3) [OF v(1)] a
    show ?case by simp
  qed simp
qed

subsection \<open>The programs end\<close>

lemma new_queue_no_memory: "new_queue (\<lambda>_. False) 15 = Inl BadAlloc"
proof -
  have "ceilToPow2 16 = 16" using ceilToPow2_mask [of 15 4] by simp
  then show ?thesis by (simp add: new_queue_def make_block_def MAX_BLOCK_SIZE_def)
qed

lemma new_utils_result:
  obtains (fault) "new_utils mem m = Inl BadAlloc"
    | (made) u where "new_utils mem m = Inr u" "servers_ok u" "timeout u = 0"
proof (cases mem)
  case True
  with default_queue_holds show thesis
    by (intro made [of "the (case new_utils mem m of Inr u \<Rightarrow> Some u | _ \<Rightarrow> None)"])
      (auto simp: new_utils_def new_jtag_server_def new_uart_server_def new_gpio_server_def new_server_eq
        servers_ok_def queues_ok_def)
next
  case False
  then show thesis
    by (intro fault) (simp add: new_utils_def new_jtag_server_def new_server_def new_queue_no_memory)
qed

text \<open>A bench, whatever its main program, if that ends with a timeout.\<close>

lemma bench_ends:
  assumes main: "\<And>b b'. parse_args env opts b = Inr ((), b') \<Longrightarrow> servers_ok (base b') \<Longrightarrow> timeout (base b') \<noteq> 0 \<Longrightarrow>
      unat (timeout (base b')) < fuel \<Longrightarrow> main b \<noteq> Inl OutOfFuel"
    and parses: "\<And>b e. parse_args env opts b = Inl e \<Longrightarrow> main b = Inl e"
    and T: "timeout_of opts 0 \<noteq> 0" "unat (timeout_of opts 0) < fuel"
  shows "bindE (new_jtag_phy_tb mem junk d) main \<noteq> Inl OutOfFuel"
proof (cases rule: new_utils_result [of mem None])
  case fault
  then show ?thesis by (simp add: new_jtag_phy_tb_def)
next
  case (made u)
  define b where "b = initial_tb junk u d"
  have b: "servers_ok (base b)" "timeout (base b) = 0"
    using made by (simp_all add: b_def initial_tb_def servers_ok_def queues_ok_def)
  have "main b \<noteq> Inl OutOfFuel"
  proof (cases "parse_all env opts (base b)")
    case (Inl e)
    with parse_all_result(1) [of env opts "base b"] parses [of b e] show ?thesis by (auto simp: parse_args_def)
  next
    case (Inr v)
    from parse_all_result(2) [OF Inr b(1)] b(2) T main [of b "b\<lparr>base := v\<rparr>"] Inr show ?thesis
      by (simp add: parse_args_def)
  qed
  with made(1) show ?thesis by (simp add: new_jtag_phy_tb_def b_def)
qed

lemma parse_args_fails: "parse_args env opts b = Inl e \<Longrightarrow> thenS (parse_args env opts) m b = Inl e"
  by (simp add: thenS_def bindS_def)

text \<open>The interconnect ends when \<open>doCycle\<close> returns false, or when it is interrupted.\<close>

lemma intercon_ends:
  assumes "\<not> fst (do_cycle (((\<lambda>u. snd (do_cycle u)) ^^ k) u)) \<or> done_at (n + k)" "k < fuel"
  shows "do_while fuel (intercon_step do_cycle get_time ev done_at) (u, t, n) \<noteq> Inl OutOfFuel"
  using assms
proof (induction k arbitrary: fuel u t n)
  case 0
  then obtain f where "fuel = Suc f" by (cases fuel) auto
  with 0 show ?case by (auto simp: intercon_step_def bindS_def returnS_def split: prod.split)
next
  case (Suc k)
  from Suc.prems obtain f where f: "fuel = Suc f" "k < f" by (cases fuel) auto
  have "do_while f (intercon_step do_cycle get_time ev done_at) (snd (do_cycle u), t', n + 1) \<noteq> Inl OutOfFuel" for t'
    using Suc.prems(1) f(2) by (intro Suc.IH) (simp_all add: funpow_Suc_right del: funpow.simps)
  then show ?case
    by (auto simp: f(1) intercon_step_def bindS_def returnS_def Let_def split: prod.split)
qed



end
