(* ===== verification/Spec2Isabelle.thy ===== *)
theory Spec2Isabelle
  imports Verilator_Utils_Correct Atomics Reentrancy Rw_Pso_Size Rw_Rmo_Correct Uart_Bridge_Back Bench_Programs
begin

text \<open>
  A model of the C++ code of tinylabs-cores, and what it guarantees.

  The repository holds hardware designs in SystemVerilog, and the C++ programs that simulate them:
  Verilator turns a design into a class with an evaluation function, a testbench drives its clock
  and its ports, and the library \<open>src/verilator_utils\<close> connects the ports to programs outside the
  simulation, a debugger on a JTAG port, a terminal on a serial line, switches and lights on
  general-purpose pins. The C++ code is what is modelled.

  \<^bold>\<open>How the parts interact.\<close> A testbench owns a \<open>VerilatorUtils\<close>, and calls its \<open>doCycle\<close> once per
  tick, which advances time, stops at the timeout and dumps waveforms, and then its \<open>doJTAGServer\<close>,
  \<open>doUARTServer\<close>, \<open>doGPIOServer\<close>, \<open>doJTAGClient\<close> and \<open>doGPIOClient\<close>, which call the servers and clients that the
  command line has enabled. A server runs a thread (\<open>Server::Listen\<close>) that exchanges bytes with a
  client on a socket; between the thread and the simulation there are two
  \<open>ReaderWriterQueue\<close>s, \<open>tx\<close> for the bytes from the socket and \<open>rx\<close> for those to it. The clients
  talk to their socket directly; they are what another simulation uses to reach a server.

  \<^bold>\<open>Conventions.\<close> (\<open>Prelude\<close>) Integers keep their width: \<open>uint8_t\<close> is \<open>u8\<close>, a word of 8 bits,
  \<open>int64_t\<close> is \<open>i64\<close>, a word of 64 bits that is read with \<open>sint\<close>, and so on; \<open>size_t\<close> has 64 bits. An
  operation that can fail returns a sum: on the left a fault (a failed \<open>assert\<close>, an access or a
  shift the language does not define, an exception for want of memory, a call of \<open>exit\<close>), on the
  right the result with the new state. Objects are records with the names of their members; an
  operation takes the object and returns it. What comes from outside (what an allocation, a system call, the
  design or another library answers) is an argument.

  \<^bold>\<open>The queue.\<close> \<open>Rw_Queue\<close> models \<open>readerwriterqueue.h\<close>: the circular list of circular buffers with
  the constructor, every form of enqueue and dequeue, \<open>peek\<close>, \<open>pop\<close>, the sizes, the moves and the
  destructor, over a heap of blocks in which a cell without an object is \<open>None\<close>. The loops of the
  destructor, of the sizes and of \<open>ceilToPow2\<close> are bounded by the number of blocks and by the width
  of a word. \<open>Fifo\<close> states what a
  client may rely on, as locales that extend each other (\<open>fifo\<close>, \<open>sized_fifo\<close>), and proves in them
  what the loops of the clients do. \<open>Rw_Queue_Correct\<close> has the invariant of the ring of blocks and
  the relation \<open>represents\<close> between a queue, the list of its elements and its spare room, shows for
  each operation what it does to them, and interprets the locales. Its properties: the queue refines
  a list (C1), has the capacity it was made for (C10), what each operation does on every branch (C11,
  C12, C13, C14) (the arithmetic of sizes is
  \<open>ceilToPow2_spec\<close>). \<open>Reentrancy\<close> models the guards that debug mode puts into the operations, for any
  number of threads, and shows what they notice (C15) and what they miss (\<open>guards_miss\<close>).

  \<^bold>\<open>The queue between two threads.\<close> \<open>Rw_Threads\<close> takes the operations apart: \<open>put_at\<close> and
  \<open>take_at\<close> are the functions of the producer and of the consumer as machines that make one access
  to a shared variable per step, and \<open>duo_step\<close> is the relation of their interleavings, with a record
  of what went in and what came out. Alone, a machine computes the operation of \<open>Rw_Queue\<close> (C7).
  \<open>Rw_Steps\<close> goes through the steps: what a thread has written of an operation under way
  (\<open>put_pending\<close>, \<open>take_pending\<close>), what it knows of the queue between its steps, what it leaves alone
  for the other (\<open>put_respects\<close>, \<open>take_respects\<close>), and which steps are right (\<open>put_legal\<close>,
  \<open>take_legal\<close>), also with older values of the variables of the other thread. \<open>Rw_Threads_Correct\<close>
  has the invariant of all interleavings. From it: none faults, loses, repeats or reorders an element
  (C2). The locales of \<open>Threads\<close>, interpreted for both threads, give that both operations are
  wait-free (C6). \<open>Rw_Size\<close> adds the walk of \<open>size_approx\<close>, which every poll of a queue begins with:
  the blocks as they are in the memory form a circle (\<open>circle\<close>) that only grows while the consumer
  counts (\<open>grows\<close>), so that the result is between the sizes at the beginning and at the end, but for
  the element just coming in (C8).

  \<^bold>\<open>The queue with store buffers.\<close> The code relies on acquire and release fences, which on x86 do
  not keep the processor from delaying the writes of a thread. \<open>Rw_Tso\<close> models \<open>weak_atomic\<close> and
  \<open>fence\<close> of \<open>atomicops.h\<close> for such a processor: the two threads as above, but each with a buffer
  that its writes leave one by one, in order, at any later time. \<open>Store_Buffers\<close> has what follows for
  any two threads whose moves commute, as the locale \<open>lagging\<close>. \<open>Rw_Tso_Correct\<close> shows that the legal
  steps of the producer and the consumer do, interprets the locale both ways, and concludes that the
  queue is as safe as without buffers (C3).

  \<^bold>\<open>The queue with writes out of order.\<close> Other processors let the writes of a thread pass each other,
  and there the release fences matter. \<open>Rw_Pso\<close> models them: a write that leaves its buffer may pass
  those in front of it that go elsewhere, but no release fence (\<open>may_drain\<close>); which fences the code
  passes before an access is \<open>put_fences\<close> and \<open>take_fences\<close>. \<open>Write_Reordering\<close> extends the locale by
  the writes that have left early (\<open>reordering\<close>): they are kept apart until it is their turn.
  \<open>Rw_Pso_Correct\<close> shows that between two release fences a thread only writes what the other does not
  look at yet (\<open>unread\<close>, \<open>own\<close>), so that the other does as if it had not been written
  (\<open>put_at_same\<close>, \<open>take_at_same\<close>), and concludes as before (C4).
  \<open>Rw_Pso_Size\<close> shows that the walk of \<open>size_approx\<close> is not protected in this way
  (C9).

  \<^bold>\<open>The queue with loads out of order.\<close> Where loads are reordered too, the acquire fences matter.
  \<open>Rw_Rmo\<close> gives each thread a memory of its own, in which its writes are at once. A write that has
  left the buffer has arrived at the other thread, where a load may see any number of those that have
  arrived; an acquire fence puts what any load before it has seen into the memory. \<open>Rw_Rmo_Loads\<close>
  shows which loads do not depend on how much they see (\<open>put_sees_more\<close>, \<open>take_sees_more\<close>): all but
  those that an acquire fence follows. So \<open>Rw_Rmo_Correct\<close> can follow each run with one of \<open>Rw_Pso\<close>, in which
  a write reaches the memory when the other thread is bound to see it (\<open>follows\<close>), and the queue is
  safe here too (C5).

  \<^bold>\<open>The semaphore and the blocking queue.\<close> \<open>Semaphore\<close> models \<open>LightweightSemaphore\<close> of
  \<open>atomicops.h\<close>, and the POSIX semaphore it rests on, as machines with one atomic access or one call
  of the operating system per step. \<open>Blocking_Queue\<close> models \<open>BlockingReaderWriterQueue\<close>, with a
  producer and a consumer that interleave at these steps and at those of the queue inside, as the
  relation \<open>bstep\<close>. The invariant \<open>binv\<close> extends that of the queue and accounts for every token; from
  it: no interleaving loses or reorders elements or faults (C16), and no wakeup is lost (C17). Fewer
  than 2 to the 62 elements are put in, so that the count does not wrap around. \<open>Os_Semaphore\<close> has
  the three wrappers of the semaphores of operating systems, and where they differ: what becomes of a
  sleep that is interrupted (C18), and how long a timed wait lasts (C19).
  \<open>Atomics\<close> has what \<open>atomicops.h\<close> writes twice, for old and for newer compilers: the fences, which are shown
  to be at least those of the machines above (\<open>fences_on_x86\<close>, \<open>fences_order_writes\<close>), and the operations
  of \<open>weak_atomic\<close>, which do the same (\<open>fetch_adds_agree\<close>, but for integers of 64 bits on a processor of 32).

  \<^bold>\<open>The server.\<close> \<open>Server\<close> models \<open>Server.cpp\<close>. \<open>listen_at\<close> is the function of the thread as a machine
  that makes one call per step, and \<open>sys_step\<close> the interleavings with the simulation, which reads
  and writes the queues. It shows: both directions are streams (C20), and stay in order when
  allocations fail or writes are cut short (C21), the thread does not fault but in debug mode (C22,
  \<open>server_debug_overrun\<close>), queued bytes get out within a bounded number of steps (C23), and what
  shutting down does (C24). The operations of the queues are single steps here: an operation that
  is interleaved with one of the other thread returns what C2 and
  C8 say.

  \<^bold>\<open>The links.\<close> \<open>Uart_Server\<close> models \<open>UARTServer.cpp\<close>: two state machines that count ticks; bytes are
  sent as frames (C25) and frames received as bytes (\<open>uart_receives\<close>), the two are inverse (C26), a call does
  not fault (\<open>uart_faults\<close>) and keeps the variables in their types (C29), and a frame
  at tick 0 is misread (\<open>uart_misreads_at_zero\<close>). \<open>Uart_Bridge\<close> puts it together with the thread of the server: in
  every interleaving the bytes that a client sends to the socket come out on the pin (C27), and \<open>Uart_Bridge_Back\<close> shows that
  those the design sends come to the client (C28). \<open>Jtag_Link\<close> models \<open>JTAGServer.cpp\<close> and
  \<open>JTAGClient.cpp\<close>: the server executes the stream of commands (C30), and an exchange carries the
  pins across (C31). \<open>Gpio_Link\<close> models \<open>GPIOServer.cpp\<close> and \<open>GPIOClient.cpp\<close>: changed outputs arrive
  at the other end in both directions (C32, C33), within the limits of the masks (\<open>gpio_limits\<close>). The loop of
  the GPIO server over its queue has fuel, since the thread may append while it runs; more fuel than queued
  commands is enough, and it is what the theorems ask for.

  \<^bold>\<open>The utilities.\<close> \<open>Verilator_Utils\<close> models \<open>verilator_utils.cpp\<close>, the options of the command line
  included, and \<open>Verilator_Utils_Correct\<close> shows: the window of the waveform dump (C34), the
  timeout (\<open>timeout_ends\<close>), the periods (\<open>periods\<close>), the numbers of the command line (C35), and what loading a
  program does to the memory (\<open>loadElf_writes\<close>, \<open>loadBin_writes\<close>); the size of an ELF image is taken below 2 to the 31 less
  3, as the index of the loop is an \<open>int\<close>.

  \<^bold>\<open>The benches.\<close> \<open>Bench\<close> models what the five benches of \<open>ahb3lite_remote_bridge2/bench\<close> share:
  ports, clock cycle, and the queues to and from the design. \<open>Jtag_Phy_Bench\<close>, \<open>Swd_Phy_Bench\<close> and
  \<open>Adiv5_Bench\<close> (\<open>jtag_adiv5_tb.cpp\<close>, \<open>swd_adiv5_tb.cpp\<close>, \<open>debug_mux_tb.cpp\<close>) model each of them up to
  its \<open>main\<close> (files that repeat each other's functions have definitions of their own, which are
  shown equal to the shared ones on their wiring), and \<open>System_Bench\<close> the main programs of the Cortex-M3 system and of the interconnect
  test. The design is an argument. \<open>Bench_Correct\<close> has two calculi: \<open>ends\<close> for the operations that
  come to an end when there is a timeout, \<open>does\<close> for the requests an operation hands a design that
  is ready; their rules follow the structure of the operations. They give: the format of requests and responses
  (C36), the accesses over the JTAG phy (C37), the search for the length of the scan chain (\<open>chain_length\<close>),
  the packets of SWD (C38), the accesses of the debug port benches (C39), and that with a timeout
  every main program ends (\<open>benches_end\<close>). \<open>Bench_Programs\<close> puts before the main programs what they begin
  with, the constructors, the options that reach the parser of the base class, and the handlers of interrupts,
  and shows that a timeout on the command line ends each program (C40). Waiting loops have fuel;
  more fuel than ticks before the timeout is enough, so that no result is owed to a loop that was cut off.

  \<^bold>\<open>Not modelled.\<close> The designs themselves (SystemVerilog), and the Python and Tcl scripts. Libraries
  that are not part of the repository: Verilator and its waveform writer, elf-loader, argp (the
  options it delivers are an argument), and the class \<open>VerilatorTbUtils\<close> of the interconnect test.
  Processors that make a write before a load in front of it, which the dependencies and the fences of
  the queue exclude; in the semaphore and in the server every write takes effect at once. What the barriers do to the order in which a compiler puts the accesses. Of the messages only those of the benches are kept.
\<close>

end
